(* ===== verification/Ext4_Prelude.thy ===== *)
theory Ext4_Prelude
  imports Main "HOL-Library.Word"
begin

text \<open>
  The shared vocabulary of the development: the error and result types, Rust's checked
  integer arithmetic (the \<open>dev\<close>/\<open>test\<close> profile of the repository, in which an overflow is a
  panic), loops over ranges that may fail, and the generic facts on lists and words that
  the component theories use.

  A Rust function that returns \<open>Result<T, FsError>\<close> and may also panic is a HOL function
  into \<open>'a result\<close>: \<open>Inl (Fs e)\<close> is \<open>Err(e)\<close>, \<open>Inl Panic\<close> is a panic (failed \<open>unwrap\<close>, failed
  assertion, index out of range, arithmetic overflow, \<open>todo!()\<close>, \<open>unreachable!()\<close>).
\<close>

unbundle bit_operations_syntax

named_theorems result_simps "evaluation of the result monad and of checked arithmetic"
named_theorems byte_simps "reads after writes on byte buffers"

section \<open>Errors and results\<close>

datatype fs_error =
    InvalidFs string
  | IoError
  | NoEntry
  | Big
  | NotFile
  | NotDirectory
  | NotEmpty
  | Exist
  | FsFull
  | Shutdown
  | Invalid
  | PermissionDenied
  | Unsupported string
  | Busy
  | PendingRemoval
  | Fixme

datatype error = Fs fs_error | Panic

type_synonym 'a result = "error + 'a"

definition rbind :: "'a result \<Rightarrow> ('a \<Rightarrow> 'b result) \<Rightarrow> 'b result" where
  "rbind m f = (case m of Inl e \<Rightarrow> Inl e | Inr x \<Rightarrow> f x)"

definition rmap :: "('a \<Rightarrow> 'b) \<Rightarrow> 'a result \<Rightarrow> 'b result" where
  "rmap f m = rbind m (\<lambda>x. Inr (f x))"

definition unwrap :: "'a option \<Rightarrow> 'a result" where
  "unwrap x = (case x of None \<Rightarrow> Inl Panic | Some y \<Rightarrow> Inr y)"

definition ok_or :: "'a option \<Rightarrow> fs_error \<Rightarrow> 'a result" where
  "ok_or x e = (case x of None \<Rightarrow> Inl (Fs e) | Some y \<Rightarrow> Inr y)"

definition assertR :: "bool \<Rightarrow> unit result" where
  "assertR P = (if P then Inr () else Inl Panic)"

text \<open>\<open>.unwrap()\<close> on a \<open>Result\<close>: every error becomes a panic.\<close>

definition unwrap_res :: "'a result \<Rightarrow> 'a result" where
  "unwrap_res m = (case m of Inl e \<Rightarrow> Inl Panic | Inr x \<Rightarrow> Inr x)"

lemma rbind_simps [simp, result_simps]:
  "rbind (Inr x) f = f x"
  "rbind (Inl e) f = Inl e"
  by (simp_all add: rbind_def)

lemma rbind_Inr_iff: "rbind m f = Inr y \<longleftrightarrow> (\<exists>x. m = Inr x \<and> f x = Inr y)"
  by (cases m) auto

lemma rbind_Inr_elim:
  assumes "rbind m f = Inr y"
  obtains x where "m = Inr x" "f x = Inr y"
  using assms by (auto simp: rbind_Inr_iff)

lemma rbind_assoc: "rbind (rbind m f) g = rbind m (\<lambda>x. rbind (f x) g)"
  by (cases m) auto

lemma rmap_simps [simp, result_simps]:
  "rmap f (Inr x) = Inr (f x)"
  "rmap f (Inl e) = Inl e"
  by (simp_all add: rmap_def)

lemma rmap_Inr_iff: "rmap f m = Inr y \<longleftrightarrow> (\<exists>x. m = Inr x \<and> y = f x)"
  by (cases m) auto

lemma unwrap_simps [simp, result_simps]:
  "unwrap (Some x) = Inr x"
  "unwrap None = Inl Panic"
  by (simp_all add: unwrap_def)

lemma unwrap_Inr_iff [simp]: "unwrap x = Inr y \<longleftrightarrow> x = Some y"
  by (cases x) auto

lemma ok_or_simps [simp, result_simps]:
  "ok_or (Some x) e = Inr x"
  "ok_or None e = Inl (Fs e)"
  by (simp_all add: ok_or_def)

lemma assertR_simps [simp, result_simps]:
  "assertR True = Inr ()"
  "assertR False = Inl Panic"
  by (simp_all add: assertR_def)

lemma assertR_Inr_iff [simp]: "assertR P = Inr u \<longleftrightarrow> P"
  by (simp add: assertR_def)

lemma unwrap_res_simps [simp, result_simps]:
  "unwrap_res (Inr x) = Inr x"
  "unwrap_res (Inl e) = Inl Panic"
  by (simp_all add: unwrap_res_def)

section \<open>Checked arithmetic\<close>

text \<open>Rust's \<open>+\<close>, \<open>-\<close> and \<open>*\<close> on a \<open>w\<close>-bit unsigned integer, panicking on overflow.\<close>

definition add_chk :: "'a::len word \<Rightarrow> 'a word \<Rightarrow> 'a word result" where
  "add_chk a b = (if unat a + unat b < 2 ^ LENGTH('a) then Inr (a + b) else Inl Panic)"

definition sub_chk :: "'a::len word \<Rightarrow> 'a word \<Rightarrow> 'a word result" where
  "sub_chk a b = (if b \<le> a then Inr (a - b) else Inl Panic)"

text \<open>\<open>usize\<close> indices and sizes are natural numbers; only their subtraction can fail here.\<close>

definition sub_nat :: "nat \<Rightarrow> nat \<Rightarrow> nat result" where
  "sub_nat a b = (if b \<le> a then Inr (a - b) else Inl Panic)"

lemma sub_nat_Inr_iff [simp]: "sub_nat a b = Inr c \<longleftrightarrow> b \<le> a \<and> c = a - b"
  by (auto simp: sub_nat_def)

text \<open>
  Fields and counters that take part in address arithmetic are natural numbers; \<open>chk w\<close> is
  the overflow check of a \<open>w\<close>-bit result and \<open>trunc w\<close> the cast to \<open>w\<close> bits.
\<close>

definition chk :: "nat \<Rightarrow> nat \<Rightarrow> nat result" where
  "chk w n = (if n < 2 ^ w then Inr n else Inl Panic)"

definition trunc :: "nat \<Rightarrow> nat \<Rightarrow> nat" where
  "trunc w n = n mod 2 ^ w"

lemma chk_Inr_iff [simp]: "chk w n = Inr m \<longleftrightarrow> n < 2 ^ w \<and> m = n"
  by (auto simp: chk_def)

lemma trunc_id: "n < 2 ^ w \<Longrightarrow> trunc w n = n"
  by (simp add: trunc_def)

lemma unat_plus_no_overflow:
  "unat a + unat b < 2 ^ LENGTH('a) \<Longrightarrow> unat (a + b :: 'a::len word) = unat a + unat b"
  by (simp add: unat_word_ariths)

lemma add_chk_Inr_iff:
  "add_chk a b = Inr c \<longleftrightarrow> unat a + unat b < 2 ^ LENGTH('a) \<and> c = a + b" for a b :: "'a::len word"
  by (auto simp: add_chk_def)

lemma add_chk_unat:
  "add_chk a b = Inr c \<Longrightarrow> unat c = unat a + unat b"
  by (auto simp: add_chk_Inr_iff unat_plus_no_overflow)

lemma sub_chk_Inr_iff: "sub_chk a b = Inr c \<longleftrightarrow> b \<le> a \<and> c = a - b"
  by (auto simp: sub_chk_def)

lemma sub_chk_unat: "sub_chk a b = Inr c \<Longrightarrow> unat c = unat a - unat b"
  by (auto simp: sub_chk_Inr_iff unat_sub)

section \<open>Loops that may fail\<close>

text \<open>A \<open>for x in xs\<close> loop whose body updates a state and may return early with an error.\<close>

fun for_each :: "'a list \<Rightarrow> ('a \<Rightarrow> 's \<Rightarrow> 's result) \<Rightarrow> 's \<Rightarrow> 's result" where
  "for_each [] f s = Inr s"
| "for_each (x # xs) f s = rbind (f x s) (for_each xs f)"

lemma for_each_append:
  "for_each (xs @ ys) f s = rbind (for_each xs f s) (for_each ys f)"
proof (induction xs arbitrary: s)
  case (Cons x xs)
  then show ?case by (cases "f x s") auto
qed simp

lemma for_each_invariant:
  assumes "for_each xs f s = Inr t" and "I s"
    and "\<And>x s t. x \<in> set xs \<Longrightarrow> I s \<Longrightarrow> f x s = Inr t \<Longrightarrow> I t"
  shows "I t"
  using assms
proof (induction xs arbitrary: s)
  case Nil
  then show ?case by simp
next
  case (Cons x xs)
  from Cons.prems(1) obtain u where u: "f x s = Inr u" "for_each xs f u = Inr t"
    by (auto simp: rbind_Inr_iff)
  have "I u" by (rule Cons.prems(3) [OF _ Cons.prems(2) u(1)]) simp
  then show ?case using Cons.IH [OF u(2)] Cons.prems(3) by auto
qed

section \<open>Lists\<close>

lemma nth_list_update_if: "i < length xs \<Longrightarrow> (xs[j := v]) ! i = (if i = j then v else xs ! i)"
  by auto

text \<open>Overwriting the slice \<open>[p .. p + length ys)\<close> of a buffer (\<open>copy_from_slice\<close>).\<close>

definition splice :: "'a list \<Rightarrow> nat \<Rightarrow> 'a list \<Rightarrow> 'a list" where
  "splice xs p ys = take p xs @ ys @ drop (p + length ys) xs"

lemma length_splice [simp]: "p + length ys \<le> length xs \<Longrightarrow> length (splice xs p ys) = length xs"
  by (simp add: splice_def)

lemma nth_splice:
  "p + length ys \<le> length xs \<Longrightarrow> i < length xs \<Longrightarrow>
   splice xs p ys ! i = (if p \<le> i \<and> i < p + length ys then ys ! (i - p) else xs ! i)"
  by (auto simp: splice_def nth_append min_def)

lemma splice_Nil [simp]: "splice xs p [] = xs"
  by (simp add: splice_def)

section \<open>Integer primitives of the Rust standard library\<close>

text \<open>
  \<open>ilog2\<close>, \<open>trailing_zeros\<close>, \<open>leading_zeros\<close> of a value that fits \<open>w\<close> bits, and
  \<open>div_ceil\<close>, \<open>next multiple\<close> style roundings, on natural numbers.
\<close>

fun log2 :: "nat \<Rightarrow> nat" where
  "log2 n = (if n \<le> 1 then 0 else Suc (log2 (n div 2)))"

declare log2.simps [simp del]

lemma log2_bounds: "0 < n \<Longrightarrow> 2 ^ log2 n \<le> n \<and> n < 2 ^ Suc (log2 n)"
proof (induction n rule: log2.induct)
  case (1 n)
  show ?case
  proof (cases "n \<le> 1")
    case True
    with 1 show ?thesis by (simp add: log2.simps)
  next
    case False
    with 1 have IH: "2 ^ log2 (n div 2) \<le> n div 2" "n div 2 < 2 ^ Suc (log2 (n div 2))"
      by auto
    have "2 * 2 ^ log2 (n div 2) \<le> n" using IH(1) by linarith
    moreover have "n < 2 * 2 ^ Suc (log2 (n div 2))" using IH(2) by linarith
    ultimately show ?thesis using False by (simp add: log2.simps [of n])
  qed
qed

definition leading_zeros :: "nat \<Rightarrow> nat \<Rightarrow> nat" where
  "leading_zeros w n = (if n = 0 then w else w - 1 - log2 n)"

fun ctz :: "nat \<Rightarrow> nat" where
  "ctz n = (if n = 0 \<or> odd n then 0 else Suc (ctz (n div 2)))"

declare ctz.simps [simp del]

definition trailing_zeros :: "nat \<Rightarrow> nat \<Rightarrow> nat" where
  "trailing_zeros w n = (if n = 0 then w else ctz n)"

lemma ctz_dvd: "2 ^ ctz n dvd n"
proof (induction n rule: ctz.induct)
  case (1 n)
  show ?case
  proof (cases "n = 0 \<or> odd n")
    case True
    then show ?thesis by (auto simp: ctz.simps)
  next
    case False
    with 1 have "2 ^ ctz (n div 2) dvd n div 2" by simp
    then have "2 * 2 ^ ctz (n div 2) dvd 2 * (n div 2)" by (rule mult_dvd_mono [OF dvd_refl])
    with False show ?thesis by (simp add: ctz.simps [of n])
  qed
qed

lemma exp_dvd_ctz: "0 < n \<Longrightarrow> 2 ^ k dvd n \<Longrightarrow> k \<le> ctz n"
proof (induction k arbitrary: n)
  case (Suc k)
  then have "even n" "2 ^ k dvd n div 2"
    by (auto simp: dvd_def)
  moreover from \<open>even n\<close> Suc.prems have "0 < n div 2" by auto
  ultimately have "k \<le> ctz (n div 2)" using Suc.IH by blast
  with \<open>even n\<close> Suc.prems show ?case by (simp add: ctz.simps [of n])
qed simp

lemma exp_le_trailing_zeros_dvd: "k \<le> trailing_zeros w n \<Longrightarrow> 2 ^ k dvd (n :: nat)"
  by (metis ctz_dvd dvd_0_right le_imp_power_dvd dvd_trans trailing_zeros_def)

definition div_ceil :: "nat \<Rightarrow> nat \<Rightarrow> nat" where
  "div_ceil a b = (if a mod b = 0 then a div b else a div b + 1)"

lemma div_ceil_ge: "0 < b \<Longrightarrow> a \<le> div_ceil a b * b"
  using dividend_less_div_times [of b a] by (auto simp: div_ceil_def algebra_simps)

lemma div_ceil_less: "0 < b \<Longrightarrow> 0 < a \<Longrightarrow> (div_ceil a b - 1) * b < a"
proof -
  assume b: "0 < b" and a: "0 < a"
  show ?thesis
  proof (cases "a mod b = 0")
    case True
    then obtain k where k: "a = b * k" by auto
    with a b show ?thesis by (cases k) (auto simp: div_ceil_def)
  next
    case False
    have "a div b * b < a" using div_mult_mod_eq [of a b] False by linarith
    with False show ?thesis by (simp add: div_ceil_def)
  qed
qed

end
