(* ===== verification/Byte_Rw.thy ===== *)
theory Byte_Rw
  imports Ext4_Prelude
begin

text \<open>
  The byte buffer reader/writer of \<open>src/utils.rs\<close>: little-endian loads and stores at a byte
  offset, bitmap filling, the fixed-offset accessors (\<open>Accessor\<close>) and the split accessors
  (\<open>CompoundAccessor\<close>) whose high half exists only when a feature is on. A \<open>ByteRw<T>\<close> is
  the list of its bytes; a slice out of range is a panic.

  The locale \<open>field\<close> is the contract every accessor gives to the on-disk structures: a value
  written is read back, and bytes outside the field's footprint are untouched.
\<close>

type_synonym byte = "8 word"
type_synonym bytes = "byte list"

section \<open>Little-endian conversions\<close>

definition le16 :: "byte \<Rightarrow> byte \<Rightarrow> 16 word" where
  "le16 b0 b1 = ucast b0 OR push_bit 8 (ucast b1)"

definition le32 :: "byte \<Rightarrow> byte \<Rightarrow> byte \<Rightarrow> byte \<Rightarrow> 32 word" where
  "le32 b0 b1 b2 b3 =
     ucast b0 OR push_bit 8 (ucast b1) OR push_bit 16 (ucast b2) OR push_bit 24 (ucast b3)"

definition to_le16 :: "16 word \<Rightarrow> bytes" where
  "to_le16 w = [ucast w, ucast (drop_bit 8 w)]"

definition to_le32 :: "32 word \<Rightarrow> bytes" where
  "to_le32 w = [ucast w, ucast (drop_bit 8 w), ucast (drop_bit 16 w), ucast (drop_bit 24 w)]"

lemma le16_to_le16: "le16 (ucast w) (ucast (drop_bit 8 w)) = w"
  unfolding le16_def
  by (rule bit_word_eqI) (auto simp: bit_simps)

lemma le32_to_le32:
  "le32 (ucast w) (ucast (drop_bit 8 w)) (ucast (drop_bit 16 w)) (ucast (drop_bit 24 w)) = w"
proof (rule bit_word_eqI)
  fix n assume "n < LENGTH(32)"
  then consider "n < 8" | "8 \<le> n" "n < 16" | "16 \<le> n" "n < 24" | "24 \<le> n" "n < 32"
    by fastforce
  then show "bit (le32 (ucast w) (ucast (drop_bit 8 w)) (ucast (drop_bit 16 w))
      (ucast (drop_bit 24 w))) n = bit w n"
    by cases (auto simp: le32_def bit_simps)
qed

section \<open>Loads and stores\<close>

definition read_u8 :: "bytes \<Rightarrow> nat \<Rightarrow> byte result" where
  "read_u8 b p = (if p < length b then Inr (b ! p) else Inl Panic)"

definition read_u16 :: "bytes \<Rightarrow> nat \<Rightarrow> 16 word result" where
  "read_u16 b p = (if p + 2 \<le> length b then Inr (le16 (b ! p) (b ! (p + 1))) else Inl Panic)"

definition read_u32 :: "bytes \<Rightarrow> nat \<Rightarrow> 32 word result" where
  "read_u32 b p =
     (if p + 4 \<le> length b
      then Inr (le32 (b ! p) (b ! (p + 1)) (b ! (p + 2)) (b ! (p + 3)))
      else Inl Panic)"

definition write_u8 :: "nat \<Rightarrow> byte \<Rightarrow> bytes \<Rightarrow> bytes result" where
  "write_u8 p v b = (if p < length b then Inr (b[p := v]) else Inl Panic)"

definition write_u16 :: "nat \<Rightarrow> 16 word \<Rightarrow> bytes \<Rightarrow> bytes result" where
  "write_u16 p v b = (if p + 2 \<le> length b then Inr (splice b p (to_le16 v)) else Inl Panic)"

definition write_u32 :: "nat \<Rightarrow> 32 word \<Rightarrow> bytes \<Rightarrow> bytes result" where
  "write_u32 p v b = (if p + 4 \<le> length b then Inr (splice b p (to_le32 v)) else Inl Panic)"

lemma length_to_le [simp]: "length (to_le16 v) = 2" "length (to_le32 w) = 4"
  by (simp_all add: to_le16_def to_le32_def)

lemma write_length [byte_simps]:
  "write_u8 p v8 b = Inr b' \<Longrightarrow> length b' = length b"
  "write_u16 p v16 b = Inr b' \<Longrightarrow> length b' = length b"
  "write_u32 p v32 b = Inr b' \<Longrightarrow> length b' = length b"
  by (auto simp: write_u8_def write_u16_def write_u32_def split: if_splits)

lemma write_defined [byte_simps]:
  "p < length b \<Longrightarrow> \<exists>b'. write_u8 p v8 b = Inr b'"
  "p + 2 \<le> length b \<Longrightarrow> \<exists>b'. write_u16 p v16 b = Inr b'"
  "p + 4 \<le> length b \<Longrightarrow> \<exists>b'. write_u32 p v32 b = Inr b'"
  by (auto simp: write_u8_def write_u16_def write_u32_def)

lemma write_u8_frame: "write_u8 p v b = Inr b' \<Longrightarrow> i \<noteq> p \<Longrightarrow> b' ! i = b ! i"
  by (auto simp: write_u8_def split: if_splits)

lemma nth_splice_outside:
  "p + length ys \<le> length xs \<Longrightarrow> i < p \<or> p + length ys \<le> i \<Longrightarrow> splice xs p ys ! i = xs ! i"
  by (cases "i < length xs") (auto simp: nth_splice splice_def nth_append)

lemma write_u16_frame:
  "write_u16 p v b = Inr b' \<Longrightarrow> i < p \<or> p + 2 \<le> i \<Longrightarrow> b' ! i = b ! i"
  by (auto simp: write_u16_def nth_splice_outside split: if_splits)

lemma write_u32_frame:
  "write_u32 p v b = Inr b' \<Longrightarrow> i < p \<or> p + 4 \<le> i \<Longrightarrow> b' ! i = b ! i"
  by (auto simp: write_u32_def nth_splice_outside split: if_splits)

lemma read_write_u8: "write_u8 p v b = Inr b' \<Longrightarrow> read_u8 b' p = Inr v"
  by (auto simp: write_u8_def read_u8_def split: if_splits)

lemma read_write_u16: "write_u16 p v b = Inr b' \<Longrightarrow> read_u16 b' p = Inr v"
  by (auto simp: write_u16_def read_u16_def nth_splice to_le16_def le16_to_le16
      split: if_splits)

lemma read_write_u32: "write_u32 p v b = Inr b' \<Longrightarrow> read_u32 b' p = Inr v"
  by (auto simp: write_u32_def read_u32_def nth_splice to_le32_def le32_to_le32
      split: if_splits)

lemma read_u8_cong: "length b = length c \<Longrightarrow> b ! p = c ! p \<Longrightarrow> read_u8 b p = read_u8 c p"
  by (simp add: read_u8_def)

lemma read_u16_cong:
  "length b = length c \<Longrightarrow> (\<And>i. p \<le> i \<Longrightarrow> i < p + 2 \<Longrightarrow> b ! i = c ! i) \<Longrightarrow> read_u16 b p = read_u16 c p"
  by (simp add: read_u16_def)

lemma read_u32_cong:
  "length b = length c \<Longrightarrow> (\<And>i. p \<le> i \<Longrightarrow> i < p + 4 \<Longrightarrow> b ! i = c ! i) \<Longrightarrow> read_u32 b p = read_u32 c p"
  by (simp add: read_u32_def)

lemma read_defined:
  "p < length b \<Longrightarrow> \<exists>v. read_u8 b p = Inr v"
  "p + 2 \<le> length b \<Longrightarrow> \<exists>v. read_u16 b p = Inr v"
  "p + 4 \<le> length b \<Longrightarrow> \<exists>v. read_u32 b p = Inr v"
  by (auto simp: read_u8_def read_u16_def read_u32_def)

section \<open>Bitmaps\<close>

definition bit_at :: "bytes \<Rightarrow> nat \<Rightarrow> bool" where
  "bit_at b p = bit (b ! (p div 8)) (p mod 8)"

definition set_bit_at :: "nat \<Rightarrow> bytes \<Rightarrow> bytes result" where
  "set_bit_at p b =
     rbind (read_u8 b (p div 8)) (\<lambda>v. write_u8 (p div 8) (v OR push_bit (p mod 8) 1) b)"

definition set_bitmap :: "nat list \<Rightarrow> bytes \<Rightarrow> bytes result" where
  "set_bitmap pos b = for_each pos set_bit_at b"

lemma div_mod_8_eq_iff: "p div 8 = q div 8 \<and> p mod 8 = q mod 8 \<longleftrightarrow> p = (q :: nat)"
  by (metis div_mult_mod_eq)

lemma bit_or_exp: "i < 8 \<Longrightarrow> bit ((v :: byte) OR 2 ^ k) i \<longleftrightarrow> bit v i \<or> i = k"
  by (auto simp: bit_simps)

lemma set_bit_at_Inr:
  assumes "p div 8 < length b"
  obtains b' where "set_bit_at p b = Inr b'" "length b' = length b"
    "\<And>q. q div 8 < length b \<Longrightarrow> bit_at b' q \<longleftrightarrow> bit_at b q \<or> q = p"
proof
  show "set_bit_at p b = Inr (b[p div 8 := b ! (p div 8) OR push_bit (p mod 8) 1])"
    using assms by (simp add: set_bit_at_def read_u8_def write_u8_def)
  show "length (b[p div 8 := b ! (p div 8) OR push_bit (p mod 8) 1]) = length b" by simp
  fix q assume q: "q div 8 < length b"
  show "bit_at (b[p div 8 := b ! (p div 8) OR push_bit (p mod 8) 1]) q \<longleftrightarrow> bit_at b q \<or> q = p"
    using q div_mod_8_eq_iff [of q p]
    by (cases "q div 8 = p div 8") (auto simp: bit_at_def bit_or_exp)
qed

lemma set_bitmap_Inr:
  assumes "\<And>p. p \<in> set ps \<Longrightarrow> p div 8 < length b"
  shows "\<exists>b'. set_bitmap ps b = Inr b' \<and> length b' = length b \<and>
    (\<forall>q. q div 8 < length b \<longrightarrow> (bit_at b' q \<longleftrightarrow> bit_at b q \<or> q \<in> set ps))"
  using assms
proof (induction ps arbitrary: b)
  case Nil
  then show ?case by (simp add: set_bitmap_def)
next
  case (Cons p ps)
  obtain c where c: "set_bit_at p b = Inr c" "length c = length b"
    "\<And>q. q div 8 < length b \<Longrightarrow> bit_at c q \<longleftrightarrow> bit_at b q \<or> q = p"
    using set_bit_at_Inr [of p b] Cons.prems by auto
  from Cons.IH [of c] Cons.prems c obtain b' where
    "set_bitmap ps c = Inr b'" "length b' = length c"
    "\<forall>q. q div 8 < length c \<longrightarrow> (bit_at b' q \<longleftrightarrow> bit_at c q \<or> q \<in> set ps)"
    by auto
  with c show ?case by (auto simp: set_bitmap_def)
qed
section \<open>Merging and splitting halves\<close>

definition merge_u16 :: "16 word \<Rightarrow> 16 word \<Rightarrow> 32 word" where
  "merge_u16 hi lo = push_bit 16 (ucast hi) OR ucast lo"

definition merge_u32 :: "32 word \<Rightarrow> 32 word \<Rightarrow> 64 word" where
  "merge_u32 hi lo = push_bit 32 (ucast hi) OR ucast lo"

definition split_u32 :: "32 word \<Rightarrow> 16 word \<times> 16 word" where
  "split_u32 s = (ucast (drop_bit 16 s), ucast s)"

definition split_u64 :: "64 word \<Rightarrow> 32 word \<times> 32 word" where
  "split_u64 s = (ucast (drop_bit 32 s), ucast s)"

lemma merge_split_u32: "split_u32 s = (hi, lo) \<Longrightarrow> merge_u16 hi lo = s"
  by (auto simp: split_u32_def merge_u16_def intro!: bit_word_eqI) (auto simp: bit_simps dest: bit_imp_le_length)

lemma merge_split_u64: "split_u64 s = (hi, lo) \<Longrightarrow> merge_u32 hi lo = s"
  by (auto simp: split_u64_def merge_u32_def intro!: bit_word_eqI) (auto simp: bit_simps dest: bit_imp_le_length)

lemma split_merge_u16: "split_u32 (merge_u16 hi lo) = (hi, lo)"
  by (auto simp: split_u32_def merge_u16_def intro!: bit_word_eqI) (auto simp: bit_simps dest: bit_imp_le_length)

lemma split_merge_u32: "split_u64 (merge_u32 hi lo) = (hi, lo)"
  by (auto simp: split_u64_def merge_u32_def intro!: bit_word_eqI) (auto simp: bit_simps dest: bit_imp_le_length)

section \<open>Accessors\<close>

text \<open>
  \<open>CompoundAccessor::get/set\<close>: the value is split into a low and a high half at two
  offsets; with \<open>use_hi\<close> off the high half reads as 0 and must be 0 when written
  (\<open>assert_eq!(hi, 0)\<close>).
\<close>

definition compound_u32_get :: "nat \<Rightarrow> nat \<Rightarrow> bool \<Rightarrow> bytes \<Rightarrow> 32 word result" where
  "compound_u32_get LO HI use_hi b =
     rbind (if use_hi then read_u16 b HI else Inr 0) (\<lambda>hi.
     rbind (read_u16 b LO) (\<lambda>lo. Inr (merge_u16 hi lo)))"

definition compound_u32_set :: "nat \<Rightarrow> nat \<Rightarrow> bool \<Rightarrow> 32 word \<Rightarrow> bytes \<Rightarrow> bytes result" where
  "compound_u32_set LO HI use_hi v b =
     (case split_u32 v of (hi, lo) \<Rightarrow>
       rbind (if use_hi then write_u16 HI hi b
              else rbind (assertR (hi = 0)) (\<lambda>_. Inr b))
         (write_u16 LO lo))"

definition compound_u64_get :: "nat \<Rightarrow> nat \<Rightarrow> bool \<Rightarrow> bytes \<Rightarrow> 64 word result" where
  "compound_u64_get LO HI use_hi b =
     rbind (if use_hi then read_u32 b HI else Inr 0) (\<lambda>hi.
     rbind (read_u32 b LO) (\<lambda>lo. Inr (merge_u32 hi lo)))"

definition compound_u64_set :: "nat \<Rightarrow> nat \<Rightarrow> bool \<Rightarrow> 64 word \<Rightarrow> bytes \<Rightarrow> bytes result" where
  "compound_u64_set LO HI use_hi v b =
     (case split_u64 v of (hi, lo) \<Rightarrow>
       rbind (if use_hi then write_u32 HI hi b
              else rbind (assertR (hi = 0)) (\<lambda>_. Inr b))
         (write_u32 LO lo))"

lemma slice_in_range: "(\<forall>i\<in>{p..<p + n} \<union> X. i < L) \<Longrightarrow> 0 < n \<Longrightarrow> p + n \<le> (L :: nat)"
proof -
  assume all: "\<forall>i\<in>{p..<p + n} \<union> X. i < L" and n: "0 < n"
  from n have "p + (n - 1) \<in> {p..<p + n} \<union> X" by auto
  with all have "p + (n - 1) < L" by blast
  with n show ?thesis by simp
qed

subsection \<open>The contract of an accessor\<close>

locale field =
  fixes get :: "bytes \<Rightarrow> 'v result"
    and set_f :: "'v \<Rightarrow> bytes \<Rightarrow> bytes result"
    and foot :: "nat set"
    and ok :: "'v \<Rightarrow> bool"
  assumes set_defined: "\<And>v b. (\<forall>i\<in>foot. i < length b) \<Longrightarrow> ok v \<Longrightarrow> \<exists>c. set_f v b = Inr c"
    and set_length: "\<And>v b c. set_f v b = Inr c \<Longrightarrow> length c = length b"
    and get_set: "\<And>v b c. set_f v b = Inr c \<Longrightarrow> get c = Inr v"
    and set_frame: "\<And>v b c i. set_f v b = Inr c \<Longrightarrow> i \<notin> foot \<Longrightarrow> c ! i = b ! i"
    and get_local: "\<And>b c. length b = length c \<Longrightarrow> (\<forall>i\<in>foot. b ! i = c ! i) \<Longrightarrow> get b = get c"
begin

lemma set_then_get:
  assumes "\<forall>i\<in>foot. i < length b" and "ok v"
  obtains c where "set_f v b = Inr c" "get c = Inr v" "length c = length b"
    "\<And>i. i \<notin> foot \<Longrightarrow> c ! i = b ! i"
proof -
  from set_defined [OF assms] obtain c where "set_f v b = Inr c" by blast
  with that set_length get_set set_frame show thesis by blast
qed

lemma get_unaffected:
  assumes "length b = length c" and "\<And>i. i \<in> foot \<Longrightarrow> b ! i = c ! i"
  shows "get b = get c"
  using assms by (intro get_local) auto

end

text \<open>Two accessors whose footprints are disjoint do not disturb each other.\<close>

locale disjoint_fields = A: field getA setA footA okA + B: field getB setB footB okB
  for getA :: "bytes \<Rightarrow> 'v result" and setA footA okA
    and getB :: "bytes \<Rightarrow> 'w result" and setB footB okB +
  assumes disjoint: "footA \<inter> footB = {}"
begin

lemma get_other: "setB w b = Inr c \<Longrightarrow> getA c = getA b"
  using disjoint B.set_length B.set_frame by (intro A.get_unaffected) blast+

end

interpretation acc_u8: field "\<lambda>b. read_u8 b p" "write_u8 p" "{p}" "\<lambda>_. True" for p
  by unfold_locales
    (auto simp: byte_simps read_write_u8 intro: write_u8_frame read_u8_cong)

interpretation acc_u16: field "\<lambda>b. read_u16 b p" "write_u16 p" "{p..<p+2}" "\<lambda>_. True" for p
proof unfold_locales
  fix v b assume "\<forall>i\<in>{p..<p+2}. i < length (b :: bytes)"
  then have "p + 2 \<le> length b" by (cases "p + 1 < length b") auto
  then show "\<exists>c. write_u16 p v b = Inr c" by (rule write_defined)
qed (auto simp: byte_simps read_write_u16 not_le intro: write_u16_frame read_u16_cong)

interpretation acc_u32: field "\<lambda>b. read_u32 b p" "write_u32 p" "{p..<p+4}" "\<lambda>_. True" for p
proof unfold_locales
  fix v b assume "\<forall>i\<in>{p..<p+4}. i < length (b :: bytes)"
  then have "p + 4 \<le> length b" by (cases "p + 3 < length b") auto
  then show "\<exists>c. write_u32 p v b = Inr c" by (rule write_defined)
qed (auto simp: byte_simps read_write_u32 not_le intro: write_u32_frame read_u32_cong)

lemma compound_u32_set_Inr:
  assumes "compound_u32_set LO HI h v b = Inr c"
  obtains hi lo b1 where "split_u32 v = (hi, lo)" "write_u16 LO lo b1 = Inr c"
    "if h then write_u16 HI hi b = Inr b1 else hi = 0 \<and> b1 = b"
  using assms
  by (auto simp: compound_u32_set_def rbind_Inr_iff split: prod.splits if_splits)

lemma compound_u64_set_Inr:
  assumes "compound_u64_set LO HI h v b = Inr c"
  obtains hi lo b1 where "split_u64 v = (hi, lo)" "write_u32 LO lo b1 = Inr c"
    "if h then write_u32 HI hi b = Inr b1 else hi = 0 \<and> b1 = b"
  using assms
  by (auto simp: compound_u64_set_def rbind_Inr_iff split: prod.splits if_splits)

lemma compound_u32_field:
  assumes "LO + 2 \<le> HI"
  shows "field (compound_u32_get LO HI h) (compound_u32_set LO HI h)
    ({LO..<LO+2} \<union> (if h then {HI..<HI+2} else {}))
    (\<lambda>v. h \<or> fst (split_u32 v) = 0)"
proof unfold_locales
  fix v and b :: bytes
  assume len: "\<forall>i\<in>{LO..<LO+2} \<union> (if h then {HI..<HI+2} else {}). i < length b"
    and ok: "h \<or> fst (split_u32 v) = 0"
  have lo: "LO + 2 \<le> length b" using len by (rule slice_in_range) simp
  show "\<exists>c. compound_u32_set LO HI h v b = Inr c"
  proof (cases h)
    case True
    then have "HI + 2 \<le> length b"
      using len slice_in_range [of HI 2 "{}" "length b"] by simp
    with True lo show ?thesis
      by (auto simp: compound_u32_set_def write_u16_def split: prod.splits)
  next
    case False
    with ok lo show ?thesis
      by (auto simp: compound_u32_set_def write_u16_def split: prod.splits)
  qed
next
  fix v and b c :: bytes assume "compound_u32_set LO HI h v b = Inr c"
  then show "length c = length b"
    by (rule compound_u32_set_Inr) (auto dest!: write_length(2) split: if_splits)
next
  fix v and b c :: bytes assume "compound_u32_set LO HI h v b = Inr c"
  then obtain hi lo b1 where d: "split_u32 v = (hi, lo)" "write_u16 LO lo b1 = Inr c"
    "if h then write_u16 HI hi b = Inr b1 else hi = 0 \<and> b1 = b"
    by (rule compound_u32_set_Inr)
  have "read_u16 c HI = Inr hi" if h
  proof -
    have "read_u16 c HI = read_u16 b1 HI"
      using write_length(2) [OF d(2)] write_u16_frame [OF d(2)] assms
      by (intro read_u16_cong) auto
    with that d(3) show ?thesis by (simp add: read_write_u16)
  qed
  with d show "compound_u32_get LO HI h c = Inr v"
    by (auto simp: compound_u32_get_def read_write_u16 merge_split_u32 split: if_splits)
next
  fix v and b c :: bytes and i
  assume "compound_u32_set LO HI h v b = Inr c"
    and "i \<notin> {LO..<LO+2} \<union> (if h then {HI..<HI+2} else {})"
  then show "c ! i = b ! i"
    by (elim compound_u32_set_Inr) (auto simp: not_le not_less dest!: write_u16_frame [of _ _ _ _ i] split: if_splits)
next
  fix b c :: bytes
  assume "length b = length c"
    and "\<forall>i\<in>{LO..<LO+2} \<union> (if h then {HI..<HI+2} else {}). b ! i = c ! i"
  then have "read_u16 b LO = read_u16 c LO" "h \<Longrightarrow> read_u16 b HI = read_u16 c HI"
    by (auto intro!: read_u16_cong)
  then show "compound_u32_get LO HI h b = compound_u32_get LO HI h c"
    by (simp add: compound_u32_get_def)
qed

lemma compound_u64_field:
  assumes "LO + 4 \<le> HI"
  shows "field (compound_u64_get LO HI h) (compound_u64_set LO HI h)
    ({LO..<LO+4} \<union> (if h then {HI..<HI+4} else {}))
    (\<lambda>v. h \<or> fst (split_u64 v) = 0)"
proof unfold_locales
  fix v and b :: bytes
  assume len: "\<forall>i\<in>{LO..<LO+4} \<union> (if h then {HI..<HI+4} else {}). i < length b"
    and ok: "h \<or> fst (split_u64 v) = 0"
  have lo: "LO + 4 \<le> length b" using len by (rule slice_in_range) simp
  show "\<exists>c. compound_u64_set LO HI h v b = Inr c"
  proof (cases h)
    case True
    then have "HI + 4 \<le> length b"
      using len slice_in_range [of HI 4 "{}" "length b"] by simp
    with True lo show ?thesis
      by (auto simp: compound_u64_set_def write_u32_def split: prod.splits)
  next
    case False
    with ok lo show ?thesis
      by (auto simp: compound_u64_set_def write_u32_def split: prod.splits)
  qed
next
  fix v and b c :: bytes assume "compound_u64_set LO HI h v b = Inr c"
  then show "length c = length b"
    by (rule compound_u64_set_Inr) (auto dest!: write_length(3) split: if_splits)
next
  fix v and b c :: bytes assume "compound_u64_set LO HI h v b = Inr c"
  then obtain hi lo b1 where d: "split_u64 v = (hi, lo)" "write_u32 LO lo b1 = Inr c"
    "if h then write_u32 HI hi b = Inr b1 else hi = 0 \<and> b1 = b"
    by (rule compound_u64_set_Inr)
  have "read_u32 c HI = Inr hi" if h
  proof -
    have "read_u32 c HI = read_u32 b1 HI"
      using write_length(3) [OF d(2)] write_u32_frame [OF d(2)] assms
      by (intro read_u32_cong) auto
    with that d(3) show ?thesis by (simp add: read_write_u32)
  qed
  with d show "compound_u64_get LO HI h c = Inr v"
    by (auto simp: compound_u64_get_def read_write_u32 merge_split_u64 split: if_splits)
next
  fix v and b c :: bytes and i
  assume "compound_u64_set LO HI h v b = Inr c"
    and "i \<notin> {LO..<LO+4} \<union> (if h then {HI..<HI+4} else {})"
  then show "c ! i = b ! i"
    by (elim compound_u64_set_Inr) (auto simp: not_le not_less dest!: write_u32_frame [of _ _ _ _ i] split: if_splits)
next
  fix b c :: bytes
  assume "length b = length c"
    and "\<forall>i\<in>{LO..<LO+4} \<union> (if h then {HI..<HI+4} else {}). b ! i = c ! i"
  then have "read_u32 b LO = read_u32 c LO" "h \<Longrightarrow> read_u32 b HI = read_u32 c HI"
    by (auto intro!: read_u32_cong)
  then show "compound_u64_get LO HI h b = compound_u64_get LO HI h c"
    by (simp add: compound_u64_get_def)
qed

end
