(* ===== verification/Crc.thy ===== *)
theory Crc
  imports Byte_Rw
begin

text \<open>
  The checksums of \<open>src/crc.rs\<close>: table-driven CRC-32C (metadata checksums) and CRC-16
  (group descriptor checksums). The two tables are copied from the source; the reference is
  the bit-at-a-time division by the reflected polynomials \<open>0x82F63B78\<close> (Castagnoli) and
  \<open>0xA001\<close> (CRC-16/ANSI), which names no table.
\<close>

section \<open>The program\<close>

definition CRC32C_TAB :: "32 word list" where
  "CRC32C_TAB = [
    0x00000000, 0xF26B8303, 0xE13B70F7, 0x1350F3F4, 0xC79A971F, 0x35F1141C, 0x26A1E7E8, 0xD4CA64EB,
    0x8AD958CF, 0x78B2DBCC, 0x6BE22838, 0x9989AB3B, 0x4D43CFD0, 0xBF284CD3, 0xAC78BF27, 0x5E133C24,
    0x105EC76F, 0xE235446C, 0xF165B798, 0x030E349B, 0xD7C45070, 0x25AFD373, 0x36FF2087, 0xC494A384,
    0x9A879FA0, 0x68EC1CA3, 0x7BBCEF57, 0x89D76C54, 0x5D1D08BF, 0xAF768BBC, 0xBC267848, 0x4E4DFB4B,
    0x20BD8EDE, 0xD2D60DDD, 0xC186FE29, 0x33ED7D2A, 0xE72719C1, 0x154C9AC2, 0x061C6936, 0xF477EA35,
    0xAA64D611, 0x580F5512, 0x4B5FA6E6, 0xB93425E5, 0x6DFE410E, 0x9F95C20D, 0x8CC531F9, 0x7EAEB2FA,
    0x30E349B1, 0xC288CAB2, 0xD1D83946, 0x23B3BA45, 0xF779DEAE, 0x05125DAD, 0x1642AE59, 0xE4292D5A,
    0xBA3A117E, 0x4851927D, 0x5B016189, 0xA96AE28A, 0x7DA08661, 0x8FCB0562, 0x9C9BF696, 0x6EF07595,
    0x417B1DBC, 0xB3109EBF, 0xA0406D4B, 0x522BEE48, 0x86E18AA3, 0x748A09A0, 0x67DAFA54, 0x95B17957,
    0xCBA24573, 0x39C9C670, 0x2A993584, 0xD8F2B687, 0x0C38D26C, 0xFE53516F, 0xED03A29B, 0x1F682198,
    0x5125DAD3, 0xA34E59D0, 0xB01EAA24, 0x42752927, 0x96BF4DCC, 0x64D4CECF, 0x77843D3B, 0x85EFBE38,
    0xDBFC821C, 0x2997011F, 0x3AC7F2EB, 0xC8AC71E8, 0x1C661503, 0xEE0D9600, 0xFD5D65F4, 0x0F36E6F7,
    0x61C69362, 0x93AD1061, 0x80FDE395, 0x72966096, 0xA65C047D, 0x5437877E, 0x4767748A, 0xB50CF789,
    0xEB1FCBAD, 0x197448AE, 0x0A24BB5A, 0xF84F3859, 0x2C855CB2, 0xDEEEDFB1, 0xCDBE2C45, 0x3FD5AF46,
    0x7198540D, 0x83F3D70E, 0x90A324FA, 0x62C8A7F9, 0xB602C312, 0x44694011, 0x5739B3E5, 0xA55230E6,
    0xFB410CC2, 0x092A8FC1, 0x1A7A7C35, 0xE811FF36, 0x3CDB9BDD, 0xCEB018DE, 0xDDE0EB2A, 0x2F8B6829,
    0x82F63B78, 0x709DB87B, 0x63CD4B8F, 0x91A6C88C, 0x456CAC67, 0xB7072F64, 0xA457DC90, 0x563C5F93,
    0x082F63B7, 0xFA44E0B4, 0xE9141340, 0x1B7F9043, 0xCFB5F4A8, 0x3DDE77AB, 0x2E8E845F, 0xDCE5075C,
    0x92A8FC17, 0x60C37F14, 0x73938CE0, 0x81F80FE3, 0x55326B08, 0xA759E80B, 0xB4091BFF, 0x466298FC,
    0x1871A4D8, 0xEA1A27DB, 0xF94AD42F, 0x0B21572C, 0xDFEB33C7, 0x2D80B0C4, 0x3ED04330, 0xCCBBC033,
    0xA24BB5A6, 0x502036A5, 0x4370C551, 0xB11B4652, 0x65D122B9, 0x97BAA1BA, 0x84EA524E, 0x7681D14D,
    0x2892ED69, 0xDAF96E6A, 0xC9A99D9E, 0x3BC21E9D, 0xEF087A76, 0x1D63F975, 0x0E330A81, 0xFC588982,
    0xB21572C9, 0x407EF1CA, 0x532E023E, 0xA145813D, 0x758FE5D6, 0x87E466D5, 0x94B49521, 0x66DF1622,
    0x38CC2A06, 0xCAA7A905, 0xD9F75AF1, 0x2B9CD9F2, 0xFF56BD19, 0x0D3D3E1A, 0x1E6DCDEE, 0xEC064EED,
    0xC38D26C4, 0x31E6A5C7, 0x22B65633, 0xD0DDD530, 0x0417B1DB, 0xF67C32D8, 0xE52CC12C, 0x1747422F,
    0x49547E0B, 0xBB3FFD08, 0xA86F0EFC, 0x5A048DFF, 0x8ECEE914, 0x7CA56A17, 0x6FF599E3, 0x9D9E1AE0,
    0xD3D3E1AB, 0x21B862A8, 0x32E8915C, 0xC083125F, 0x144976B4, 0xE622F5B7, 0xF5720643, 0x07198540,
    0x590AB964, 0xAB613A67, 0xB831C993, 0x4A5A4A90, 0x9E902E7B, 0x6CFBAD78, 0x7FAB5E8C, 0x8DC0DD8F,
    0xE330A81A, 0x115B2B19, 0x020BD8ED, 0xF0605BEE, 0x24AA3F05, 0xD6C1BC06, 0xC5914FF2, 0x37FACCF1,
    0x69E9F0D5, 0x9B8273D6, 0x88D28022, 0x7AB90321, 0xAE7367CA, 0x5C18E4C9, 0x4F48173D, 0xBD23943E,
    0xF36E6F75, 0x0105EC76, 0x12551F82, 0xE03E9C81, 0x34F4F86A, 0xC69F7B69, 0xD5CF889D, 0x27A40B9E,
    0x79B737BA, 0x8BDCB4B9, 0x988C474D, 0x6AE7C44E, 0xBE2DA0A5, 0x4C4623A6, 0x5F16D052, 0xAD7D5351
  ]"

definition CRC16_TAB :: "16 word list" where
  "CRC16_TAB = [
    0x0000, 0xC0C1, 0xC181, 0x0140, 0xC301, 0x03C0, 0x0280, 0xC241, 0xC601, 0x06C0, 0x0780, 0xC741,
    0x0500, 0xC5C1, 0xC481, 0x0440, 0xCC01, 0x0CC0, 0x0D80, 0xCD41, 0x0F00, 0xCFC1, 0xCE81, 0x0E40,
    0x0A00, 0xCAC1, 0xCB81, 0x0B40, 0xC901, 0x09C0, 0x0880, 0xC841, 0xD801, 0x18C0, 0x1980, 0xD941,
    0x1B00, 0xDBC1, 0xDA81, 0x1A40, 0x1E00, 0xDEC1, 0xDF81, 0x1F40, 0xDD01, 0x1DC0, 0x1C80, 0xDC41,
    0x1400, 0xD4C1, 0xD581, 0x1540, 0xD701, 0x17C0, 0x1680, 0xD641, 0xD201, 0x12C0, 0x1380, 0xD341,
    0x1100, 0xD1C1, 0xD081, 0x1040, 0xF001, 0x30C0, 0x3180, 0xF141, 0x3300, 0xF3C1, 0xF281, 0x3240,
    0x3600, 0xF6C1, 0xF781, 0x3740, 0xF501, 0x35C0, 0x3480, 0xF441, 0x3C00, 0xFCC1, 0xFD81, 0x3D40,
    0xFF01, 0x3FC0, 0x3E80, 0xFE41, 0xFA01, 0x3AC0, 0x3B80, 0xFB41, 0x3900, 0xF9C1, 0xF881, 0x3840,
    0x2800, 0xE8C1, 0xE981, 0x2940, 0xEB01, 0x2BC0, 0x2A80, 0xEA41, 0xEE01, 0x2EC0, 0x2F80, 0xEF41,
    0x2D00, 0xEDC1, 0xEC81, 0x2C40, 0xE401, 0x24C0, 0x2580, 0xE541, 0x2700, 0xE7C1, 0xE681, 0x2640,
    0x2200, 0xE2C1, 0xE381, 0x2340, 0xE101, 0x21C0, 0x2080, 0xE041, 0xA001, 0x60C0, 0x6180, 0xA141,
    0x6300, 0xA3C1, 0xA281, 0x6240, 0x6600, 0xA6C1, 0xA781, 0x6740, 0xA501, 0x65C0, 0x6480, 0xA441,
    0x6C00, 0xACC1, 0xAD81, 0x6D40, 0xAF01, 0x6FC0, 0x6E80, 0xAE41, 0xAA01, 0x6AC0, 0x6B80, 0xAB41,
    0x6900, 0xA9C1, 0xA881, 0x6840, 0x7800, 0xB8C1, 0xB981, 0x7940, 0xBB01, 0x7BC0, 0x7A80, 0xBA41,
    0xBE01, 0x7EC0, 0x7F80, 0xBF41, 0x7D00, 0xBDC1, 0xBC81, 0x7C40, 0xB401, 0x74C0, 0x7580, 0xB541,
    0x7700, 0xB7C1, 0xB681, 0x7640, 0x7200, 0xB2C1, 0xB381, 0x7340, 0xB101, 0x71C0, 0x7080, 0xB041,
    0x5000, 0x90C1, 0x9181, 0x5140, 0x9301, 0x53C0, 0x5280, 0x9241, 0x9601, 0x56C0, 0x5780, 0x9741,
    0x5500, 0x95C1, 0x9481, 0x5440, 0x9C01, 0x5CC0, 0x5D80, 0x9D41, 0x5F00, 0x9FC1, 0x9E81, 0x5E40,
    0x5A00, 0x9AC1, 0x9B81, 0x5B40, 0x9901, 0x59C0, 0x5880, 0x9841, 0x8801, 0x48C0, 0x4980, 0x8941,
    0x4B00, 0x8BC1, 0x8A81, 0x4A40, 0x4E00, 0x8EC1, 0x8F81, 0x4F40, 0x8D01, 0x4DC0, 0x4C80, 0x8C41,
    0x4400, 0x84C1, 0x8581, 0x4540, 0x8701, 0x47C0, 0x4680, 0x8641, 0x8201, 0x42C0, 0x4380, 0x8341,
    0x4100, 0x81C1, 0x8081, 0x4040
  ]"

definition crc16_step :: "16 word list \<Rightarrow> byte \<Rightarrow> 16 word \<Rightarrow> 16 word" where
  "crc16_step tab b acc = tab ! unat ((acc XOR ucast b) AND 0xff) XOR drop_bit 8 acc"

definition do_crc16 :: "16 word \<Rightarrow> bytes \<Rightarrow> 16 word list \<Rightarrow> 16 word" where
  "do_crc16 crc buf tab = fold (crc16_step tab) buf crc"

definition crc32_step :: "32 word list \<Rightarrow> byte \<Rightarrow> 32 word \<Rightarrow> 32 word" where
  "crc32_step tab b acc = tab ! unat ((acc XOR ucast b) AND 0xff) XOR drop_bit 8 acc"

definition do_crc32 :: "32 word \<Rightarrow> bytes \<Rightarrow> 32 word list \<Rightarrow> 32 word" where
  "do_crc32 crc buf tab = fold (crc32_step tab) buf crc"

record crc16 = hash16 :: "16 word"
record crc32c = hash32 :: "32 word"

definition crc16_default :: crc16 where
  "crc16_default = \<lparr>hash16 = 0xFFFF\<rparr>"

definition crc16_write :: "bytes \<Rightarrow> crc16 \<Rightarrow> crc16" where
  "crc16_write bytes c = c\<lparr>hash16 := do_crc16 (hash16 c) bytes CRC16_TAB\<rparr>"

definition crc16_finish :: "crc16 \<Rightarrow> 16 word" where
  "crc16_finish c = hash16 c"

definition crc32c_default :: crc32c where
  "crc32c_default = \<lparr>hash32 = 0xFFFFFFFF\<rparr>"

definition crc32c_write :: "bytes \<Rightarrow> crc32c \<Rightarrow> crc32c" where
  "crc32c_write bytes c = c\<lparr>hash32 := do_crc32 (hash32 c) bytes CRC32C_TAB\<rparr>"

definition crc32c_finish :: "crc32c \<Rightarrow> 32 word" where
  "crc32c_finish c = hash32 c"

section \<open>The reference: bit-serial division\<close>

definition poly_bit :: "'a::len word \<Rightarrow> 'a word \<Rightarrow> 'a word" where
  "poly_bit P c = (if bit c 0 then drop_bit 1 c XOR P else drop_bit 1 c)"

definition crc_byte :: "'a::len word \<Rightarrow> byte \<Rightarrow> 'a word \<Rightarrow> 'a word" where
  "crc_byte P b acc = (poly_bit P ^^ 8) (acc XOR ucast b)"

text \<open>
  The division is linear over exclusive or, so the low byte and the shifted remainder can be
  divided separately: this is what makes the table method work.
\<close>

lemma poly_bit_xor: "poly_bit P (x XOR y) = poly_bit P x XOR poly_bit P y"
  by (rule bit_word_eqI) (auto simp: poly_bit_def bit_simps)

lemma poly_bits_xor: "(poly_bit P ^^ n) (x XOR y) = (poly_bit P ^^ n) x XOR (poly_bit P ^^ n) y"
  by (induction n) (simp_all add: poly_bit_xor)

lemma poly_bits_shift:
  "(\<And>i. i < n \<Longrightarrow> \<not> bit x i) \<Longrightarrow> (poly_bit P ^^ n) x = drop_bit n x"
proof (induction n arbitrary: x)
  case (Suc n)
  have "poly_bit P x = drop_bit 1 x"
    using Suc.prems [of 0] by (simp add: poly_bit_def)
  moreover have "(poly_bit P ^^ n) (drop_bit 1 x) = drop_bit n (drop_bit 1 x)"
    using Suc.prems by (intro Suc.IH) (simp add: bit_simps)
  ultimately show ?case
    by (simp add: funpow_Suc_right del: funpow.simps)
qed simp

lemma split_low_byte: "x = (x AND 0xff) XOR (x AND NOT 0xff)" for x :: "'a::len word"
  by (rule bit_word_eqI) (auto simp: bit_simps)

section \<open>The tables are the remainders of the 256 bytes\<close>

definition poly_byte :: "'a::len word \<Rightarrow> 'a word \<Rightarrow> 'a word" where
  "poly_byte P x = poly_bit P (poly_bit P (poly_bit P (poly_bit P
    (poly_bit P (poly_bit P (poly_bit P (poly_bit P x)))))))"

lemma poly_byte_funpow: "poly_byte P x = (poly_bit P ^^ 8) x"
  by (simp add: poly_byte_def numeral_eq_Suc)

definition all_bytes :: "'a::len word list" where
  "all_bytes = [
    0, 1, 2, 3, 4, 5, 6, 7, 8, 9, 10, 11, 12, 13, 14, 15, 16, 17, 18, 19, 20, 21, 22, 23, 24,
    25, 26, 27, 28, 29, 30, 31, 32, 33, 34, 35, 36, 37, 38, 39, 40, 41, 42, 43, 44, 45, 46,
    47, 48, 49, 50, 51, 52, 53, 54, 55, 56, 57, 58, 59, 60, 61, 62, 63, 64, 65, 66, 67, 68,
    69, 70, 71, 72, 73, 74, 75, 76, 77, 78, 79, 80, 81, 82, 83, 84, 85, 86, 87, 88, 89, 90,
    91, 92, 93, 94, 95, 96, 97, 98, 99, 100, 101, 102, 103, 104, 105, 106, 107, 108, 109,
    110, 111, 112, 113, 114, 115, 116, 117, 118, 119, 120, 121, 122, 123, 124, 125, 126, 127,
    128, 129, 130, 131, 132, 133, 134, 135, 136, 137, 138, 139, 140, 141, 142, 143, 144, 145,
    146, 147, 148, 149, 150, 151, 152, 153, 154, 155, 156, 157, 158, 159, 160, 161, 162, 163,
    164, 165, 166, 167, 168, 169, 170, 171, 172, 173, 174, 175, 176, 177, 178, 179, 180, 181,
    182, 183, 184, 185, 186, 187, 188, 189, 190, 191, 192, 193, 194, 195, 196, 197, 198, 199,
    200, 201, 202, 203, 204, 205, 206, 207, 208, 209, 210, 211, 212, 213, 214, 215, 216, 217,
    218, 219, 220, 221, 222, 223, 224, 225, 226, 227, 228, 229, 230, 231, 232, 233, 234, 235,
    236, 237, 238, 239, 240, 241, 242, 243, 244, 245, 246, 247, 248, 249, 250, 251, 252, 253,
    254, 255
  ]"

lemma all_bytes_upt: "(all_bytes :: 'a::len word list) = map of_nat [0..<256]"
proof -
  have "[0..<256] = 0 # 1 # [2..<256]" by (simp add: upt_conv_Cons numeral_2_eq_2)
  then show ?thesis by (simp add: all_bytes_def)
qed

lemma crc32c_tab_remainders: "CRC32C_TAB = map (poly_byte 0x82F63B78) all_bytes"
  by (simp add: CRC32C_TAB_def all_bytes_def poly_byte_def poly_bit_def)

lemma crc16_tab_remainders: "CRC16_TAB = map (poly_byte 0xA001) all_bytes"
  by (simp add: CRC16_TAB_def all_bytes_def poly_byte_def poly_bit_def)

lemma table_nth:
  assumes "tab = map (poly_byte P) (all_bytes :: 'a::len word list)" and "8 \<le> LENGTH('a)"
    and "unat (x AND 0xff) < 256"
  shows "tab ! unat ((x :: 'a word) AND 0xff) = (poly_bit P ^^ 8) (x AND 0xff)"
  using assms by (simp add: all_bytes_upt poly_byte_funpow del: upt_rec_numeral)

lemma bit_255: "bit (255 :: int) i \<longleftrightarrow> i < 8" "bit (255 :: nat) i \<longleftrightarrow> i < 8"
proof -
  have "(255 :: int) = mask 8" "(255 :: nat) = mask 8" by (simp_all add: mask_eq_exp_minus_1)
  then show "bit (255 :: int) i \<longleftrightarrow> i < 8" "bit (255 :: nat) i \<longleftrightarrow> i < 8"
    by (simp_all only: bit_mask_iff possible_bit_def) simp_all
qed

lemma low_byte_less: "8 < LENGTH('a) \<Longrightarrow> unat ((x :: 'a::len word) AND 0xff) < 256"
proof -
  assume len: "8 < LENGTH('a)"
  have "x AND 0xff = take_bit 8 x"
    by (rule bit_word_eqI) (auto simp: bit_simps bit_255)
  then have "unat (x AND 0xff) = take_bit 8 (unat x)"
    by (simp add: unsigned_take_bit_eq)
  also have "\<dots> < 2 ^ 8" by (rule take_bit_nat_less_exp)
  finally show ?thesis by simp
qed

text \<open>One table step is eight steps of the division, for any table of remainders.\<close>

lemma table_step_is_division:
  fixes acc P :: "'a::len word"
  assumes tab: "tab = map (poly_byte P) all_bytes" and len: "8 < LENGTH('a)"
  shows "tab ! unat ((acc XOR ucast b) AND 0xff) XOR drop_bit 8 acc = crc_byte P b acc"
proof -
  let ?x = "acc XOR ucast b"
  have high: "(poly_bit P ^^ 8) (?x AND NOT 0xff) = drop_bit 8 acc"
  proof -
    have "(poly_bit P ^^ 8) (?x AND NOT 0xff) = drop_bit 8 (?x AND NOT 0xff)"
      using len by (intro poly_bits_shift) (auto simp: bit_simps bit_255)
    also have "\<dots> = drop_bit 8 acc"
      by (rule bit_word_eqI) (auto simp: bit_simps bit_255 dest: bit_imp_le_length)
    finally show ?thesis .
  qed
  have "crc_byte P b acc = (poly_bit P ^^ 8) ((?x AND 0xff) XOR (?x AND NOT 0xff))"
    by (metis crc_byte_def split_low_byte)
  also have "\<dots> = (poly_bit P ^^ 8) (?x AND 0xff) XOR drop_bit 8 acc"
    by (simp only: poly_bits_xor high)
  also have "(poly_bit P ^^ 8) (?x AND 0xff) = tab ! unat (?x AND 0xff)"
    using table_nth [OF tab _ low_byte_less [OF len]] len by simp
  finally show ?thesis by (simp add: crc_byte_def)
qed

lemma crc32_step_is_division: "crc32_step CRC32C_TAB b acc = crc_byte 0x82F63B78 b acc"
  unfolding crc32_step_def by (rule table_step_is_division [OF crc32c_tab_remainders]) simp

lemma crc16_step_is_division: "crc16_step CRC16_TAB b acc = crc_byte 0xA001 b acc"
  unfolding crc16_step_def by (rule table_step_is_division [OF crc16_tab_remainders]) simp

text \<open>
  C30: the CRC-32C the code writes over any sequence of bytes is the remainder of the
  bit-serial division by the Castagnoli polynomial, started from any state.
\<close>

theorem crc32c_write_is_division:
  "hash32 (crc32c_write bytes c) = fold (crc_byte 0x82F63B78) bytes (hash32 c)"
proof -
  have "crc32_step CRC32C_TAB = crc_byte 0x82F63B78"
    by (intro ext crc32_step_is_division)
  then show ?thesis by (simp add: crc32c_write_def do_crc32_def)
qed

text \<open>
  the CRC-16 of a group descriptor is the bit-serial division by \<open>0xA001\<close>.
\<close>

theorem crc16_write_is_division:
  "hash16 (crc16_write bytes c) = fold (crc_byte 0xA001) bytes (hash16 c)"
proof -
  have "crc16_step CRC16_TAB = crc_byte 0xA001"
    by (intro ext crc16_step_is_division)
  then show ?thesis by (simp add: crc16_write_def do_crc16_def)
qed

text \<open>Hashing in pieces is hashing the concatenation, which the callers rely on.\<close>

lemma crc32c_write_append:
  "crc32c_write (xs @ ys) c = crc32c_write ys (crc32c_write xs c)"
  by (simp add: crc32c_write_def do_crc32_def)

lemma crc16_write_append:
  "crc16_write (xs @ ys) c = crc16_write ys (crc16_write xs c)"
  by (simp add: crc16_write_def do_crc16_def)

end
