(* ===== verification/Hasher.thy ===== *)
theory Hasher
  imports Byte_Rw
begin

text \<open>
  The directory name hash of \<open>src/hasher.rs\<close>: packing a name into big-endian words with a
  length padding (\<open>prepare_hash_buf\<close>), the half-MD4 compression of eight words, the loop
  over 32-byte chunks and \<open>finish\<close>. The legacy and TEA hashes are \<open>todo!()\<close> in the source,
  so they panic here.
\<close>

datatype hash_version = Legacy | HalfMd4 | Tea

definition hash_version_try_from :: "byte \<Rightarrow> hash_version option" where
  "hash_version_try_from v =
     (if v = 0 then Some Legacy else if v = 1 then Some HalfMd4
      else if v = 2 then Some Tea else None)"

text \<open>The function a hasher carries in \<open>do_hash\<close>.\<close>

datatype hash_fn =
  LegacyUnsignedHash | LegacyHash | HalfMd4UnsignedHash | HalfMd4SignedHash
  | TeaUnsignedHash | TeaHash

type_synonym md4_state = "32 word \<times> 32 word \<times> 32 word \<times> 32 word"

record ext4_hasher =
  hash :: md4_state
  major :: "32 word"
  minor :: "32 word"
  do_hash_fn :: hash_fn

definition hasher_new :: "md4_state \<Rightarrow> hash_fn \<Rightarrow> ext4_hasher" where
  "hasher_new seed f = \<lparr>hash = seed, major = 0, minor = 0, do_hash_fn = f\<rparr>"

definition get_hasher :: "hash_version \<Rightarrow> md4_state \<Rightarrow> bool \<Rightarrow> ext4_hasher" where
  "get_hasher v seed is_unsigned = (case v of
     Legacy \<Rightarrow> hasher_new seed (if is_unsigned then LegacyUnsignedHash else LegacyHash)
   | HalfMd4 \<Rightarrow> hasher_new seed (if is_unsigned then HalfMd4UnsignedHash else HalfMd4SignedHash)
   | Tea \<Rightarrow> hasher_new seed (if is_unsigned then TeaUnsignedHash else TeaHash))"

section \<open>Packing a name\<close>

definition hash_padding :: "nat \<Rightarrow> 32 word" where
  "hash_padding n =
     (let slen = of_nat n
      in slen OR push_bit 8 slen OR push_bit 16 slen OR push_bit 24 slen)"

definition hash_byte :: "bool \<Rightarrow> byte \<Rightarrow> 32 word" where
  "hash_byte is_unsigned b = (if is_unsigned then ucast b else scast b)"

text \<open>
  The body of the loop over \<open>bytes.iter().enumerate()\<close>; the loop state is the output array,
  the next output position and the word being filled. \<open>i.trailing_zeros() >= 2\<close> is
  \<open>4 dvd i\<close>, \<open>i.trailing_ones() >= 2\<close> is \<open>i mod 4 = 3\<close>.
\<close>

definition prepare_step ::
  "32 word \<Rightarrow> bool \<Rightarrow> nat \<times> byte \<Rightarrow> 32 word list \<times> nat \<times> 32 word \<Rightarrow> (32 word list \<times> nat \<times> 32 word) result"
  where
  "prepare_step padding is_unsigned = (\<lambda>(i, b) (dst, dpos, buf_val).
     let buf_val = (if i mod 4 = 0 then padding else buf_val)
     in rbind (add_chk (push_bit 8 buf_val) (hash_byte is_unsigned b)) (\<lambda>buf_val.
        if i mod 4 = 3
        then rbind (assertR (dpos < length dst)) (\<lambda>_. Inr (dst[dpos := buf_val], dpos + 1, padding))
        else Inr (dst, dpos, buf_val)))"

definition prepare_hash_buf :: "nat \<Rightarrow> bytes \<Rightarrow> bool \<Rightarrow> 32 word list result" where
  "prepare_hash_buf SIZE bs is_unsigned =
     (let slen = length bs;
          len = min slen (4 * SIZE);
          padding = hash_padding slen
      in rbind (for_each (enumerate 0 (take len bs)) (prepare_step padding is_unsigned)
            (replicate SIZE 0, 0, padding)) (\<lambda>(dst, dpos, buf_val).
         if dpos < length dst
         then Inr (take dpos dst @ [buf_val] @ replicate (length dst - (dpos + 1)) padding)
         else Inr dst))"

section \<open>Half MD4\<close>

definition md4_f :: "32 word \<Rightarrow> 32 word \<Rightarrow> 32 word \<Rightarrow> 32 word" where
  "md4_f x y z = (x AND y) OR (NOT x AND z)"

definition md4_g :: "32 word \<Rightarrow> 32 word \<Rightarrow> 32 word \<Rightarrow> 32 word" where
  "md4_g x y z = (x AND y) OR (x AND z) OR (y AND z)"

definition md4_h :: "32 word \<Rightarrow> 32 word \<Rightarrow> 32 word \<Rightarrow> 32 word" where
  "md4_h x y z = x XOR y XOR z"

definition md4_ff :: "32 word \<Rightarrow> 32 word \<Rightarrow> 32 word \<Rightarrow> 32 word \<Rightarrow> 32 word \<Rightarrow> nat \<Rightarrow> 32 word" where
  "md4_ff a b c d k s = word_rotl s (a + md4_f b c d + k)"

definition md4_gg :: "32 word \<Rightarrow> 32 word \<Rightarrow> 32 word \<Rightarrow> 32 word \<Rightarrow> 32 word \<Rightarrow> nat \<Rightarrow> 32 word" where
  "md4_gg a b c d k s = word_rotl s (a + md4_g b c d + k + 0x5A827999)"

definition md4_hh :: "32 word \<Rightarrow> 32 word \<Rightarrow> 32 word \<Rightarrow> 32 word \<Rightarrow> 32 word \<Rightarrow> nat \<Rightarrow> 32 word" where
  "md4_hh a b c d k s = word_rotl s (a + md4_h b c d + k + 0x6ED9EBA1)"

definition half_md4 :: "md4_state \<Rightarrow> 32 word list \<Rightarrow> md4_state" where
  "half_md4 hs data = (case hs of (h0, h1, h2, h3) \<Rightarrow>
     let a = h0; b = h1; c = h2; d = h3;
         \<comment> \<open>round 1\<close>
         a = md4_ff a b c d (data ! 0) 3;
         d = md4_ff d a b c (data ! 1) 7;
         c = md4_ff c d a b (data ! 2) 11;
         b = md4_ff b c d a (data ! 3) 19;
         a = md4_ff a b c d (data ! 4) 3;
         d = md4_ff d a b c (data ! 5) 7;
         c = md4_ff c d a b (data ! 6) 11;
         b = md4_ff b c d a (data ! 7) 19;
         \<comment> \<open>round 2\<close>
         a = md4_gg a b c d (data ! 1) 3;
         d = md4_gg d a b c (data ! 3) 5;
         c = md4_gg c d a b (data ! 5) 9;
         b = md4_gg b c d a (data ! 7) 13;
         a = md4_gg a b c d (data ! 0) 3;
         d = md4_gg d a b c (data ! 2) 5;
         c = md4_gg c d a b (data ! 4) 9;
         b = md4_gg b c d a (data ! 6) 13;
         \<comment> \<open>round 3\<close>
         a = md4_hh a b c d (data ! 3) 3;
         d = md4_hh d a b c (data ! 7) 9;
         c = md4_hh c d a b (data ! 2) 11;
         b = md4_hh b c d a (data ! 6) 15;
         a = md4_hh a b c d (data ! 1) 3;
         d = md4_hh d a b c (data ! 5) 9;
         c = md4_hh c d a b (data ! 0) 11;
         b = md4_hh b c d a (data ! 4) 15
     in (h0 + a, h1 + b, h2 + c, h3 + d))"

section \<open>Hashing a name\<close>

function do_hash_loop :: "bool \<Rightarrow> bytes \<Rightarrow> md4_state \<Rightarrow> md4_state result" where
  "do_hash_loop is_unsigned bs h =
     rbind (prepare_hash_buf 8 bs is_unsigned) (\<lambda>data.
       let h = half_md4 h data
       in if length bs \<le> 32 then Inr h else do_hash_loop is_unsigned (drop 32 bs) h)"
  by pat_completeness auto
termination
  by (relation "measure (\<lambda>(u, bs, h). length bs)") auto

declare do_hash_loop.simps [simp del]

definition half_md4_do_hash :: "ext4_hasher \<Rightarrow> bytes \<Rightarrow> bool \<Rightarrow> ext4_hasher result" where
  "half_md4_do_hash hasher bs is_unsigned =
     rmap (\<lambda>h. hasher\<lparr>hash := h, major := fst (snd h), minor := fst (snd (snd h))\<rparr>)
       (do_hash_loop is_unsigned bs (hash hasher))"

definition hasher_write :: "ext4_hasher \<Rightarrow> bytes \<Rightarrow> ext4_hasher result" where
  "hasher_write hasher bs = (case do_hash_fn hasher of
     HalfMd4UnsignedHash \<Rightarrow> half_md4_do_hash hasher bs True
   | HalfMd4SignedHash \<Rightarrow> half_md4_do_hash hasher bs False
   | _ \<Rightarrow> Inl Panic)"

definition EXT2_HTREE_EOF :: "32 word" where
  "EXT2_HTREE_EOF = 0x7FFFFFFF"

definition hasher_finish :: "ext4_hasher \<Rightarrow> 64 word" where
  "hasher_finish h =
     (let mj = major h AND 0xFFFFFFFE; mn = minor h
      in if mj = push_bit 1 EXT2_HTREE_EOF
         then push_bit 32 (ucast (push_bit 1 (EXT2_HTREE_EOF - 1))) OR ucast mn
         else push_bit 32 (ucast mj) OR ucast mn)"

text \<open>\<open>DirDxRoot::hash_of\<close>: the upper half of \<open>finish\<close> after one \<open>write\<close> of the name.\<close>

definition hash_of :: "ext4_hasher \<Rightarrow> bytes \<Rightarrow> 32 word result" where
  "hash_of hasher target =
     rmap (\<lambda>h. ucast (drop_bit 32 (hasher_finish h))) (hasher_write hasher target)"


section \<open>What the packing computes\<close>

text \<open>
  The reference packs each group of four bytes big-endian into one word, on top of the
  padding word, so that a short group keeps padding bytes in front.
\<close>

definition be_pack :: "32 word \<Rightarrow> bytes \<Rightarrow> 32 word" where
  "be_pack padding cs = foldl (\<lambda>w b. push_bit 8 w OR ucast b) padding cs"

definition packed_words :: "nat \<Rightarrow> bytes \<Rightarrow> 32 word list" where
  "packed_words SIZE bs =
     map (\<lambda>k. be_pack (hash_padding (length bs)) (take 4 (drop (4 * k) bs))) [0..<SIZE]"

text \<open>Bytes whose addition cannot overflow: all of them unsigned, ASCII ones signed.\<close>

definition plain_byte :: "bool \<Rightarrow> byte \<Rightarrow> bool" where
  "plain_byte is_unsigned b \<longleftrightarrow> is_unsigned \<or> b < 128"

lemma scast_ascii: "b < 128 \<Longrightarrow> (scast (b :: byte) :: 32 word) = ucast b"
proof (rule bit_word_eqI)
  fix n assume "b < 128" and n: "n < LENGTH(32)"
  then have "unat b < 2 ^ 7" by (simp add: word_less_nat_alt)
  then have "\<not> bit (unat b) 7" by (simp add: bit_iff_odd)
  then have "\<not> bit b 7" by (simp add: bit_unsigned_iff)
  then show "bit (scast b :: 32 word) n = bit (ucast b :: 32 word) n"
    using n by (cases "n < 8") (auto simp: bit_simps bit_signed_iff not_less dest: bit_imp_le_length)
qed

lemma push_8_plus_byte:
  "add_chk (push_bit 8 w) (ucast (b :: byte)) = Inr (push_bit 8 w OR (ucast b :: 32 word))"
proof -
  have "and (push_bit 8 w) (ucast b :: 32 word) = 0"
    by (rule bit_word_eqI) (auto simp: bit_simps dest: bit_imp_le_length)
  then have sum: "push_bit 8 w + (ucast b :: 32 word) = push_bit 8 w OR ucast b"
    by (simp add: disjunctive_add_eq_or)
  have "unat (push_bit 8 w) mod 256 = 0"
  proof -
    have "take_bit 8 (push_bit 8 w) = 0" by (rule bit_word_eqI) (auto simp: bit_simps)
    then have "take_bit 8 (unat (push_bit 8 w)) = 0"
      by (metis unsigned_take_bit_eq unsigned_0)
    then show ?thesis by (simp add: take_bit_eq_mod)
  qed
  moreover have "unat (push_bit 8 w) < 4294967296" using unsigned_less [of "push_bit 8 w"] by simp
  ultimately have "unat (push_bit 8 w) + 256 \<le> 4294967296" by presburger
  moreover have "unat (ucast b :: 32 word) < 256"
  proof -
    have "unat b < 2 ^ LENGTH(8)" by (rule unsigned_less)
    then show ?thesis by (simp add: unsigned_ucast_eq take_bit_nat_eq_self)
  qed
  ultimately show ?thesis by (simp add: add_chk_def sum)
qed

lemma plain_add:
  "plain_byte u b \<Longrightarrow> add_chk (push_bit 8 w) (hash_byte u b) = Inr (push_bit 8 w OR ucast b)"
  by (auto simp: plain_byte_def hash_byte_def scast_ascii push_8_plus_byte)

lemma prepare_step_plain:
  "plain_byte u b \<Longrightarrow> prepare_step pad u (i, b) (dst, k, w) =
    (let w' = push_bit 8 (if i mod 4 = 0 then pad else w) OR ucast b
     in if i mod 4 = 3
        then rbind (assertR (k < length dst)) (\<lambda>_. Inr (dst[k := w'], k + 1, pad))
        else Inr (dst, k, w'))"
  by (simp add: prepare_step_def Let_def plain_add)

text \<open>The loop from a group boundary: full groups are stored, a short one is left in hand.\<close>

fun pack_loop :: "32 word \<Rightarrow> bytes \<Rightarrow> 32 word list \<Rightarrow> nat \<Rightarrow> 32 word list \<times> nat \<times> 32 word" where
  "pack_loop pad (a # b # c # d # xs) dst k =
     pack_loop pad xs (dst[k := be_pack pad [a, b, c, d]]) (Suc k)"
| "pack_loop pad xs dst k = (dst, k, be_pack pad xs)"

lemma prepare_loop_packs:
  assumes "\<forall>b\<in>set xs. plain_byte u b" and "length xs \<le> 4 * (length dst - k)"
  shows "for_each (enumerate (4 * k) xs) (prepare_step pad u) (dst, k, pad) =
    Inr (pack_loop pad xs dst k)"
  using assms
proof (induction pad xs dst k rule: pack_loop.induct)
  case (1 pad a b c d xs dst k)
  have "k < length dst" using "1.prems"(2) by simp
  moreover have "length xs \<le> 4 * (length (dst[k := be_pack pad [a, b, c, d]]) - Suc k)"
    using "1.prems"(2) by simp
  moreover have "\<forall>b\<in>set xs. plain_byte u b" using "1.prems"(1) by simp
  moreover have suc: "4 * Suc k = Suc (Suc (Suc (Suc (4 * k))))" by simp
  ultimately show ?case
    using "1.IH" [unfolded suc] "1.prems"(1)
    by (simp add: prepare_step_plain be_pack_def Let_def mod_Suc numeral_3_eq_3)
qed (auto simp: be_pack_def prepare_step_plain Let_def mod_Suc)

lemma pack_loop_result:
  assumes "pack_loop pad xs dst k = (dst', k', w)" and "length xs \<le> 4 * (length dst - k)"
    and "k \<le> length dst"
  shows "length dst' = length dst \<and> k' = k + length xs div 4 \<and>
    w = be_pack pad (drop (4 * (length xs div 4)) xs) \<and>
    (\<forall>j < length dst. dst' ! j =
      (if k \<le> j \<and> j < k' then be_pack pad (take 4 (drop (4 * (j - k)) xs)) else dst ! j))"
  using assms
proof (induction pad xs dst k rule: pack_loop.induct)
  case (1 pad a b c d xs dst k)
  let ?dst = "dst[k := be_pack pad [a, b, c, d]]"
  have k: "k < length dst" and len: "length xs \<le> 4 * (length ?dst - Suc k)"
    using "1.prems" by auto
  have run: "pack_loop pad xs ?dst (Suc k) = (dst', k', w)" using "1.prems"(1) by simp
  have IH: "length dst' = length ?dst" "k' = Suc k + length xs div 4"
    "w = be_pack pad (drop (4 * (length xs div 4)) xs)"
    "\<And>j. j < length ?dst \<Longrightarrow> dst' ! j =
      (if Suc k \<le> j \<and> j < k' then be_pack pad (take 4 (drop (4 * (j - Suc k)) xs)) else ?dst ! j)"
    using "1.IH" [OF run len] k by auto
  have "dst' ! j = (if k \<le> j \<and> j < k' then be_pack pad (take 4 (drop (4 * (j - k)) (a # b # c # d # xs)))
      else dst ! j)" if j: "j < length dst" for j
  proof (cases "j = k")
    case True
    then show ?thesis using IH(2) IH(4) [of j] k by simp
  next
    case False
    have "drop (4 * (j - k)) (a # b # c # d # xs) = drop (4 * (j - Suc k)) xs" if "k < j"
    proof -
      have "4 * (j - k) = Suc (Suc (Suc (Suc (4 * (j - Suc k)))))" using that by simp
      then show ?thesis by simp
    qed
    with False show ?thesis using IH(4) [of j] j k by (cases "k < j") auto
  qed
  moreover have "length (a # b # c # d # xs) div 4 = Suc (length xs div 4)" by simp
  moreover have "4 * Suc (length xs div 4) = Suc (Suc (Suc (Suc (4 * (length xs div 4)))))" by simp
  then have "drop (4 * Suc (length xs div 4)) (a # b # c # d # xs) = drop (4 * (length xs div 4)) xs"
    by (simp only: drop_Suc_Cons)
  ultimately show ?case using IH(1-3) by (simp del: length_Cons)
qed auto

lemma prepare_hash_buf_packs_ok:
  assumes "\<forall>b\<in>set bs. is_unsigned \<or> b < 128"
  shows "prepare_hash_buf SIZE bs is_unsigned = Inr (packed_words SIZE bs)"
proof -
  let ?pad = "hash_padding (length bs)" and ?xs = "take (min (length bs) (4 * SIZE)) bs"
  let ?n = "length ?xs div 4"
  obtain dst' k' w where run: "pack_loop ?pad ?xs (replicate SIZE 0) 0 = (dst', k', w)"
    by (cases "pack_loop ?pad ?xs (replicate SIZE 0) 0") auto
  have loop: "for_each (enumerate 0 ?xs) (prepare_step ?pad is_unsigned)
      (replicate SIZE 0, 0, ?pad) = Inr (dst', k', w)"
    using prepare_loop_packs [of ?xs is_unsigned "replicate SIZE 0" 0 ?pad] assms run
    by (auto simp: plain_byte_def dest: in_set_takeD)
  have res: "length dst' = SIZE" "k' = ?n" "w = be_pack ?pad (drop (4 * ?n) ?xs)"
    "\<And>j. j < SIZE \<Longrightarrow> j < ?n \<Longrightarrow> dst' ! j = be_pack ?pad (take 4 (drop (4 * j) ?xs))"
    using pack_loop_result [OF run] by auto
  have groups: "take 4 (drop (4 * j) ?xs) = take 4 (drop (4 * j) bs)" if "j < SIZE" for j
    using that by (auto simp: min_def drop_take)
  have "prepare_hash_buf SIZE bs is_unsigned = Inr (if k' < SIZE
      then take k' dst' @ [w] @ replicate (SIZE - (k' + 1)) ?pad else dst')"
    using loop res(1) by (simp add: prepare_hash_buf_def Let_def)
  also have "(if k' < SIZE then take k' dst' @ [w] @ replicate (SIZE - (k' + 1)) ?pad else dst')
    = packed_words SIZE bs"
  proof (rule nth_equalityI)
    fix j assume "j < length (if k' < SIZE
      then take k' dst' @ [w] @ replicate (SIZE - (k' + 1)) ?pad else dst')"
    then have j: "j < SIZE" using res(1) by (auto split: if_splits)
    consider "j < ?n" | "j = ?n" | "?n < j" by linarith
    then show "(if k' < SIZE then take k' dst' @ [w] @ replicate (SIZE - (k' + 1)) ?pad else dst') ! j
      = packed_words SIZE bs ! j"
    proof cases
      case 1
      then show ?thesis using j res groups [OF j] by (auto simp: packed_words_def nth_append)
    next
      case 2
      have "drop (4 * ?n) ?xs = take 4 (drop (4 * ?n) ?xs)" by simp
      then show ?thesis using 2 j res groups [OF j]
        by (simp add: packed_words_def nth_append)
    next
      case 3
      then have "4 * j \<ge> length ?xs" by linarith
      then have "drop (4 * j) bs = []" using j by (auto simp: min_def split: if_splits)
      then have "packed_words SIZE bs ! j = ?pad"
        using j by (simp add: packed_words_def be_pack_def)
      moreover have "k' < j" using 3 res(2) by simp
      ultimately show ?thesis using j res(1) by (simp add: nth_append)
    qed
  qed (use res in \<open>simp add: packed_words_def\<close>)
  finally show ?thesis .
qed

text \<open>
  on unsigned hashing, and on signed hashing of ASCII names, the packing never panics
  and yields the big-endian groups of the name over the length padding.
\<close>

theorem prepare_hash_buf_packs:
  assumes "\<forall>b\<in>set bs. is_unsigned \<or> b < 128"
  shows "prepare_hash_buf SIZE bs is_unsigned = Inr (packed_words SIZE bs)"
  using assms by (rule prepare_hash_buf_packs_ok)

theorem prepare_hash_buf_packs_witness:
  "prepare_hash_buf 8 [0x61, 0x62, 0x63] False = Inr (packed_words 8 [0x61, 0x62, 0x63])"
  by (rule prepare_hash_buf_packs) simp

text \<open>
  A signed byte of value 128 and above is added as a number just below \<open>2 ^ 32\<close>, which
  overflows unless the word in hand is zero.
\<close>

lemma unat_scast_negative: "128 \<le> b \<Longrightarrow> unat (scast (b :: byte) :: 32 word) = 4294967040 + unat b"
proof -
  assume b: "128 \<le> b"
  have less: "unat b < 2 ^ LENGTH(8)" by (rule unsigned_less)
  have "unat b div 2 ^ 7 = 1" using b less by (simp add: word_le_nat_alt div_nat_eqI)
  then have "bit (unat b) 7" by (simp add: bit_iff_odd)
  then have b7: "bit b 7" by (simp add: bit_unsigned_iff)
  have bits: "(scast b :: 32 word) = push_bit 8 (mask 24) OR ucast b"
  proof (rule bit_word_eqI)
    fix n assume "n < LENGTH(32)"
    then consider "n < 7" | "n = 7" | "7 < n" "n < 32" by (cases "n < 7"; cases "n = 7") auto
    then show "bit (scast b :: 32 word) n = bit (push_bit 8 (mask 24) OR ucast b :: 32 word) n"
      using b7 by cases (auto simp: bit_simps min_def dest: bit_imp_le_length)
  qed
  have "push_bit 8 (mask 24) AND (ucast b :: 32 word) = 0"
    by (rule bit_word_eqI) (auto simp: bit_simps dest: bit_imp_le_length)
  then have "(scast b :: 32 word) = push_bit 8 (mask 24) + ucast b"
    by (simp add: bits disjunctive_add_eq_or)
  moreover have "(push_bit 8 (mask 24) :: 32 word) = 4294967040"
    by (simp add: mask_eq_exp_minus_1)
  moreover have "unat (ucast b :: 32 word) = unat b"
    using less by (simp add: unsigned_ucast_eq take_bit_nat_eq_self)
  ultimately show ?thesis using less by (simp add: unat_word_ariths)
qed

lemma push_8_padding_nonzero:
  assumes "0 < n" and "n < 256"
  shows "256 \<le> unat (push_bit 8 (hash_padding n))"
proof -
  obtain i where i: "bit n i" using assms(1) bit_eq_iff [of n 0] by auto
  have "i < 8"
  proof (rule ccontr)
    assume "\<not> i < 8"
    then have "(2 :: nat) ^ 8 \<le> 2 ^ i" by (intro power_increasing) auto
    with assms(2) i show False by (simp add: bit_iff_odd)
  qed
  with i have "bit (push_bit 8 (hash_padding n)) (i + 8)"
    by (simp add: hash_padding_def Let_def bit_simps)
  then have "bit (unat (push_bit 8 (hash_padding n))) (i + 8)"
    by (simp add: bit_unsigned_iff)
  then have "unat (push_bit 8 (hash_padding n)) div 2 ^ (i + 8) \<noteq> 0"
    by (metis bit_iff_odd even_zero)
  then have "2 ^ (i + 8) \<le> unat (push_bit 8 (hash_padding n))"
    by (meson div_less not_less)
  moreover have "(2 :: nat) ^ 8 \<le> 2 ^ (i + 8)" by (intro power_increasing) auto
  ultimately show ?thesis by simp
qed

text \<open>
  the signed hash, the one \<open>format\<close> selects, panics (overflow of \<open>buf_val += byte\<close>) on
  every name whose first byte is not ASCII.
\<close>

theorem signed_hash_panics_on_non_ascii:
  assumes "128 \<le> b" and "length (b # bs) < 256" and "0 < SIZE"
  shows "prepare_hash_buf SIZE (b # bs) False = Inl Panic"
proof -
  let ?pad = "hash_padding (length (b # bs))"
  have "256 \<le> unat (push_bit 8 ?pad)" using assms(2) by (intro push_8_padding_nonzero) auto
  moreover have "128 \<le> unat b" using assms(1) by (simp add: word_le_nat_alt)
  ultimately have "add_chk (push_bit 8 ?pad) (scast b :: 32 word) = Inl Panic"
    using unat_scast_negative [OF assms(1)] by (simp add: add_chk_def)
  then have "prepare_step ?pad False (0, b) st = Inl Panic" for st
    by (cases st) (simp add: prepare_step_def hash_byte_def)
  moreover obtain m where "min (length (b # bs)) (4 * SIZE) = Suc m"
    using assms(3) by (cases "min (length (b # bs)) (4 * SIZE)") auto
  ultimately show ?thesis by (simp add: prepare_hash_buf_def Let_def del: length_Cons)
qed

theorem signed_hash_panics_on_non_ascii_witness:
  "prepare_hash_buf 8 [0xC3, 0xA9] False = Inl Panic"
  by (rule signed_hash_panics_on_non_ascii) simp_all

section \<open>The hash value\<close>

text \<open>
  C33: the hash of a name always has its low bit clear and never is the end-of-directory
  mark, so \<open>hash + 1\<close> (the collision mark of the htree) does not overflow.
\<close>

theorem hash_of_leaves_collision_bit:
  assumes "hash_of hasher target = Inr h"
  shows "\<not> bit h 0 \<and> h \<le> 0xFFFFFFFC \<and> add_chk h 1 = Inr (h + 1)"
proof -
  obtain g where h: "h = ucast (drop_bit 32 (hasher_finish g))"
    using assms by (auto simp: hash_of_def rmap_Inr_iff)
  let ?m = "major g AND 0xFFFFFFFE"
  have upper: "ucast (drop_bit 32 (push_bit 32 (ucast x) OR ucast y :: 64 word)) = x"
    for x y :: "32 word"
    by (rule bit_word_eqI) (auto simp: bit_simps dest: bit_imp_le_length)
  have h': "h = (if ?m = 0xFFFFFFFE then 0xFFFFFFFC else ?m)"
    using upper [of "0xFFFFFFFC" "minor g"] upper [of ?m "minor g"]
    by (simp add: h hasher_finish_def Let_def EXT2_HTREE_EOF_def)
  have low: "\<not> bit h 0" unfolding h' by (simp add: bit_simps)
  have le: "h \<le> 0xFFFFFFFE" and ne: "h \<noteq> 0xFFFFFFFE"
    unfolding h' using word_and_le1 [of "0xFFFFFFFE" "major g"] word_and_le2 [of "0xFFFFFFFE" "major g"]
    by (auto simp: and.commute)
  from low have "\<not> bit (unat h) 0" by (simp add: bit_unsigned_iff)
  then have "even (unat h)" by (simp add: bit_0)
  moreover have "unat h < 4294967294"
    using le ne word_unat_eq_iff [of h "0xFFFFFFFE"] by (simp add: word_le_nat_alt)
  ultimately have u: "unat h \<le> 4294967292" by presburger
  then have "h \<le> 0xFFFFFFFC" by (simp add: word_le_nat_alt)
  moreover have "add_chk h 1 = Inr (h + 1)" using u by (simp add: add_chk_def)
  ultimately show ?thesis using low by blast
qed

definition ascii_hasher :: ext4_hasher where
  "ascii_hasher = \<lparr>hash = (1, 2, 3, 4), major = 0, minor = 0, do_hash_fn = HalfMd4UnsignedHash\<rparr>"

lemma hash_of_leaves_collision_bit_witness:
  "\<exists>h. hash_of ascii_hasher [0x61] = Inr h \<and> \<not> bit h 0 \<and> h \<le> 0xFFFFFFFC"
proof -
  have "prepare_hash_buf 8 [0x61] True = Inr (packed_words 8 [0x61])"
    by (rule prepare_hash_buf_packs_ok) simp
  then obtain h where "hash_of ascii_hasher [0x61] = Inr h"
    by (simp add: hash_of_def hasher_write_def ascii_hasher_def half_md4_do_hash_def do_hash_loop.simps)
  with hash_of_leaves_collision_bit [OF this] show ?thesis by blast
qed

end
