(* ===== verification/Fs_Types.thy ===== *)
theory Fs_Types
  imports Byte_Rw
begin

text \<open>
  File types and mode bits (\<open>fs-core/src/lib.rs\<close>), the on-disk directory entry types and
  inode flags (\<open>src/inode/mod.rs\<close>) with their conversions.
\<close>

datatype file_type =
  Unknown | RegularFile | Directory | CharacterDev | BlockDev | Fifo | Socket | Symlink

definition file_type_to_u8 :: "file_type \<Rightarrow> byte" where
  "file_type_to_u8 ft = (case ft of
     Unknown \<Rightarrow> 0 | RegularFile \<Rightarrow> 1 | Directory \<Rightarrow> 2 | CharacterDev \<Rightarrow> 3
   | BlockDev \<Rightarrow> 4 | Fifo \<Rightarrow> 5 | Socket \<Rightarrow> 6 | Symlink \<Rightarrow> 7)"

definition file_type_from_u8 :: "byte \<Rightarrow> file_type" where
  "file_type_from_u8 v =
     (if v = 1 then RegularFile
      else if v = 2 then Directory
      else if v = 3 then CharacterDev
      else if v = 4 then BlockDev
      else if v = 5 then Fifo
      else if v = 6 then Socket
      else if v = 7 then Symlink
      else Unknown)"

lemma file_type_u8_roundtrip: "file_type_from_u8 (file_type_to_u8 ft) = ft"
  by (cases ft) (simp_all add: file_type_from_u8_def file_type_to_u8_def)

section \<open>Flag sets\<close>

text \<open>
  The \<open>bitflags!\<close> types: a set of flags is a 32 bit word, \<open>contains\<close> tests that all bits of
  a flag are present, \<open>from_bits_truncate\<close> drops the bits that no flag names.
\<close>

definition contains_flag :: "32 word \<Rightarrow> 32 word \<Rightarrow> bool" where
  "contains_flag s f \<longleftrightarrow> s AND f = f"

definition flag_union :: "32 word list \<Rightarrow> 32 word" where
  "flag_union fs = foldr (OR) fs 0"

definition from_bits_truncate :: "32 word list \<Rightarrow> 32 word \<Rightarrow> 32 word" where
  "from_bits_truncate fs w = w AND flag_union fs"

lemma contains_flag_truncate:
  assumes "f \<in> set fs"
  shows "contains_flag (from_bits_truncate fs w) f \<longleftrightarrow> contains_flag w f"
proof -
  have "flag_union fs AND f = f"
    using assms
  proof (induction fs)
    case (Cons a fs)
    then show ?case
      by (auto simp: flag_union_def bit_eq_iff bit_simps)
  qed simp
  then have "(w AND flag_union fs) AND f = w AND f"
    by (simp add: and.assoc)
  then show ?thesis by (simp add: contains_flag_def from_bits_truncate_def)
qed

datatype inode_flag =
    SECRM | UNRM | COMPR | SYNC | IMMUTABLE | APPEND | NODUMP | NOATIME | DIRTY | COMPRBLK
  | NOCOMPR | ECOMPR | INDEX | IMAGIC | JOURNAL_DATA | NOTAIL | DIRSYNC | TOPDIR | HUGE_FILE
  | EXTENTS | EA_INODE | EOFBLOCKS | RESERVED

fun inode_flag_bits :: "inode_flag \<Rightarrow> 32 word" where
  "inode_flag_bits SECRM = 0x00000001"
| "inode_flag_bits UNRM = 0x00000002"
| "inode_flag_bits COMPR = 0x00000004"
| "inode_flag_bits SYNC = 0x00000008"
| "inode_flag_bits IMMUTABLE = 0x00000010"
| "inode_flag_bits APPEND = 0x00000020"
| "inode_flag_bits NODUMP = 0x00000040"
| "inode_flag_bits NOATIME = 0x00000080"
| "inode_flag_bits DIRTY = 0x00000100"
| "inode_flag_bits COMPRBLK = 0x00000200"
| "inode_flag_bits NOCOMPR = 0x00000400"
| "inode_flag_bits ECOMPR = 0x00000800"
| "inode_flag_bits INDEX = 0x00001000"
| "inode_flag_bits IMAGIC = 0x00002000"
| "inode_flag_bits JOURNAL_DATA = 0x00004000"
| "inode_flag_bits NOTAIL = 0x00008000"
| "inode_flag_bits DIRSYNC = 0x00010000"
| "inode_flag_bits TOPDIR = 0x00020000"
| "inode_flag_bits HUGE_FILE = 0x00040000"
| "inode_flag_bits EXTENTS = 0x00080000"
| "inode_flag_bits EA_INODE = 0x00200000"
| "inode_flag_bits EOFBLOCKS = 0x00400000"
| "inode_flag_bits RESERVED = 0x80000000"

definition all_inode_flags :: "32 word list" where
  "all_inode_flags = map inode_flag_bits
     [SECRM, UNRM, COMPR, SYNC, IMMUTABLE, APPEND, NODUMP, NOATIME, DIRTY, COMPRBLK, NOCOMPR,
      ECOMPR, INDEX, IMAGIC, JOURNAL_DATA, NOTAIL, DIRSYNC, TOPDIR, HUGE_FILE, EXTENTS,
      EA_INODE, EOFBLOCKS, RESERVED]"

datatype inode_mode =
  XOTH | WOTH | ROTH | XGRP | WGRP | RGRP | XUSR | WUSR | RUSR | SVTX | SGID | SUID

fun inode_mode_bits :: "inode_mode \<Rightarrow> 32 word" where
  "inode_mode_bits XOTH = 1"
| "inode_mode_bits WOTH = 2"
| "inode_mode_bits ROTH = 4"
| "inode_mode_bits XGRP = 8"
| "inode_mode_bits WGRP = 16"
| "inode_mode_bits RGRP = 32"
| "inode_mode_bits XUSR = 64"
| "inode_mode_bits WUSR = 128"
| "inode_mode_bits RUSR = 256"
| "inode_mode_bits SVTX = 512"
| "inode_mode_bits SGID = 1024"
| "inode_mode_bits SUID = 2048"

definition all_inode_modes :: "32 word list" where
  "all_inode_modes = map inode_mode_bits
     [XOTH, WOTH, ROTH, XGRP, WGRP, RGRP, XUSR, WUSR, RUSR, SVTX, SGID, SUID]"

section \<open>Directory entry types\<close>

datatype ext4_de =
    DeUnknown | DeRegularFile | DeDirectory | DeCharacterDev | DeBlockDev | DeFifo | DeSocket
  | DeSymlink | DeCheckSum

definition ext4_de_to_u8 :: "ext4_de \<Rightarrow> byte" where
  "ext4_de_to_u8 d = (case d of
     DeUnknown \<Rightarrow> 0 | DeRegularFile \<Rightarrow> 1 | DeDirectory \<Rightarrow> 2 | DeCharacterDev \<Rightarrow> 3
   | DeBlockDev \<Rightarrow> 4 | DeFifo \<Rightarrow> 5 | DeSocket \<Rightarrow> 6 | DeSymlink \<Rightarrow> 7 | DeCheckSum \<Rightarrow> 0xDE)"

text \<open>\<open>Ext4De::try_from\<close>, generated from the discriminants of the enum.\<close>

definition ext4_de_try_from :: "byte \<Rightarrow> ext4_de option" where
  "ext4_de_try_from v =
     (if v = 0 then Some DeUnknown
      else if v = 1 then Some DeRegularFile
      else if v = 2 then Some DeDirectory
      else if v = 3 then Some DeCharacterDev
      else if v = 4 then Some DeBlockDev
      else if v = 5 then Some DeFifo
      else if v = 6 then Some DeSocket
      else if v = 7 then Some DeSymlink
      else if v = 0xDE then Some DeCheckSum
      else None)"

lemma ext4_de_try_from_to_u8 [simp]: "ext4_de_try_from (ext4_de_to_u8 d) = Some d"
  by (cases d) (simp_all add: ext4_de_try_from_def ext4_de_to_u8_def)

definition de_from_file_type :: "file_type \<Rightarrow> ext4_de" where
  "de_from_file_type ft = (case ft of
     RegularFile \<Rightarrow> DeRegularFile
   | Directory \<Rightarrow> DeDirectory
   | CharacterDev \<Rightarrow> DeCharacterDev
   | BlockDev \<Rightarrow> DeBlockDev
   | Fifo \<Rightarrow> DeFifo
   | Socket \<Rightarrow> DeSocket
   | Symlink \<Rightarrow> DeSymlink
   | Unknown \<Rightarrow> DeUnknown)"

definition de_into_file_type :: "ext4_de \<Rightarrow> file_type" where
  "de_into_file_type d = (case d of
     DeRegularFile \<Rightarrow> RegularFile
   | DeDirectory \<Rightarrow> Directory
   | DeCharacterDev \<Rightarrow> CharacterDev
   | DeBlockDev \<Rightarrow> BlockDev
   | DeFifo \<Rightarrow> Fifo
   | DeSocket \<Rightarrow> Socket
   | DeSymlink \<Rightarrow> Symlink
   | _ \<Rightarrow> Unknown)"

lemma de_file_type_roundtrip [simp]: "de_into_file_type (de_from_file_type ft) = ft"
  by (cases ft) (simp_all add: de_into_file_type_def de_from_file_type_def)

lemma de_from_file_type_not_checksum [simp]: "de_from_file_type ft \<noteq> DeCheckSum"
  by (cases ft) (simp_all add: de_from_file_type_def)

definition default_mode :: "ext4_de \<Rightarrow> 32 word result" where
  "default_mode d = (case d of
     DeFifo \<Rightarrow> Inr (flag_union (map inode_mode_bits [WOTH, ROTH, WGRP, RGRP, WUSR, RUSR]))
   | DeCharacterDev \<Rightarrow> Inr (flag_union (map inode_mode_bits [WOTH, ROTH, WGRP, RGRP, WUSR, RUSR]))
   | DeBlockDev \<Rightarrow> Inr (flag_union (map inode_mode_bits [WOTH, ROTH, WGRP, RGRP, WUSR, RUSR]))
   | DeRegularFile \<Rightarrow> Inr (flag_union (map inode_mode_bits [WOTH, ROTH, WGRP, RGRP, WUSR, RUSR]))
   | DeSocket \<Rightarrow> Inr (flag_union (map inode_mode_bits [WOTH, ROTH, WGRP, RGRP, WUSR, RUSR]))
   | DeDirectory \<Rightarrow> Inr (flag_union (map inode_mode_bits
       [XOTH, WOTH, ROTH, XGRP, WGRP, RGRP, XUSR, WUSR, RUSR]))
   | DeSymlink \<Rightarrow> Inr (flag_union (map inode_mode_bits
       [XOTH, WOTH, ROTH, XGRP, WGRP, RGRP, XUSR, WUSR, RUSR]))
   | _ \<Rightarrow> Inl Panic)"

section \<open>Results of block addressing\<close>

datatype addressing_output = Uninitialized | Initialized nat

definition get_initialized :: "addressing_output \<Rightarrow> nat option" where
  "get_initialized a = (case a of Initialized lba \<Rightarrow> Some lba | Uninitialized \<Rightarrow> None)"

end
