(* ===== verification/Dir_Entry.thy ===== *)
theory Dir_Entry
  imports Fs_Types Byte_Rw
begin

text \<open>
  One directory entry (\<open>src/directory/entry.rs\<close>): \<open>inode: u32, entry_len: u16\<close>, the length of
  the name in two bytes (version 1) or in one byte followed by the file type (version 2), and
  the name. An entry is a reference into its block: it holds all bytes from its start to the
  end of the block, and its operations return those bytes changed.
\<close>

section \<open>UTF-8\<close>

text \<open>\<open>core::str::from_utf8\<close> succeeds on exactly these byte strings.\<close>

definition cont_byte :: "byte \<Rightarrow> bool" where
  "cont_byte b \<longleftrightarrow> 0x80 \<le> b \<and> b \<le> 0xBF"

fun utf8_valid :: "bytes \<Rightarrow> bool" where
  "utf8_valid [] = True"
| "utf8_valid (b0 # bs) =
     (if b0 < 0x80 then utf8_valid bs
      else case bs of
        [] \<Rightarrow> False
      | b1 # bs1 \<Rightarrow>
          if 0xC2 \<le> b0 \<and> b0 \<le> 0xDF then cont_byte b1 \<and> utf8_valid bs1
          else case bs1 of
            [] \<Rightarrow> False
          | b2 # bs2 \<Rightarrow>
              if 0xE0 \<le> b0 \<and> b0 \<le> 0xEF
              then cont_byte b1 \<and> cont_byte b2 \<and> (b0 = 0xE0 \<longrightarrow> 0xA0 \<le> b1) \<and> (b0 = 0xED \<longrightarrow> b1 \<le> 0x9F) \<and>
                   utf8_valid bs2
              else case bs2 of
                [] \<Rightarrow> False
              | b3 # bs3 \<Rightarrow>
                  0xF0 \<le> b0 \<and> b0 \<le> 0xF4 \<and> cont_byte b1 \<and> cont_byte b2 \<and> cont_byte b3 \<and>
                  (b0 = 0xF0 \<longrightarrow> 0x90 \<le> b1) \<and> (b0 = 0xF4 \<longrightarrow> b1 \<le> 0x8F) \<and> utf8_valid bs3)"

lemma utf8_valid_ascii: "(\<forall>b\<in>set bs. b < 0x80) \<Longrightarrow> utf8_valid bs"
  by (induction bs) auto

section \<open>Entries\<close>

datatype dirent_ref = V1 (de_inner: bytes) | V2 (de_inner: bytes)

definition de_new :: "bool \<Rightarrow> bytes \<Rightarrow> dirent_ref" where
  "de_new is_version2 r = (if is_version2 then V2 r else V1 r)"

definition get_inode_no :: "dirent_ref \<Rightarrow> 32 word result" where
  "get_inode_no en = read_u32 (de_inner en) 0"

definition get_entry_len :: "dirent_ref \<Rightarrow> nat result" where
  "get_entry_len en = rmap unat (read_u16 (de_inner en) 4)"

definition get_name_len :: "dirent_ref \<Rightarrow> nat result" where
  "get_name_len en = (case en of
     V1 r \<Rightarrow> rmap unat (read_u16 r 6)
   | V2 r \<Rightarrow> rmap unat (read_u8 r 6))"

definition get_name :: "dirent_ref \<Rightarrow> bytes result" where
  "get_name en =
     rbind (get_name_len en) (\<lambda>n.
     rbind (assertR (8 + n \<le> length (de_inner en))) (\<lambda>_.
     let name = take n (drop 8 (de_inner en))
     in rbind (assertR (utf8_valid name)) (\<lambda>_. Inr name)))"

definition get_file_type :: "dirent_ref \<Rightarrow> ext4_de option result" where
  "get_file_type en = (case en of
     V1 r \<Rightarrow> Inr None
   | V2 r \<Rightarrow> rmap ext4_de_try_from (read_u8 r 7))"

text \<open>Assigning to the entry's bytes keeps its version.\<close>

definition de_update :: "(bytes \<Rightarrow> bytes result) \<Rightarrow> dirent_ref \<Rightarrow> dirent_ref result" where
  "de_update f en = (case en of V1 r \<Rightarrow> rmap V1 (f r) | V2 r \<Rightarrow> rmap V2 (f r))"

definition set_inode_no :: "32 word \<Rightarrow> dirent_ref \<Rightarrow> dirent_ref result" where
  "set_inode_no ino = de_update (write_u32 0 ino)"

definition set_entry_len :: "16 word \<Rightarrow> dirent_ref \<Rightarrow> dirent_ref result" where
  "set_entry_len l = de_update (write_u16 4 l)"

definition write_slice :: "nat \<Rightarrow> bytes \<Rightarrow> bytes \<Rightarrow> bytes result" where
  "write_slice p v b = (if p + length v \<le> length b then Inr (splice b p v) else Inl Panic)"

definition set_name :: "bytes \<Rightarrow> dirent_ref \<Rightarrow> dirent_ref result" where
  "set_name name en = (case en of
     V1 r \<Rightarrow> rbind (chk 16 (length name)) (\<lambda>n.
             rmap V1 (rbind (write_u16 6 (of_nat n) r) (write_slice 8 name)))
   | V2 r \<Rightarrow> rbind (chk 8 (length name)) (\<lambda>n.
             rmap V2 (rbind (write_u8 6 (of_nat n) r) (write_slice 8 name))))"

definition set_type :: "ext4_de option \<Rightarrow> dirent_ref \<Rightarrow> dirent_ref result" where
  "set_type de en = (case en of
     V1 r \<Rightarrow> Inr en
   | V2 r \<Rightarrow> rbind (unwrap de) (\<lambda>d. rmap V2 (write_u8 7 (ext4_de_to_u8 d) r)))"

text \<open>\<open>(11 + n) & !3\<close>: the bytes an entry with a name of \<open>n\<close> bytes needs.\<close>

definition entry_size :: "nat \<Rightarrow> nat" where
  "entry_size n = (11 + n) div 4 * 4"

lemma entry_size_bounds: "n + 8 \<le> entry_size n" "entry_size n \<le> n + 11"
  unfolding entry_size_def by linarith+

lemma entry_size_and_not_3: "entry_size n = (11 + n) - ((11 + n) AND 3)"
proof -
  have "(11 + n) AND 3 = (11 + n) mod 4"
    using take_bit_eq_mask [of 2 "11 + n"] by (simp add: take_bit_eq_mod mask_eq_exp_minus_1)
  then show ?thesis using minus_mod_eq_div_mult [of "11 + n" 4] by (simp add: entry_size_def)
qed

text \<open>\<open>split\<close> shortens the entry to what its name needs and returns the rest as an entry; the bytes
  before that rest are the first component.\<close>

definition split_entry :: "dirent_ref \<Rightarrow> (bytes \<times> dirent_ref) result" where
  "split_entry en =
     rbind (get_name_len en) (\<lambda>name_len.
     rbind (get_entry_len en) (\<lambda>entry_len.
     let new_len = entry_size name_len
     in rbind (set_entry_len (of_nat new_len) en) (\<lambda>en.
        rbind (assertR (new_len \<le> length (de_inner en))) (\<lambda>_.
        let new = (case en of V1 r \<Rightarrow> V1 (drop new_len r) | V2 r \<Rightarrow> V2 (drop new_len r))
        in rbind (sub_nat entry_len new_len) (\<lambda>l.
           rbind (set_entry_len (of_nat l) new) (\<lambda>new.
           Inr (take new_len (de_inner en), new)))))))"

end
