(* ===== verification/Dir_Block.thy ===== *)
theory Dir_Block
  imports Dir_Entry
begin

text \<open>
  A block of directory entries (\<open>src/directory/block.rs\<close>): iteration, insertion with splitting
  of an entry that has room, and removal, which merges the entry into the one before it. The
  lookup and removal loops over one block are those of \<open>linear.rs\<close> and \<open>htree/node.rs\<close>.
  \<open>v2\<close> is the block's \<open>is_version2\<close>, \<open>b\<close> its bytes, of length \<open>BLK_SIZE\<close>.
\<close>

section \<open>Reading\<close>

definition en_at :: "bool \<Rightarrow> bytes \<Rightarrow> nat \<Rightarrow> dirent_ref result" where
  "en_at v2 b pos = rbind (assertR (pos \<le> length b)) (\<lambda>_. Inr (de_new v2 (drop pos b)))"

text \<open>\<open>None\<close> is the \<open>Err(())\<close> of a name that does not fit the block.\<close>

definition read_entry_at :: "bool \<Rightarrow> bytes \<Rightarrow> nat \<Rightarrow> dirent_ref option result" where
  "read_entry_at v2 b pos =
     rbind (en_at v2 b pos) (\<lambda>en.
     rbind (sub_nat (length b) pos) (\<lambda>k.
     rbind (sub_nat k 8) (\<lambda>k.
     rbind (get_name_len en) (\<lambda>n. Inr (if k < n then None else Some en)))))"

text \<open>
  \<open>DirectoryBlockIterator::next\<close>: the item and the iterator's new \<open>pos\<close> and \<open>stopped\<close>. An item
  is an entry in use or an error.
\<close>

function dir_next ::
  "bool \<Rightarrow> bytes \<Rightarrow> nat \<Rightarrow> bool \<Rightarrow> ((fs_error + dirent_ref) option \<times> nat \<times> bool) result" where
  "dir_next v2 b pos stopped =
     (if \<not> stopped \<and> pos + 8 \<le> length b
      then (case read_entry_at v2 b pos of
              Inl e \<Rightarrow> Inl e
            | Inr None \<Rightarrow> Inr (Some (Inl Fixme), pos, True)
            | Inr (Some en) \<Rightarrow>
               (case (get_entry_len en, get_inode_no en) of
                  (Inr l, Inr ino) \<Rightarrow>
                    if l = 0 then Inl Panic
                    else if ino \<noteq> 0 then Inr (Some (Inr en), pos + l, stopped)
                    else dir_next v2 b (pos + l) stopped
                | _ \<Rightarrow> Inl Panic))
      else Inr (None, pos, stopped))"
  by pat_completeness auto
termination by (relation "measure (\<lambda>(v2, b, pos, stopped). length b - pos)") auto

declare dir_next.simps [simp del]

lemma dir_next_progress:
  "dir_next v2 b pos stopped = Inr (Some (Inr en), pos', st) \<Longrightarrow> pos < pos' \<and> pos < length b"
proof (induction v2 b pos stopped rule: dir_next.induct)
  case (1 v2 b pos stopped)
  from 1(2) 1(1) show ?case
    by (auto simp: dir_next.simps [of v2 b pos stopped] split: sum.splits option.splits if_splits)
      (fastforce dest: add_lessD1)+
qed

text \<open>The loop \<open>for entry in block.iter() { let entry = entry?; .. }\<close> that returns early with the
  first entry of the given name.\<close>

function dir_find_from :: "bool \<Rightarrow> bytes \<Rightarrow> bytes \<Rightarrow> nat \<Rightarrow> dirent_ref option result" where
  "dir_find_from v2 target b pos =
     (case dir_next v2 b pos False of
        Inl e \<Rightarrow> Inl e
      | Inr (None, _, _) \<Rightarrow> Inr None
      | Inr (Some (Inl e), _, _) \<Rightarrow> Inl (Fs e)
      | Inr (Some (Inr en), pos', _) \<Rightarrow>
          (case (get_name en, get_inode_no en) of
             (Inr name, Inr ino) \<Rightarrow>
               if name = target \<and> ino \<noteq> 0 then Inr (Some en) else dir_find_from v2 target b pos'
           | _ \<Rightarrow> Inl Panic))"
  by pat_completeness auto
termination
  by (relation "measure (\<lambda>(v2, target, b, pos). length b - pos)")
    (auto dest!: dir_next_progress)

declare dir_find_from.simps [simp del]

definition dir_find :: "bool \<Rightarrow> bytes \<Rightarrow> bytes \<Rightarrow> (32 word \<times> file_type option) option result" where
  "dir_find v2 target b =
     rbind (dir_find_from v2 target b 0) (\<lambda>r. case r of
       None \<Rightarrow> Inr None
     | Some en \<Rightarrow>
         rbind (get_inode_no en) (\<lambda>ino.
         rbind (get_file_type en) (\<lambda>ft. Inr (Some (ino, map_option de_into_file_type ft)))))"

section \<open>Changing\<close>

text \<open>Assigning through the reference to the entry at \<open>pos\<close>.\<close>

definition en_modify :: "bool \<Rightarrow> nat \<Rightarrow> (dirent_ref \<Rightarrow> dirent_ref result) \<Rightarrow> bytes \<Rightarrow> bytes result" where
  "en_modify v2 pos f b =
     rbind (en_at v2 b pos) (\<lambda>en. rmap (\<lambda>en. take pos b @ de_inner en) (f en))"

definition dir_clear :: "bytes \<Rightarrow> bytes result" where
  "dir_clear b =
     rbind (write_u32 0 0 b) (\<lambda>b'.
     rbind (write_u16 4 (of_nat (length b)) b') (\<lambda>b'.
     write_u16 0 0 b'))"

text \<open>
  \<open>DirectoryBlockIteratorMut::next\<close>: the positions of the entry and of the one before it, and
  the iterator's new position (\<open>ppos\<close> becomes the entry's). Every caller returns the error.
\<close>

definition iter_mut_next :: "bool \<Rightarrow> bytes \<Rightarrow> nat \<Rightarrow> nat option \<Rightarrow> ((nat option \<times> nat) \<times> nat) option result"
  where
  "iter_mut_next v2 b pos ppos =
     (if pos + 8 \<le> length b
      then rbind (en_at v2 b pos) (\<lambda>en.
           rbind (get_entry_len en) (\<lambda>l.
           rbind (get_name_len en) (\<lambda>n.
           if pos + l \<le> length b \<and> n + 8 \<le> l
           then Inr (Some ((ppos, pos), pos + l))
           else Inl (Fs (InvalidFs ''Directory block is corrupted'')))))
      else Inr None)"

lemma iter_mut_next_less:
  "iter_mut_next v2 b pos ppos = Inr (Some (c, pos')) \<Longrightarrow> pos < pos' \<and> pos' \<le> length b"
  by (auto simp: iter_mut_next_def rbind_Inr_iff split: if_splits)

definition fill_entry :: "bytes \<Rightarrow> ext4_de option \<Rightarrow> 32 word \<Rightarrow> dirent_ref \<Rightarrow> dirent_ref result" where
  "fill_entry entry de child en =
     rbind (set_inode_no child en) (\<lambda>en. rbind (set_type de en) (set_name entry))"

text \<open>The body of the loop of \<open>insert_entry\<close> on one entry: \<open>None\<close> is \<open>continue\<close>, otherwise the bytes
  from the entry's start on.\<close>

definition insert_into ::
  "bytes \<Rightarrow> ext4_de option \<Rightarrow> 32 word \<Rightarrow> dirent_ref \<Rightarrow> bytes option result" where
  "insert_into entry de child en =
     rbind (get_inode_no en) (\<lambda>ino.
     rbind (get_file_type en) (\<lambda>ft.
     rbind (get_entry_len en) (\<lambda>elen.
     rbind (get_name_len en) (\<lambda>nlen.
     if ino = 0 \<and> ft \<noteq> Some DeCheckSum \<and> entry_size (length entry) \<le> elen
     then rmap (\<lambda>en. Some (de_inner en)) (fill_entry entry de child en)
     else if ino \<noteq> 0 \<and> entry_size (length entry) + entry_size nlen \<le> elen
     then rbind (split_entry en) (\<lambda>(before, new).
          rmap (\<lambda>new. Some (before @ de_inner new)) (fill_entry entry de child new))
     else Inr None))))"

function insert_loop ::
  "bool \<Rightarrow> bytes \<Rightarrow> ext4_de option \<Rightarrow> 32 word \<Rightarrow> bytes \<Rightarrow> nat \<Rightarrow> nat option \<Rightarrow> (bool \<times> bytes) result"
  where
  "insert_loop v2 entry de child b pos ppos =
     (case iter_mut_next v2 b pos ppos of
        Inl e \<Rightarrow> Inl e
      | Inr None \<Rightarrow> Inr (False, b)
      | Inr (Some ((_, cur), pos')) \<Rightarrow>
          (case rbind (en_at v2 b cur) (insert_into entry de child) of
             Inl e \<Rightarrow> Inl e
           | Inr (Some r) \<Rightarrow> Inr (True, take cur b @ r)
           | Inr None \<Rightarrow> insert_loop v2 entry de child b pos' (Some pos)))"
  by pat_completeness auto
termination
  by (relation "measure (\<lambda>(v2, entry, de, child, b, pos, ppos). length b - pos)")
    (auto dest!: iter_mut_next_less)

declare insert_loop.simps [simp del]

definition insert_entry ::
  "bool \<Rightarrow> bytes \<Rightarrow> file_type option \<Rightarrow> 32 word \<Rightarrow> bytes \<Rightarrow> (bool \<times> bytes) result" where
  "insert_entry v2 entry de child b = insert_loop v2 entry (map_option de_from_file_type de) child b 0 None"

text \<open>\<open>destroy\<close> on the cursor at \<open>pos\<close>.\<close>

definition destroy :: "bool \<Rightarrow> nat option \<Rightarrow> nat \<Rightarrow> bytes \<Rightarrow> (32 word \<times> bytes) result" where
  "destroy v2 ppos pos b =
     rbind (en_at v2 b pos) (\<lambda>cur.
     rbind (get_inode_no cur) (\<lambda>ino.
     rbind (get_entry_len cur) (\<lambda>len.
     rbind (en_modify v2 pos (set_inode_no 0) b) (\<lambda>b.
     rmap (Pair ino) (case ppos of
       None \<Rightarrow> Inr b
     | Some p \<Rightarrow> en_modify v2 p
         (\<lambda>prev. rbind (get_entry_len prev) (\<lambda>l. set_entry_len (of_nat (l + len)) prev)) b)))))"

text \<open>The loop that removes the first entry in use of the given name; \<open>None\<close> when there is none.\<close>

function remove_loop ::
  "bool \<Rightarrow> bytes \<Rightarrow> bytes \<Rightarrow> nat \<Rightarrow> nat option \<Rightarrow> (32 word \<times> bytes) option result" where
  "remove_loop v2 target b pos ppos =
     (case iter_mut_next v2 b pos ppos of
        Inl e \<Rightarrow> Inl e
      | Inr None \<Rightarrow> Inr None
      | Inr (Some ((prev, cur), pos')) \<Rightarrow>
          (case rbind (en_at v2 b cur) (\<lambda>en. rbind (get_name en) (\<lambda>name.
                  rmap (Pair name) (get_inode_no en))) of
             Inl e \<Rightarrow> Inl e
           | Inr (name, ino) \<Rightarrow>
               if name = target \<and> ino \<noteq> 0 then rmap Some (destroy v2 prev cur b)
               else remove_loop v2 target b pos' (Some pos)))"
  by pat_completeness auto
termination
  by (relation "measure (\<lambda>(v2, target, b, pos, ppos). length b - pos)")
    (auto dest!: iter_mut_next_less)

declare remove_loop.simps [simp del]

definition dir_remove :: "bool \<Rightarrow> bytes \<Rightarrow> bytes \<Rightarrow> (32 word \<times> bytes) option result" where
  "dir_remove v2 target b = remove_loop v2 target b 0 None"

section \<open>Blocks as sequences of slots\<close>

text \<open>
  A well-formed block is the concatenation of slots; each is as long as its entry length says
  and has room for its name.
\<close>

definition c_ino :: "bytes \<Rightarrow> 32 word" where
  "c_ino c = le32 (c ! 0) (c ! 1) (c ! 2) (c ! 3)"

definition c_len :: "bytes \<Rightarrow> nat" where
  "c_len c = unat (le16 (c ! 4) (c ! 5))"

definition c_nlen :: "bool \<Rightarrow> bytes \<Rightarrow> nat" where
  "c_nlen v2 c = (if v2 then unat (c ! 6) else unat (le16 (c ! 6) (c ! 7)))"

definition c_type :: "bool \<Rightarrow> bytes \<Rightarrow> ext4_de option" where
  "c_type v2 c = (if v2 then ext4_de_try_from (c ! 7) else None)"

definition c_name :: "bool \<Rightarrow> bytes \<Rightarrow> bytes" where
  "c_name v2 c = take (c_nlen v2 c) (drop 8 c)"

definition slot_ok :: "bool \<Rightarrow> bytes \<Rightarrow> bool" where
  "slot_ok v2 c \<longleftrightarrow> 8 \<le> length c \<and> c_len c = length c \<and> c_nlen v2 c + 8 \<le> length c"

definition slots_of :: "bool \<Rightarrow> bytes list \<Rightarrow> bytes \<Rightarrow> bool" where
  "slots_of v2 cs b \<longleftrightarrow> b = concat cs \<and> list_all (slot_ok v2) cs"

text \<open>The entries in use: inode, type and name.\<close>

definition live_entries :: "bool \<Rightarrow> bytes list \<Rightarrow> (32 word \<times> ext4_de option \<times> bytes) list" where
  "live_entries v2 cs =
     map (\<lambda>c. (c_ino c, c_type v2 c, c_name v2 c)) (filter (\<lambda>c. c_ino c \<noteq> 0) cs)"

lemma list8_cases:
  assumes "8 \<le> length (c :: bytes)"
  obtains c0 c1 c2 c3 c4 c5 c6 c7 t where "c = c0 # c1 # c2 # c3 # c4 # c5 # c6 # c7 # t"
proof -
  have "Suc (Suc (Suc (Suc (Suc (Suc (Suc (Suc 0))))))) \<le> length c" using assms by simp
  then show thesis using that by (auto simp: Suc_le_length_iff)
qed

lemma slot_reads:
  assumes "slot_ok v2 c"
  shows "get_inode_no (de_new v2 (c @ r)) = Inr (c_ino c)"
    "get_entry_len (de_new v2 (c @ r)) = Inr (length c)"
    "get_name_len (de_new v2 (c @ r)) = Inr (c_nlen v2 c)"
    "get_file_type (de_new v2 (c @ r)) = Inr (c_type v2 c)"
    "get_name (de_new v2 (c @ r)) =
       (if utf8_valid (c_name v2 c) then Inr (c_name v2 c) else Inl Panic)"
proof -
  have c: "8 \<le> length c" "c_len c = length c" "c_nlen v2 c + 8 \<le> length c"
    using assms by (auto simp: slot_ok_def)
  obtain c0 c1 c2 c3 c4 c5 c6 c7 t where e: "c = c0 # c1 # c2 # c3 # c4 # c5 # c6 # c7 # t"
    using c(1) by (rule list8_cases)
  show "get_inode_no (de_new v2 (c @ r)) = Inr (c_ino c)"
    by (simp add: e get_inode_no_def de_new_def read_u32_def c_ino_def)
  show "get_entry_len (de_new v2 (c @ r)) = Inr (length c)"
    using c(2) by (simp add: e get_entry_len_def de_new_def read_u16_def c_len_def)
  show n: "get_name_len (de_new v2 (c @ r)) = Inr (c_nlen v2 c)"
    by (simp add: e get_name_len_def de_new_def read_u16_def read_u8_def c_nlen_def)
  show "get_file_type (de_new v2 (c @ r)) = Inr (c_type v2 c)"
    by (simp add: e get_file_type_def de_new_def read_u8_def c_type_def)
  have "de_inner (de_new v2 (c @ r)) = c @ r" by (simp add: de_new_def)
  then show "get_name (de_new v2 (c @ r)) =
       (if utf8_valid (c_name v2 c) then Inr (c_name v2 c) else Inl Panic)"
    using c(3) n by (simp add: get_name_def c_name_def Let_def)
qed

lemma iter_mut_next_slot:
  assumes "slot_ok v2 c"
  shows "iter_mut_next v2 (x @ c @ r) (length x) ppos =
    Inr (Some ((ppos, length x), length x + length c))"
  using assms slot_reads(2,3) [OF assms, of r]
  by (simp add: iter_mut_next_def en_at_def slot_ok_def)

lemma iter_mut_next_end: "iter_mut_next v2 x (length x) ppos = Inr None"
  by (simp add: iter_mut_next_def)

text \<open>What insertion does to the slots.\<close>

definition filled :: "bool \<Rightarrow> bytes \<Rightarrow> ext4_de option \<Rightarrow> 32 word \<Rightarrow> bytes \<Rightarrow> bytes" where
  "filled v2 entry de child c =
     to_le32 child @ [c ! 4, c ! 5] @
     (if v2 then [of_nat (length entry), ext4_de_to_u8 (the de)] else to_le16 (of_nat (length entry))) @
     entry @ drop (8 + length entry) c"

definition shortened :: "bool \<Rightarrow> bytes \<Rightarrow> bytes" where
  "shortened v2 c = (let k = entry_size (c_nlen v2 c) in splice (take k c) 4 (to_le16 (of_nat k)))"

definition remainder :: "bool \<Rightarrow> bytes \<Rightarrow> bytes" where
  "remainder v2 c =
     (let k = entry_size (c_nlen v2 c) in splice (drop k c) 4 (to_le16 (of_nat (length c - k))))"

definition has_free_room :: "bool \<Rightarrow> nat \<Rightarrow> bytes \<Rightarrow> bool" where
  "has_free_room v2 n c \<longleftrightarrow> c_ino c = 0 \<and> c_type v2 c \<noteq> Some DeCheckSum \<and> entry_size n \<le> length c"

definition has_spare_room :: "bool \<Rightarrow> nat \<Rightarrow> bytes \<Rightarrow> bool" where
  "has_spare_room v2 n c \<longleftrightarrow> c_ino c \<noteq> 0 \<and> entry_size n + entry_size (c_nlen v2 c) \<le> length c"

fun insert_slots ::
  "bool \<Rightarrow> bytes \<Rightarrow> ext4_de option \<Rightarrow> 32 word \<Rightarrow> bytes list \<Rightarrow> bytes list option" where
  "insert_slots v2 entry de child [] = None"
| "insert_slots v2 entry de child (c # cs) =
     (if has_free_room v2 (length entry) c then Some (filled v2 entry de child c # cs)
      else if has_spare_room v2 (length entry) c
      then Some (shortened v2 c # filled v2 entry de child (remainder v2 c) # cs)
      else map_option ((#) c) (insert_slots v2 entry de child cs))"

definition name_fits :: "bool \<Rightarrow> ext4_de option \<Rightarrow> bytes \<Rightarrow> bool" where
  "name_fits v2 de entry \<longleftrightarrow> length entry < (if v2 then 256 else 65536) \<and> (v2 \<longrightarrow> de \<noteq> None)"

lemma drop_8_plus: "drop (8 + n) xs = drop n (drop 8 xs)"
  by (simp add: add.commute)

lemma fill_entry_eq:
  assumes "8 + length entry \<le> length c" and "name_fits v2 de entry"
  shows "fill_entry entry de child (de_new v2 (c @ r)) = Inr (de_new v2 (filled v2 entry de child c @ r))"
proof -
  have "8 \<le> length c" using assms(1) by simp
  then obtain c0 c1 c2 c3 c4 c5 c6 c7 t where c: "c = c0 # c1 # c2 # c3 # c4 # c5 # c6 # c7 # t"
    by (rule list8_cases)
  have t: "length entry \<le> length t" using assms(1) c by simp
  show ?thesis
  proof (cases v2)
    case True
    then obtain d where "de = Some d" using assms(2) by (auto simp: name_fits_def)
    with True assms(2) t show ?thesis
      by (simp add: c fill_entry_def de_new_def set_inode_no_def set_type_def set_name_def de_update_def
          write_u32_def write_u8_def write_slice_def splice_def filled_def name_fits_def chk_def to_le32_def
          drop_8_plus del: drop_drop)
  next
    case False
    with assms(2) t show ?thesis
      by (simp add: c fill_entry_def de_new_def set_inode_no_def set_type_def set_name_def de_update_def
          write_u32_def write_u16_def write_slice_def splice_def filled_def name_fits_def chk_def
          to_le32_def to_le16_def drop_8_plus del: drop_drop)
  qed
qed

lemma splice_append: "p + length ys \<le> length c \<Longrightarrow> splice (c @ r) p ys = splice c p ys @ r"
  by (simp add: splice_def)

lemma take_splice:
  assumes "p + length ys \<le> k" and "k \<le> length c"
  shows "take k (splice c p ys) = splice (take k c) p ys"
proof -
  have "p \<le> length c" "min k p = p" "min p k = p" "take (k - p) ys = ys" using assms by simp_all
  then show ?thesis by (simp add: splice_def drop_take diff_diff_left)
qed

lemma drop_splice: "p + length ys \<le> k \<Longrightarrow> p + length ys \<le> length c \<Longrightarrow> drop k (splice c p ys) = drop k c"
  by (simp add: splice_def)

lemma set_entry_len_eq:
  assumes "8 \<le> length c"
  shows "set_entry_len l (de_new v2 (c @ r)) = Inr (de_new v2 (splice c 4 (to_le16 l) @ r))"
  using assms
  by (simp add: set_entry_len_def de_update_def de_new_def write_u16_def splice_append)

lemma split_entry_eq:
  assumes ok: "slot_ok v2 c" and k: "entry_size (c_nlen v2 c) + 8 \<le> length c"
  shows "split_entry (de_new v2 (c @ r)) = Inr (shortened v2 c, de_new v2 (remainder v2 c @ r))"
proof -
  define k where "k = entry_size (c_nlen v2 c)"
  define l where "l = to_le16 (of_nat k)"
  have c: "8 \<le> length c" using ok by (simp add: slot_ok_def)
  have k8: "8 \<le> k" "k + 8 \<le> length c" using entry_size_bounds(1) [of "c_nlen v2 c"] k by (simp_all add: k_def)
  have inner: "de_inner (de_new v2 x) = x" for x by (simp add: de_new_def)
  have l2: "length l = 2" by (simp add: l_def)
  have tk: "take k (splice c 4 l) = shortened v2 c"
    using k8 take_splice [of 4 l k c] l2 by (simp add: shortened_def k_def [symmetric] l_def [symmetric] Let_def)
  have dk: "drop k (splice c 4 l) = drop k c" "length (splice c 4 l) = length c"
    using k8 drop_splice [of 4 l k c] l2 by simp_all
  have new: "(case de_new v2 x of V1 x \<Rightarrow> V1 (drop (entry_size (c_nlen v2 c)) x)
      | V2 x \<Rightarrow> V2 (drop (entry_size (c_nlen v2 c)) x)) = de_new v2 (drop k x)" for x
    by (simp add: de_new_def k_def)
  have "8 \<le> length (drop k c)" using k8 by simp
  from set_entry_len_eq [OF this]
  have rem: "set_entry_len (of_nat (length c - k)) (de_new v2 (drop k c @ r)) = Inr (de_new v2 (remainder v2 c @ r))"
    by (simp add: remainder_def k_def [symmetric] Let_def)
  have "(of_nat (length c) - of_nat k :: 16 word) = of_nat (length c - k)" using k8 by simp
  with k8 show ?thesis
    by (simp add: split_entry_def sub_nat_def slot_reads [OF ok] k_def [symmetric] set_entry_len_eq [OF c] l_def [symmetric]
        new dk rem inner tk Let_def del: of_nat_diff)
qed

lemma le16_of_nat: "n < 65536 \<Longrightarrow> unat (le16 (ucast (of_nat n :: 16 word)) (ucast (drop_bit 8 (of_nat n :: 16 word)))) = n"
  using le16_to_le16 [of "of_nat n"] by (simp add: unat_of_nat take_bit_nat_eq_self)

lemma filled_slot:
  assumes len: "8 + length entry \<le> length c" and fits: "name_fits v2 de entry" and "c_len c = length c"
  shows "slot_ok v2 (filled v2 entry de child c)" "length (filled v2 entry de child c) = length c"
    "c_ino (filled v2 entry de child c) = child" "c_name v2 (filled v2 entry de child c) = entry"
    "c_type v2 (filled v2 entry de child c) = (if v2 then de else None)"
proof -
  let ?f = "filled v2 entry de child c"
  have len_f: "length ?f = length c" using len by (simp add: filled_def to_le32_def to_le16_def)
  have ino: "c_ino ?f = child"
    using le32_to_le32 [of child] by (simp add: filled_def c_ino_def to_le32_def)
  have cl: "c_len ?f = length c"
    using assms(3) by (simp add: filled_def c_len_def to_le32_def)
  have nl: "c_nlen v2 ?f = length entry"
    using fits le16_of_nat [of "length entry"]
    by (auto simp: filled_def c_nlen_def to_le32_def to_le16_def name_fits_def unat_of_nat take_bit_nat_eq_self)
  have nm: "c_name v2 ?f = entry" using nl by (simp add: c_name_def filled_def to_le32_def to_le16_def)
  have ty: "c_type v2 ?f = (if v2 then de else None)"
    using fits by (auto simp: filled_def c_type_def to_le32_def name_fits_def)
  show "slot_ok v2 ?f" using len len_f cl nl by (simp add: slot_ok_def)
  show "length ?f = length c" "c_ino ?f = child" "c_name v2 ?f = entry"
    "c_type v2 ?f = (if v2 then de else None)" by fact+
qed

lemma shortened_slot:
  assumes ok: "slot_ok v2 c" and k: "entry_size (c_nlen v2 c) + 8 \<le> length c"
  shows "slot_ok v2 (shortened v2 c)" "length (shortened v2 c) = entry_size (c_nlen v2 c)"
    "c_ino (shortened v2 c) = c_ino c" "c_name v2 (shortened v2 c) = c_name v2 c"
    "c_type v2 (shortened v2 c) = c_type v2 c"
proof -
  let ?k = "entry_size (c_nlen v2 c)" and ?s = "shortened v2 c"
  have "8 \<le> length c" and cl: "c_len c = length c" using ok by (simp_all add: slot_ok_def)
  then obtain c0 c1 c2 c3 c4 c5 c6 c7 t where e: "c = c0 # c1 # c2 # c3 # c4 # c5 # c6 # c7 # t"
    by (metis list8_cases)
  have k8: "c_nlen v2 c + 8 \<le> ?k" by (rule entry_size_bounds)
  obtain j where j: "?k = 8 + j" using k8 le_Suc_ex [of 8 ?k] by auto
  have "take ?k c = [c0, c1, c2, c3, c4, c5, c6, c7] @ take j t"
    unfolding j by (simp add: e take_add)
  moreover have "take 4 c = [c0, c1, c2, c3]" by (simp add: e)
  ultimately have s: "?s = [c0, c1, c2, c3] @ to_le16 (of_nat ?k) @ [c6, c7] @ take (?k - 8) t"
    by (simp add: shortened_def Let_def splice_def j)
  have "c_len c < 65536" using unsigned_less [of "le16 (c ! 4) (c ! 5)"] by (simp add: c_len_def)
  then have kb: "?k < 65536" using cl k by simp
  have lt: "length c = length t + 8" by (simp add: e)
  show len: "length ?s = ?k" unfolding s using k k8 lt by simp
  show "c_ino ?s = c_ino c" unfolding s c_ino_def by (simp add: e)
  show "c_type v2 ?s = c_type v2 c" unfolding s c_type_def by (simp add: e to_le16_def)
  have nl: "c_nlen v2 ?s = c_nlen v2 c" unfolding s c_nlen_def [of v2 "_ @ _"] by (simp add: c_nlen_def e to_le16_def)
  have "take (c_nlen v2 c) (drop 8 ?s) = take (c_nlen v2 c) (drop 8 c)"
    unfolding s using k8 by (simp add: to_le16_def min_def) (simp add: e)
  then show "c_name v2 ?s = c_name v2 c" by (simp add: c_name_def nl)
  have "c_len ?s = ?k" unfolding s c_len_def using le16_of_nat [OF kb] by (simp add: to_le16_def)
  with len nl k8 show "slot_ok v2 ?s" by (simp add: slot_ok_def)
qed

lemma remainder_length:
  assumes ok: "slot_ok v2 c" and k: "entry_size (c_nlen v2 c) + 8 \<le> length c"
  shows "length (remainder v2 c) = length c - entry_size (c_nlen v2 c)"
    "c_len (remainder v2 c) = length (remainder v2 c)"
proof -
  define d where "d = drop (entry_size (c_nlen v2 c)) c"
  have r: "remainder v2 c = splice d 4 (to_le16 (of_nat (length d)))"
    by (simp add: remainder_def d_def Let_def)
  have d: "8 \<le> length d" using k by (simp add: d_def)
  then obtain c0 c1 c2 c3 c4 c5 c6 c7 t where e: "d = c0 # c1 # c2 # c3 # c4 # c5 # c6 # c7 # t"
    by (rule list8_cases)
  have "c_len c < 65536" using unsigned_less [of "le16 (c ! 4) (c ! 5)"] by (simp add: c_len_def)
  then have "length d < 65536" using ok by (simp add: slot_ok_def d_def)
  from le16_of_nat [OF this] have "c_len (remainder v2 c) = length d"
    by (simp add: r splice_def e c_len_def to_le16_def)
  moreover show "length (remainder v2 c) = length c - entry_size (c_nlen v2 c)"
    using d by (simp add: r) (simp add: d_def)
  ultimately show "c_len (remainder v2 c) = length (remainder v2 c)" by (simp add: d_def)
qed

lemma de_inner_new [simp]: "de_inner (de_new v2 x) = x"
  by (simp add: de_new_def)

lemma spare_room:
  assumes "slot_ok v2 c" and "has_spare_room v2 n c"
  shows "entry_size (c_nlen v2 c) + 8 \<le> length c" "8 + n \<le> length (remainder v2 c)"
proof -
  show *: "entry_size (c_nlen v2 c) + 8 \<le> length c"
    using assms(2) entry_size_bounds(1) [of n] by (simp add: has_spare_room_def)
  have "entry_size n + entry_size (c_nlen v2 c) \<le> length c"
    using assms(2) by (simp add: has_spare_room_def)
  then show "8 + n \<le> length (remainder v2 c)"
    using entry_size_bounds(1) [of n] unfolding remainder_length(1) [OF assms(1) *] by linarith
qed

lemma insert_into_slot:
  assumes ok: "slot_ok v2 c" and fits: "name_fits v2 de entry"
  shows "insert_into entry de child (de_new v2 (c @ r)) = Inr
    (if has_free_room v2 (length entry) c then Some (filled v2 entry de child c @ r)
     else if has_spare_room v2 (length entry) c
     then Some (shortened v2 c @ filled v2 entry de child (remainder v2 c) @ r) else None)"
proof (cases "has_free_room v2 (length entry) c")
  case True
  then have "8 + length entry \<le> length c"
    using entry_size_bounds(1) [of "length entry"] by (simp add: has_free_room_def)
  from fill_entry_eq [OF this fits] True show ?thesis
    by (simp add: insert_into_def slot_reads [OF ok] has_free_room_def)
next
  case False
  show ?thesis
  proof (cases "has_spare_room v2 (length entry) c")
    case True
    from fill_entry_eq [OF spare_room(2) [OF ok this] fits] split_entry_eq [OF ok spare_room(1) [OF ok this]]
    show ?thesis using True False
      by (auto simp: insert_into_def slot_reads [OF ok] has_spare_room_def)
  next
    case no: False
    with False show ?thesis
      by (auto simp: insert_into_def slot_reads [OF ok] has_free_room_def has_spare_room_def)
  qed
qed

lemma insert_loop_slots:
  assumes "list_all (slot_ok v2) cs" and fits: "name_fits v2 de entry"
  shows "insert_loop v2 entry de child (x @ concat cs) (length x) ppos = Inr
    (case insert_slots v2 entry de child cs of
       None \<Rightarrow> (False, x @ concat cs) | Some cs' \<Rightarrow> (True, x @ concat cs'))"
  using assms(1)
proof (induction cs arbitrary: x ppos)
  case Nil
  then show ?case by (simp add: insert_loop.simps iter_mut_next_end)
next
  case (Cons c cs)
  then have ok: "slot_ok v2 c" and oks: "list_all (slot_ok v2) cs" by simp_all
  have next_slot: "iter_mut_next v2 (x @ concat (c # cs)) (length x) ppos =
      Inr (Some ((ppos, length x), length x + length c))"
    using iter_mut_next_slot [OF ok, of x "concat cs"] by simp
  have body: "rbind (en_at v2 (x @ concat (c # cs)) (length x)) (insert_into entry de child) =
      insert_into entry de child (de_new v2 (c @ concat cs))"
    by (simp add: en_at_def)
  have IH: "insert_loop v2 entry de child (x @ concat (c # cs)) (length x + length c) (Some (length x)) = Inr
    (case insert_slots v2 entry de child cs of
       None \<Rightarrow> (False, x @ concat (c # cs)) | Some cs' \<Rightarrow> (True, (x @ c) @ concat cs'))"
    using Cons.IH [OF oks, of "x @ c" "Some (length x)"]
    by (cases "insert_slots v2 entry de child cs") simp_all
  have take_x: "take (length x) (x @ concat (c # cs)) = x" by simp
  have "insert_loop v2 entry de child (x @ concat (c # cs)) (length x) ppos =
      (case insert_into entry de child (de_new v2 (c @ concat cs)) of
         Inl e \<Rightarrow> Inl e
       | Inr (Some r) \<Rightarrow> Inr (True, x @ r)
       | Inr None \<Rightarrow>
           insert_loop v2 entry de child (x @ concat (c # cs)) (length x + length c) (Some (length x)))"
    by (subst insert_loop.simps) (simp only: next_slot body take_x sum.case option.case prod.case)
  with IH show ?case
    by (simp only: insert_into_slot [OF ok fits])
      (cases "insert_slots v2 entry de child cs"; simp)
qed

lemma insert_slots_room:
  "insert_slots v2 entry de child cs = None \<longleftrightarrow>
     (\<forall>c\<in>set cs. \<not> has_free_room v2 (length entry) c \<and> \<not> has_spare_room v2 (length entry) c)"
  by (induction cs) auto

lemma live_entries_simps [simp]:
  "live_entries v2 [] = []"
  "live_entries v2 (c # cs) =
     (if c_ino c \<noteq> 0 then (c_ino c, c_type v2 c, c_name v2 c) # live_entries v2 cs
      else live_entries v2 cs)"
  "live_entries v2 (cs @ ds) = live_entries v2 cs @ live_entries v2 ds"
  by (auto simp: live_entries_def)

lemma insert_slots_live:
  assumes "insert_slots v2 entry de child cs = Some cs'" and "list_all (slot_ok v2) cs"
    and fits: "name_fits v2 de entry" and child: "child \<noteq> 0"
  shows "list_all (slot_ok v2) cs' \<and> length (concat cs') = length (concat cs) \<and>
    (\<exists>xs ys. live_entries v2 cs = xs @ ys \<and>
       live_entries v2 cs' = xs @ (child, (if v2 then de else None), entry) # ys)"
  using assms(1,2)
proof (induction cs arbitrary: cs')
  case (Cons c cs)
  then have ok: "slot_ok v2 c" and cl: "c_len c = length c" by (simp_all add: slot_ok_def)
  show ?case
  proof (cases "has_free_room v2 (length entry) c")
    case True
    then have "8 + length entry \<le> length c" "c_ino c = 0"
      using entry_size_bounds(1) [of "length entry"] by (simp_all add: has_free_room_def)
    note F = filled_slot [OF this(1) fits cl, of child] this(2)
    from True Cons.prems have cs': "cs' = filled v2 entry de child c # cs" by simp
    have "live_entries v2 (c # cs) = [] @ live_entries v2 cs \<and>
        live_entries v2 cs' = [] @ (child, (if v2 then de else None), entry) # live_entries v2 cs"
      using F child by (simp add: cs')
    moreover have "list_all (slot_ok v2) cs'" "length (concat cs') = length (concat (c # cs))"
      using Cons.prems F by (simp_all add: cs')
    ultimately show ?thesis by blast
  next
    case no: False
    show ?thesis
    proof (cases "has_spare_room v2 (length entry) c")
      case True
      note room = spare_room [OF ok True]
      note S = shortened_slot [OF ok room(1)] and R = remainder_length [OF ok room(1)]
      note F = filled_slot [OF room(2) fits R(2), of child]
      from True no Cons.prems
      have cs': "cs' = shortened v2 c # filled v2 entry de child (remainder v2 c) # cs" by simp
      have "live_entries v2 (c # cs) = [(c_ino c, c_type v2 c, c_name v2 c)] @ live_entries v2 cs \<and>
          live_entries v2 cs' = [(c_ino c, c_type v2 c, c_name v2 c)] @
            (child, (if v2 then de else None), entry) # live_entries v2 cs"
        using F S True child by (simp add: cs' has_spare_room_def)
      moreover have "list_all (slot_ok v2) cs'" "length (concat cs') = length (concat (c # cs))"
        using Cons.prems F S R room by (simp_all add: cs')
      ultimately show ?thesis by blast
    next
      case False
      with no Cons.prems obtain ds where ds: "insert_slots v2 entry de child cs = Some ds" "cs' = c # ds"
        by auto
      from Cons.IH [OF ds(1)] Cons.prems(2) obtain xs ys where
        "list_all (slot_ok v2) ds" "length (concat ds) = length (concat cs)" "live_entries v2 cs = xs @ ys"
        "live_entries v2 ds = xs @ (child, (if v2 then de else None), entry) # ys" by auto
      moreover obtain p where "live_entries v2 (c # cs) = p @ live_entries v2 cs"
          "live_entries v2 cs' = p @ live_entries v2 ds"
        by (cases "c_ino c = 0") (simp_all add: ds(2))
      ultimately have "list_all (slot_ok v2) cs'" "length (concat cs') = length (concat (c # cs))"
        "live_entries v2 (c # cs) = (p @ xs) @ ys"
        "live_entries v2 cs' = (p @ xs) @ (child, (if v2 then de else None), entry) # ys"
        using ds(2) ok by simp_all
      then show ?thesis by blast
    qed
  qed
qed simp

section \<open>Insertion\<close>

lemma insert_entry_ok:
  assumes "slots_of v2 cs b" and "name_fits v2 (map_option de_from_file_type de) entry" and "child \<noteq> 0"
  shows "(\<exists>cs' b' xs ys. insert_entry v2 entry de child b = Inr (True, b') \<and> slots_of v2 cs' b' \<and>
      length b' = length b \<and> live_entries v2 cs = xs @ ys \<and>
      live_entries v2 cs' = xs @ (child, (if v2 then map_option de_from_file_type de else None), entry) # ys) \<or>
    (insert_entry v2 entry de child b = Inr (False, b) \<and>
      (\<forall>c\<in>set cs. \<not> has_free_room v2 (length entry) c \<and> \<not> has_spare_room v2 (length entry) c))"
proof -
  let ?de = "map_option de_from_file_type de"
  have cs: "b = concat cs" "list_all (slot_ok v2) cs" using assms(1) by (simp_all add: slots_of_def)
  have run: "insert_entry v2 entry de child b = Inr
      (case insert_slots v2 entry ?de child cs of None \<Rightarrow> (False, b) | Some cs' \<Rightarrow> (True, concat cs'))"
    using insert_loop_slots [OF cs(2) assms(2), of child "[]" None]
    by (cases "insert_slots v2 entry ?de child cs") (simp_all add: insert_entry_def cs(1))
  show ?thesis
  proof (cases "insert_slots v2 entry ?de child cs")
    case None
    with run insert_slots_room [of v2 entry ?de child cs] show ?thesis by simp
  next
    case (Some cs')
    from insert_slots_live [OF this cs(2) assms(2,3)] have
      "slots_of v2 cs' (concat cs')" "length (concat cs') = length b"
      "\<exists>xs ys. live_entries v2 cs = xs @ ys \<and> live_entries v2 cs' = xs @ (child, (if v2 then ?de else None), entry) # ys"
      by (auto simp: slots_of_def cs(1))
    moreover have "insert_entry v2 entry de child b = Inr (True, concat cs')" using run Some by simp
    ultimately show ?thesis by blast
  qed
qed

text \<open>C6: inserting a name into a well-formed block of directory entries never fails: either some
  slot has room and exactly that entry joins the entries in use, in place, with every other slot
  intact and the block well-formed again, or no slot has room and the block is unchanged.\<close>

theorem insert_entry_adds:
  assumes "slots_of v2 cs b" and "name_fits v2 (map_option de_from_file_type de) entry" and "child \<noteq> 0"
  shows "(\<exists>cs' b' xs ys. insert_entry v2 entry de child b = Inr (True, b') \<and> slots_of v2 cs' b' \<and>
      length b' = length b \<and> live_entries v2 cs = xs @ ys \<and>
      live_entries v2 cs' = xs @ (child, (if v2 then map_option de_from_file_type de else None), entry) # ys) \<or>
    (insert_entry v2 entry de child b = Inr (False, b) \<and>
      (\<forall>c\<in>set cs. \<not> has_free_room v2 (length entry) c \<and> \<not> has_spare_room v2 (length entry) c))"
  using assms by (rule insert_entry_ok)

section \<open>Lookup\<close>

text \<open>The first entry in use of the given name; names that are not UTF-8 make the lookup panic.\<close>

definition names_valid :: "bool \<Rightarrow> bytes list \<Rightarrow> bool" where
  "names_valid v2 cs \<longleftrightarrow> (\<forall>c\<in>set cs. utf8_valid (c_name v2 c))"

fun find_live ::
  "bytes \<Rightarrow> (32 word \<times> ext4_de option \<times> bytes) list \<Rightarrow> (32 word \<times> ext4_de option) option" where
  "find_live target [] = None"
| "find_live target ((ino, ty, name) # es) = (if name = target then Some (ino, ty) else find_live target es)"

lemma dir_next_slot:
  assumes "slot_ok v2 c"
  shows "dir_next v2 (x @ c @ r) (length x) False =
    (if c_ino c \<noteq> 0 then Inr (Some (Inr (de_new v2 (c @ r))), length x + length c, False)
     else dir_next v2 (x @ c @ r) (length x + length c) False)"
proof -
  have c: "8 \<le> length c" "c_nlen v2 c + 8 \<le> length c" "length c \<noteq> 0" using assms by (auto simp: slot_ok_def)
  have "read_entry_at v2 (x @ c @ r) (length x) = Inr (Some (de_new v2 (c @ r)))"
    using c slot_reads(3) [OF assms, of r] by (auto simp: read_entry_at_def en_at_def sub_nat_def)
  with c slot_reads(1,2) [OF assms, of r] show ?thesis
    by (subst dir_next.simps) simp
qed

lemma dir_find_slots:
  assumes "list_all (slot_ok v2) cs" and "\<forall>c\<in>set cs. c_ino c \<noteq> 0 \<longrightarrow> utf8_valid (c_name v2 c)"
  shows "rbind (dir_find_from v2 target (x @ concat cs) (length x)) (\<lambda>r. case r of
      None \<Rightarrow> Inr None
    | Some en \<Rightarrow> rbind (get_inode_no en) (\<lambda>ino. rmap (\<lambda>ft. Some (ino, ft)) (get_file_type en))) =
    Inr (find_live target (live_entries v2 cs))"
  using assms
proof (induction cs arbitrary: x)
  case Nil
  then show ?case by (simp add: dir_find_from.simps dir_next.simps)
next
  case (Cons c cs)
  then have ok: "slot_ok v2 c" by simp
  note step = dir_next_slot [OF ok, of x "concat cs"]
  have IH: "rbind (dir_find_from v2 target (x @ c @ concat cs) (length x + length c)) (\<lambda>r. case r of
      None \<Rightarrow> Inr None
    | Some en \<Rightarrow> rbind (get_inode_no en) (\<lambda>ino. rmap (\<lambda>ft. Some (ino, ft)) (get_file_type en))) =
    Inr (find_live target (live_entries v2 cs))"
    using Cons.IH [of "x @ c"] Cons.prems by simp
  show ?case
  proof (cases "c_ino c = 0")
    case True
    then have "dir_find_from v2 target (x @ c @ concat cs) (length x) =
        dir_find_from v2 target (x @ c @ concat cs) (length x + length c)"
      using step by (simp add: dir_find_from.simps [of _ _ _ "length x"] dir_find_from.simps [of _ _ _ "length x + length c"])
    with IH True show ?thesis by simp
  next
    case False
    with step Cons.prems IH show ?thesis
      by (simp add: dir_find_from.simps [of _ _ _ "length x"] slot_reads [OF ok])
  qed
qed

lemma dir_find_ok:
  assumes "slots_of v2 cs b" and "\<forall>(ino, ty, name)\<in>set (live_entries v2 cs). utf8_valid name"
  shows "dir_find v2 target b =
    Inr (map_option (\<lambda>(ino, ty). (ino, map_option de_into_file_type ty)) (find_live target (live_entries v2 cs)))"
proof -
  have cs: "b = concat cs" "list_all (slot_ok v2) cs" using assms(1) by (simp_all add: slots_of_def)
  have "\<forall>c\<in>set cs. c_ino c \<noteq> 0 \<longrightarrow> utf8_valid (c_name v2 c)"
    using assms(2) by (auto simp: live_entries_def)
  from dir_find_slots [OF cs(2) this, of target "[]"] obtain r where
    r: "dir_find_from v2 target b 0 = Inr r" "(case r of None \<Rightarrow> Inr None
      | Some en \<Rightarrow> rbind (get_inode_no en) (\<lambda>ino. rmap (\<lambda>ft. Some (ino, ft)) (get_file_type en))) =
      Inr (find_live target (live_entries v2 cs))"
    by (auto simp: rbind_Inr_iff cs(1))
  then show ?thesis by (cases r) (auto simp: dir_find_def rbind_Inr_iff rmap_Inr_iff)
qed

text \<open>looking a name up in a well-formed block finds the first entry in use with that name,
  and nothing exactly when there is none.\<close>

theorem dir_find_finds:
  assumes "slots_of v2 cs b" and "\<forall>(ino, ty, name)\<in>set (live_entries v2 cs). utf8_valid name"
  shows "dir_find v2 target b =
    Inr (map_option (\<lambda>(ino, ty). (ino, map_option de_into_file_type ty)) (find_live target (live_entries v2 cs)))"
  using assms by (rule dir_find_ok)

section \<open>Removal\<close>

definition zeroed :: "bytes \<Rightarrow> bytes" where
  "zeroed c = splice c 0 (to_le32 0)"

definition merged :: "bytes \<Rightarrow> bytes \<Rightarrow> bytes" where
  "merged p c = splice p 4 (to_le16 (of_nat (length p + length c))) @ zeroed c"

fun remove_slots :: "bool \<Rightarrow> bytes \<Rightarrow> bytes option \<Rightarrow> bytes list \<Rightarrow> (32 word \<times> bytes list) option" where
  "remove_slots v2 target prev [] = None"
| "remove_slots v2 target prev (c # cs) =
     (if c_name v2 c = target \<and> c_ino c \<noteq> 0
      then Some (c_ino c, (case prev of None \<Rightarrow> zeroed c # cs | Some p \<Rightarrow> merged p c # cs))
      else map_option (\<lambda>(ino, cs'). (ino, case prev of None \<Rightarrow> cs' | Some p \<Rightarrow> p # cs'))
             (remove_slots v2 target (Some c) cs))"

fun remove_live ::
  "bytes \<Rightarrow> (32 word \<times> ext4_de option \<times> bytes) list \<Rightarrow>
   (32 word \<times> (32 word \<times> ext4_de option \<times> bytes) list) option" where
  "remove_live target [] = None"
| "remove_live target ((ino, ty, name) # es) =
     (if name = target then Some (ino, es)
      else map_option (\<lambda>(i, es'). (i, (ino, ty, name) # es')) (remove_live target es))"

abbreviation prev_slots :: "bytes option \<Rightarrow> bytes list" where
  "prev_slots prev \<equiv> (case prev of None \<Rightarrow> [] | Some p \<Rightarrow> [p])"

lemma zeroed_slot:
  assumes "slot_ok v2 c"
  shows "slot_ok v2 (zeroed c)" "c_ino (zeroed c) = 0" "length (zeroed c) = length c"
proof -
  have "8 \<le> length c" using assms by (simp add: slot_ok_def)
  then obtain c0 c1 c2 c3 c4 c5 c6 c7 t where e: "c = c0 # c1 # c2 # c3 # c4 # c5 # c6 # c7 # t"
    by (rule list8_cases)
  show "length (zeroed c) = length c" by (simp add: zeroed_def e)
  show "c_ino (zeroed c) = 0"
    using le32_to_le32 [of 0] by (simp add: zeroed_def e splice_def c_ino_def to_le32_def)
  show "slot_ok v2 (zeroed c)"
    using assms
    by (cases v2) (simp_all add: zeroed_def e splice_def slot_ok_def c_len_def c_nlen_def to_le32_def)
qed

lemma merged_slot:
  assumes p: "slot_ok v2 p" and c: "slot_ok v2 c" and len: "length p + length c < 65536"
  shows "slot_ok v2 (merged p c)" "c_ino (merged p c) = c_ino p" "length (merged p c) = length p + length c"
    "c_name v2 (merged p c) = c_name v2 p" "c_type v2 (merged p c) = c_type v2 p"
proof -
  have "8 \<le> length p" using p by (simp add: slot_ok_def)
  then obtain c0 c1 c2 c3 c4 c5 c6 c7 t where e: "p = c0 # c1 # c2 # c3 # c4 # c5 # c6 # c7 # t"
    by (rule list8_cases)
  define n where "n = length p + length c"
  have m: "merged p c = [c0, c1, c2, c3] @ to_le16 (of_nat n) @ [c6, c7] @ t @ zeroed c"
    unfolding merged_def n_def [symmetric] by (simp add: e splice_def)
  have n: "unat (le16 (ucast (of_nat n :: 16 word)) (ucast (drop_bit 8 (of_nat n :: 16 word)))) = n"
    using len by (intro le16_of_nat) (simp add: n_def)
  show len': "length (merged p c) = length p + length c"
    unfolding m using zeroed_slot(3) [OF c] by (simp add: e)
  have nl: "c_nlen v2 (merged p c) = c_nlen v2 p" unfolding m by (simp add: c_nlen_def e to_le16_def)
  have "c_nlen v2 p \<le> length t" using p by (simp add: slot_ok_def e)
  then have "take (c_nlen v2 p) (drop 8 (merged p c)) = take (c_nlen v2 p) (drop 8 p)"
    unfolding m by (simp add: to_le16_def) (simp add: e)
  then show "c_name v2 (merged p c) = c_name v2 p" by (simp add: c_name_def nl)
  show "c_ino (merged p c) = c_ino p" unfolding m by (simp add: c_ino_def e)
  show "c_type v2 (merged p c) = c_type v2 p" unfolding m by (simp add: c_type_def e to_le16_def)
  have "c_len (merged p c) = n" unfolding m c_len_def using n by (simp add: to_le16_def)
  with len' nl p show "slot_ok v2 (merged p c)" by (simp add: slot_ok_def n_def)
qed

lemma set_inode_no_eq:
  assumes "8 \<le> length c"
  shows "set_inode_no v (de_new v2 (c @ r)) = Inr (de_new v2 (splice c 0 (to_le32 v) @ r))"
  using assms by (simp add: set_inode_no_def de_update_def de_new_def write_u32_def splice_append)

lemma zero_at:
  assumes "slot_ok v2 c"
  shows "en_modify v2 (length x) (set_inode_no 0) (x @ c @ r) = Inr (x @ zeroed c @ r)"
  using assms set_inode_no_eq [of c] by (simp add: en_modify_def en_at_def zeroed_def slot_ok_def)

lemma extend_at:
  assumes "slot_ok v2 p"
  shows "en_modify v2 (length y) (\<lambda>prev. rbind (get_entry_len prev) (\<lambda>l.
      set_entry_len (of_nat (l + k)) prev)) (y @ p @ r) =
    Inr (y @ splice p 4 (to_le16 (of_nat (length p + k))) @ r)"
  using assms slot_reads(2) [OF assms] set_entry_len_eq [of p]
  by (simp add: en_modify_def en_at_def slot_ok_def)

lemma destroy_slot:
  assumes p: "list_all (slot_ok v2) (prev_slots prev)" and c: "slot_ok v2 c"
  shows "destroy v2 (map_option (\<lambda>_. length y) prev) (length (y @ concat (prev_slots prev)))
      (y @ concat (prev_slots prev) @ c @ r) =
    Inr (c_ino c, y @ (case prev of None \<Rightarrow> zeroed c | Some p \<Rightarrow> merged p c) @ r)"
proof (cases prev)
  case None
  then show ?thesis
    using slot_reads(1,2) [OF c, of r] zero_at [OF c, of y r] by (simp add: destroy_def en_at_def)
next
  case (Some q)
  then have ok: "slot_ok v2 q" using p by simp
  from zero_at [OF c, of "y @ q" r]
  have "en_modify v2 (length y + length q) (set_inode_no 0) (y @ q @ c @ r) = Inr (y @ q @ zeroed c @ r)"
    by simp
  then show ?thesis
    using Some slot_reads(1,2) [OF c, of r] extend_at [OF ok, of y "length c" "zeroed c @ r"]
    by (simp add: destroy_def en_at_def merged_def)
qed

lemma remove_loop_slots:
  assumes "list_all (slot_ok v2) cs" and "names_valid v2 cs" and "list_all (slot_ok v2) (prev_slots prev)"
  shows "remove_loop v2 target (y @ concat (prev_slots prev) @ concat cs)
      (length (y @ concat (prev_slots prev))) (map_option (\<lambda>_. length y) prev) =
    Inr (map_option (\<lambda>(ino, cs'). (ino, y @ concat cs')) (remove_slots v2 target prev cs))"
  using assms
proof (induction cs arbitrary: y prev)
  case Nil
  then show ?case using iter_mut_next_end [of v2 "y @ concat (prev_slots prev)"]
    by (simp add: remove_loop.simps)
next
  case (Cons c cs)
  then have ok: "slot_ok v2 c" and valid: "utf8_valid (c_name v2 c)" by (simp_all add: names_valid_def)
  let ?x = "y @ concat (prev_slots prev)" and ?pp = "map_option (\<lambda>_. length y) prev"
  have nxt: "iter_mut_next v2 (?x @ c @ concat cs) (length ?x) ?pp =
      Inr (Some ((?pp, length ?x), length ?x + length c))"
    by (rule iter_mut_next_slot [OF ok])
  have reads: "rbind (en_at v2 (?x @ c @ concat cs) (length ?x)) (\<lambda>en. rbind (get_name en) (\<lambda>name.
      rmap (Pair name) (get_inode_no en))) = Inr (c_name v2 c, c_ino c)"
    using valid by (simp add: en_at_def slot_reads [OF ok])
  have unfold: "remove_loop v2 target (?x @ c @ concat cs) (length ?x) ?pp =
      (if c_name v2 c = target \<and> c_ino c \<noteq> 0
       then rmap Some (destroy v2 ?pp (length ?x) (?x @ c @ concat cs))
       else remove_loop v2 target (?x @ c @ concat cs) (length ?x + length c) (Some (length ?x)))"
    by (subst remove_loop.simps) (simp only: nxt reads sum.case option.case prod.case)
  have IH: "remove_loop v2 target (?x @ c @ concat cs) (length ?x + length c) (Some (length ?x)) =
      Inr (map_option (\<lambda>(ino, cs'). (ino, ?x @ concat cs')) (remove_slots v2 target (Some c) cs))"
    using Cons.IH [where y = ?x and prev = "Some c"] Cons.prems by (simp add: names_valid_def add.assoc)
  show ?case
  proof (cases "c_name v2 c = target \<and> c_ino c \<noteq> 0")
    case True
    have "remove_loop v2 target (?x @ c @ concat cs) (length ?x) ?pp =
        Inr (Some (c_ino c, y @ (case prev of None \<Rightarrow> zeroed c | Some p \<Rightarrow> merged p c) @ concat cs))"
      unfolding unfold using True destroy_slot [OF Cons.prems(3) ok, of y "concat cs"] by simp
    with True show ?thesis by (cases prev) simp_all
  next
    case False
    with unfold IH have "remove_loop v2 target (?x @ c @ concat cs) (length ?x) ?pp =
        Inr (map_option (\<lambda>(ino, cs'). (ino, ?x @ concat cs')) (remove_slots v2 target (Some c) cs))"
      by simp
    with False show ?thesis
      by (cases prev; cases "remove_slots v2 target (Some c) cs") auto
  qed
qed

lemma remove_slots_live:
  assumes "list_all (slot_ok v2) cs" and "list_all (slot_ok v2) (prev_slots prev)"
    and "length (concat (prev_slots prev)) + length (concat cs) < 65536"
  shows "case remove_slots v2 target prev cs of
      None \<Rightarrow> remove_live target (live_entries v2 cs) = None
    | Some (ino, cs') \<Rightarrow> list_all (slot_ok v2) cs' \<and>
        length (concat cs') = length (concat (prev_slots prev)) + length (concat cs) \<and>
        (\<exists>es. remove_live target (live_entries v2 cs) = Some (ino, es) \<and>
          live_entries v2 cs' = live_entries v2 (prev_slots prev) @ es)"
  using assms
proof (induction cs arbitrary: prev)
  case (Cons c cs)
  then have ok: "slot_ok v2 c" by simp
  show ?case
  proof (cases "c_name v2 c = target \<and> c_ino c \<noteq> 0")
    case True
    show ?thesis
    proof (cases prev)
      case None
      with True Cons.prems zeroed_slot [OF ok] show ?thesis by simp
    next
      case (Some p)
      with True Cons.prems merged_slot [of v2 p c] show ?thesis by simp
    qed
  next
    case False
    have "length (concat (prev_slots (Some c))) + length (concat cs) < 65536" using Cons.prems(3) by simp
    with Cons.IH [of "Some c"] Cons.prems(1) have
      IH: "case remove_slots v2 target (Some c) cs of
        None \<Rightarrow> remove_live target (live_entries v2 cs) = None
      | Some (ino, cs') \<Rightarrow> list_all (slot_ok v2) cs' \<and>
          length (concat cs') = length (concat (prev_slots (Some c))) + length (concat cs) \<and>
          (\<exists>es. remove_live target (live_entries v2 cs) = Some (ino, es) \<and>
            live_entries v2 cs' = live_entries v2 (prev_slots (Some c)) @ es)" by simp
    with False Cons.prems show ?thesis
      by (cases "remove_slots v2 target (Some c) cs"; cases prev) auto
  qed
qed simp

text \<open>C23: removing a name from a well-formed block removes the first entry in use with that name and
  no other, returns its inode and leaves the block well-formed (its bytes joined to the slot before);
  when no entry in use has the name, nothing is changed.\<close>

theorem dir_remove_removes:
  assumes "slots_of v2 cs b" and "names_valid v2 cs" and "length b < 65536"
  shows "case remove_live target (live_entries v2 cs) of
      None \<Rightarrow> dir_remove v2 target b = Inr None
    | Some (ino, es) \<Rightarrow> \<exists>b' cs'. dir_remove v2 target b = Inr (Some (ino, b')) \<and> slots_of v2 cs' b' \<and>
        length b' = length b \<and> live_entries v2 cs' = es"
proof -
  have cs: "b = concat cs" "list_all (slot_ok v2) cs" using assms(1) by (simp_all add: slots_of_def)
  have run: "dir_remove v2 target b = Inr (map_option (\<lambda>(ino, cs'). (ino, concat cs')) (remove_slots v2 target None cs))"
    using remove_loop_slots [OF cs(2) assms(2), of None target "[]"] by (simp add: dir_remove_def cs(1))
  have live: "case remove_slots v2 target None cs of
      None \<Rightarrow> remove_live target (live_entries v2 cs) = None
    | Some (ino, cs') \<Rightarrow> list_all (slot_ok v2) cs' \<and> length (concat cs') = length b \<and>
        remove_live target (live_entries v2 cs) = Some (ino, live_entries v2 cs')"
    using remove_slots_live [OF cs(2), of None target] assms(3)
    by (auto simp: cs(1) split: option.splits)
  show ?thesis
  proof (cases "remove_slots v2 target None cs")
    case None
    with run live show ?thesis by simp
  next
    case (Some r)
    then obtain ino cs' where "remove_slots v2 target None cs = Some (ino, cs')" by (cases r) auto
    with run live show ?thesis by (auto simp: slots_of_def)
  qed
qed

section \<open>Composing the operations\<close>

lemma find_live_append:
  "target \<notin> snd ` snd ` set xs \<Longrightarrow> find_live target (xs @ es) = find_live target es"
  by (induction xs) (auto simp: image_iff)

lemma insert_then_find_ok:
  assumes b: "slots_of v2 cs b" and valid: "\<forall>(ino, ty, name)\<in>set (live_entries v2 cs). utf8_valid name"
    and entry: "name_fits v2 (Some (de_from_file_type ft)) entry" "utf8_valid entry" "child \<noteq> 0"
    and fresh: "entry \<notin> snd ` snd ` set (live_entries v2 cs)"
    and ins: "insert_entry v2 entry (Some ft) child b = Inr (True, b')"
  shows "dir_find v2 target b' =
    (if target = entry then Inr (Some (child, if v2 then Some ft else None)) else dir_find v2 target b)"
proof -
  have "name_fits v2 (map_option de_from_file_type (Some ft)) entry" using entry(1) by simp
  from insert_entry_ok [OF b this entry(3)] ins obtain cs' xs ys where
    cs': "slots_of v2 cs' b'" "live_entries v2 cs = xs @ ys"
      "live_entries v2 cs' = xs @ (child, (if v2 then Some (de_from_file_type ft) else None), entry) # ys"
    by auto
  have "\<forall>(ino, ty, name)\<in>set (live_entries v2 cs'). utf8_valid name"
    using valid entry(2) by (auto simp: cs')
  note find' = dir_find_ok [OF cs'(1) this, of target] and find = dir_find_ok [OF b valid, of target]
  show ?thesis
  proof (cases "target = entry")
    case True
    then have "target \<notin> snd ` snd ` set xs" using fresh by (auto simp: cs'(2))
    with True show ?thesis unfolding find' cs'(3) by (simp add: find_live_append)
  next
    case False
    then have "find_live target (xs @ (child, ty, entry) # ys) = find_live target (xs @ ys)" for ty
      by (induction xs) auto
    with False show ?thesis unfolding find' find cs'(2,3) by simp
  qed
qed

text \<open>a name that was inserted into a block is found in it, with the inode and the type given,
  and no other lookup of an absent or present name changes.\<close>

theorem insert_then_find:
  assumes b: "slots_of v2 cs b" and valid: "\<forall>(ino, ty, name)\<in>set (live_entries v2 cs). utf8_valid name"
    and entry: "name_fits v2 (Some (de_from_file_type ft)) entry" "utf8_valid entry" "child \<noteq> 0"
    and fresh: "entry \<notin> snd ` snd ` set (live_entries v2 cs)"
    and ins: "insert_entry v2 entry (Some ft) child b = Inr (True, b')"
  shows "dir_find v2 target b' =
    (if target = entry then Inr (Some (child, if v2 then Some ft else None)) else dir_find v2 target b)"
  using assms by (rule insert_then_find_ok)

section \<open>A concrete block\<close>

text \<open>One entry \<open>a\<close> of inode 12 with room for more, in a block of 64 bytes.\<close>

definition demo_slot :: bytes where
  "demo_slot = [12, 0, 0, 0, 64, 0, 1, 1, 0x61] @ replicate 55 0"

lemma demo_slots: "slots_of True [demo_slot] demo_slot"
  by (simp add: slots_of_def slot_ok_def demo_slot_def c_len_def c_nlen_def le16_def)

lemma demo_live: "live_entries True [demo_slot] = [(12, Some DeRegularFile, [0x61])]"
  by (simp add: demo_slot_def c_ino_def c_type_def c_name_def c_nlen_def le32_def ext4_de_try_from_def)

lemma demo_valid: "\<forall>(ino, ty, name)\<in>set (live_entries True [demo_slot]). utf8_valid name"
  unfolding demo_live by simp

lemma demo_insert: "\<exists>b'. insert_entry True [0x62] (Some Directory) 13 demo_slot = Inr (True, b')"
proof -
  have "entry_size 1 + entry_size 1 \<le> length demo_slot" "c_nlen True demo_slot = 1" "c_ino demo_slot = 12"
    by (simp_all add: demo_slot_def entry_size_def c_nlen_def c_ino_def le32_def)
  then have "has_spare_room True (length [0x62 :: byte]) demo_slot" by (simp add: has_spare_room_def)
  with insert_entry_ok [OF demo_slots, of "Some Directory" "[0x62]" 13] show ?thesis
    by (auto simp: name_fits_def)
qed

lemma insert_entry_adds_witness:
  "\<exists>cs' b'. insert_entry True [0x62] (Some Directory) 13 demo_slot = Inr (True, b') \<and> slots_of True cs' b' \<and>
     (13, Some DeDirectory, [0x62]) \<in> set (live_entries True cs')"
proof -
  have "name_fits True (map_option de_from_file_type (Some Directory)) [0x62]" by (simp add: name_fits_def)
  from insert_entry_adds [OF demo_slots this, of 13] demo_insert obtain cs' b' xs ys where
    "insert_entry True [0x62] (Some Directory) 13 demo_slot = Inr (True, b')" "slots_of True cs' b'"
    "live_entries True cs' = xs @ (13, Some DeDirectory, [0x62]) # ys"
    by (auto simp: de_from_file_type_def)
  then show ?thesis by (intro exI [of _ cs'] exI [of _ b']) (simp only: set_append list.set, blast)
qed

lemma dir_find_finds_witness:
  "dir_find True [0x61] demo_slot = Inr (Some (12, Some RegularFile))"
  using dir_find_finds [OF demo_slots demo_valid, of "[0x61]", unfolded demo_live]
  by (simp add: de_into_file_type_def)

lemma dir_remove_removes_witness:
  "\<exists>b' cs'. dir_remove True [0x61] demo_slot = Inr (Some (12, b')) \<and> slots_of True cs' b' \<and>
     live_entries True cs' = []"
proof -
  have "names_valid True [demo_slot]" "length demo_slot < 65536"
    by (simp_all add: names_valid_def c_name_def c_nlen_def demo_slot_def)
  from dir_remove_removes [OF demo_slots this, of "[0x61]", unfolded demo_live] show ?thesis by auto
qed

lemma insert_then_find_witness:
  "\<exists>b'. insert_entry True [0x62] (Some Directory) 13 demo_slot = Inr (True, b') \<and>
     dir_find True [0x62] b' = Inr (Some (13, Some Directory)) \<and>
     dir_find True [0x61] b' = dir_find True [0x61] demo_slot"
proof -
  obtain b' where b': "insert_entry True [0x62] (Some Directory) 13 demo_slot = Inr (True, b')"
    using demo_insert by blast
  have fits: "name_fits True (Some (de_from_file_type Directory)) [0x62]" "utf8_valid [0x62]"
    by (simp_all add: name_fits_def)
  have fresh: "[0x62] \<notin> snd ` snd ` set (live_entries True [demo_slot])" unfolding demo_live by simp
  from insert_then_find [OF demo_slots demo_valid fits _ fresh b', of "[0x62]"]
    insert_then_find [OF demo_slots demo_valid fits _ fresh b', of "[0x61]"] b'
  show ?thesis by simp
qed

end
