(* ===== verification/Superblock.thy ===== *)
theory Superblock
  imports Byte_Rw Fs_Types
begin

text \<open>
  The superblock: its on-disk fields (\<open>src/superblock/raw.rs\<close>), the in-memory copy built by
  \<open>from_raw\<close>, the geometry computed from it (\<open>src/superblock/mod.rs\<close>, \<open>src/types.rs\<close>:
  group of a block or inode, location of a group's descriptor, backup superblocks) and the
  in-memory list of orphaned inodes. Numbers that take part in address arithmetic are
  natural numbers with the overflow checks of their width; feature words are 32-bit words.
\<close>

section \<open>The on-disk layout\<close>

text \<open>Every field with its offset and its width in bytes; a field in two halves has two entries.\<close>

definition sb_layout :: "(string \<times> nat \<times> nat) list" where
  "sb_layout =
    [(''inodes_count'', 0x0, 4), (''blocks_count'', 0x4, 4), (''blocks_count_hi'', 0x150, 4),
     (''r_blocks_count'', 0x8, 4), (''r_blocks_count_hi'', 0x154, 4),
     (''free_blocks_count'', 0xC, 4), (''free_blocks_count_hi'', 0x158, 4),
     (''free_inodes_count'', 0x10, 4), (''first_data_block'', 0x14, 4), (''log_block_size'', 0x18, 4),
     (''log_cluster_size'', 0x1C, 4), (''blocks_per_group'', 0x20, 4), (''clusters_per_group'', 0x24, 4),
     (''inodes_per_group'', 0x28, 4), (''mtime'', 0x2C, 4), (''wtime'', 0x30, 4),
     (''mount_count'', 0x34, 2), (''max_mount_count'', 0x36, 4), (''magic'', 0x38, 2),
     (''state'', 0x3A, 2), (''errors'', 0x3C, 2), (''minor_rev_level'', 0x3E, 2),
     (''lastcheck'', 0x40, 4), (''check_interval'', 0x44, 4), (''creator_os'', 0x48, 4),
     (''rev_level'', 0x4C, 4), (''def_resuid'', 0x50, 2), (''def_resgid'', 0x52, 2),
     (''first_inode'', 0x54, 4), (''inode_size'', 0x58, 2), (''block_group_nr'', 0x5A, 2),
     (''feature_compat'', 0x5C, 4), (''feature_incompat'', 0x60, 4), (''feature_ro_compat'', 0x64, 4),
     (''reserverd_gdt_blocks'', 0xCE, 2), (''last_orphan'', 0xE8, 4), (''default_hash_version'', 0xFC, 1),
     (''desc_size'', 0xFE, 2), (''default_mount_opts'', 0x100, 4), (''first_meta_bg'', 0x104, 4),
     (''mkfs_time'', 0x108, 4), (''min_extra_isize'', 0x15C, 2), (''want_extra_isize'', 0x15E, 2),
     (''flags'', 0x160, 4), (''checksum_type'', 0x175, 1)]"

definition fields_overlap :: "nat \<times> nat \<Rightarrow> nat \<times> nat \<Rightarrow> bool" where
  "fields_overlap f g \<longleftrightarrow> fst f < fst g + snd g \<and> fst g < fst f + snd f"

fun overlapping_fields :: "(string \<times> nat \<times> nat) list \<Rightarrow> (string \<times> string) list" where
  "overlapping_fields [] = []"
| "overlapping_fields ((f, r) # l) =
     map (\<lambda>(g, _). (f, g)) (filter (\<lambda>(_, q). fields_overlap r q) l) @ overlapping_fields l"

text \<open>The bytes of the superblock inside its block: behind the boot sector, except for 1 KiB blocks.\<close>

definition sb_view :: "nat \<Rightarrow> bytes \<Rightarrow> bytes" where
  "sb_view n b = (if n = 1024 then b else drop 1024 b)"

definition sb_modify :: "nat \<Rightarrow> (bytes \<Rightarrow> bytes result) \<Rightarrow> bytes \<Rightarrow> bytes result" where
  "sb_modify n f b = (if n = 1024 then f b else rmap ((@) (take 1024 b)) (f (drop 1024 b)))"

definition sb_from_disk :: "(nat \<Rightarrow> nat \<Rightarrow> bytes result) \<Rightarrow> nat \<Rightarrow> bytes result" where
  "sb_from_disk read_bytes n = (if n = 1024 then read_bytes 1024 1024 else read_bytes n 0)"

definition sb_writeback :: "nat \<Rightarrow> bytes \<Rightarrow> (nat \<times> bytes) list \<Rightarrow> (nat \<times> bytes) list" where
  "sb_writeback n b bio = bio @ [(if n = 1024 then 1024 else 0, b)]"

section \<open>Feature flags\<close>

definition compatible_flags :: "32 word list" where
  "compatible_flags = [0x0001, 0x0002, 0x0004, 0x0008, 0x0010, 0x0020]"

definition incompatible_flags :: "32 word list" where
  "incompatible_flags = [0x0001, 0x0002, 0x0004, 0x0008, 0x0010, 0x0040, 0x0080, 0x0100, 0x0200,
     0x0400, 0x1000, 0x2000, 0x4000, 0x8000]"

definition readonly_flags :: "32 word list" where
  "readonly_flags = [0x0001, 0x0002, 0x0004, 0x0008, 0x0010, 0x0020, 0x0040, 0x0100, 0x0200, 0x0400]"

definition ext4_flags :: "32 word list" where
  "ext4_flags = [0x0001, 0x0002, 0x0004]"

definition META_BG :: "32 word" where "META_BG = 0x0010"
definition INCOMPAT_EXTENTS :: "32 word" where "INCOMPAT_EXTENTS = 0x0040"
definition BIT64 :: "32 word" where "BIT64 = 0x0080"
definition SPARSE_SUPER :: "32 word" where "SPARSE_SUPER = 0x0001"
definition GDT_CSUM :: "32 word" where "GDT_CSUM = 0x0010"
definition METADATA_CSUM :: "32 word" where "METADATA_CSUM = 0x0400"

definition is_feature_incompat64 :: "bytes \<Rightarrow> bool result" where
  "is_feature_incompat64 v =
     rmap (\<lambda>w. contains_flag (from_bits_truncate incompatible_flags w) BIT64) (read_u32 v 0x60)"

section \<open>The in-memory superblock\<close>

record superblock =
  is_dir_entry_version2 :: bool
  inode_size :: nat
  inodes_per_group :: nat
  block_desc_size :: nat
  first_meta_bg :: nat
  features_incompatible :: "32 word"
  features_compatible :: "32 word"
  features_readonly :: "32 word"
  first_data_block :: nat
  blocks_per_group :: nat
  creator_os :: nat
  rev_level :: nat
  sb_flags :: "32 word"
  hash_seed :: "32 word list"
  blocks_count :: nat
  inodes_count :: nat
  bg_count :: nat
  want_extra_isize :: nat
  uuid :: bytes
  default_hash_version :: byte
  free_inodes_count :: nat
  orphaned_inode :: "nat \<rightharpoonup> nat \<times> nat"
  manipulator :: bytes

definition sb_verify :: "nat \<Rightarrow> superblock \<Rightarrow> superblock result" where
  "sb_verify blk_size sb =
     (if block_desc_size sb > blk_size \<or> (block_desc_size sb > 32 \<and> block_desc_size sb < 64)
      then Inl (Fs (InvalidFs ''Invalid Block descriptor size''))
      else Inr sb)"

text \<open>\<open>read_u32\<close> of a field that takes part in arithmetic.\<close>

definition num32 :: "bytes \<Rightarrow> nat \<Rightarrow> nat result" where
  "num32 v p = rmap unat (read_u32 v p)"

definition num16 :: "bytes \<Rightarrow> nat \<Rightarrow> nat result" where
  "num16 v p = rmap unat (read_u16 v p)"

definition sb_blocks_count :: "bytes \<Rightarrow> nat result" where
  "sb_blocks_count v =
     rbind (is_feature_incompat64 v) (\<lambda>hi. rmap unat (compound_u64_get 0x4 0x150 hi v))"

fun read_all :: "(bytes \<Rightarrow> nat \<Rightarrow> 'a result) \<Rightarrow> bytes \<Rightarrow> nat list \<Rightarrow> 'a list result" where
  "read_all r v [] = Inr []"
| "read_all r v (p # ps) = rbind (r v p) (\<lambda>x. rmap ((#) x) (read_all r v ps))"

definition sb_from_raw :: "nat \<Rightarrow> bytes \<Rightarrow> superblock result" where
  "sb_from_raw blk_size raw =
    (let v = sb_view blk_size raw in
     rbind (num16 v 0xFE) (\<lambda>dsize.
     rbind (sb_blocks_count v) (\<lambda>bcount.
     rbind (num32 v 0x20) (\<lambda>bpg.
     rbind (assertR (bpg \<noteq> 0)) (\<lambda>_.
     rbind (num32 v 0x4C) (\<lambda>rev.
     rbind (num16 v 0x3E) (\<lambda>minor.
     rbind (num16 v 0x58) (\<lambda>isize.
     rbind (num32 v 0x28) (\<lambda>ipg.
     rbind (num32 v 0x104) (\<lambda>fmbg.
     rbind (read_u32 v 0x60) (\<lambda>incompat.
     rbind (read_u32 v 0x5C) (\<lambda>compat.
     rbind (read_u32 v 0x64) (\<lambda>ro.
     rbind (num32 v 0x14) (\<lambda>fdb.
     rbind (num32 v 0x48) (\<lambda>os.
     rbind (read_u32 v 0x160) (\<lambda>flags.
     rbind (read_all read_u32 v [0xEC, 0xF0, 0xF4, 0xF8]) (\<lambda>seed.
     rbind (num32 v 0x0) (\<lambda>icount.
     rbind (num16 v 0x15E) (\<lambda>extra.
     rbind (read_all read_u8 v [0x68, 0x69, 0x6A, 0x6B, 0x6C, 0x6D, 0x6E, 0x6F,
              0x70, 0x71, 0x72, 0x73, 0x74, 0x75, 0x76, 0x77]) (\<lambda>uuid.
     rbind (read_u8 v 0xFC) (\<lambda>hver.
     rbind (num32 v 0x10) (\<lambda>finodes.
     sb_verify blk_size
       \<lparr>is_dir_entry_version2 = rev > 0 \<or> minor \<ge> 5, inode_size = isize, inodes_per_group = ipg,
        block_desc_size = (if dsize < 32 then 32 else dsize), first_meta_bg = fmbg,
        features_incompatible = from_bits_truncate incompatible_flags incompat,
        features_compatible = from_bits_truncate compatible_flags compat,
        features_readonly = from_bits_truncate readonly_flags ro,
        first_data_block = fdb, blocks_per_group = bpg, creator_os = os, rev_level = rev,
        sb_flags = from_bits_truncate ext4_flags flags, hash_seed = seed, blocks_count = bcount,
        inodes_count = icount, bg_count = trunc 32 (div_ceil bcount bpg), want_extra_isize = extra,
        uuid = uuid, default_hash_version = hver, free_inodes_count = finodes,
        orphaned_inode = Map.empty, manipulator = raw\<rparr>))))))))))))))))))))))"

definition log_block_size_of :: "nat \<Rightarrow> nat result" where
  "log_block_size_of n =
     (if n = 1024 then Inr 0 else if n = 2048 then Inr 1 else if n = 4096 then Inr 2 else Inl Panic)"

definition new_sb :: "(nat \<Rightarrow> nat \<Rightarrow> bytes result) \<Rightarrow> nat \<Rightarrow> superblock result" where
  "new_sb read_bytes n =
     rbind (sb_from_disk read_bytes n) (\<lambda>raw.
     rbind (log_block_size_of n) (\<lambda>lbs.
     rbind (num32 (sb_view n raw) 0x18) (\<lambda>l.
     if l \<noteq> lbs then Inl (Fs (InvalidFs ''Block size is differ from expectation.''))
     else sb_from_raw n raw)))"

section \<open>Geometry\<close>

definition sb_get_inodes_in_group_cnt :: "superblock \<Rightarrow> nat \<Rightarrow> nat result" where
  "sb_get_inodes_in_group_cnt sb bgid =
     rbind (sub_nat (bg_count sb) 1) (\<lambda>last.
     if bgid < last then Inr (inodes_per_group sb)
     else rbind (chk 32 (last * inodes_per_group sb)) (sub_nat (inodes_count sb)))"

definition first_bg_block_no :: "superblock \<Rightarrow> nat \<Rightarrow> nat" where
  "first_bg_block_no sb bgid = bgid * blocks_per_group sb + first_data_block sb"

function is_power_of_n :: "nat \<Rightarrow> nat \<Rightarrow> bool" where
  "is_power_of_n n v =
     (if \<not> v dvd n then False
      else if n = v then True
      else if n < v then False
      else if v \<le> 1 then False
      else is_power_of_n (n div v) v)"
  by pat_completeness auto
termination
  by (relation "measure fst") auto

declare is_power_of_n.simps [simp del]

definition sb_sparse :: "superblock \<Rightarrow> nat \<Rightarrow> bool" where
  "sb_sparse sb grp =
     (if \<not> contains_flag (features_readonly sb) SPARSE_SUPER then False
      else if grp \<le> 1 then True
      else if even grp then False
      else is_power_of_n grp 3 \<or> is_power_of_n grp 5 \<or> is_power_of_n grp 7)"

definition is_super_in_bg :: "superblock \<Rightarrow> nat \<Rightarrow> bool" where
  "is_super_in_bg sb bgid \<longleftrightarrow>
     \<not> contains_flag (features_readonly sb) SPARSE_SUPER \<or> sb_sparse sb bgid"

definition get_descriptor_block :: "superblock \<Rightarrow> nat \<Rightarrow> nat \<Rightarrow> nat" where
  "get_descriptor_block sb bgid dsc_per_block =
     (let dsc_id = bgid div dsc_per_block
      in if \<not> contains_flag (features_incompatible sb) META_BG \<or> dsc_id < first_meta_bg sb
         then first_data_block sb + dsc_id + 1
         else if is_super_in_bg sb bgid then first_bg_block_no sb bgid + 1
         else first_bg_block_no sb bgid)"

definition bgid_into_lba_index :: "nat \<Rightarrow> superblock \<Rightarrow> nat \<Rightarrow> nat \<times> nat" where
  "bgid_into_lba_index blk_size sb bgid =
     (let dsc_cnt = trunc 32 (blk_size div block_desc_size sb)
      in (get_descriptor_block sb bgid dsc_cnt, bgid mod dsc_cnt * block_desc_size sb))"

definition lba_into_bgid_index :: "superblock \<Rightarrow> nat \<Rightarrow> (nat \<times> nat) option" where
  "lba_into_bgid_index sb lba =
     (let baddr = (if first_data_block sb \<noteq> 0 \<and> lba \<noteq> 0 then lba - 1 else lba);
          bgid = trunc 32 (baddr div blocks_per_group sb)
      in if bgid < bg_count sb
         then Some (trunc 32 (baddr div blocks_per_group sb), baddr mod blocks_per_group sb)
         else None)"

definition lba_from_bgid_index :: "superblock \<Rightarrow> nat \<Rightarrow> nat \<Rightarrow> nat" where
  "lba_from_bgid_index sb bgid index =
     (if first_data_block sb = 0 then blocks_per_group sb * bgid + index
      else blocks_per_group sb * bgid + index + 1)"

definition ino_into_bgid_index :: "superblock \<Rightarrow> nat \<Rightarrow> (nat \<times> nat) result" where
  "ino_into_bgid_index sb ino =
     rbind (sub_nat ino 1) (\<lambda>i.
     rbind (assertR (inodes_per_group sb \<noteq> 0)) (\<lambda>_.
     Inr (i div inodes_per_group sb, i mod inodes_per_group sb)))"

definition ino_from_bgid_index :: "superblock \<Rightarrow> nat \<Rightarrow> nat \<Rightarrow> nat result" where
  "ino_from_bgid_index sb bgid index =
     rbind (chk 32 (bgid * inodes_per_group sb)) (\<lambda>m.
     rbind (chk 32 (m + trunc 32 index)) (\<lambda>m. chk 32 (m + 1)))"

section \<open>Orphaned inodes\<close>

definition add_orphan_link :: "nat \<Rightarrow> nat \<Rightarrow> nat \<Rightarrow> (nat \<rightharpoonup> nat \<times> nat) \<Rightarrow> (nat \<rightharpoonup> nat \<times> nat)" where
  "add_orphan_link pred cur succ m = m(cur \<mapsto> (pred, succ))"

definition replace_orphan_prevlink :: "nat \<Rightarrow> nat \<Rightarrow> (nat \<rightharpoonup> nat \<times> nat) \<Rightarrow> (nat \<rightharpoonup> nat \<times> nat)" where
  "replace_orphan_prevlink pred cur m =
     (case m cur of Some (_, s) \<Rightarrow> m(cur \<mapsto> (pred, s)) | None \<Rightarrow> m)"

definition replace_orphan_nextlink :: "nat \<Rightarrow> nat \<Rightarrow> (nat \<rightharpoonup> nat \<times> nat) \<Rightarrow> (nat \<rightharpoonup> nat \<times> nat)" where
  "replace_orphan_nextlink succ cur m =
     (case m cur of Some (p, _) \<Rightarrow> m(cur \<mapsto> (p, succ)) | None \<Rightarrow> m)"

text \<open>\<open>remove_orphan\<close> also logs \<open>inode_update_orphan_link(pred, succ)\<close>, the pair returned here;
  an inode that is not in the map ends in \<open>todo!()\<close>.\<close>

definition remove_orphan :: "nat \<Rightarrow> (nat \<rightharpoonup> nat \<times> nat) \<Rightarrow> ((nat \<times> nat) \<times> (nat \<rightharpoonup> nat \<times> nat)) result" where
  "remove_orphan cur m =
     (case m cur of
        Some (pred, succ) \<Rightarrow>
          Inr ((pred, succ),
               replace_orphan_prevlink pred succ (replace_orphan_nextlink succ pred (m(cur := None))))
      | None \<Rightarrow> Inl Panic)"

section \<open>Theorems on the layout and on mounting\<close>

lemma overlapping_layout: "overlapping_fields sb_layout = [(''max_mount_count'', ''magic'')]"
  by (simp add: sb_layout_def fields_overlap_def)

text \<open>all fields of the superblock are disjoint, except that \<open>max_mount_count\<close>, declared
  as four bytes at 0x36, covers the magic number at 0x38.\<close>

theorem sb_layout_overlap:
  "overlapping_fields sb_layout = [(''max_mount_count'', ''magic'')] \<and>
   (\<forall>(f, p, w) \<in> set sb_layout. p + w \<le> 1024)"
  using overlapping_layout by (simp add: sb_layout_def)

lemma sb_layout_overlap_witness:
  "\<exists>(f, p, w) \<in> set sb_layout. f = ''magic'' \<and> p + w \<le> 1024"
proof -
  have "(''magic'', 0x38, 2) \<in> set sb_layout" by (simp add: sb_layout_def)
  moreover from bspec [OF conjunct2 [OF sb_layout_overlap] this]
  have "(0x38 :: nat) + 2 \<le> 1024" by simp
  ultimately show ?thesis by (intro bexI [of _ "(''magic'', 0x38, 2)"]) simp_all
qed

lemma sb_verify_Inr:
  "sb_verify n sb = Inr sb' \<Longrightarrow> sb' = sb \<and> block_desc_size sb \<le> n \<and>
    \<not> (32 < block_desc_size sb \<and> block_desc_size sb < 64)"
  by (simp add: sb_verify_def split: if_splits)

lemma rbind_InrE: "rbind m f = Inr y \<Longrightarrow> (\<And>x. m = Inr x \<Longrightarrow> f x = Inr y \<Longrightarrow> P) \<Longrightarrow> P"
  by (cases m) auto

text \<open>C31: a superblock that \<open>from_raw\<close> accepts has a descriptor size that fits its block and is
  32 or at least 64, a positive number of blocks per group, and (the number of groups fitting
  32 bits) as many groups as needed to cover its blocks.\<close>

theorem sb_from_raw_geometry:
  assumes "sb_from_raw blk_size raw = Inr sb"
  shows "block_desc_size sb \<le> blk_size \<and> (block_desc_size sb = 32 \<or> 64 \<le> block_desc_size sb) \<and>
    0 < blocks_per_group sb \<and> manipulator sb = raw \<and> orphaned_inode sb = Map.empty \<and>
    bg_count sb = trunc 32 (div_ceil (blocks_count sb) (blocks_per_group sb))"
proof -
  from assms show ?thesis
    unfolding sb_from_raw_def Let_def
    by (elim rbind_InrE) (auto dest!: sb_verify_Inr)
qed

section \<open>Theorems on the geometry\<close>

lemma is_power_of_n_iff:
  assumes "2 \<le> v" and "0 < n"
  shows "is_power_of_n n v \<longleftrightarrow> (\<exists>k>0. n = v ^ k)"
  using assms
proof (induction n v rule: is_power_of_n.induct)
  case (1 n v)
  show ?case
  proof (cases "v dvd n \<and> n \<noteq> v")
    case False
    then show ?thesis
      using power_one_right [of v] by (auto simp: is_power_of_n.simps [of n v] intro!: exI [of _ 1])
  next
    case True
    then obtain m where m: "n = v * m" by auto
    with True 1(3) have "m \<noteq> 1" "0 < m" by auto
    have v: "2 \<le> v" by (rule 1(2))
    have "v < n" using m v \<open>0 < m\<close> \<open>m \<noteq> 1\<close> by (cases m) auto
    have step: "is_power_of_n n v \<longleftrightarrow> is_power_of_n m v"
      using True v \<open>v < n\<close> unfolding is_power_of_n.simps [of n v] by (simp add: m)
    have "(\<exists>k>0. m = v ^ k) \<longleftrightarrow> (\<exists>k>0. n = v ^ k)"
    proof
      assume "\<exists>k>0. m = v ^ k"
      then obtain k where "m = v ^ k" by blast
      then have "n = v ^ Suc k" using m by simp
      then show "\<exists>k>0. n = v ^ k" by blast
    next
      assume "\<exists>k>0. n = v ^ k"
      then obtain k where k: "0 < k" "n = v ^ k" by blast
      then obtain j where j: "k = Suc j" by (cases k) auto
      with k m v have "m = v ^ j" by simp
      moreover have "0 < j" using \<open>m = v ^ j\<close> \<open>m \<noteq> 1\<close> by (cases j) auto
      ultimately show "\<exists>k>0. m = v ^ k" by blast
    qed
    with step 1 True m v \<open>v < n\<close> \<open>0 < m\<close> show ?thesis by simp
  qed
qed

text \<open>with sparse backup superblocks, the groups that hold one are 0, 1 and the powers of
  3, 5 and 7.\<close>

theorem sb_sparse_iff:
  "sb_sparse sb g \<longleftrightarrow> contains_flag (features_readonly sb) SPARSE_SUPER \<and>
     (g \<le> 1 \<or> (\<exists>k>0. g = 3 ^ k \<or> g = 5 ^ k \<or> g = 7 ^ k))"
proof (cases "g \<le> 1 \<or> even g")
  case True
  have "\<not> even ((3::nat) ^ k)" "\<not> even ((5::nat) ^ k)" "\<not> even ((7::nat) ^ k)" for k by simp_all
  with True show ?thesis unfolding sb_sparse_def by auto
next
  case False
  then have "0 < g" by simp
  note p = is_power_of_n_iff [OF _ this]
  from False p [of 3] p [of 5] p [of 7] show ?thesis by (auto simp: sb_sparse_def)
qed

text \<open>the group and index of a block identify it: converting back and forth is the
  identity in both directions (block 0, the boot block of a 1 KiB file system, aside).\<close>

theorem lba_bgid_index_roundtrip:
  assumes "0 < blocks_per_group sb" and "bg_count sb < 2 ^ 32"
  shows "(bgid < bg_count sb \<and> index < blocks_per_group sb \<longrightarrow>
      lba_into_bgid_index sb (lba_from_bgid_index sb bgid index) = Some (bgid, index)) \<and>
    (lba_into_bgid_index sb lba = Some (bgid, index) \<and> lba < 2 ^ 32 * blocks_per_group sb \<and>
      (first_data_block sb = 0 \<or> lba \<noteq> 0) \<longrightarrow> lba_from_bgid_index sb bgid index = lba)"
proof (intro conjI impI; elim conjE)
  assume b: "bgid < bg_count sb" and i: "index < blocks_per_group sb"
  let ?lba = "lba_from_bgid_index sb bgid index"
  have "(if first_data_block sb \<noteq> 0 \<and> ?lba \<noteq> 0 then ?lba - 1 else ?lba) = blocks_per_group sb * bgid + index"
    by (simp add: lba_from_bgid_index_def)
  moreover have "(blocks_per_group sb * bgid + index) div blocks_per_group sb = bgid"
    "(blocks_per_group sb * bgid + index) mod blocks_per_group sb = index"
    using i by simp_all
  moreover have "trunc 32 bgid = bgid" using b assms(2) by (simp add: trunc_id)
  ultimately show "lba_into_bgid_index sb ?lba = Some (bgid, index)"
    using b by (simp only: lba_into_bgid_index_def Let_def if_True)
next
  assume into: "lba_into_bgid_index sb lba = Some (bgid, index)"
    and lba: "lba < 2 ^ 32 * blocks_per_group sb" and nz: "first_data_block sb = 0 \<or> lba \<noteq> 0"
  define a where "a = (if first_data_block sb \<noteq> 0 \<and> lba \<noteq> 0 then lba - 1 else lba)"
  have "a div blocks_per_group sb < 2 ^ 32"
    using lba by (intro less_mult_imp_div_less) (auto simp: a_def)
  then have "trunc 32 (a div blocks_per_group sb) = a div blocks_per_group sb" by (rule trunc_id)
  with into have "bgid = a div blocks_per_group sb" "index = a mod blocks_per_group sb"
    unfolding lba_into_bgid_index_def Let_def a_def [symmetric] by (auto split: if_splits)
  then have "blocks_per_group sb * bgid + index = a" by simp
  with nz show "lba_from_bgid_index sb bgid index = lba"
    by (auto simp: lba_from_bgid_index_def a_def)
qed

text \<open>likewise for inode numbers, which are 1-based.\<close>

theorem ino_bgid_index_roundtrip:
  assumes "0 < inodes_per_group sb" and "inodes_per_group sb < 2 ^ 32"
  shows "(index < inodes_per_group sb \<and> ino_from_bgid_index sb bgid index = Inr ino \<longrightarrow>
      ino_into_bgid_index sb ino = Inr (bgid, index)) \<and>
    (ino < 2 ^ 32 \<and> ino_into_bgid_index sb ino = Inr (bgid, index) \<longrightarrow>
      ino_from_bgid_index sb bgid index = Inr ino)"
proof (intro conjI impI; elim conjE)
  assume i: "index < inodes_per_group sb" and f: "ino_from_bgid_index sb bgid index = Inr ino"
  have "trunc 32 index = index" using i assms(2) by (intro trunc_id) linarith
  with f have "ino = bgid * inodes_per_group sb + index + 1"
    by (auto simp: ino_from_bgid_index_def rbind_Inr_iff)
  with i show "ino_into_bgid_index sb ino = Inr (bgid, index)"
    by (simp add: ino_into_bgid_index_def sub_nat_def)
next
  assume ino: "ino < 2 ^ 32" and f: "ino_into_bgid_index sb ino = Inr (bgid, index)"
  have f': "1 \<le> ino" "bgid = (ino - 1) div inodes_per_group sb" "index = (ino - 1) mod inodes_per_group sb"
    using f by (auto simp: ino_into_bgid_index_def rbind_Inr_iff)
  have eq: "bgid * inodes_per_group sb + index = ino - 1"
    unfolding f'(2,3) by (rule div_mult_mod_eq)
  have "index < inodes_per_group sb" using assms(1) unfolding f'(3) by (rule mod_less_divisor)
  with assms(2) have "trunc 32 index = index" by (intro trunc_id) linarith
  moreover have "bgid * inodes_per_group sb < 2 ^ 32" "bgid * inodes_per_group sb + index < 2 ^ 32"
    using eq ino by linarith+
  moreover have "bgid * inodes_per_group sb + index + 1 = ino" using eq f'(1) by simp
  ultimately show "ino_from_bgid_index sb bgid index = Inr ino"
    using ino by (simp add: ino_from_bgid_index_def chk_def)
qed

text \<open>without \<open>META_BG\<close>, the descriptors of different groups occupy different slots, and
  every slot lies inside its block, behind the superblock.\<close>

theorem descriptor_slots_disjoint:
  assumes "\<not> contains_flag (features_incompatible sb) META_BG"
    and "0 < block_desc_size sb" and "block_desc_size sb \<le> blk_size" and "blk_size < 2 ^ 32"
  shows "snd (bgid_into_lba_index blk_size sb g) + block_desc_size sb \<le> blk_size \<and>
    first_data_block sb < fst (bgid_into_lba_index blk_size sb g) \<and>
    (bgid_into_lba_index blk_size sb g = bgid_into_lba_index blk_size sb h \<longrightarrow> g = h)"
proof -
  define c where "c = blk_size div block_desc_size sb"
  have c: "0 < c" "c * block_desc_size sb \<le> blk_size"
    using assms(2,3) by (simp_all add: c_def div_greater_zero_iff)
  have "c \<le> blk_size" by (simp add: c_def)
  with assms(4) have "trunc 32 c = c" by (intro trunc_id) linarith
  then have eq: "bgid_into_lba_index blk_size sb x =
      (first_data_block sb + x div c + 1, x mod c * block_desc_size sb)" for x
    using assms(1) by (simp add: bgid_into_lba_index_def get_descriptor_block_def c_def Let_def)
  have "Suc (g mod c) * block_desc_size sb \<le> c * block_desc_size sb"
    using c(1) by (intro mult_le_mono1) (simp add: Suc_leI)
  then have "g mod c * block_desc_size sb + block_desc_size sb \<le> blk_size" using c(2) by simp
  moreover have "g = h" if "g div c = h div c" "g mod c = h mod c"
    using that by (metis div_mult_mod_eq)
  ultimately show ?thesis using assms(2) by (auto simp: eq)
qed

text \<open>the inode counts of the groups add up to the number of inodes.\<close>

theorem inodes_of_groups_sum:
  assumes "0 < bg_count sb" and "(bg_count sb - 1) * inodes_per_group sb \<le> inodes_count sb"
    and "inodes_count sb < 2 ^ 32"
  shows "(\<Sum>g<bg_count sb. projr (sb_get_inodes_in_group_cnt sb g)) = inodes_count sb \<and>
    (\<forall>g<bg_count sb. \<exists>n. sb_get_inodes_in_group_cnt sb g = Inr n)"
proof -
  obtain k where k: "bg_count sb = Suc k" using assms(1) gr0_implies_Suc by blast
  have "sb_get_inodes_in_group_cnt sb g = Inr (inodes_per_group sb)" if "g < k" for g
    using that k by (simp add: sb_get_inodes_in_group_cnt_def sub_nat_def)
  moreover have "sb_get_inodes_in_group_cnt sb k = Inr (inodes_count sb - k * inodes_per_group sb)"
    using k assms by (simp add: sb_get_inodes_in_group_cnt_def sub_nat_def chk_def)
  ultimately show ?thesis using k assms(2) by (auto simp: less_Suc_eq)
qed

section \<open>The orphan list\<close>

text \<open>\<open>oseg p xs n m\<close>: \<open>m\<close> links \<open>xs\<close> in both directions, between \<open>p\<close> and \<open>n\<close>; \<open>orphans xs m\<close>:
  the whole map is the list \<open>xs\<close>, with 0 beyond both ends.\<close>

fun oseg :: "nat \<Rightarrow> nat list \<Rightarrow> nat \<Rightarrow> (nat \<rightharpoonup> nat \<times> nat) \<Rightarrow> bool" where
  "oseg p [] n m = True"
| "oseg p (x # xs) n m = (m x = Some (p, if xs = [] then n else hd xs) \<and> oseg x xs n m)"

definition orphans :: "nat list \<Rightarrow> (nat \<rightharpoonup> nat \<times> nat) \<Rightarrow> bool" where
  "orphans xs m \<longleftrightarrow> distinct xs \<and> 0 \<notin> set xs \<and> dom m = set xs \<and> oseg 0 xs 0 m"

lemma oseg_append:
  "oseg p (xs @ ys) n m \<longleftrightarrow> oseg p xs (if ys = [] then n else hd ys) m \<and> oseg (last (p # xs)) ys n m"
  by (induction xs arbitrary: p) (auto simp: hd_append)

lemma oseg_fun_upd: "x \<notin> set xs \<Longrightarrow> oseg p xs n (m(x := v)) = oseg p xs n m"
  by (induction xs arbitrary: p) auto

lemma orphans_add:
  assumes "orphans xs m" and "x \<notin> set xs" and "x \<noteq> 0"
  shows "orphans (x # xs)
    (add_orphan_link 0 x (hd (xs @ [0])) (replace_orphan_prevlink x (hd (xs @ [0])) m))"
proof (cases xs)
  case Nil
  with assms show ?thesis
    by (auto simp: orphans_def add_orphan_link_def replace_orphan_prevlink_def split: option.splits)
next
  case (Cons y ys)
  with assms show ?thesis
    by (auto simp: orphans_def add_orphan_link_def replace_orphan_prevlink_def oseg_fun_upd
        insert_commute)
qed

text \<open>the map of orphaned inodes stays a well-linked list: unlinking an inode anywhere in it
  joins its neighbours, and the logged pair names them.\<close>

theorem remove_orphan_unlinks:
  assumes "orphans (ys @ x # zs) m"
  shows "\<exists>m'. remove_orphan x m = Inr ((last (0 # ys), hd (zs @ [0])), m') \<and> orphans (ys @ zs) m'"
proof -
  from assms have d: "distinct (ys @ x # zs)" "0 \<notin> set (ys @ x # zs)" "dom m = set (ys @ x # zs)"
    "oseg 0 (ys @ x # zs) 0 m" by (auto simp: orphans_def)
  then have x: "m x = Some (last (0 # ys), hd (zs @ [0]))" "m 0 = None" "x \<noteq> 0"
    by (auto simp: oseg_append domIff [symmetric] split: if_splits)
  let ?m = "replace_orphan_prevlink (last (0 # ys)) (hd (zs @ [0]))
     (replace_orphan_nextlink (hd (zs @ [0])) (last (0 # ys)) (m(x := None)))"
  have "orphans (ys @ zs) ?m"
  proof (cases ys rule: rev_cases; cases zs)
    assume "ys = []" "zs = []"
    with d x show ?thesis
      by (auto simp: orphans_def replace_orphan_prevlink_def replace_orphan_nextlink_def)
  next
    fix b zs' assume "ys = []" "zs = b # zs'"
    with d x show ?thesis
      by (auto simp: orphans_def replace_orphan_prevlink_def replace_orphan_nextlink_def oseg_fun_upd)
  next
    fix ys' a assume "ys = ys' @ [a]" "zs = []"
    with d x show ?thesis
      by (auto simp: orphans_def replace_orphan_prevlink_def replace_orphan_nextlink_def oseg_fun_upd
          oseg_append)
  next
    fix ys' a b zs' assume "ys = ys' @ [a]" "zs = b # zs'"
    with d x show ?thesis
      by (auto simp: orphans_def replace_orphan_prevlink_def replace_orphan_nextlink_def oseg_fun_upd
          oseg_append)
  qed
  with x(1) show ?thesis by (simp add: remove_orphan_def)
qed

lemma remove_orphan_unlinks_witness:
  "\<exists>m'. remove_orphan 7 [5 \<mapsto> (0, 7), 7 \<mapsto> (5, 9), 9 \<mapsto> (7, 0)] = Inr ((5, 9), m') \<and> orphans [5, 9] m'"
proof -
  have "orphans ([5] @ 7 # [9]) [5 \<mapsto> (0, 7), 7 \<mapsto> (5, 9), 9 \<mapsto> (7, 0)]"
    by (auto simp: orphans_def)
  from remove_orphan_unlinks [OF this] show ?thesis by simp
qed

section \<open>Concrete superblocks\<close>

lemma read_replicate:
  "p < n \<Longrightarrow> read_u8 (replicate n b) p = Inr b"
  "p + 2 \<le> n \<Longrightarrow> read_u16 (replicate n b) p = Inr (le16 b b)"
  "p + 4 \<le> n \<Longrightarrow> read_u32 (replicate n b) p = Inr (le32 b b b b)"
  by (simp_all add: read_u8_def read_u16_def read_u32_def)

lemma le_ones: "le16 1 1 = 0x101" "le32 1 1 1 1 = 0x1010101"
  by (simp_all add: le16_def le32_def)

lemma sb_from_raw_geometry_witness:
  "\<exists>sb. sb_from_raw 1024 (replicate 1024 1) = Inr sb \<and> 64 \<le> block_desc_size sb \<and>
     0 < blocks_per_group sb"
proof -
  have "\<exists>sb. sb_from_raw 1024 (replicate 1024 1) = Inr sb \<and> block_desc_size sb = 257"
    unfolding sb_from_raw_def sb_view_def Let_def sb_blocks_count_def is_feature_incompat64_def
      num16_def num32_def compound_u64_get_def
    by (simp add: read_replicate le_ones sb_verify_def)
  then obtain sb where sb: "sb_from_raw 1024 (replicate 1024 1) = Inr sb" "block_desc_size sb = 257"
    by blast
  with sb_from_raw_geometry [OF sb(1)] show ?thesis by auto
qed

text \<open>Four groups of 8192 blocks and 2048 inodes, 1 KiB blocks, descriptors of 64 bytes.\<close>

definition demo_sb :: superblock where
  "demo_sb =
     \<lparr>is_dir_entry_version2 = True, inode_size = 256, inodes_per_group = 2048, block_desc_size = 64,
      first_meta_bg = 0, features_incompatible = 0x2C2, features_compatible = 0x20,
      features_readonly = 0x401, first_data_block = 1, blocks_per_group = 8192, creator_os = 0,
      rev_level = 1, sb_flags = 2, hash_seed = [0, 0, 0, 0], blocks_count = 30000,
      inodes_count = 8000, bg_count = 4, want_extra_isize = 32, uuid = replicate 16 7,
      default_hash_version = 1, free_inodes_count = 7000, orphaned_inode = Map.empty,
      manipulator = replicate 1024 0\<rparr>"

lemma lba_bgid_index_roundtrip_witness:
  "lba_into_bgid_index demo_sb (lba_from_bgid_index demo_sb 3 17) = Some (3, 17) \<and>
   lba_from_bgid_index demo_sb 2 0 = 16385"
  using lba_bgid_index_roundtrip [of demo_sb 3 17 24594] lba_bgid_index_roundtrip [of demo_sb 2 0 16385]
  by (simp add: demo_sb_def lba_into_bgid_index_def trunc_def)

lemma ino_bgid_index_roundtrip_witness:
  "ino_from_bgid_index demo_sb 1 5 = Inr 2054 \<and> ino_into_bgid_index demo_sb 2054 = Inr (1, 5)"
proof -
  have "ino_from_bgid_index demo_sb 1 5 = Inr 2054"
    by (simp add: ino_from_bgid_index_def demo_sb_def chk_def trunc_def)
  with ino_bgid_index_roundtrip [of demo_sb 5 1 2054] show ?thesis by (simp add: demo_sb_def)
qed

lemma descriptor_slots_disjoint_witness:
  "bgid_into_lba_index 1024 demo_sb 17 = (3, 64) \<and>
   snd (bgid_into_lba_index 1024 demo_sb 17) + 64 \<le> 1024 \<and>
   bgid_into_lba_index 1024 demo_sb 17 \<noteq> bgid_into_lba_index 1024 demo_sb 1"
proof -
  have "\<not> contains_flag (features_incompatible demo_sb) META_BG"
    by (simp add: demo_sb_def contains_flag_def META_BG_def)
  moreover from this have "bgid_into_lba_index 1024 demo_sb 17 = (3, 64)"
    by (simp add: bgid_into_lba_index_def get_descriptor_block_def demo_sb_def trunc_def Let_def)
  ultimately show ?thesis
    using descriptor_slots_disjoint [of demo_sb 1024 17 1] by (auto simp: demo_sb_def)
qed

lemma inodes_of_groups_sum_witness:
  "(\<Sum>g<bg_count demo_sb. projr (sb_get_inodes_in_group_cnt demo_sb g)) = 8000"
  using inodes_of_groups_sum [of demo_sb] by (simp add: demo_sb_def)

end
