(* ===== verification/Inode_Raw.thy ===== *)
theory Inode_Raw
  imports Superblock Crc
begin

text \<open>
  The on-disk inode, \<open>src/inode/raw.rs\<close>, and its addressing modes (\<open>src/inode/mod.rs\<close>,
  \<open>src/inode/legacy/mod.rs\<close>): the fields, the type bits of the mode, reading and writing the
  60 bytes that hold either 15 block addresses or the root of the extent tree, the
  initialisation of a fresh inode and the checksum.
\<close>

section \<open>Addressing modes\<close>

record extent_tree =
  et_entries_cnt :: nat
  et_max_entries_cnt :: nat
  et_depth :: nat
  et_b :: bytes

definition extent_tree_default :: extent_tree where
  "extent_tree_default =
     \<lparr>et_entries_cnt = 0, et_max_entries_cnt = 4, et_depth = 0, et_b = replicate 48 0\<rparr>"

datatype addressing = Legacy "32 word list" | Extent extent_tree

datatype raw_addressing = RawLegacy "32 word list" | RawExtent nat nat nat bytes

definition as_raw :: "addressing \<Rightarrow> raw_addressing" where
  "as_raw a = (case a of
     Legacy l \<Rightarrow> RawLegacy l
   | Extent t \<Rightarrow> RawExtent (et_entries_cnt t) (et_max_entries_cnt t) (et_depth t) (et_b t))"

definition to_inline_data :: "addressing \<Rightarrow> bytes result" where
  "to_inline_data a = (case a of
     Legacy l \<Rightarrow> Inr (concat (map (\<lambda>i. to_le32 (l ! i)) [0..<15]))
   | Extent _ \<Rightarrow> Inl Panic)"

section \<open>Fields\<close>

definition inode_layout :: "(string \<times> nat \<times> nat) list" where
  "inode_layout =
    [(''mode'', 0x0, 2), (''uid'', 0x2, 2), (''size'', 0x4, 4), (''access_time'', 0x8, 4),
     (''change_time'', 0xC, 4), (''modification_time'', 0x10, 4), (''deletion_time'', 0x14, 4),
     (''gid'', 0x18, 2), (''links_count'', 0x1A, 2), (''blocks'', 0x1C, 4), (''flags'', 0x20, 4),
     (''addresses'', 0x28, 60), (''generation'', 0x64, 4), (''file_acl'', 0x68, 4), (''size_hi'', 0x6C, 4),
     (''blocks_hi'', 0x74, 4), (''mode_hi'', 0x76, 2), (''checksum'', 0x7C, 2),
     (''obsolete_fragment_addr'', 0x80, 4), (''extra_isize'', 0x80, 2), (''checksum_hi'', 0x82, 2),
     (''creation_time'', 0x90, 4)]"

definition detect_type :: "bytes \<Rightarrow> file_type result" where
  "detect_type d =
     rmap (\<lambda>m. let t = m AND 0xF000
               in if t = 0x1000 then Fifo
                  else if t = 0x2000 then CharacterDev
                  else if t = 0x4000 then Directory
                  else if t = 0x6000 then BlockDev
                  else if t = 0x8000 then RegularFile
                  else if t = 0xA000 then Symlink
                  else if t = 0xC000 then Socket
                  else Unknown) (read_u16 d 0)"

definition filetype_to_mode :: "file_type \<Rightarrow> 32 word result" where
  "filetype_to_mode ft = (case ft of
     Fifo \<Rightarrow> Inr 0x1000
   | CharacterDev \<Rightarrow> Inr 0x2000
   | Directory \<Rightarrow> Inr 0x4000
   | BlockDev \<Rightarrow> Inr 0x6000
   | RegularFile \<Rightarrow> Inr 0x8000
   | Symlink \<Rightarrow> Inr 0xA000
   | Socket \<Rightarrow> Inr 0xC000
   | Unknown \<Rightarrow> Inl Panic)"

definition mode_hi :: "superblock \<Rightarrow> bool" where
  "mode_hi sb \<longleftrightarrow> creator_os sb = 1"

definition inode_mode_get :: "superblock \<Rightarrow> bytes \<Rightarrow> 32 word result" where
  "inode_mode_get sb d = compound_u32_get 0x0 0x76 (mode_hi sb) d"

definition inode_mode_set :: "superblock \<Rightarrow> 32 word \<Rightarrow> bytes \<Rightarrow> bytes result" where
  "inode_mode_set sb v d = compound_u32_set 0x0 0x76 (mode_hi sb) v d"

definition size_hi :: "superblock \<Rightarrow> bytes \<Rightarrow> bool result" where
  "size_hi sb d =
     (if rev_level sb > 0 then rmap (\<lambda>t. t = RegularFile) (detect_type d) else Inr False)"

definition inode_size_get :: "superblock \<Rightarrow> bytes \<Rightarrow> 64 word result" where
  "inode_size_get sb d = rbind (size_hi sb d) (\<lambda>hi. compound_u64_get 0x4 0x6C hi d)"

definition inode_size_set :: "superblock \<Rightarrow> 64 word \<Rightarrow> bytes \<Rightarrow> bytes result" where
  "inode_size_set sb v d = rbind (size_hi sb d) (\<lambda>hi. compound_u64_set 0x4 0x6C hi v d)"

definition SB_HUGE_FILE :: "32 word" where "SB_HUGE_FILE = 0x0008"

definition inode_blocks_get :: "superblock \<Rightarrow> bytes \<Rightarrow> 64 word result" where
  "inode_blocks_get sb d =
     compound_u64_get 0x1C 0x74 (contains_flag (features_readonly sb) SB_HUGE_FILE) d"

definition inode_blocks_set :: "superblock \<Rightarrow> 64 word \<Rightarrow> bytes \<Rightarrow> bytes result" where
  "inode_blocks_set sb v d =
     compound_u64_set 0x1C 0x74 (contains_flag (features_readonly sb) SB_HUGE_FILE) v d"

definition sb_extents :: "superblock \<Rightarrow> bool" where
  "sb_extents sb \<longleftrightarrow> contains_flag (features_incompatible sb) INCOMPAT_EXTENTS"

definition inode_has_extents :: "bytes \<Rightarrow> bool result" where
  "inode_has_extents d =
     rmap (\<lambda>w. contains_flag (from_bits_truncate all_inode_flags w) (inode_flag_bits EXTENTS))
       (read_u32 d 0x20)"

definition slice_of :: "nat \<Rightarrow> nat \<Rightarrow> bytes \<Rightarrow> bytes result" where
  "slice_of p q b = (if p \<le> q \<and> q \<le> length b then Inr (take (q - p) (drop p b)) else Inl Panic)"

definition legacy_offsets :: "nat list" where
  "legacy_offsets = [0x28, 0x2c, 0x30, 0x34, 0x38, 0x3c, 0x40, 0x44, 0x48, 0x4c, 0x50, 0x54, 0x58,
     0x5c, 0x60]"

definition get_addressing_mode :: "superblock \<Rightarrow> bytes \<Rightarrow> addressing result" where
  "get_addressing_mode sb d =
     rbind (if sb_extents sb then inode_has_extents d else Inr False) (\<lambda>ext.
     if ext
     then rbind (num16 d 0x2a) (\<lambda>n.
          rbind (num16 d 0x2c) (\<lambda>mx.
          rbind (num16 d 0x2e) (\<lambda>dp.
          rbind (slice_of 0x34 0x64 d) (\<lambda>b.
          Inr (Extent \<lparr>et_entries_cnt = n, et_max_entries_cnt = mx, et_depth = dp, et_b = b\<rparr>)))))
     else rmap Legacy (read_all read_u32 d legacy_offsets))"

definition set_addresses :: "superblock \<Rightarrow> raw_addressing \<Rightarrow> bytes \<Rightarrow> bytes result" where
  "set_addresses sb mode d =
     rbind (inode_has_extents d) (\<lambda>ext.
     rbind (assertR (sb_extents sb \<or> \<not> ext)) (\<lambda>_.
     case (mode, ext) of
       (RawExtent n mx dp b, True) \<Rightarrow>
         rbind (write_u16 0x28 0xF30A d) (\<lambda>d.
         rbind (write_u16 0x2a (of_nat n) d) (\<lambda>d.
         rbind (write_u16 0x2c (of_nat mx) d) (\<lambda>d.
         rbind (write_u16 0x2e (of_nat dp) d) (\<lambda>d.
         rbind (write_u16 0x30 0 d) (\<lambda>d.
         if 0x64 \<le> length d \<and> length b = 48 then Inr (splice d 0x34 b) else Inl Panic)))))
     | (RawLegacy l, False) \<Rightarrow>
         for_each (zip legacy_offsets l) (\<lambda>(p, v). write_u32 p v) d
     | _ \<Rightarrow> Inl Panic))"

definition uses_extents :: "superblock \<Rightarrow> file_type \<Rightarrow> bool" where
  "uses_extents sb ft \<longleftrightarrow> sb_extents sb \<and> (ft = Directory \<or> ft = RegularFile)"

definition inode_init :: "superblock \<Rightarrow> file_type \<Rightarrow> bytes \<Rightarrow> bytes result" where
  "inode_init sb ft d =
     (let flag = (if uses_extents sb ft then inode_flag_bits EXTENTS else 0);
          addresses = (if uses_extents sb ft then RawExtent 0 4 0 (replicate 48 0)
                       else RawLegacy (replicate 15 0));
          flag = (if ft = Directory then flag OR inode_flag_bits INDEX else flag)
      in rbind (default_mode (de_from_file_type ft)) (\<lambda>dm.
         rbind (filetype_to_mode ft) (\<lambda>tm.
         rbind (inode_mode_set sb (dm OR tm) (replicate (length d) 0)) (\<lambda>d.
         rbind (write_u32 0x20 flag d) (\<lambda>d.
         rbind (set_addresses sb addresses d) (\<lambda>d.
         if inode_size sb > 0x80 then write_u16 0x80 (of_nat (want_extra_isize sb)) d else Inr d))))))"

definition inode_checksum_get :: "bytes \<Rightarrow> 32 word result" where
  "inode_checksum_get d = compound_u32_get 0x7c 0x82 (length d > 0x80) d"

definition inode_checksum_set :: "32 word \<Rightarrow> bytes \<Rightarrow> bytes result" where
  "inode_checksum_set v d = compound_u32_set 0x7c 0x82 (length d > 0x80) v d"

definition calculate_checksum :: "superblock \<Rightarrow> nat \<Rightarrow> bytes \<Rightarrow> 32 word option result" where
  "calculate_checksum sb ino d =
     (if contains_flag (features_readonly sb) METADATA_CSUM
      then rbind (read_u32 d 0x64) (\<lambda>gen.
           rbind (assertR (0x84 \<le> length d)) (\<lambda>_.
           Inr (Some (crc32c_finish (fold crc32c_write
             [uuid sb, to_le32 (of_nat ino), to_le32 gen, take 0x7c d, to_le16 0,
              take 4 (drop 0x7e d), to_le16 0, drop 0x84 d] crc32c_default)))))
      else Inr None)"

section \<open>Runs of 32-bit words\<close>

definition write_words :: "nat list \<Rightarrow> 32 word list \<Rightarrow> bytes \<Rightarrow> bytes result" where
  "write_words ps vs d = for_each (zip ps vs) (\<lambda>(p, v). write_u32 p v) d"

lemma write_words_frame:
  "write_words ps vs d = Inr d' \<Longrightarrow>
   length d' = length d \<and> ((\<forall>p\<in>set ps. i < p \<or> p + 4 \<le> i) \<longrightarrow> d' ! i = d ! i)"
proof (induction ps arbitrary: vs d)
  case (Cons p ps)
  show ?case
  proof (cases vs)
    case (Cons v ws)
    with Cons.prems obtain d1 where d1: "write_u32 p v d = Inr d1" "write_words ps ws d1 = Inr d'"
      by (auto simp: write_words_def rbind_Inr_iff)
    from Cons.IH [OF d1(2)] write_length(3) [OF d1(1)] write_u32_frame [OF d1(1), of i]
    show ?thesis by auto
  qed (use Cons.prems in \<open>simp add: write_words_def\<close>)
qed (simp add: write_words_def)

lemma write_words_read:
  assumes "write_words ps vs d = Inr d'" and "length vs = length ps"
    and "distinct ps" and "\<forall>p\<in>set ps. p mod 4 = 0"
  shows "read_all read_u32 d' ps = Inr vs"
  using assms
proof (induction ps arbitrary: vs d)
  case (Cons p ps)
  then obtain v ws where vs: "vs = v # ws" by (cases vs) auto
  with Cons.prems(1) obtain d1 where d1: "write_u32 p v d = Inr d1" "write_words ps ws d1 = Inr d'"
    by (auto simp: write_words_def rbind_Inr_iff)
  have far: "i < q \<or> q + 4 \<le> i" if "q \<in> set ps" "p \<le> i" "i < p + 4" for i q
  proof -
    from Cons.prems(3,4) that have "q \<noteq> p" "q mod 4 = 0" "p mod 4 = 0" by auto
    then obtain a b where "q = 4 * a" "p = 4 * b" "a \<noteq> b" by (auto elim!: dvdE simp: mod_eq_0_iff_dvd)
    with that show ?thesis by (cases "a < b") auto
  qed
  have "d' ! i = d1 ! i" if "p \<le> i" "i < p + 4" for i
    using write_words_frame [OF d1(2)] far that by blast
  then have "read_u32 d' p = read_u32 d1 p"
    using write_words_frame [OF d1(2)] by (intro read_u32_cong) auto
  with read_write_u32 [OF d1(1)] Cons.IH [OF d1(2)] Cons.prems vs show ?case by simp
qed (simp add: write_words_def)

lemma write_words_defined:
  "(\<forall>p\<in>set ps. p + 4 \<le> length d) \<Longrightarrow> \<exists>d'. write_words ps vs d = Inr d'"
proof (induction ps arbitrary: vs d)
  case (Cons p ps)
  show ?case
  proof (cases vs)
    case (Cons v ws)
    from Cons.prems write_defined(3) [of p d v] obtain d1 where d1: "write_u32 p v d = Inr d1" by auto
    with Cons.IH [of d1 ws] Cons.prems write_length(3) [OF d1] Cons show ?thesis
      by (auto simp: write_words_def)
  qed (simp add: write_words_def)
qed (simp add: write_words_def)

lemma legacy_offsets_ok:
  "distinct legacy_offsets" "\<forall>p\<in>set legacy_offsets. p mod 4 = 0" "length legacy_offsets = 15"
  "\<forall>p\<in>set legacy_offsets. 0x28 \<le> p \<and> p + 4 \<le> 0x64"
  by (simp_all add: legacy_offsets_def)

section \<open>The addresses round trip\<close>

definition raw_wf :: "raw_addressing \<Rightarrow> bool" where
  "raw_wf a = (case a of
     RawLegacy l \<Rightarrow> length l = 15
   | RawExtent n mx dp b \<Rightarrow> n < 2 ^ 16 \<and> mx < 2 ^ 16 \<and> dp < 2 ^ 16 \<and> length b = 48)"

lemma unat_of_nat_16: "n < 2 ^ 16 \<Longrightarrow> unat (of_nat n :: 16 word) = n"
  by (simp add: unat_of_nat take_bit_nat_eq_self)

lemma num16_after: "write_u16 p (of_nat n) d = Inr d' \<Longrightarrow> n < 2 ^ 16 \<Longrightarrow> num16 d' p = Inr n"
  by (simp add: num16_def read_write_u16 unat_of_nat_16)

text \<open>Two buffers that agree on the bytes of a field read the same there.\<close>

definition agree_on :: "nat set \<Rightarrow> bytes \<Rightarrow> bytes \<Rightarrow> bool" where
  "agree_on S b c \<longleftrightarrow> length b = length c \<and> (\<forall>i\<in>S. b ! i = c ! i)"

lemma agree_on_trans: "agree_on S a b \<Longrightarrow> agree_on S b c \<Longrightarrow> agree_on S a c"
  by (auto simp: agree_on_def)

lemma agree_on_subset: "agree_on S a b \<Longrightarrow> T \<subseteq> S \<Longrightarrow> agree_on T a b"
  by (auto simp: agree_on_def)

lemma agree_read:
  "agree_on {p..<p + 2} a b \<Longrightarrow> read_u16 a p = read_u16 b p"
  "agree_on {p..<p + 4} a b \<Longrightarrow> read_u32 a p = read_u32 b p"
  "agree_on {p..<p + 2} a b \<Longrightarrow> num16 a p = num16 b p"
  by (auto simp: agree_on_def num16_def intro!: read_u16_cong read_u32_cong arg_cong [of _ _ "rmap unat"])

lemma agree_write:
  "write_u16 p v d = Inr d' \<Longrightarrow> agree_on (- {p..<p + 2}) d' d"
  "write_u32 p w d = Inr d' \<Longrightarrow> agree_on (- {p..<p + 4}) d' d"
  by (auto simp: agree_on_def byte_simps not_le not_less intro: write_u16_frame write_u32_frame)

lemma set_addresses_outside:
  assumes "set_addresses sb a d = Inr d'" and "raw_wf a"
  shows "agree_on (- {0x28..<0x64}) d' d"
proof (cases a)
  case (RawLegacy l)
  with assms have w: "write_words legacy_offsets l d = Inr d'"
    by (auto simp: set_addresses_def rbind_Inr_iff write_words_def split: bool.splits)
  have "d' ! i = d ! i" if "i < 0x28 \<or> 0x64 \<le> i" for i
    using write_words_frame [OF w, of i] legacy_offsets_ok(4) that by force
  with write_words_frame [OF w] show ?thesis by (auto simp: agree_on_def)
next
  case (RawExtent n mx dp b)
  with assms obtain d1 d2 d3 d4 d5 where
    w: "write_u16 0x28 0xF30A d = Inr d1" "write_u16 0x2a (of_nat n) d1 = Inr d2"
    "write_u16 0x2c (of_nat mx) d2 = Inr d3" "write_u16 0x2e (of_nat dp) d3 = Inr d4"
    "write_u16 0x30 0 d4 = Inr d5" "0x64 \<le> length d5" "d' = splice d5 0x34 b"
    by (auto simp: set_addresses_def rbind_Inr_iff split: bool.splits if_splits)
  have sub: "agree_on (- {0x28..<0x64}) x y" if "agree_on (- {p..<p + 2}) x y" "0x28 \<le> p" "p + 2 \<le> 0x64"
    for x y p using that(2,3) by (intro agree_on_subset [OF that(1)]) auto
  have "agree_on (- {0x28..<0x64}) d5 d"
    using agree_write(1) [OF w(1), THEN sub] agree_write(1) [OF w(2), THEN sub]
      agree_write(1) [OF w(3), THEN sub] agree_write(1) [OF w(4), THEN sub]
      agree_write(1) [OF w(5), THEN sub] by simp (meson agree_on_trans)
  moreover have "agree_on (- {0x34..<0x64}) d' d5"
    using w(6) assms(2) RawExtent
    by (auto simp: w(7) raw_wf_def agree_on_def nth_splice_outside)
  ultimately show ?thesis by (auto elim!: agree_on_trans [rotated] agree_on_subset)
qed

lemma set_addresses_read:
  assumes "set_addresses sb a d = Inr d'" and "raw_wf a"
  shows "(\<exists>m. get_addressing_mode sb d' = Inr m \<and> as_raw m = a) \<and>
    length d' = length d \<and> (\<forall>i. i < 0x28 \<or> 0x64 \<le> i \<longrightarrow> d' ! i = d ! i)"
proof -
  have out: "agree_on (- {0x28..<0x64}) d' d" by (rule set_addresses_outside [OF assms])
  then have "read_u32 d' 0x20 = read_u32 d 0x20"
    by (intro agree_read) (auto elim!: agree_on_subset)
  then have ext: "inode_has_extents d' = inode_has_extents d" by (simp add: inode_has_extents_def)
  have "\<exists>m. get_addressing_mode sb d' = Inr m \<and> as_raw m = a"
  proof (cases a)
    case (RawLegacy l)
    with assms have w: "write_words legacy_offsets l d = Inr d'" "inode_has_extents d = Inr False"
      "length l = 15"
      by (auto simp: set_addresses_def rbind_Inr_iff write_words_def raw_wf_def split: bool.splits)
    have "read_all read_u32 d' legacy_offsets = Inr l"
      by (rule write_words_read [OF w(1)]) (use w(3) legacy_offsets_ok in simp_all)
    with w(2) ext RawLegacy show ?thesis by (simp add: get_addressing_mode_def as_raw_def)
  next
    case (RawExtent n mx dp b)
    with assms obtain d1 d2 d3 d4 d5 where
      w: "write_u16 0x28 0xF30A d = Inr d1" "write_u16 0x2a (of_nat n) d1 = Inr d2"
      "write_u16 0x2c (of_nat mx) d2 = Inr d3" "write_u16 0x2e (of_nat dp) d3 = Inr d4"
      "write_u16 0x30 0 d4 = Inr d5" "0x64 \<le> length d5" "d' = splice d5 0x34 b"
      and f: "inode_has_extents d = Inr True" "sb_extents sb"
      by (auto simp: set_addresses_def rbind_Inr_iff split: bool.splits if_splits)
    have bnd: "n < 2 ^ 16" "mx < 2 ^ 16" "dp < 2 ^ 16" "length b = 48"
      using assms(2) RawExtent by (simp_all add: raw_wf_def)
    have a6: "agree_on (- {0x34..<0x64}) d' d5"
      using w(6) bnd(4) by (auto simp: w(7) agree_on_def nth_splice_outside)
    note a5 = agree_write(1) [OF w(5)] and a4 = agree_write(1) [OF w(4)] and a3 = agree_write(1) [OF w(3)]
    have "agree_on {0x2a..<0x2a + 2} d' d2"
      by (rule agree_on_trans [OF agree_on_subset [OF a6] agree_on_trans [OF agree_on_subset [OF a5]
            agree_on_trans [OF agree_on_subset [OF a4] agree_on_subset [OF a3]]]]) auto
    then have r1: "num16 d' 0x2a = Inr n" using num16_after [OF w(2) bnd(1)] agree_read(3) by simp
    have "agree_on {0x2c..<0x2c + 2} d' d3"
      by (rule agree_on_trans [OF agree_on_subset [OF a6] agree_on_trans [OF agree_on_subset [OF a5]
            agree_on_subset [OF a4]]]) auto
    then have r2: "num16 d' 0x2c = Inr mx" using num16_after [OF w(3) bnd(2)] agree_read(3) by simp
    have "agree_on {0x2e..<0x2e + 2} d' d4"
      by (rule agree_on_trans [OF agree_on_subset [OF a6] agree_on_subset [OF a5]]) auto
    then have r3: "num16 d' 0x2e = Inr dp" using num16_after [OF w(4) bnd(3)] agree_read(3) by simp
    have "slice_of 0x34 0x64 d' = Inr b"
      using w(6) bnd(4) by (simp add: slice_of_def w(7) splice_def)
    with r1 r2 r3 ext f RawExtent show ?thesis
      by (simp add: get_addressing_mode_def as_raw_def)
  qed
  moreover have "d' ! i = d ! i" if "i < 0x28 \<or> 0x64 \<le> i" for i
    using out that unfolding agree_on_def by force
  ultimately show ?thesis using out by (auto simp: agree_on_def)
qed

text \<open>what is written as the addresses of an inode is read back from it, and nothing outside
  the 60 bytes of the addresses changes.\<close>

theorem addresses_roundtrip:
  assumes "set_addresses sb a d = Inr d'" and "raw_wf a"
  shows "(\<exists>m. get_addressing_mode sb d' = Inr m \<and> as_raw m = a) \<and>
    length d' = length d \<and> (\<forall>i. i < 0x28 \<or> 0x64 \<le> i \<longrightarrow> d' ! i = d ! i)"
  by (rule set_addresses_read [OF assms])

lemma get_addressing_mode_cong:
  assumes "agree_on {0x20..<0x64} a b"
  shows "get_addressing_mode sb a = get_addressing_mode sb b"
proof -
  have r: "read_u16 a p = read_u16 b p" "read_u32 a q = read_u32 b q" "num16 a p = num16 b p"
    if "0x20 \<le> p" "p + 2 \<le> 0x64" "0x20 \<le> q" "q + 4 \<le> 0x64" for p q
    using that by (auto intro!: agree_read agree_on_subset [OF assms])
  have len: "length a = length b" using assms by (simp add: agree_on_def)
  have "take 48 (drop 52 a) = take 48 (drop 52 b)"
    by (rule nth_equalityI) (use assms in \<open>auto simp: agree_on_def\<close>)
  then have "slice_of 0x34 0x64 a = slice_of 0x34 0x64 b" using len by (simp add: slice_of_def)
  moreover have "read_all read_u32 a ps = read_all read_u32 b ps"
    if "\<forall>p\<in>set ps. 0x28 \<le> p \<and> p + 4 \<le> 0x64" for ps
    using that r(2) [of "0x20"] by (induction ps) auto
  from this [OF legacy_offsets_ok(4)]
  have "read_all read_u32 a legacy_offsets = read_all read_u32 b legacy_offsets" .
  moreover have "inode_has_extents a = inode_has_extents b"
    using r(2) [of "0x20" "0x20"] by (simp add: inode_has_extents_def)
  moreover have "num16 a 0x2a = num16 b 0x2a" "num16 a 0x2c = num16 b 0x2c" "num16 a 0x2e = num16 b 0x2e"
    using r(3) [of _ "0x20"] by simp_all
  ultimately show ?thesis by (simp only: get_addressing_mode_def)
qed

section \<open>Fresh inodes\<close>

lemma set_addresses_defined:
  assumes "0x64 \<le> length d" and "raw_wf a" and "inode_has_extents d = Inr ext"
    and "sb_extents sb \<or> \<not> ext" and "ext \<longleftrightarrow> (\<exists>n mx dp b. a = RawExtent n mx dp b)"
  shows "\<exists>d'. set_addresses sb a d = Inr d'"
proof (cases a)
  case (RawLegacy l)
  have "\<exists>d'. write_words legacy_offsets l d = Inr d'"
    by (rule write_words_defined) (use legacy_offsets_ok(4) assms(1) in force)
  with RawLegacy assms(3-5) show ?thesis by (simp add: set_addresses_def write_words_def)
next
  case (RawExtent n mx dp b)
  have ext: ext using assms(5) RawExtent by simp
  have "\<exists>d'. write_u16 p v d = Inr d' \<and> 0x64 \<le> length d'"
    if "0x64 \<le> length d" "p + 2 \<le> 0x64" for p v and d :: bytes
    using write_defined(2) [of p d v] write_length(2) [of p v d] that by auto
  note w = this
  obtain d1 where d1: "write_u16 0x28 0xF30A d = Inr d1" "0x64 \<le> length d1"
    using w [of d "0x28"] assms(1) by auto
  obtain d2 where d2: "write_u16 0x2a (of_nat n) d1 = Inr d2" "0x64 \<le> length d2"
    using w [OF d1(2), of "0x2a"] by auto
  obtain d3 where d3: "write_u16 0x2c (of_nat mx) d2 = Inr d3" "0x64 \<le> length d3"
    using w [OF d2(2), of "0x2c"] by auto
  obtain d4 where d4: "write_u16 0x2e (of_nat dp) d3 = Inr d4" "0x64 \<le> length d4"
    using w [OF d3(2), of "0x2e"] by auto
  obtain d5 where d5: "write_u16 0x30 0 d4 = Inr d5" "0x64 \<le> length d5"
    using w [OF d4(2), of "0x30"] by auto
  from d1 d2 d3 d4 d5 RawExtent assms(2-4) ext show ?thesis
    by (simp add: set_addresses_def raw_wf_def)
qed

lemma type_bits:
  assumes "ft \<noteq> Unknown"
  obtains dm tm lo where "default_mode (de_from_file_type ft) = Inr dm" "filetype_to_mode ft = Inr tm"
    "split_u32 (dm OR tm) = (0, lo)"
    "\<And>d. read_u16 d 0 = Inr lo \<Longrightarrow> detect_type d = Inr ft"
  using assms
  by (cases ft) (simp_all add: default_mode_def de_from_file_type_def flag_union_def split_u32_def
      filetype_to_mode_def detect_type_def Let_def)

lemma init_flags:
  "contains_flag (from_bits_truncate all_inode_flags
      (let flag = (if e then inode_flag_bits EXTENTS else 0)
       in if dir then flag OR inode_flag_bits INDEX else flag)) (inode_flag_bits EXTENTS) \<longleftrightarrow> e"
proof -
  have "inode_flag_bits EXTENTS \<in> set all_inode_flags" by (simp add: all_inode_flags_def)
  note ct = contains_flag_truncate [OF this]
  show ?thesis unfolding ct by (cases e; cases dir) (simp_all add: contains_flag_def)
qed

lemma zeros_read:
  "p + 2 \<le> n \<Longrightarrow> read_u16 (replicate n 0) p = Inr 0"
  "p + 4 \<le> n \<Longrightarrow> read_u32 (replicate n 0) p = Inr 0"
  by (simp_all add: read_replicate le16_def le32_def)

lemma inode_mode_set_ok:
  assumes "0x78 \<le> length d" and "split_u32 v = (0, lo)"
  obtains d' where "inode_mode_set sb v d = Inr d'" "length d' = length d" "read_u16 d' 0 = Inr lo"
    "agree_on (- ({0..<2} \<union> {0x76..<0x78})) d' d" "d ! 0x76 = 0 \<Longrightarrow> d ! 0x77 = 0 \<Longrightarrow> d' ! 0x76 = 0 \<and> d' ! 0x77 = 0"
proof -
  obtain d1 where d1: "(if mode_hi sb then write_u16 0x76 0 d else Inr d) = Inr d1" "length d1 = length d"
    using write_defined(2) [of "0x76" d 0] write_length(2) [of "0x76" 0 d] assms(1) by (cases "mode_hi sb") auto
  obtain d' where d': "write_u16 0 lo d1 = Inr d'" using write_defined(2) [of 0 d1 lo] d1(2) assms(1) by auto
  have set: "inode_mode_set sb v d = Inr d'"
    using d1 d' assms(2) by (auto simp: inode_mode_set_def compound_u32_set_def split: if_splits)
  have a1: "agree_on (- {0x76..<0x78}) d1 d"
    using d1 agree_write(1) [of "0x76" 0 d d1] by (cases "mode_hi sb") (auto simp: agree_on_def)
  have "agree_on (- ({0..<2} \<union> {0x76..<0x78})) d' d"
    by (rule agree_on_trans [OF agree_on_subset [OF agree_write(1) [OF d']] agree_on_subset [OF a1]]) auto
  moreover have "d1 ! 0x76 = 0 \<and> d1 ! 0x77 = 0" if "d ! 0x76 = 0" "d ! 0x77 = 0"
    using that d1 assms(1)
    by (cases "mode_hi sb") (auto simp: write_u16_def to_le16_def nth_splice split: if_splits)
  then have "d' ! 0x76 = 0 \<and> d' ! 0x77 = 0" if "d ! 0x76 = 0" "d ! 0x77 = 0"
    using that write_u16_frame [OF d', of "0x76"] write_u16_frame [OF d', of "0x77"] by simp
  ultimately show thesis
    using that [OF set _ read_write_u16 [OF d']] write_length(2) [OF d'] d1(2) by simp
qed

text \<open>Initialising an inode, whatever was in its slot, gives it the requested type, no links, size zero,
  an empty set of addresses, the flags of the type and its default mode.\<close>

lemma inode_init_ok:
  assumes "ft \<noteq> Unknown" and "0x84 \<le> length d"
  shows "\<exists>d'. inode_init sb ft d = Inr d' \<and> length d' = length d \<and> detect_type d' = Inr ft \<and>
    inode_size_get sb d' = Inr 0 \<and> read_u16 d' 0x1A = Inr 0 \<and>
    (\<exists>m. get_addressing_mode sb d' = Inr m \<and>
      as_raw m = (if uses_extents sb ft then as_raw (Extent extent_tree_default)
                  else RawLegacy (replicate 15 0))) \<and>
    read_u32 d' 0x20 = Inr (let flag = (if uses_extents sb ft then inode_flag_bits EXTENTS else 0)
      in if ft = Directory then flag OR inode_flag_bits INDEX else flag) \<and>
    read_u32 d' 0x64 = Inr 0 \<and>
    (\<exists>dm tm. default_mode (de_from_file_type ft) = Inr dm \<and> filetype_to_mode ft = Inr tm \<and>
      inode_mode_get sb d' = Inr (dm OR tm))"
proof -
  let ?z = "replicate (length d) (0 :: byte)"
  let ?flag = "let flag = (if uses_extents sb ft then inode_flag_bits EXTENTS else 0)
     in if ft = Directory then flag OR inode_flag_bits INDEX else flag"
  let ?a = "if uses_extents sb ft then RawExtent 0 4 0 (replicate 48 0) else RawLegacy (replicate 15 0)"
  obtain dm tm lo where m: "default_mode (de_from_file_type ft) = Inr dm" "filetype_to_mode ft = Inr tm"
    "split_u32 (dm OR tm) = (0, lo)" and det: "\<And>d. read_u16 d 0 = Inr lo \<Longrightarrow> detect_type d = Inr ft"
    using type_bits [OF assms(1)] by metis
  obtain d1 where d1: "inode_mode_set sb (dm OR tm) ?z = Inr d1" "length d1 = length d"
    "read_u16 d1 0 = Inr lo" "agree_on (- ({0..<2} \<union> {0x76..<0x78})) d1 ?z"
    using inode_mode_set_ok [OF _ m(3), of ?z sb] assms(2) by auto
  obtain d2 where d2: "write_u32 0x20 ?flag d1 = Inr d2"
    using write_defined(3) [of "0x20" d1] d1(2) assms(2) by fastforce
  have len2: "length d2 = length d" using write_length(3) [OF d2] d1(2) by simp
  have ext: "inode_has_extents d2 = Inr (uses_extents sb ft)"
    unfolding inode_has_extents_def read_write_u32 [OF d2] rmap_simps init_flags ..
  have wf: "raw_wf ?a" by (simp add: raw_wf_def)
  have "uses_extents sb ft \<longleftrightarrow> (\<exists>n mx dp b. ?a = RawExtent n mx dp b)" by simp
  moreover have "sb_extents sb \<or> \<not> uses_extents sb ft" by (simp add: uses_extents_def)
  ultimately obtain d3 where d3: "set_addresses sb ?a d2 = Inr d3"
    using set_addresses_defined [OF _ wf ext] len2 assms(2) by fastforce
  note a3 = set_addresses_outside [OF d3 wf]
  obtain d4 where d4: "(if inode_size sb > 0x80 then write_u16 0x80 (of_nat (want_extra_isize sb)) d3
      else Inr d3) = Inr d4"
    using write_defined(2) [of "0x80" d3] a3 len2 assms(2) by (fastforce simp: agree_on_def)
  have a4: "agree_on (- {0x80..<0x82}) d4 d3"
    using d4 agree_write(1) [of "0x80" _ d3 d4] by (auto simp: agree_on_def split: if_splits)
  have init: "inode_init sb ft d = Inr d4"
    using m d1(1) d2 d3 d4 by (simp add: inode_init_def Let_def)
  have lo: "agree_on ({..<0x20} - ({0..<2} \<union> {0x76..<0x78})) d4 ?z"
    by (rule agree_on_trans [OF agree_on_subset [OF a4] agree_on_trans [OF agree_on_subset [OF a3]
      agree_on_trans [OF agree_on_subset [OF agree_write(2) [OF d2]] agree_on_subset [OF d1(4)]]]]) auto
  have "agree_on {0..<0 + 2} d4 d1"
    by (rule agree_on_trans [OF agree_on_subset [OF a4] agree_on_trans [OF agree_on_subset [OF a3]
      agree_on_subset [OF agree_write(2) [OF d2]]]]) auto
  with d1(3) have type: "detect_type d4 = Inr ft" by (intro det) (simp only: agree_read(1))
  have "agree_on {0x1A..<0x1A + 2} d4 ?z" by (rule agree_on_subset [OF lo]) auto
  from agree_read(1) [OF this] have links: "read_u16 d4 0x1A = Inr 0"
    using assms(2) by (simp add: zeros_read)
  have "agree_on {0x4..<0x4 + 4} d4 ?z" by (rule agree_on_subset [OF lo]) auto
  from agree_read(2) [OF this] have s4: "read_u32 d4 0x4 = Inr 0"
    using assms(2) by (simp add: zeros_read)
  have "agree_on {0x6C..<0x6C + 4} d4 ?z"
    by (rule agree_on_trans [OF agree_on_subset [OF a4] agree_on_trans [OF agree_on_subset [OF a3]
      agree_on_trans [OF agree_on_subset [OF agree_write(2) [OF d2]] agree_on_subset [OF d1(4)]]]]) auto
  from agree_read(2) [OF this] have s6: "read_u32 d4 0x6C = Inr 0"
    using assms(2) by (simp add: zeros_read)
  have "merge_u32 0 0 = 0" by (simp add: merge_u32_def)
  then have size: "inode_size_get sb d4 = Inr 0"
    using type s4 s6 by (simp add: inode_size_get_def size_hi_def compound_u64_get_def)
  have "get_addressing_mode sb d4 = get_addressing_mode sb d3"
    by (rule get_addressing_mode_cong) (auto intro: agree_on_subset [OF a4])
  moreover from set_addresses_read [OF d3 wf] obtain mm where
    "get_addressing_mode sb d3 = Inr mm" "as_raw mm = ?a" by blast
  moreover have "?a = (if uses_extents sb ft then as_raw (Extent extent_tree_default)
      else RawLegacy (replicate 15 0))"
    by (simp add: as_raw_def extent_tree_default_def)
  moreover have "length d4 = length d" using a4 a3 len2 by (simp add: agree_on_def)
  moreover have "agree_on {0x20..<0x20 + 4} d4 d2"
    by (rule agree_on_trans [OF agree_on_subset [OF a4] agree_on_subset [OF a3]]) auto
  then have "read_u32 d4 0x20 = Inr ?flag" using read_write_u32 [OF d2] by (simp only: agree_read(2))
  moreover have "agree_on {0x64..<0x64 + 4} d4 ?z"
    by (rule agree_on_trans [OF agree_on_subset [OF a4] agree_on_trans [OF agree_on_subset [OF a3]
      agree_on_trans [OF agree_on_subset [OF agree_write(2) [OF d2]] agree_on_subset [OF d1(4)]]]]) auto
  from agree_read(2) [OF this] have "read_u32 d4 0x64 = Inr 0"
    using assms(2) by (simp add: zeros_read)
  moreover have F: "field (compound_u32_get 0 0x76 (mode_hi sb)) (compound_u32_set 0 0x76 (mode_hi sb))
    ({0..<0+2} \<union> (if mode_hi sb then {0x76..<0x76+2} else {})) (\<lambda>v. mode_hi sb \<or> fst (split_u32 v) = 0)"
    by (rule compound_u32_field) simp
  have "inode_mode_get sb d1 = Inr (dm OR tm)"
    using field.get_set [OF F] d1(1) by (simp add: inode_mode_get_def inode_mode_set_def)
  moreover have a41: "agree_on ({0..<2} \<union> {0x76..<0x78}) d4 d1"
    by (rule agree_on_trans [OF agree_on_subset [OF a4] agree_on_trans [OF agree_on_subset [OF a3]
      agree_on_subset [OF agree_write(2) [OF d2]]]]) auto
  have "inode_mode_get sb d4 = inode_mode_get sb d1"
    unfolding inode_mode_get_def
    by (rule field.get_local [OF F]) (use a41 in \<open>auto simp: agree_on_def\<close>)
  ultimately show ?thesis using init type size links m(1,2) by (intro exI [of _ d4]) auto
qed

text \<open>the checksum of an inode does not depend on the two halves of the stored checksum, so
  the checksum of an inode of more than 128 bytes verifies after it has been stored.\<close>

theorem inode_checksum_verifies:
  assumes "calculate_checksum sb ino d = Inr (Some c)" and "inode_checksum_set c d = Inr d'"
    and "0x84 \<le> length d"
  shows "calculate_checksum sb ino d' = Inr (Some c) \<and> inode_checksum_get d' = Inr c"
proof -
  have F: "field (compound_u32_get 0x7c 0x82 True) (compound_u32_set 0x7c 0x82 True)
    ({0x7c..<0x7c+2} \<union> (if True then {0x82..<0x82+2} else {})) (\<lambda>v. True \<or> fst (split_u32 v) = 0)"
    by (rule compound_u32_field) simp
  have set: "compound_u32_set 0x7c 0x82 True c d = Inr d'"
    using assms(2,3) by (simp add: inode_checksum_set_def)
  have len: "length d' = length d" by (rule field.set_length [OF F set])
  have get: "inode_checksum_get d' = Inr c"
    using field.get_set [OF F set] len assms(3) by (simp add: inode_checksum_get_def)
  have same: "d' ! i = d ! i" if "i \<notin> {0x7c..<0x7e}" "i \<notin> {0x82..<0x84}" for i
    using field.set_frame [OF F set, of i] that by simp
  have "read_u32 d' 0x64 = read_u32 d 0x64" using len same by (intro read_u32_cong) auto
  moreover have "take 0x7c d' = take 0x7c d" using len same by (intro nth_equalityI) auto
  moreover have "take 4 (drop 0x7e d') = take 4 (drop 0x7e d)" using len same assms(3) by (intro nth_equalityI) auto
  moreover have "drop 0x84 d' = drop 0x84 d" using len same by (intro nth_equalityI) auto
  ultimately have "calculate_checksum sb ino d' = calculate_checksum sb ino d"
    by (simp only: calculate_checksum_def len)
  with get assms(1) show ?thesis by simp
qed

text \<open>the declared fields overlap in three places: the upper half of the block count is 32 bits
  wide at 0x74 and covers the upper half of the mode at 0x76, and the fragment address, placed at
  0x80, covers \<open>extra_isize\<close> and the upper half of the checksum.\<close>

theorem inode_layout_overlaps:
  "overlapping_fields inode_layout =
    [(''blocks_hi'', ''mode_hi''), (''obsolete_fragment_addr'', ''extra_isize''),
     (''obsolete_fragment_addr'', ''checksum_hi'')]"
  by (simp add: inode_layout_def fields_overlap_def)

section \<open>Concrete inodes\<close>

lemma demo_calculate_checksum:
  "\<exists>c. calculate_checksum demo_sb 12 (replicate 256 7) = Inr (Some c)"
  by (simp add: calculate_checksum_def demo_sb_def contains_flag_def METADATA_CSUM_def read_replicate)

lemma inode_checksum_verifies_witness:
  "\<exists>c d'. inode_checksum_set c (replicate 256 7) = Inr d' \<and>
    calculate_checksum demo_sb 12 d' = Inr (Some c) \<and> inode_checksum_get d' = Inr c"
proof -
  obtain c where c: "calculate_checksum demo_sb 12 (replicate 256 7) = Inr (Some c)"
    using demo_calculate_checksum by blast
  have "\<forall>i\<in>{0x7c..<0x7c+2} \<union> (if True then {0x82..<0x82+2} else {}). i < length (replicate 256 (7::byte))"
    by auto
  from field.set_defined [OF compound_u32_field this] obtain d' where
    d': "inode_checksum_set c (replicate 256 7) = Inr d'"
    by (fastforce simp: inode_checksum_set_def)
  from inode_checksum_verifies [OF c d'] d' show ?thesis by simp blast
qed

lemma addresses_roundtrip_witness:
  "\<exists>d'. set_addresses demo_sb (RawLegacy [1,2,3,4,5,6,7,8,9,10,11,12,13,14,15]) (replicate 128 0) = Inr d' \<and>
    get_addressing_mode demo_sb d' = Inr (Legacy [1,2,3,4,5,6,7,8,9,10,11,12,13,14,15])"
proof -
  let ?a = "RawLegacy [1,2,3,4,5,6,7,8,9,10,11,12,13,14,15]"
  have wf: "raw_wf ?a" by (simp add: raw_wf_def)
  have "inode_flag_bits EXTENTS \<in> set all_inode_flags" by (simp add: all_inode_flags_def)
  from contains_flag_truncate [OF this, of 0] have "inode_has_extents (replicate 128 0) = Inr False"
    by (simp add: inode_has_extents_def zeros_read contains_flag_def)
  from set_addresses_defined [OF _ wf this] obtain d' where d': "set_addresses demo_sb ?a (replicate 128 0) = Inr d'"
    by auto
  from addresses_roundtrip [OF d' wf] obtain m where "get_addressing_mode demo_sb d' = Inr m" "as_raw m = ?a"
    by blast
  with d' show ?thesis by (cases m) (auto simp: as_raw_def)
qed

end
