(* ===== verification/Extent_Node.thy ===== *)
theory Extent_Node
  imports Inode_Raw
begin

text \<open>
  One level of the extent tree (\<open>src/inode/extent/mod.rs\<close>): the root, kept in the inode's 60
  bytes (\<open>ExtentTree\<close>), and the nodes in blocks of their own (\<open>Node\<close>), both a header with a
  count, a capacity and a depth and an array of 12-byte entries. The interface \<open>extent_header\<close>
  states what the binary search needs, \<open>extent_header_mut\<close> what the updates of the array do;
  root and node interpret both.
\<close>

section \<open>Entries\<close>

record leaf =
  lf_block :: nat
  lf_start :: nat
  lf_len :: nat
  lf_init :: bool

datatype extent_entry = Internal nat nat | Leaf leaf

definition leaf_contains :: "leaf \<Rightarrow> nat \<Rightarrow> bool result" where
  "leaf_contains l fba =
     (if lf_block l \<le> fba then rmap (\<lambda>e. fba < e) (chk 32 (lf_block l + lf_len l)) else Inr False)"

definition last_fba :: "leaf \<Rightarrow> nat result" where
  "last_fba l = rbind (chk 32 (lf_block l + lf_len l)) (\<lambda>e. sub_nat e 1)"

definition first_block :: "extent_entry \<Rightarrow> nat" where
  "first_block e = (case e of Internal block _ \<Rightarrow> block | Leaf l \<Rightarrow> lf_block l)"

definition next_node :: "extent_entry \<Rightarrow> nat option" where
  "next_node e = (case e of Internal _ next \<Rightarrow> Some next | Leaf _ \<Rightarrow> None)"

definition get_internal :: "extent_entry \<Rightarrow> (nat \<times> nat) option" where
  "get_internal e = (case e of Internal block next \<Rightarrow> Some (block, next) | Leaf _ \<Rightarrow> None)"

definition entry_leaf :: "extent_entry \<Rightarrow> leaf option" where
  "entry_leaf e = (case e of Leaf l \<Rightarrow> Some l | Internal _ _ \<Rightarrow> None)"

section \<open>The array of entries\<close>

text \<open>Length and initialised flag of a leaf, as the root and as a node read them.\<close>

definition root_len :: "16 word \<Rightarrow> nat \<times> bool" where
  "root_len v = (unat (v AND 0x7fff), v < 0x8000)"

definition node_len :: "16 word \<Rightarrow> nat \<times> bool" where
  "node_len v = (if v \<le> 0x8000 then (unat v, True) else (unat (v - 0x8000), False))"

definition ext_get ::
  "(16 word \<Rightarrow> nat \<times> bool) \<Rightarrow> nat \<Rightarrow> nat \<Rightarrow> bytes \<Rightarrow> nat \<Rightarrow> extent_entry option result" where
  "ext_get conv depth cnt b i =
     (if i < cnt
      then if depth = 0
        then rbind (read_u16 b (12 * i + 4)) (\<lambda>v.
             rbind (num32 b (12 * i)) (\<lambda>block.
             rbind (read_u16 b (12 * i + 6)) (\<lambda>hi.
             rbind (read_u32 b (12 * i + 8)) (\<lambda>lo.
             Inr (Some (Leaf \<lparr>lf_block = block, lf_start = unat (merge_u32 (ucast hi) lo),
               lf_len = fst (conv v), lf_init = snd (conv v)\<rparr>))))))
        else rbind (num32 b (12 * i)) (\<lambda>block.
             rbind (read_u16 b (12 * i + 8)) (\<lambda>hi.
             rbind (read_u32 b (12 * i + 4)) (\<lambda>lo.
             Inr (Some (Internal block (unat (merge_u32 (ucast hi) lo)))))))
      else Inr None)"

text \<open>Writing an entry; \<open>None\<close> when it is not of the kind the depth asks for.\<close>

definition write_entry :: "nat \<Rightarrow> extent_entry \<Rightarrow> nat \<Rightarrow> bytes \<Rightarrow> bytes option result" where
  "write_entry depth e i b = (case e of
     Leaf l \<Rightarrow>
       if depth = 0
       then case split_u64 (of_nat (lf_start l)) of (hi, lo) \<Rightarrow>
         rbind (write_u32 (12 * i) (of_nat (lf_block l)) b) (\<lambda>b.
         rbind (chk 16 (unat hi)) (\<lambda>hi16.
         rbind (write_u16 (12 * i + 6) (of_nat hi16) b) (\<lambda>b.
         rbind (write_u32 (12 * i + 8) lo b) (\<lambda>b.
         rmap Some (write_u16 (12 * i + 4)
           (if lf_init l then of_nat (lf_len l) else of_nat (lf_len l) OR 0x8000) b)))))
       else Inr None
   | Internal block next \<Rightarrow>
       if 0 < depth
       then case split_u64 (of_nat next) of (hi, lo) \<Rightarrow>
         rbind (write_u32 (12 * i) (of_nat block) b) (\<lambda>b.
         rbind (write_u32 (12 * i + 4) lo b) (\<lambda>b.
         rmap Some (write_u32 (12 * i + 8) hi b)))
       else Inr None)"

text \<open>\<open>False\<close> is the \<open>Err(ext)\<close> that hands the entry back.\<close>

definition replace_at :: "nat \<Rightarrow> nat \<Rightarrow> extent_entry \<Rightarrow> nat \<Rightarrow> bytes \<Rightarrow> (bool \<times> bytes) result" where
  "replace_at cnt depth e i b =
     (if cnt \<le> i then Inr (False, b)
      else rmap (\<lambda>r. case r of None \<Rightarrow> (False, b) | Some b' \<Rightarrow> (True, b')) (write_entry depth e i b))"

definition copy_word :: "nat \<Rightarrow> nat \<Rightarrow> bytes \<Rightarrow> bytes result" where
  "copy_word p q b = rbind (read_u32 b q) (\<lambda>v. write_u32 p v b)"

definition shift_entry :: "nat \<Rightarrow> bytes \<Rightarrow> bytes result" where
  "shift_entry i b =
     rbind (copy_word (12 * i) (12 * i - 12) b) (\<lambda>b.
     rbind (copy_word (12 * i + 4) (12 * i - 12 + 4) b) (\<lambda>b.
     copy_word (12 * i + 8) (12 * i - 12 + 8) b))"

definition insert_at ::
  "nat \<Rightarrow> nat \<Rightarrow> nat \<Rightarrow> extent_entry \<Rightarrow> nat \<Rightarrow> bytes \<Rightarrow> (bool \<times> bytes) result" where
  "insert_at max_cnt cnt depth e i b =
     (if max_cnt \<le> i then Inr (False, b)
      else rbind (if i < cnt then for_each (rev [i + 1..<cnt]) shift_entry b else Inr b) (\<lambda>b.
           rmap (\<lambda>r. case r of None \<Rightarrow> (False, b) | Some b' \<Rightarrow> (True, b')) (write_entry depth e i b)))"

section \<open>The root\<close>

definition et_get :: "extent_tree \<Rightarrow> nat \<Rightarrow> extent_entry option result" where
  "et_get t i = ext_get root_len (et_depth t) (et_entries_cnt t) (et_b t) i"

definition et_insert_at :: "extent_entry \<Rightarrow> nat \<Rightarrow> extent_tree \<Rightarrow> (bool \<times> extent_tree) result" where
  "et_insert_at e i t =
     rbind (insert_at (et_max_entries_cnt t) (et_entries_cnt t) (et_depth t) e i (et_b t)) (\<lambda>(ok, b).
     if ok then rmap (\<lambda>n. (True, t\<lparr>et_b := b, et_entries_cnt := n\<rparr>)) (chk 16 (et_entries_cnt t + 1))
     else Inr (False, t\<lparr>et_b := b\<rparr>))"

definition et_replace_at :: "extent_entry \<Rightarrow> nat \<Rightarrow> extent_tree \<Rightarrow> (bool \<times> extent_tree) result" where
  "et_replace_at e i t =
     rmap (\<lambda>(ok, b). (ok, t\<lparr>et_b := b\<rparr>)) (replace_at (et_entries_cnt t) (et_depth t) e i (et_b t))"

section \<open>A node\<close>

definition node_from_bytes :: "bytes \<Rightarrow> unit result" where
  "node_from_bytes b =
     rbind (read_u16 b 0) (\<lambda>magic.
     if magic = 0xF30A then Inr () else Inl (Fs (InvalidFs ''Unexpected extent tree header magic'')))"

definition node_entries_cnt :: "bytes \<Rightarrow> nat result" where
  "node_entries_cnt b = num16 b 2"

definition node_max_entries_cnt :: "bytes \<Rightarrow> nat result" where
  "node_max_entries_cnt b = num16 b 4"

definition node_depth :: "bytes \<Rightarrow> nat result" where
  "node_depth b = num16 b 6"

definition node_set_entries_cnt :: "nat \<Rightarrow> bytes \<Rightarrow> bytes result" where
  "node_set_entries_cnt v = write_u16 2 (of_nat v)"

definition node_get :: "bytes \<Rightarrow> nat \<Rightarrow> extent_entry option result" where
  "node_get b i =
     rbind (node_entries_cnt b) (\<lambda>cnt.
     rbind (node_depth b) (\<lambda>depth.
     ext_get node_len depth cnt (drop 12 b) i))"

definition on_array :: "(bytes \<Rightarrow> (bool \<times> bytes) result) \<Rightarrow> bytes \<Rightarrow> (bool \<times> bytes) result" where
  "on_array f b =
     rbind (assertR (12 \<le> length b)) (\<lambda>_. rmap (\<lambda>(ok, r). (ok, take 12 b @ r)) (f (drop 12 b)))"

definition node_insert_at :: "extent_entry \<Rightarrow> nat \<Rightarrow> bytes \<Rightarrow> (bool \<times> bytes) result" where
  "node_insert_at e i b =
     rbind (node_max_entries_cnt b) (\<lambda>mx.
     rbind (node_entries_cnt b) (\<lambda>cnt.
     rbind (node_depth b) (\<lambda>depth.
     rbind (on_array (insert_at mx cnt depth e i) b) (\<lambda>(ok, b).
     if ok then rbind (node_entries_cnt b) (\<lambda>cnt. rbind (chk 16 (cnt + 1)) (\<lambda>n.
                rmap (Pair True) (node_set_entries_cnt n b)))
     else Inr (False, b)))))"

definition node_replace_at :: "extent_entry \<Rightarrow> nat \<Rightarrow> bytes \<Rightarrow> (bool \<times> bytes) result" where
  "node_replace_at e i b =
     rbind (node_entries_cnt b) (\<lambda>cnt.
     rbind (node_depth b) (\<lambda>depth.
     on_array (replace_at cnt depth e i) b))"

section \<open>Binary search\<close>

definition is_full :: "nat \<Rightarrow> nat \<Rightarrow> bool" where
  "is_full cnt max_cnt \<longleftrightarrow> cnt = max_cnt"

function bs_loop :: "(nat \<Rightarrow> extent_entry option result) \<Rightarrow> nat \<Rightarrow> nat \<Rightarrow> nat \<Rightarrow> nat result" where
  "bs_loop get fba l r =
     (if l \<le> r
      then let m = l + (r - l) div 2
           in case rbind (get m) unwrap of
                Inl e \<Rightarrow> Inl e
              | Inr e \<Rightarrow>
                  if fba < first_block e
                  then if m = 0 then Inl Panic else bs_loop get fba l (m - 1)
                  else bs_loop get fba (m + 1) r
      else Inr l)"
  by pat_completeness auto
termination
  by (relation "measure (\<lambda>(get, fba, l, r). r + 1 - l)") (auto simp: Let_def)

declare bs_loop.simps [simp del]

definition binary_search :: "('n \<Rightarrow> nat result) \<Rightarrow> ('n \<Rightarrow> nat \<Rightarrow> extent_entry option result) \<Rightarrow>
    nat \<Rightarrow> 'n \<Rightarrow> nat option result" where
  "binary_search cnt get fba n =
     rbind (cnt n) (\<lambda>c.
     if 0 < c
     then rbind (bs_loop (get n) fba 0 (c - 1)) (\<lambda>l. rmap Some (sub_nat l 1))
     else Inr None)"

section \<open>The interface of a header\<close>

text \<open>\<open>ents\<close> is the array as a list; a position below \<open>fba\<close> is one whose first block is not after it.\<close>

definition below :: "nat \<Rightarrow> extent_entry list \<Rightarrow> nat" where
  "below fba es = length (takeWhile (\<lambda>e. first_block e \<le> fba) es)"

lemma below_iff:
  assumes "sorted (map first_block es)" and "i < length es"
  shows "first_block (es ! i) \<le> fba \<longleftrightarrow> i < below fba es"
proof
  assume le: "first_block (es ! i) \<le> fba"
  show "i < below fba es"
  proof (rule ccontr)
    let ?k = "below fba es"
    assume "\<not> i < ?k"
    then have k: "?k \<le> i" "?k < length es" using assms(2) by simp_all
    then have "\<not> first_block (es ! ?k) \<le> fba"
      unfolding below_def by (metis nth_length_takeWhile)
    moreover have "first_block (es ! ?k) \<le> first_block (es ! i)"
      using sorted_nth_mono [OF assms(1) k(1)] assms(2) k(2) by simp
    ultimately show False using le by simp
  qed
next
  assume "i < below fba es"
  then have "takeWhile (\<lambda>e. first_block e \<le> fba) es ! i \<in> set (takeWhile (\<lambda>e. first_block e \<le> fba) es)"
    "takeWhile (\<lambda>e. first_block e \<le> fba) es ! i = es ! i"
    unfolding below_def by (rule nth_mem, rule takeWhile_nth)
  then show "first_block (es ! i) \<le> fba" by (metis set_takeWhileD)
qed

lemma below_le: "below fba es \<le> length es"
  by (simp add: below_def length_takeWhile_le)

lemma bs_loop_below:
  assumes "\<And>i. i < length es \<Longrightarrow> get i = Inr (Some (es ! i))" and "sorted (map first_block es)"
    and "r < length es" and "l \<le> below fba es" and "below fba es \<le> r + 1"
  shows "bs_loop get fba l r = (if 0 < below fba es then Inr (below fba es) else Inl Panic)"
  using assms
proof (induction "get" fba l r rule: bs_loop.induct)
  case (1 "get" fba l r)
  define m where "m = l + (r - l) div 2"
  show ?case
  proof (cases "l \<le> r")
    case False
    with 1(6,7) have "l = below fba es" "0 < below fba es" by simp_all
    with False show ?thesis by (simp add: bs_loop.simps)
  next
    case True
    then have m: "m \<le> r" "m < length es" "l \<le> m" using 1(5) by (simp_all add: m_def)
    have g: "rbind (get m) unwrap = Inr (es ! m)" using 1(3) [OF m(2)] by simp
    have step: "bs_loop get fba l r = (if fba < first_block (es ! m)
        then if m = 0 then Inl Panic else bs_loop get fba l (m - 1)
        else bs_loop get fba (m + 1) r)"
      using True g by (subst bs_loop.simps) (simp add: m_def [symmetric] Let_def)
    show ?thesis
    proof (cases "fba < first_block (es ! m)")
      case less: True
      then have bm: "below fba es \<le> m" using below_iff [OF 1(4) m(2), of fba] by simp
      show ?thesis
      proof (cases "m = 0")
        case True
        with step less bm show ?thesis by simp
      next
        case False
        with bm m 1(6) have "bs_loop get fba l (m - 1) =
            (if 0 < below fba es then Inr (below fba es) else Inl Panic)"
          by (intro 1(1) [OF True m_def g less False 1(3,4)]) auto
        with step less False show ?thesis by simp
      qed
    next
      case False
      then have "m + 1 \<le> below fba es" using below_iff [OF 1(4) m(2), of fba] by simp
      with 1(5,7) have "bs_loop get fba (m + 1) r =
          (if 0 < below fba es then Inr (below fba es) else Inl Panic)"
        by (intro 1(2) [OF True m_def g False 1(3,4)]) auto
      with step False show ?thesis by simp
    qed
  qed
qed

locale extent_header =
  fixes cnt :: "'n \<Rightarrow> nat result"
    and get :: "'n \<Rightarrow> nat \<Rightarrow> extent_entry option result"
    and ents :: "'n \<Rightarrow> extent_entry list"
    and inv :: "'n \<Rightarrow> bool"
  assumes cnt_ents: "inv n \<Longrightarrow> cnt n = Inr (length (ents n))"
    and get_ents: "inv n \<Longrightarrow> get n i = Inr (if i < length (ents n) then Some (ents n ! i) else None)"
begin

lemma search:
  assumes "inv n" and "sorted (map first_block (ents n))"
  shows "binary_search cnt get fba n =
    (if ents n = [] then Inr None
     else if below fba (ents n) = 0 then Inl Panic
     else Inr (Some (below fba (ents n) - 1)))"
proof (cases "ents n = []")
  case True
  with assms show ?thesis by (simp add: binary_search_def cnt_ents)
next
  case False
  then have "bs_loop (get n) fba 0 (length (ents n) - 1) =
      (if 0 < below fba (ents n) then Inr (below fba (ents n)) else Inl Panic)"
    using assms below_le [of fba "ents n"]
    by (intro bs_loop_below) (auto simp: get_ents)
  with False assms(1) show ?thesis
    by (auto simp: binary_search_def cnt_ents sub_nat_def)
qed

lemma search_found:
  assumes "inv n" and "sorted (map first_block (ents n))"
    and "binary_search cnt get fba n = Inr (Some i)"
  shows "i < length (ents n)" "first_block (ents n ! i) \<le> fba"
    "\<And>j. i < j \<Longrightarrow> j < length (ents n) \<Longrightarrow> fba < first_block (ents n ! j)"
proof -
  from assms(3) have i: "ents n \<noteq> []" "0 < below fba (ents n)" "i = below fba (ents n) - 1"
    unfolding search [OF assms(1,2)] by (auto split: if_splits)
  then show len: "i < length (ents n)" using below_le [of fba "ents n"] by simp
  show "first_block (ents n ! i) \<le> fba" using below_iff [OF assms(2) len] i by simp
  show "fba < first_block (ents n ! j)" if "i < j" "j < length (ents n)" for j
  proof -
    have "\<not> j < below fba (ents n)" using that(1) i by linarith
    then show ?thesis using below_iff [OF assms(2) that(2), of fba] by simp
  qed
qed

end

section \<open>Slots\<close>

text \<open>The 12 bytes at index \<open>i\<close> and the entry they stand for.\<close>

definition chunk12 :: "bytes \<Rightarrow> nat \<Rightarrow> bytes" where
  "chunk12 b i = take 12 (drop (12 * i) b)"

definition dec_entry :: "(16 word \<Rightarrow> nat \<times> bool) \<Rightarrow> nat \<Rightarrow> bytes \<Rightarrow> extent_entry" where
  "dec_entry conv depth c =
     (if depth = 0
      then Leaf \<lparr>lf_block = unat (le32 (c ! 0) (c ! 1) (c ! 2) (c ! 3)),
        lf_start = unat (merge_u32 (ucast (le16 (c ! 6) (c ! 7))) (le32 (c ! 8) (c ! 9) (c ! 10) (c ! 11))),
        lf_len = fst (conv (le16 (c ! 4) (c ! 5))), lf_init = snd (conv (le16 (c ! 4) (c ! 5)))\<rparr>
      else Internal (unat (le32 (c ! 0) (c ! 1) (c ! 2) (c ! 3)))
        (unat (merge_u32 (ucast (le16 (c ! 8) (c ! 9))) (le32 (c ! 4) (c ! 5) (c ! 6) (c ! 7)))))"

definition enc_entry :: "extent_entry \<Rightarrow> bytes" where
  "enc_entry e = (case e of
     Leaf l \<Rightarrow> to_le32 (of_nat (lf_block l)) @
       to_le16 (if lf_init l then of_nat (lf_len l) else of_nat (lf_len l) OR 0x8000) @
       to_le16 (of_nat (unat (fst (split_u64 (of_nat (lf_start l)))))) @
       to_le32 (snd (split_u64 (of_nat (lf_start l))))
   | Internal block next \<Rightarrow> to_le32 (of_nat block) @ to_le32 (snd (split_u64 (of_nat next))) @
       to_le32 (fst (split_u64 (of_nat next))))"

lemma length_enc_entry [simp]: "length (enc_entry e) = 12"
  by (simp add: enc_entry_def split: extent_entry.splits)

lemma nth_chunk12: "12 * i + 12 \<le> length b \<Longrightarrow> k < 12 \<Longrightarrow> chunk12 b i ! k = b ! (12 * i + k)"
  by (simp add: chunk12_def)

lemma length_chunk12 [simp]: "12 * i + 12 \<le> length b \<Longrightarrow> length (chunk12 b i) = 12"
  by (simp add: chunk12_def)

lemma ext_get_chunk:
  assumes "12 * i + 12 \<le> length b"
  shows "ext_get conv depth cnt b i = Inr (if i < cnt then Some (dec_entry conv depth (chunk12 b i)) else None)"
  using assms
  by (simp add: ext_get_def dec_entry_def nth_chunk12 num32_def read_u16_def read_u32_def)
    (simp add: ac_simps)

lemma chunk12_splice:
  assumes "12 * i + 12 \<le> length b" and "length c = 12"
  shows "chunk12 (splice b (12 * i) c) j = (if j = i then c else chunk12 b j)"
proof -
  consider "j < i" | "j = i" | "i < j" by linarith
  then show ?thesis
  proof cases
    case 1
    then have "12 * j + 12 \<le> 12 * i" by simp
    then have "take 12 (drop (12 * j) (splice b (12 * i) c)) = take 12 (take (12 * i - 12 * j) (drop (12 * j) b))"
      using assms by (simp add: splice_def drop_take)
    also have "\<dots> = take 12 (drop (12 * j) b)" using \<open>12 * j + 12 \<le> 12 * i\<close> by (simp add: min_def)
    finally show ?thesis using 1 by (simp add: chunk12_def)
  next
    case 2
    with assms show ?thesis by (simp add: chunk12_def splice_def)
  next
    case 3
    then have "12 * i + 12 \<le> 12 * j" by simp
    with assms 3 show ?thesis by (simp add: chunk12_def splice_def)
  qed
qed

lemma list12_cases:
  assumes "length (c :: bytes) = 12"
  obtains c0 c1 c2 c3 c4 c5 c6 c7 c8 c9 c10 c11 where "c = [c0, c1, c2, c3, c4, c5, c6, c7, c8, c9, c10, c11]"
proof -
  have "length c = Suc (Suc (Suc (Suc (Suc (Suc (Suc (Suc (Suc (Suc (Suc (Suc 0)))))))))))" using assms by simp
  then show thesis using that by (auto simp: length_Suc_conv)
qed

lemma splice_mid:
  "k + length v \<le> length c \<Longrightarrow> splice (x @ c @ y) (length x + k) v = x @ splice c k v @ y"
  by (simp add: splice_def)

lemma chunk12_split: "12 * i + 12 \<le> length b \<Longrightarrow> b = take (12 * i) b @ chunk12 b i @ drop (12 * i + 12) b"
  by (metis append_take_drop_id chunk12_def drop_drop add.commute)

definition entry_fits :: "nat \<Rightarrow> extent_entry \<Rightarrow> bool" where
  "entry_fits depth e \<longleftrightarrow> (case e of
     Leaf l \<Rightarrow> depth = 0 \<and> lf_block l < 2 ^ 32 \<and> lf_start l < 2 ^ 48 \<and> 0 < lf_len l \<and> lf_len l < 2 ^ 15
   | Internal block next \<Rightarrow> 0 < depth \<and> block < 2 ^ 32 \<and> next < 2 ^ 48)"

lemma hi_small:
  assumes "n < 2 ^ 48"
  shows "unat (fst (split_u64 (of_nat n))) < 2 ^ 16"
proof -
  have n: "unat (of_nat n :: 64 word) = n" using assms by (simp add: unat_of_nat take_bit_nat_eq_self)
  have "unat (drop_bit 32 (of_nat n :: 64 word)) = drop_bit 32 n"
    using assms by (subst unsigned_drop_bit_eq) (simp add: n take_bit_nat_eq_self)
  moreover have "drop_bit 32 n < 2 ^ 16" using assms by (simp add: drop_bit_eq_div div_less_iff_less_mult)
  ultimately show ?thesis
    by (simp only: split_u64_def fst_conv unsigned_ucast_eq) (simp add: take_bit_nat_eq_self)
qed

lemma write_entry_eq:
  assumes "12 * i + 12 \<le> length b" and "entry_fits depth e"
  shows "write_entry depth e i b = Inr (Some (splice b (12 * i) (enc_entry e)))"
proof -
  define x y where "x = take (12 * i) b" and "y = drop (12 * i + 12) b"
  obtain c0 c1 c2 c3 c4 c5 c6 c7 c8 c9 c10 c11 where
    "chunk12 b i = [c0, c1, c2, c3, c4, c5, c6, c7, c8, c9, c10, c11]"
    using list12_cases [OF length_chunk12 [OF assms(1)]] .
  then have b: "b = x @ [c0, c1, c2, c3, c4, c5, c6, c7, c8, c9, c10, c11] @ y"
    using chunk12_split [OF assms(1)] by (simp add: x_def y_def)
  have x: "12 * i = length x" using assms(1) by (simp add: x_def)
  show ?thesis
  proof (cases e)
    case (Leaf l)
    then have d: "depth = 0" and hi: "unat (fst (split_u64 (of_nat (lf_start l)))) < 2 ^ 16"
      using assms(2) hi_small by (auto simp: entry_fits_def)
    obtain hi lo where s: "split_u64 (of_nat (lf_start l)) = (hi, lo)" by (cases "split_u64 (of_nat (lf_start l))")
    show ?thesis unfolding b write_entry_def x
      using hi by (simp add: Leaf d s enc_entry_def write_u32_def write_u16_def splice_def chk_def to_le32_def to_le16_def)
  next
    case (Internal block nxt)
    then have d: "0 < depth" using assms(2) by (simp add: entry_fits_def)
    obtain hi lo where s: "split_u64 (of_nat nxt) = (hi, lo)" by (cases "split_u64 (of_nat nxt)")
    show ?thesis unfolding b write_entry_def x
      using d by (simp add: Internal s enc_entry_def write_u32_def splice_def to_le32_def)
  qed
qed


lemma to_le_le:
  "to_le16 (le16 a b) = [a, b]" "to_le32 (le32 a b c d) = [a, b, c, d]"
  by (auto simp: to_le16_def le16_def to_le32_def le32_def bit_simps intro!: bit_word_eqI)
    (auto dest: bit_imp_le_length)

lemma le_of_to_le:
  "le16 (to_le16 v ! 0) (to_le16 v ! 1) = v"
  "le32 (to_le32 w ! 0) (to_le32 w ! 1) (to_le32 w ! 2) (to_le32 w ! 3) = w"
  using le16_to_le16 [of v] le32_to_le32 [of w] by (simp_all add: to_le16_def to_le32_def)

text \<open>A reading of the length that inverts the writing for lengths below $2^{15}$.\<close>

definition len_conv :: "(16 word \<Rightarrow> nat \<times> bool) \<Rightarrow> bool" where
  "len_conv conv \<longleftrightarrow> (\<forall>n. 0 < n \<and> n < 2 ^ 15 \<longrightarrow>
     conv (of_nat n) = (n, True) \<and> conv (of_nat n OR 0x8000) = (n, False))"

lemma or_bit15:
  assumes "n < 2 ^ 15"
  shows "(of_nat n :: 16 word) OR 0x8000 = of_nat (n + 0x8000)"
proof -
  have "(of_nat n :: 16 word) AND 0x8000 = 0"
  proof (rule bit_word_eqI)
    fix i assume "i < LENGTH(16)"
    have x: "(0x8000 :: 16 word) = 2 ^ 15" by simp
    have "\<not> bit n 15" using assms by (simp add: bit_nat_def)
    then show "bit ((of_nat n :: 16 word) AND 0x8000) i = bit (0 :: 16 word) i"
      unfolding x bit_and_iff bit_exp_iff by (auto simp: bit_of_nat_iff)
  qed
  then have "(of_nat n :: 16 word) OR 0x8000 = of_nat n + 0x8000"
    by (simp add: disjunctive_add_eq_or)
  then show ?thesis by simp
qed

lemma unat_small16: "n < 2 ^ 16 \<Longrightarrow> unat (of_nat n :: 16 word) = n"
  by (simp add: unat_of_nat take_bit_nat_eq_self)

lemma len_conv_node: "len_conv node_len"
  unfolding len_conv_def
proof (intro allI impI conjI)
  fix n :: nat assume n: "0 < n \<and> n < 2 ^ 15"
  then have u: "unat (of_nat n :: 16 word) = n" "unat (of_nat (n + 0x8000) :: 16 word) = n + 0x8000"
    using unat_small16 [of n] unat_small16 [of "n + 0x8000"] by simp_all
  show "node_len (of_nat n) = (n, True)"
    using n u by (simp add: node_len_def word_le_nat_alt)
  have "\<not> (of_nat (n + 0x8000) :: 16 word) \<le> 0x8000"
    using n u unfolding word_le_nat_alt by simp
  then show "node_len (of_nat n OR 0x8000) = (n, False)"
    using n u(1) by (simp add: node_len_def or_bit15)
qed

lemma len_conv_root: "len_conv root_len"
  unfolding len_conv_def
proof (intro allI impI conjI)
  fix n :: nat assume n: "0 < n \<and> n < 2 ^ 15"
  have mask: "(0x7fff :: 16 word) = mask 15" by (simp add: mask_eq_exp_minus_1)
  have u: "unat (of_nat m AND 0x7fff :: 16 word) = m mod 2 ^ 15" if "m < 2 ^ 16" for m
    using that unfolding mask take_bit_eq_mask [symmetric]
    by (subst unsigned_take_bit_eq) (simp_all add: unat_small16 take_bit_eq_mod [of 15 m])
  have lt: "(of_nat m :: 16 word) < 0x8000 \<longleftrightarrow> m < 0x8000" if "m < 2 ^ 16" for m
    unfolding word_less_nat_alt using unat_small16 [OF that] by simp
  show "root_len (of_nat n) = (n, True)"
    using n u [of n] lt [of n] by (simp add: root_len_def)
  show "root_len (of_nat n OR 0x8000) = (n, False)"
    using n u [of "n + 0x8000"] lt [of "n + 0x8000"]
    by (simp add: root_len_def or_bit15)
qed


lemma dec_enc_entry:
  assumes "entry_fits depth e" and "len_conv conv"
  shows "dec_entry conv depth (enc_entry e) = e"
proof (cases e)
  case (Leaf l)
  then have d: "depth = 0" "lf_block l < 2 ^ 32" "lf_start l < 2 ^ 48" "0 < lf_len l" "lf_len l < 2 ^ 15"
    using assms(1) by (auto simp: entry_fits_def)
  obtain hi lo where s: "split_u64 (of_nat (lf_start l)) = (hi, lo)" by (cases "split_u64 (of_nat (lf_start l))")
  have hi: "unat hi < 2 ^ 16" using hi_small [OF d(3)] s by simp
  have hi': "(ucast (of_nat (unat hi) :: 16 word) :: 32 word) = hi"
    by (rule word_unat_eq_iff [THEN iffD2], simp only: unsigned_ucast_eq unat_small16 [OF hi])
      (use hi in \<open>simp add: take_bit_nat_eq_self\<close>)
  define v :: "16 word" where "v = (if lf_init l then of_nat (lf_len l) else of_nat (lf_len l) OR 0x8000)"
  have v: "conv v = (lf_len l, lf_init l)" using assms(2) d(4,5) by (simp add: v_def len_conv_def)
  have enc: "enc_entry e = to_le32 (of_nat (lf_block l)) @ to_le16 v @ to_le16 (of_nat (unat hi)) @ to_le32 lo"
    by (simp add: Leaf enc_entry_def s v_def)
  have "unat (of_nat (lf_block l) :: 32 word) = lf_block l"
    "unat (of_nat (lf_start l) :: 64 word) = lf_start l"
    using d by (simp_all add: unat_of_nat take_bit_nat_eq_self)
  then show ?thesis unfolding enc
    using v hi' merge_split_u64 [OF s]
    by (simp add: Leaf d(1) dec_entry_def to_le32_def to_le16_def le32_to_le32 le16_to_le16)
next
  case (Internal block nxt)
  then have d: "0 < depth" "block < 2 ^ 32" "nxt < 2 ^ 48"
    using assms(1) by (auto simp: entry_fits_def)
  obtain hi lo where s: "split_u64 (of_nat nxt) = (hi, lo)" by (cases "split_u64 (of_nat nxt)")
  have hi: "unat hi < 2 ^ 16" using hi_small [OF d(3)] s by simp
  have hi': "(ucast (le16 (ucast hi) (ucast (drop_bit 8 hi))) :: 32 word) = hi"
  proof (rule bit_word_eqI)
    fix i assume i: "i < LENGTH(32)"
    have "bit hi i \<Longrightarrow> i < 16"
    proof (rule ccontr)
      assume "bit hi i" "\<not> i < 16"
      have "(2 :: nat) ^ 16 \<le> 2 ^ i" using \<open>\<not> i < 16\<close> by (intro power_increasing) simp_all
      with hi have "unat hi < 2 ^ i" by linarith
      then have "\<not> bit (unat hi) i" by (simp add: bit_nat_def)
      with \<open>bit hi i\<close> i show False by (simp add: bit_unsigned_iff)
    qed
    then show "bit (ucast (le16 (ucast hi) (ucast (drop_bit 8 hi))) :: 32 word) i = bit hi i"
      using i by (auto simp: le16_def bit_simps)
  qed
  have enc: "enc_entry e = to_le32 (of_nat block) @ to_le32 lo @ to_le32 hi"
    by (simp add: Internal enc_entry_def s)
  have "unat (of_nat block :: 32 word) = block" "unat (of_nat nxt :: 64 word) = nxt"
    using d by (simp_all add: unat_of_nat take_bit_nat_eq_self)
  then show ?thesis unfolding enc
    using hi' merge_split_u64 [OF s] d(1)
    by (simp add: Internal dec_entry_def to_le32_def le32_to_le32)
qed


section \<open>Updating the array\<close>

lemma shift_entry_eq:
  assumes "0 < i" and "12 * i + 12 \<le> length b"
  shows "shift_entry i b = Inr (splice b (12 * i) (chunk12 b (i - 1)))"
proof -
  define x y where "x = take (12 * (i - 1)) b" and "y = drop (12 * i + 12) b"
  obtain c0 c1 c2 c3 c4 c5 c6 c7 c8 c9 c10 c11 where
    c: "chunk12 b (i - 1) = [c0, c1, c2, c3, c4, c5, c6, c7, c8, c9, c10, c11]"
    by (rule list12_cases [OF length_chunk12 [of "i - 1" b]]) (use assms in auto)
  obtain d0 d1 d2 d3 d4 d5 d6 d7 d8 d9 d10 d11 where
    d: "chunk12 b i = [d0, d1, d2, d3, d4, d5, d6, d7, d8, d9, d10, d11]"
    using list12_cases [OF length_chunk12 [OF assms(2)]] .
  have p: "12 * (i - 1) + 12 = 12 * i" "12 * i - 12 = 12 * (i - 1)" using assms(1) by simp_all
  have "b = x @ chunk12 b (i - 1) @ drop (12 * i) b"
    using chunk12_split [of "i - 1" b] assms p by (simp add: x_def)
  also have "drop (12 * i) b = chunk12 b i @ y"
    by (simp add: chunk12_def y_def drop_drop [symmetric] add.commute del: drop_drop)
  finally have b: "b = x @ [c0, c1, c2, c3, c4, c5, c6, c7, c8, c9, c10, c11] @
      [d0, d1, d2, d3, d4, d5, d6, d7, d8, d9, d10, d11] @ y"
    by (simp only: c d)
  have x: "length x = 12 * (i - 1)" using assms by (simp add: x_def)
  have x': "12 * i = length x + 12" using x p by simp
  show ?thesis
    unfolding shift_entry_def copy_word_def c p(2) x [symmetric] x'
    unfolding b by (simp add: read_u32_def write_u32_def nth_append splice_def to_le_le)
qed

lemma shift_entries:
  assumes "12 * n \<le> length b" and "i < n"
  shows "\<exists>b'. for_each (rev [i + 1..<n]) shift_entry b = Inr b' \<and> length b' = length b \<and>
    (\<forall>j. chunk12 b' j = (if i < j \<and> j < n then chunk12 b (j - 1) else chunk12 b j))"
  using assms
proof (induction n arbitrary: b)
  case (Suc n)
  show ?case
  proof (cases "i = n")
    case True
    then show ?thesis by auto
  next
    case False
    with Suc.prems have i: "i < n" "0 < n" by simp_all
    define c where "c = splice b (12 * n) (chunk12 b (n - 1))"
    have len: "length (chunk12 b (n - 1)) = 12" using Suc.prems i by simp
    have s: "shift_entry n b = Inr c" unfolding c_def using Suc.prems i by (intro shift_entry_eq) auto
    have cl: "length c = length b" using len Suc.prems by (simp add: c_def)
    have ck: "chunk12 c j = (if j = n then chunk12 b (n - 1) else chunk12 b j)" for j
      unfolding c_def using Suc.prems len by (intro chunk12_splice) auto
    obtain b' where b': "for_each (rev [i + 1..<n]) shift_entry c = Inr b'" "length b' = length c"
      "\<And>j. chunk12 b' j = (if i < j \<and> j < n then chunk12 c (j - 1) else chunk12 c j)"
      using Suc.IH [of c] Suc.prems cl i(1) by auto
    have "rev [i + 1..<Suc n] = n # rev [i + 1..<n]" using i by simp
    then have "for_each (rev [i + 1..<Suc n]) shift_entry b = Inr b'" using s b'(1) by simp
    moreover have "chunk12 b' j = (if i < j \<and> j < Suc n then chunk12 b (j - 1) else chunk12 b j)" for j
      using i by (auto simp: b'(3) ck)
    ultimately show ?thesis using b'(2) cl by auto
  qed
qed simp

lemma insert_at_chunks:
  assumes "12 * mx \<le> length b" and "cnt \<le> mx" and "i < mx" and "entry_fits depth e"
  shows "\<exists>b'. insert_at mx cnt depth e i b = Inr (True, b') \<and> length b' = length b \<and>
    (\<forall>j. chunk12 b' j =
      (if j = i then enc_entry e else if i < j \<and> j < cnt then chunk12 b (j - 1) else chunk12 b j))"
proof -
  obtain c where c: "(if i < cnt then for_each (rev [i + 1..<cnt]) shift_entry b else Inr b) = Inr c"
    "length c = length b" "\<And>j. chunk12 c j = (if i < j \<and> j < cnt then chunk12 b (j - 1) else chunk12 b j)"
  proof (cases "i < cnt")
    case True
    with that shift_entries [of cnt b i] assms(1,2) show thesis by auto
  next
    case False
    show thesis by (rule that [of b]) (use False in auto)
  qed
  have i: "12 * i + 12 \<le> length c" using assms(1,3) c(2) by simp
  have "insert_at mx cnt depth e i b = Inr (True, splice c (12 * i) (enc_entry e))"
    using assms(3) by (simp add: insert_at_def c(1) write_entry_eq [OF i assms(4)])
  then show ?thesis using i c(2,3) chunk12_splice [OF i length_enc_entry] by auto
qed

definition dec_list :: "(16 word \<Rightarrow> nat \<times> bool) \<Rightarrow> nat \<Rightarrow> nat \<Rightarrow> bytes \<Rightarrow> extent_entry list" where
  "dec_list conv depth n b = map (\<lambda>i. dec_entry conv depth (chunk12 b i)) [0..<n]"

lemma dec_list_simps [simp]:
  "length (dec_list conv depth n b) = n"
  "i < n \<Longrightarrow> dec_list conv depth n b ! i = dec_entry conv depth (chunk12 b i)"
  by (simp_all add: dec_list_def)

text \<open>What an insertion does to the entries: all of them shift, but the count was taken before the loop.\<close>

definition ins_list :: "extent_entry \<Rightarrow> nat \<Rightarrow> extent_entry list \<Rightarrow> extent_entry \<Rightarrow> extent_entry list" where
  "ins_list e i es junk =
     (if i = length es then es @ [e] else take i es @ e # take (length es - 1 - i) (drop i es) @ [junk])"

lemma length_ins_list [simp]: "i \<le> length es \<Longrightarrow> length (ins_list e i es junk) = length es + 1"
  by (auto simp: ins_list_def)

lemma nth_ins_list:
  "i \<le> length es \<Longrightarrow> j \<le> length es \<Longrightarrow> ins_list e i es junk ! j =
    (if j = i then e else if i < j \<and> j < length es then es ! (j - 1)
     else if j < i then es ! j else junk)"
  by (auto simp: ins_list_def nth_append nth_Cons' min_def)

lemma insert_at_list:
  assumes "12 * mx \<le> length b" and "cnt < mx" and "i \<le> cnt" and "entry_fits depth e"
    and "len_conv conv"
  shows "\<exists>b'. insert_at mx cnt depth e i b = Inr (True, b') \<and> length b' = length b \<and>
    dec_list conv depth (cnt + 1) b' = ins_list e i (dec_list conv depth cnt b) (dec_entry conv depth (chunk12 b cnt))"
proof -
  have "cnt \<le> mx" "i < mx" using assms(2,3) by simp_all
  from insert_at_chunks [OF assms(1) this assms(4)] obtain b' where
    b': "insert_at mx cnt depth e i b = Inr (True, b')" "length b' = length b"
    "\<And>j. chunk12 b' j =
      (if j = i then enc_entry e else if i < j \<and> j < cnt then chunk12 b (j - 1) else chunk12 b j)"
    by blast
  have "dec_list conv depth (cnt + 1) b' =
      ins_list e i (dec_list conv depth cnt b) (dec_entry conv depth (chunk12 b cnt))"
    using assms(3) by (intro nth_equalityI)
      (auto simp: nth_ins_list b'(3) dec_enc_entry [OF assms(4,5)] less_Suc_eq)
  with b' show ?thesis by blast
qed

lemma replace_at_list:
  assumes "12 * cnt \<le> length b" and "i < cnt" and "entry_fits depth e" and "len_conv conv"
  shows "\<exists>b'. replace_at cnt depth e i b = Inr (True, b') \<and> length b' = length b \<and>
    dec_list conv depth cnt b' = (dec_list conv depth cnt b)[i := e]"
proof -
  have i: "12 * i + 12 \<le> length b" using assms(1,2) by simp
  have "dec_list conv depth cnt (splice b (12 * i) (enc_entry e)) = (dec_list conv depth cnt b)[i := e]"
    using assms(1,2) by (intro nth_equalityI)
      (auto simp: nth_list_update chunk12_splice [OF i length_enc_entry] dec_enc_entry [OF assms(3,4)])
  then show ?thesis using assms(2) i by (simp add: replace_at_def write_entry_eq [OF i assms(3)])
qed


lemma unat_lt2p16: "unat (w :: 16 word) < 2 ^ 16"
  using unsigned_less [of w] by simp

section \<open>The interface of a header that can be written\<close>

locale extent_header_mut = extent_header cnt get ents inv
  for cnt :: "'n \<Rightarrow> nat result" and get ents inv +
  fixes room :: "'n \<Rightarrow> nat"
    and fits :: "'n \<Rightarrow> extent_entry \<Rightarrow> bool"
    and ins :: "extent_entry \<Rightarrow> nat \<Rightarrow> 'n \<Rightarrow> (bool \<times> 'n) result"
    and repl :: "extent_entry \<Rightarrow> nat \<Rightarrow> 'n \<Rightarrow> (bool \<times> 'n) result"
    and spare :: "'n \<Rightarrow> extent_entry"
  assumes ins_ents: "inv n \<Longrightarrow> fits n e \<Longrightarrow> i \<le> length (ents n) \<Longrightarrow> length (ents n) < room n \<Longrightarrow>
      \<exists>n'. ins e i n = Inr (True, n') \<and> inv n' \<and> ents n' = ins_list e i (ents n) (spare n)"
    and ins_full: "inv n \<Longrightarrow> room n \<le> i \<Longrightarrow> ins e i n = Inr (False, n)"
    and repl_ents: "inv n \<Longrightarrow> fits n e \<Longrightarrow> i < length (ents n) \<Longrightarrow>
      \<exists>n'. repl e i n = Inr (True, n') \<and> inv n' \<and> ents n' = (ents n)[i := e]"
begin

lemma ins_last:
  assumes "inv n" and "fits n e" and "length (ents n) < room n"
  shows "\<exists>n'. ins e (length (ents n)) n = Inr (True, n') \<and> inv n' \<and> ents n' = ents n @ [e]"
  using ins_ents [OF assms(1,2) order_refl assms(3)] by (auto simp: ins_list_def)

lemma ins_get:
  assumes "inv n" and "fits n e" and "i \<le> length (ents n)" and "length (ents n) < room n"
  shows "\<exists>n'. ins e i n = Inr (True, n') \<and> get n' i = Inr (Some e)"
  using ins_ents [OF assms] assms(3) by (auto simp: get_ents nth_ins_list)

lemma repl_get:
  assumes "inv n" and "fits n e" and "i < length (ents n)"
  shows "\<exists>n'. repl e i n = Inr (True, n') \<and> cnt n' = cnt n \<and>
    (\<forall>j. get n' j = (if j = i then Inr (Some e) else get n j))"
  using repl_ents [OF assms] assms(1,3) by (auto simp: get_ents cnt_ents nth_list_update)

lemma ins_middle:
  assumes "inv n" and "fits n e" and "i < length (ents n)" and "length (ents n) < room n"
  shows "\<exists>n'. ins e i n = Inr (True, n') \<and> cnt n' = Inr (length (ents n) + 1) \<and>
    (\<forall>j<length (ents n). get n' j = (if j = i then Inr (Some e) else if i < j then get n (j - 1) else get n j)) \<and>
    get n' (length (ents n)) = Inr (Some (spare n))"
  using ins_ents [OF assms(1,2) _ assms(4), of i] assms(1,3)
  by (auto simp: get_ents cnt_ents nth_ins_list)

end

definition et_ok :: "extent_tree \<Rightarrow> bool" where
  "et_ok t \<longleftrightarrow> length (et_b t) = 48 \<and> et_max_entries_cnt t \<le> 4 \<and> et_entries_cnt t \<le> et_max_entries_cnt t"

definition et_ents :: "extent_tree \<Rightarrow> extent_entry list" where
  "et_ents t = dec_list root_len (et_depth t) (et_entries_cnt t) (et_b t)"

interpretation root: extent_header_mut "\<lambda>t. Inr (et_entries_cnt t)" et_get et_ents et_ok
  et_max_entries_cnt "\<lambda>t. entry_fits (et_depth t)" et_insert_at et_replace_at
  "\<lambda>t. dec_entry root_len (et_depth t) (chunk12 (et_b t) (et_entries_cnt t))"
proof unfold_locales
  fix t i assume ok: "et_ok t"
  show "Inr (et_entries_cnt t) = Inr (length (et_ents t))" by (simp add: et_ents_def)
  show "et_get t i = Inr (if i < length (et_ents t) then Some (et_ents t ! i) else None)"
  proof (cases "i < et_entries_cnt t")
    case True
    with ok have "12 * i + 12 \<le> length (et_b t)" by (simp add: et_ok_def)
    with True show ?thesis by (simp add: et_get_def ext_get_chunk et_ents_def)
  next
    case False
    then show ?thesis by (simp add: et_get_def ext_get_def et_ents_def)
  qed
next
  fix t e i
  assume ok: "et_ok t" and fits: "entry_fits (et_depth t) e" and i: "i \<le> length (et_ents t)"
    and room: "length (et_ents t) < et_max_entries_cnt t"
  have len: "12 * et_max_entries_cnt t \<le> length (et_b t)" using ok by (simp add: et_ok_def)
  from i room have "et_entries_cnt t < et_max_entries_cnt t" "i \<le> et_entries_cnt t" by (simp_all add: et_ents_def)
  from insert_at_list [OF len this fits len_conv_root] obtain b' where
    b': "insert_at (et_max_entries_cnt t) (et_entries_cnt t) (et_depth t) e i (et_b t) = Inr (True, b')"
    "length b' = length (et_b t)"
    "dec_list root_len (et_depth t) (et_entries_cnt t + 1) b' = ins_list e i (et_ents t)
       (dec_entry root_len (et_depth t) (chunk12 (et_b t) (et_entries_cnt t)))"
    unfolding et_ents_def by blast
  have "et_entries_cnt t + 1 < 2 ^ 16" using ok by (simp add: et_ok_def)
  then have "et_insert_at e i t = Inr (True, t\<lparr>et_b := b', et_entries_cnt := et_entries_cnt t + 1\<rparr>)"
    using b'(1) by (simp add: et_insert_at_def chk_def)
  moreover have "et_ok (t\<lparr>et_b := b', et_entries_cnt := et_entries_cnt t + 1\<rparr>)"
    using ok b'(2) room by (simp add: et_ok_def et_ents_def)
  moreover have "et_ents (t\<lparr>et_b := b', et_entries_cnt := et_entries_cnt t + 1\<rparr>) = ins_list e i (et_ents t)
       (dec_entry root_len (et_depth t) (chunk12 (et_b t) (et_entries_cnt t)))"
    using b'(3) by (simp add: et_ents_def)
  ultimately show "\<exists>n'. et_insert_at e i t = Inr (True, n') \<and> et_ok n' \<and>
      et_ents n' = ins_list e i (et_ents t) (dec_entry root_len (et_depth t) (chunk12 (et_b t) (et_entries_cnt t)))"
    by blast
next
  fix t i e
  assume "et_ok t" and "et_max_entries_cnt t \<le> i"
  then show "et_insert_at e i t = Inr (False, t)" by (simp add: et_insert_at_def insert_at_def)
next
  fix t e i
  assume ok: "et_ok t" and fits: "entry_fits (et_depth t) e" and i: "i < length (et_ents t)"
  have "12 * et_entries_cnt t \<le> length (et_b t)" "i < et_entries_cnt t" using ok i by (simp_all add: et_ok_def et_ents_def)
  from replace_at_list [OF this fits len_conv_root] ok
  show "\<exists>n'. et_replace_at e i t = Inr (True, n') \<and> et_ok n' \<and> et_ents n' = (et_ents t)[i := e]"
    by (auto simp: et_replace_at_def et_ents_def et_ok_def)
qed

definition node_cnt :: "bytes \<Rightarrow> nat" where
  "node_cnt b = unat (le16 (b ! 2) (b ! 3))"

definition node_room :: "bytes \<Rightarrow> nat" where
  "node_room b = unat (le16 (b ! 4) (b ! 5))"

definition node_level :: "bytes \<Rightarrow> nat" where
  "node_level b = unat (le16 (b ! 6) (b ! 7))"

definition node_ok :: "bytes \<Rightarrow> bool" where
  "node_ok b \<longleftrightarrow> 12 + 12 * node_room b \<le> length b \<and> node_cnt b \<le> node_room b"

definition node_ents :: "bytes \<Rightarrow> extent_entry list" where
  "node_ents b = dec_list node_len (node_level b) (node_cnt b) (drop 12 b)"

text \<open>The slot behind the last entry, whatever it holds.\<close>

definition node_spare :: "bytes \<Rightarrow> extent_entry" where
  "node_spare b = dec_entry node_len (node_level b) (chunk12 (drop 12 b) (node_cnt b))"

lemma node_header:
  assumes "12 \<le> length b"
  shows "node_entries_cnt b = Inr (node_cnt b)" "node_max_entries_cnt b = Inr (node_room b)"
    "node_depth b = Inr (node_level b)"
  using assms
  by (simp_all add: node_entries_cnt_def node_max_entries_cnt_def node_depth_def num16_def read_u16_def
      node_cnt_def node_room_def node_level_def)

lemma node_header_array:
  assumes "12 \<le> length b"
  shows "node_cnt (take 12 b @ r) = node_cnt b" "node_room (take 12 b @ r) = node_room b"
    "node_level (take 12 b @ r) = node_level b"
  using assms by (simp_all add: node_cnt_def node_room_def node_level_def nth_append)

lemma node_set_entries_cnt_eq:
  assumes "12 \<le> length b" and "n < 2 ^ 16"
  obtains b' where "node_set_entries_cnt n b = Inr b'" "length b' = length b" "drop 12 b' = drop 12 b"
    "node_cnt b' = n" "node_room b' = node_room b" "node_level b' = node_level b"
proof -
  define b' where "b' = splice b 2 (to_le16 (of_nat n))"
  have "node_set_entries_cnt n b = Inr b'" using assms(1) by (simp add: node_set_entries_cnt_def write_u16_def b'_def)
  moreover have "length b' = length b" using assms(1) by (simp add: b'_def)
  moreover have "drop 12 b' = drop 12 b" using assms(1) by (simp add: b'_def splice_def)
  moreover have "b' ! 2 = to_le16 (of_nat n) ! 0" "b' ! 3 = to_le16 (of_nat n) ! 1"
    "b' ! 4 = b ! 4" "b' ! 5 = b ! 5" "b' ! 6 = b ! 6" "b' ! 7 = b ! 7"
    using assms(1) by (simp_all add: b'_def nth_splice)
  ultimately show thesis using that unat_small16 [OF assms(2)]
    by (simp only: node_cnt_def node_room_def node_level_def le_of_to_le)
qed


lemma node_insert_at_frame:
  assumes "node_insert_at e i b = Inr (ok, b')"
  shows "node_room b' = node_room b" "node_level b' = node_level b" "node_from_bytes b' = node_from_bytes b"
proof -
  have "12 \<le> length b" using assms by (auto simp: node_insert_at_def on_array_def rbind_Inr_iff)
  moreover obtain r where "b' = take 12 b @ r \<or> (\<exists>n. node_set_entries_cnt n (take 12 b @ r) = Inr b')"
    using assms by (auto simp: node_insert_at_def on_array_def rbind_Inr_iff rmap_Inr_iff split: if_splits)
  ultimately have "\<forall>j\<in>{0, 1, 4, 5, 6, 7}. b' ! j = b ! j" and "12 \<le> length b'"
    by (auto simp: node_set_entries_cnt_def write_u16_def nth_append nth_splice split: if_splits)
  with \<open>12 \<le> length b\<close> show "node_room b' = node_room b" "node_level b' = node_level b" "node_from_bytes b' = node_from_bytes b"
    by (simp_all add: node_room_def node_level_def node_from_bytes_def read_u16_def)
qed

interpretation node: extent_header_mut node_entries_cnt node_get node_ents node_ok
  node_room "\<lambda>b. entry_fits (node_level b)" node_insert_at node_replace_at node_spare
proof unfold_locales
  fix b i assume ok: "node_ok b"
  then have len: "12 \<le> length b" by (simp add: node_ok_def)
  show "node_entries_cnt b = Inr (length (node_ents b))" by (simp add: node_ents_def node_header [OF len])
  show "node_get b i = Inr (if i < length (node_ents b) then Some (node_ents b ! i) else None)"
  proof (cases "i < node_cnt b")
    case True
    with ok have "12 * i + 12 \<le> length (drop 12 b)"
      unfolding node_ok_def length_drop by linarith
    with True show ?thesis by (simp add: node_get_def node_header [OF len] ext_get_chunk node_ents_def)
  next
    case False
    then show ?thesis by (simp add: node_get_def node_header [OF len] ext_get_def node_ents_def)
  qed
next
  fix b e i
  assume ok: "node_ok b" and fits: "entry_fits (node_level b) e" and i: "i \<le> length (node_ents b)"
    and room: "length (node_ents b) < node_room b"
  have len: "12 \<le> length b" "12 * node_room b \<le> length (drop 12 b)"
    using ok unfolding node_ok_def length_drop by linarith+
  from i room have "node_cnt b < node_room b" "i \<le> node_cnt b" by (simp_all add: node_ents_def)
  from insert_at_list [OF len(2) this fits len_conv_node] obtain r where
    r: "insert_at (node_room b) (node_cnt b) (node_level b) e i (drop 12 b) = Inr (True, r)"
    "length r = length (drop 12 b)"
    "dec_list node_len (node_level b) (node_cnt b + 1) r = ins_list e i (node_ents b) (node_spare b)"
    unfolding node_ents_def node_spare_def by blast
  let ?c = "take 12 b @ r"
  have c: "12 \<le> length ?c" using len by simp
  have "node_room b < 2 ^ 16" using unat_lt2p16 [of "le16 (b ! 4) (b ! 5)"] by (simp add: node_room_def)
  then have n: "node_cnt b + 1 < 2 ^ 16" using room by (simp add: node_ents_def)
  obtain b' where b': "node_set_entries_cnt (node_cnt b + 1) ?c = Inr b'" "length b' = length ?c"
    "drop 12 b' = r" "node_cnt b' = node_cnt b + 1" "node_room b' = node_room b" "node_level b' = node_level b"
    using node_set_entries_cnt_eq [OF c n] len by (simp add: node_header_array [OF len(1)] min_def) metis
  have "node_insert_at e i b = Inr (True, b')"
    using r(1) len n b'(1)
    by (simp add: node_insert_at_def on_array_def node_header node_header_array [OF len(1)] chk_def del: le_add_same_cancel1)
  moreover have "node_ok b'" using ok b' r(2) room by (simp add: node_ok_def node_ents_def)
  moreover have "node_ents b' = ins_list e i (node_ents b) (node_spare b)"
    using b' r(3) by (simp add: node_ents_def [of b'])
  ultimately show "\<exists>n'. node_insert_at e i b = Inr (True, n') \<and> node_ok n' \<and> node_ents n' = ins_list e i (node_ents b) (node_spare b)"
    by blast
next
  fix b i e
  assume ok: "node_ok b" and i: "node_room b \<le> i"
  then have "12 \<le> length b" by (simp add: node_ok_def)
  with i show "node_insert_at e i b = Inr (False, b)"
    by (simp add: node_insert_at_def node_header on_array_def insert_at_def)
next
  fix b e i
  assume ok: "node_ok b" and fits: "entry_fits (node_level b) e" and i: "i < length (node_ents b)"
  have len: "12 \<le> length b" using ok by (simp add: node_ok_def)
  have "12 * node_cnt b \<le> length (drop 12 b)" "i < node_cnt b"
    using ok i unfolding node_ok_def length_drop by (linarith, simp add: node_ents_def)
  from replace_at_list [OF this fits len_conv_node] obtain r where
    r: "replace_at (node_cnt b) (node_level b) e i (drop 12 b) = Inr (True, r)" "length r = length (drop 12 b)"
    "dec_list node_len (node_level b) (node_cnt b) r = (node_ents b)[i := e]"
    unfolding node_ents_def by blast
  let ?c = "take 12 b @ r"
  have "node_replace_at e i b = Inr (True, ?c)"
    using r(1) len by (simp add: node_replace_at_def node_header on_array_def)
  moreover have "node_ok ?c" using ok r(2) len by (simp add: node_ok_def node_header_array)
  moreover have "node_ents ?c = (node_ents b)[i := e]"
    using r(3) len by (simp add: node_ents_def [of ?c] node_header_array)
  ultimately show "\<exists>n'. node_replace_at e i b = Inr (True, n') \<and> node_ok n' \<and> node_ents n' = (node_ents b)[i := e]"
    by blast
qed

section \<open>Properties\<close>

text \<open>On a well-formed node with entries in order of their first block, the binary search returns
  the last entry that does not start after \<open>fba\<close>; when even the first one does (a hole at the start of
  the node's range), the unsigned \<open>m - 1\<close> underflows and the search panics.\<close>

theorem node_search:
  assumes "node_ok b" and "sorted (map first_block (node_ents b))" and "node_ents b \<noteq> []"
  shows "if first_block (hd (node_ents b)) \<le> fba
    then \<exists>i < length (node_ents b). binary_search node_entries_cnt node_get fba b = Inr (Some i) \<and>
      first_block (node_ents b ! i) \<le> fba \<and>
      (\<forall>j. i < j \<longrightarrow> j < length (node_ents b) \<longrightarrow> fba < first_block (node_ents b ! j))
    else binary_search node_entries_cnt node_get fba b = Inl Panic"
proof (cases "first_block (hd (node_ents b)) \<le> fba")
  case True
  then have "0 < below fba (node_ents b)" using assms(3) by (cases "node_ents b") (auto simp: below_def)
  then have "binary_search node_entries_cnt node_get fba b = Inr (Some (below fba (node_ents b) - 1))"
    using node.search [OF assms(1,2)] assms(3) by simp
  with True node.search_found [OF assms(1,2) this] show ?thesis by auto
next
  case False
  then have "below fba (node_ents b) = 0" using assms(3) by (cases "node_ents b") (auto simp: below_def)
  with False node.search [OF assms(1,2)] assms(3) show ?thesis by simp
qed

definition demo_leaf :: "nat \<Rightarrow> nat \<Rightarrow> nat \<Rightarrow> extent_entry" where
  "demo_leaf block start len = Leaf \<lparr>lf_block = block, lf_start = start, lf_len = len, lf_init = True\<rparr>"

text \<open>A node with room for three leafs, two of which are used: blocks 4..5 and 9..11.\<close>

definition demo_node :: bytes where
  "demo_node = [0x0A, 0xF3, 2, 0, 3, 0, 0, 0, 0, 0, 0, 0] @
     [4, 0, 0, 0, 2, 0, 0, 0, 50, 0, 0, 0] @ [9, 0, 0, 0, 3, 0, 0, 0, 70, 0, 0, 0] @ replicate 12 0"

lemma demo_node_ok: "node_ok demo_node" "node_level demo_node = 0" "node_room demo_node = 3"
  "node_ents demo_node = [demo_leaf 4 50 2, demo_leaf 9 70 3]"
  by (simp_all add: node_ok_def node_room_def node_cnt_def node_level_def demo_node_def le16_def le32_def
      merge_u32_def node_ents_def dec_list_def chunk12_def dec_entry_def node_len_def demo_leaf_def
      upt_conv_Cons)

lemma node_search_witness:
  "if first_block (hd (node_ents demo_node)) \<le> 10
    then \<exists>i < length (node_ents demo_node). binary_search node_entries_cnt node_get 10 demo_node = Inr (Some i) \<and>
      first_block (node_ents demo_node ! i) \<le> 10 \<and>
      (\<forall>j. i < j \<longrightarrow> j < length (node_ents demo_node) \<longrightarrow> 10 < first_block (node_ents demo_node ! j))
    else binary_search node_entries_cnt node_get 10 demo_node = Inl Panic"
  by (rule node_search) (simp_all add: demo_node_ok demo_leaf_def first_block_def)

text \<open>Replacing an entry of the inode's root (\<open>ExtentTree::replace_at\<close>) is read back at that index,
  and the count and every other entry stay as they were.\<close>

theorem root_replace_at:
  assumes "et_ok t" and "entry_fits (et_depth t) e" and "i < et_entries_cnt t"
  shows "\<exists>t'. et_replace_at e i t = Inr (True, t') \<and> et_entries_cnt t' = et_entries_cnt t \<and>
    (\<forall>j. et_get t' j = (if j = i then Inr (Some e) else et_get t j))"
proof -
  have "i < length (et_ents t)" using assms(3) by (simp add: et_ents_def)
  from root.repl_get [OF assms(1,2) this] show ?thesis by simp
qed

definition demo_root :: extent_tree where
  "demo_root = \<lparr>et_entries_cnt = 1, et_max_entries_cnt = 4, et_depth = 0, et_b = replicate 48 0\<rparr>"

lemma root_replace_at_witness:
  "\<exists>t'. et_replace_at (demo_leaf 7 99 3) 0 demo_root = Inr (True, t') \<and> et_entries_cnt t' = et_entries_cnt demo_root \<and>
    (\<forall>j. et_get t' j = (if j = 0 then Inr (Some (demo_leaf 7 99 3)) else et_get demo_root j))"
  by (rule root_replace_at) (simp_all add: demo_root_def et_ok_def entry_fits_def demo_leaf_def)

text \<open>Inserting before the end of a node with room: the entries up to the insertion point stay, the
  ones after it shift by one, and the count grows; but the shifting loop stops one entry early
  (\<open>(at + 1..entries_cnt)\<close>), so the former last entry is overwritten by the one before it, and the new
  last entry is whatever the unused slot behind the array held.\<close>

theorem node_insert_at_middle:
  assumes "node_ok b" and "entry_fits (node_level b) e" and "i < node_cnt b" and "node_cnt b < node_room b"
  shows "\<exists>b'. node_insert_at e i b = Inr (True, b') \<and> node_entries_cnt b' = Inr (node_cnt b + 1) \<and>
    (\<forall>j < node_cnt b. node_get b' j =
      (if j = i then Inr (Some e) else if i < j then node_get b (j - 1) else node_get b j)) \<and>
    node_get b' (node_cnt b) = Inr (Some (node_spare b))"
  using node.ins_middle [OF assms(1,2), of i] assms(3,4) by (simp add: node_ents_def)

lemma node_insert_at_middle_witness:
  "\<exists>b'. node_insert_at (demo_leaf 2 90 1) 0 demo_node = Inr (True, b') \<and>
    node_entries_cnt b' = Inr (node_cnt demo_node + 1) \<and>
    (\<forall>j < node_cnt demo_node. node_get b' j =
      (if j = 0 then Inr (Some (demo_leaf 2 90 1)) else if 0 < j then node_get demo_node (j - 1) else node_get demo_node j)) \<and>
    node_get b' (node_cnt demo_node) = Inr (Some (node_spare demo_node))"
proof -
  have "node_cnt demo_node = 2" by (simp add: node_cnt_def demo_node_def le16_def)
  then show ?thesis
    by (intro node_insert_at_middle) (simp_all add: demo_node_ok entry_fits_def demo_leaf_def)
qed

text \<open>The root and a node read the length of a leaf in different ways, and agree on every value but
  0x8000: a full initialised leaf of 32768 blocks, which merging can create, is read back from the root
  as an empty uninitialised one.\<close>

theorem root_node_len_agree: "root_len v = node_len v \<longleftrightarrow> v \<noteq> 0x8000"
proof -
  have v: "unat v < 2 ^ 16" by (rule unat_lt2p16)
  have "(0x7fff :: 16 word) = mask 15" by (simp add: mask_eq_exp_minus_1)
  then have "v AND 0x7fff = take_bit 15 v" by (simp only: take_bit_eq_mask)
  then have a: "unat (v AND 0x7fff) = unat v mod 2 ^ 15"
    by (simp only:) (subst unsigned_take_bit_eq, simp_all add: take_bit_eq_mod [of 15 "unat v"])
  have lt: "v < 0x8000 \<longleftrightarrow> unat v < 2 ^ 15" "v \<le> 0x8000 \<longleftrightarrow> unat v \<le> 2 ^ 15"
    by (simp_all add: word_less_nat_alt word_le_nat_alt)
  have eq: "v = 0x8000 \<longleftrightarrow> unat v = 2 ^ 15" by (simp add: word_unat_eq_iff)
  show ?thesis
  proof (cases "unat v \<le> 2 ^ 15")
    case True
    then show ?thesis unfolding root_len_def node_len_def lt a eq by (auto simp: lt)
  next
    case False
    then have "0x8000 \<le> v" unfolding word_le_nat_alt by simp
    then have "unat (v - 0x8000) = unat v - 2 ^ 15" by (simp add: unat_sub)
    moreover have "unat v mod 2 ^ 15 = unat v - 2 ^ 15" using False v by (simp add: le_mod_geq)
    ultimately show ?thesis using False unfolding root_len_def node_len_def lt a eq by simp
  qed
qed

end
