(* ===== verification/Bitmap.thy ===== *)
theory Bitmap
  imports Byte_Rw
begin

text \<open>
  Bitmaps: the searches \<open>find_one\<close>/\<open>find_zero\<close> of \<open>src/block/mod.rs\<close> and the write-back of
  an allocated or freed run of bits, \<open>set_bitmap\<close>/\<open>unset_bitmap\<close> of
  \<open>src/transaction/event.rs\<close>, which handle the ragged ends bit by bit and the middle byte
  by byte. The reference is the set of bit positions (\<open>bit_at\<close>).
\<close>

section \<open>Searching\<close>

text \<open>\<open>7 - (b & !(b - 1)).leading_zeros()\<close>: the position of the lowest set bit of a byte.\<close>

definition lowest_bit_pos :: "byte \<Rightarrow> nat" where
  "lowest_bit_pos b = 7 - leading_zeros 8 (unat (b AND NOT (b - 1)))"

fun scan_groups :: "(nat \<Rightarrow> byte \<Rightarrow> byte) \<Rightarrow> nat \<Rightarrow> bytes \<Rightarrow> nat option" where
  "scan_groups f g [] = None"
| "scan_groups f g (b # bs) =
     (let b' = f g b
      in if b' \<noteq> 0 then Some (g * 8 + lowest_bit_pos b') else scan_groups f (Suc g) bs)"

definition find_one :: "bytes \<Rightarrow> nat \<Rightarrow> nat option" where
  "find_one bm start =
     (let s_grp = start div 8; s_ofs = start mod 8
      in scan_groups (\<lambda>g b. if g = s_grp then b AND NOT (push_bit s_ofs 1 - 1) else b)
           s_grp (drop s_grp bm))"

definition find_zero :: "bytes \<Rightarrow> nat \<Rightarrow> nat option" where
  "find_zero bm start =
     (let s_grp = start div 8; s_ofs = start mod 8
      in scan_groups (\<lambda>g b. (if g = s_grp then b OR (push_bit s_ofs 1 - 1) else b) XOR 255)
           s_grp (drop s_grp bm))"

section \<open>Writing runs of bits back\<close>

definition set_one_bit :: "nat \<Rightarrow> bytes \<Rightarrow> bytes result" where
  "set_one_bit pos blk =
     (let grp = pos div 8; dofs = pos mod 8
      in rbind (read_u8 blk grp) (\<lambda>v.
         rbind (assertR (v AND push_bit dofs 1 = 0)) (\<lambda>_.
         write_u8 grp (v OR push_bit dofs 1) blk)))"

definition set_one_group :: "nat \<Rightarrow> bytes \<Rightarrow> bytes result" where
  "set_one_group grp blk =
     rbind (read_u8 blk grp) (\<lambda>v.
     rbind (assertR (v = 0)) (\<lambda>_. write_u8 grp 0xff blk))"

definition unset_one_bit :: "nat \<Rightarrow> bytes \<Rightarrow> bytes result" where
  "unset_one_bit pos blk =
     (let grp = pos div 8; ofs = pos mod 8
      in rbind (read_u8 blk grp) (\<lambda>v.
         rbind (assertR (v AND push_bit ofs 1 = push_bit ofs 1)) (\<lambda>_.
         write_u8 grp (v AND NOT (push_bit ofs 1)) blk)))"

definition unset_one_group :: "nat \<Rightarrow> bytes \<Rightarrow> bytes result" where
  "unset_one_group grp blk =
     rbind (read_u8 blk grp) (\<lambda>v.
     rbind (assertR (v = 0xff)) (\<lambda>_. write_u8 grp 0 blk))"

text \<open>
  The three ranges of the source: \<open>os..oe\<close> bits, \<open>ms/8..me/8\<close> bytes, \<open>cs..ce\<close> bits;
  \<open>x & !7\<close> is \<open>x div 8 * 8\<close>.
\<close>

definition run_over_bits ::
  "(nat \<Rightarrow> bytes \<Rightarrow> bytes result) \<Rightarrow> (nat \<Rightarrow> bytes \<Rightarrow> bytes result) \<Rightarrow> nat \<Rightarrow> nat \<Rightarrow> bytes \<Rightarrow> bytes result"
  where
  "run_over_bits bit_op group_op ofs count blk =
     (let os = ofs; oe = min ((ofs + 7) div 8 * 8) (ofs + count);
          ms = oe; me = (ofs + count) div 8 * 8;
          cs = max oe me; ce = ofs + count
      in rbind (for_each [os..<oe] bit_op blk) (\<lambda>blk.
         rbind (for_each [ms div 8..<me div 8] group_op blk) (\<lambda>blk.
         for_each [cs..<ce] bit_op blk)))"

definition wb_set_bitmap :: "nat \<Rightarrow> nat \<Rightarrow> bytes \<Rightarrow> bytes result" where
  "wb_set_bitmap = run_over_bits set_one_bit set_one_group"

definition wb_unset_bitmap :: "nat \<Rightarrow> nat \<Rightarrow> bytes \<Rightarrow> bytes result" where
  "wb_unset_bitmap = run_over_bits unset_one_bit unset_one_group"

section \<open>The lowest set bit\<close>

definition lowest_ok :: "nat \<Rightarrow> bool" where
  "lowest_ok n = (let b = of_nat n :: byte; k = lowest_bit_pos b
     in b = 0 \<or> k < 8 \<and> bit b k \<and> list_all (\<lambda>j. \<not> bit b j) [0..<k])"

lemma lowest_ok_all: "list_all lowest_ok [0..<256]"
  by code_simp


lemma lowest_bit_pos:
  assumes "b \<noteq> 0"
  shows "lowest_bit_pos b < 8" and "bit b (lowest_bit_pos b)"
    and "\<And>j. j < lowest_bit_pos b \<Longrightarrow> \<not> bit b j"
proof -
  have "unat b < 2 ^ LENGTH(8)" by (rule unsigned_less)
  then have "lowest_ok (unat b)" using lowest_ok_all by (simp add: list_all_iff)
  then show "lowest_bit_pos b < 8" "bit b (lowest_bit_pos b)"
    "\<And>j. j < lowest_bit_pos b \<Longrightarrow> \<not> bit b j"
    using assms by (auto simp: lowest_ok_def list_all_iff Let_def)
qed

lemma byte_eq_0_iff: "b = (0 :: byte) \<longleftrightarrow> (\<forall>i<8. \<not> bit b i)"
  by (auto simp: bit_eq_iff dest: bit_imp_le_length)

section \<open>The searches find the first bit\<close>

text \<open>The bit the scan tests at position \<open>q\<close>, when it starts with group \<open>g\<close>.\<close>

definition scanned_bit :: "(nat \<Rightarrow> byte \<Rightarrow> byte) \<Rightarrow> bytes \<Rightarrow> nat \<Rightarrow> nat \<Rightarrow> bool" where
  "scanned_bit f bs g q = bit (f (q div 8) (bs ! (q div 8 - g))) (q mod 8)"

lemma scanned_bit_Cons:
  "8 * Suc g \<le> q \<Longrightarrow> scanned_bit f (b # bs) g q = scanned_bit f bs (Suc g) q"
proof -
  assume "8 * Suc g \<le> q"
  then have "Suc g \<le> q div 8" by (simp add: less_eq_div_iff_mult_less_eq)
  then have "q div 8 - g = Suc (q div 8 - Suc g)" by simp
  then show ?thesis by (simp add: scanned_bit_def)
qed

lemma scanned_bit_head:
  assumes "8 * g \<le> q" and "q < 8 * Suc g"
  shows "scanned_bit f (b # bs) g q = bit (f g b) (q mod 8)"
proof -
  have "q div 8 = g" using assms by (intro div_nat_eqI) simp_all
  then show ?thesis by (simp add: scanned_bit_def)
qed

lemma below_in_group:
  fixes p q g k :: nat
  assumes "p = g * 8 + k" and "k < 8" and "8 * g \<le> q" and "q < p"
  shows "q mod 8 < k \<and> q < 8 * Suc g"
proof -
  obtain r where r: "q = 8 * g + r" using assms(3) le_Suc_ex by blast
  with assms have "r < k" "r < 8" by simp_all
  with r show ?thesis by simp
qed

lemma group_of_start:
  fixes s q n :: nat
  shows "8 * (s div 8) \<le> q \<Longrightarrow> s div 8 \<le> q div 8"
    and "q div 8 = s div 8 \<Longrightarrow> s \<le> q \<longleftrightarrow> s mod 8 \<le> q mod 8"
    and "s div 8 \<le> q div 8 \<Longrightarrow> q div 8 \<noteq> s div 8 \<Longrightarrow> s \<le> q"
    and "s \<le> q \<Longrightarrow> 8 * (s div 8) \<le> q"
    and "n < s div 8 \<Longrightarrow> 8 * n \<le> s"
  using div_mult_mod_eq [of q 8] div_mult_mod_eq [of s 8] mod_less_divisor [of 8 s]
    mod_less_divisor [of 8 q] by linarith+

lemma scan_groups_Some:
  "scan_groups f g bs = Some p \<Longrightarrow>
   8 * g \<le> p \<and> p < 8 * (g + length bs) \<and> scanned_bit f bs g p \<and>
   (\<forall>q. 8 * g \<le> q \<and> q < p \<longrightarrow> \<not> scanned_bit f bs g q)"
proof (induction bs arbitrary: g)
  case (Cons b bs)
  show ?case
  proof (cases "f g b = 0")
    case True
    with Cons.prems have "scan_groups f (Suc g) bs = Some p" by simp
    note IH = Cons.IH [OF this]
    have "\<not> scanned_bit f (b # bs) g q" if "8 * g \<le> q" "q < p" for q
      using IH that True scanned_bit_Cons [of g q f b bs] scanned_bit_head [of g q f b bs]
      by (cases "q < 8 * Suc g") (auto simp: not_less)
    then show ?thesis using IH scanned_bit_Cons [of g p f b bs] by auto
  next
    case False
    then have p: "p = g * 8 + lowest_bit_pos (f g b)" using Cons.prems by (simp add: Let_def)
    note low = lowest_bit_pos [OF False]
    have "p mod 8 = lowest_bit_pos (f g b)" using p low(1) by simp
    moreover have "\<not> scanned_bit f (b # bs) g q" if q: "8 * g \<le> q" "q < p" for q
    proof -
      have "q mod 8 < lowest_bit_pos (f g b)" "q < 8 * Suc g"
        using below_in_group [OF p low(1) q] by simp_all
      with low(3) scanned_bit_head [OF q(1)] show ?thesis by simp
    qed
    moreover have "8 * g \<le> p" "p < 8 * Suc g" using p low(1) by simp_all
    ultimately show ?thesis using low(2) scanned_bit_head [of g p f b bs] by simp
  qed
qed simp

lemma scan_groups_None:
  "scan_groups f g bs = None \<Longrightarrow> 8 * g \<le> q \<Longrightarrow> q < 8 * (g + length bs) \<Longrightarrow>
   \<not> scanned_bit f bs g q"
proof (induction bs arbitrary: g)
  case (Cons b bs)
  then have "f g b = 0" "scan_groups f (Suc g) bs = None"
    by (auto simp: Let_def split: if_splits)
  then show ?case
    using Cons.IH [of "Suc g"] Cons.prems(2,3) scanned_bit_Cons [of g q f b bs]
      scanned_bit_head [of g q f b bs]
    by (cases "q < 8 * Suc g") (auto simp: not_less)
qed simp

lemma low_mask_bits: "j < 8 \<Longrightarrow> bit (push_bit o' 1 - 1 :: byte) j \<longleftrightarrow> j < o'"
proof -
  assume "j < 8"
  have "push_bit o' 1 - 1 = (mask o' :: byte)" by (simp add: mask_eq_exp_minus_1)
  with \<open>j < 8\<close> show ?thesis by (simp add: bit_simps)
qed

lemma bit_255_byte: "j < 8 \<Longrightarrow> bit (255 :: byte) j"
proof -
  assume "j < 8"
  have "(255 :: byte) = mask 8" by (simp add: mask_eq_exp_minus_1)
  with \<open>j < 8\<close> show ?thesis by (simp only: bit_mask_iff) simp
qed

lemma scanned_nth:
  assumes "8 * (start div 8) \<le> q" and "q < 8 * length bm"
  shows "scanned_bit f (drop (start div 8) bm) (start div 8) q = bit (f (q div 8) (bm ! (q div 8))) (q mod 8)"
proof -
  have "start div 8 \<le> q div 8" "q div 8 < length bm"
    using group_of_start(1) [OF assms(1)] assms(2) by auto
  then show ?thesis by (simp add: scanned_bit_def)
qed

lemma scanned_find_one:
  assumes "8 * (start div 8) \<le> q" and "q < 8 * length bm"
  shows "scanned_bit (\<lambda>g b. if g = start div 8 then b AND NOT (push_bit (start mod 8) 1 - 1) else b)
      (drop (start div 8) bm) (start div 8) q \<longleftrightarrow> start \<le> q \<and> bit_at bm q"
proof (cases "q div 8 = start div 8")
  case True
  have "bit (NOT (push_bit (start mod 8) 1 - 1) :: byte) (q mod 8) \<longleftrightarrow> start \<le> q"
    using low_mask_bits [of "q mod 8" "start mod 8"] group_of_start(2) [OF True]
    by (simp add: bit_not_iff not_less)
  with True show ?thesis
    by (simp only: scanned_nth [OF assms] bit_at_def bit_and_iff refl if_True) blast
next
  case False
  with group_of_start(1,3) assms(1) have "start \<le> q" by blast
  with False show ?thesis by (simp only: scanned_nth [OF assms] bit_at_def if_False) blast
qed

lemma scanned_find_zero:
  assumes "8 * (start div 8) \<le> q" and "q < 8 * length bm"
  shows "scanned_bit (\<lambda>g b. (if g = start div 8 then b OR (push_bit (start mod 8) 1 - 1) else b) XOR 255)
      (drop (start div 8) bm) (start div 8) q \<longleftrightarrow> start \<le> q \<and> \<not> bit_at bm q"
proof (cases "q div 8 = start div 8")
  case True
  have "bit (push_bit (start mod 8) 1 - 1 :: byte) (q mod 8) \<longleftrightarrow> \<not> start \<le> q"
    using low_mask_bits [of "q mod 8" "start mod 8"] group_of_start(2) [OF True]
    by (simp add: not_le)
  with True bit_255_byte [of "q mod 8"] show ?thesis
    by (simp only: scanned_nth [OF assms] bit_at_def bit_or_iff bit_xor_iff refl if_True
        mod_less_divisor zero_less_numeral) blast
next
  case False
  with group_of_start(1,3) assms(1) have "start \<le> q" by blast
  with False bit_255_byte [of "q mod 8"] show ?thesis
    by (simp only: scanned_nth [OF assms] bit_at_def bit_xor_iff if_False) auto
qed

text \<open>The first position at or after \<open>start\<close> with the property \<open>P\<close>, below \<open>n\<close>.\<close>

definition first_from :: "(nat \<Rightarrow> bool) \<Rightarrow> nat \<Rightarrow> nat \<Rightarrow> nat option \<Rightarrow> bool" where
  "first_from P start n r = (case r of
     None \<Rightarrow> \<forall>q. start \<le> q \<and> q < n \<longrightarrow> \<not> P q
   | Some p \<Rightarrow> start \<le> p \<and> p < n \<and> P p \<and> (\<forall>q. start \<le> q \<and> q < p \<longrightarrow> \<not> P q))"

lemma scan_first_from:
  assumes eq: "r = scan_groups f (start div 8) (drop (start div 8) bm)"
    and bits: "\<And>q. 8 * (start div 8) \<le> q \<Longrightarrow> q < 8 * length bm \<Longrightarrow>
      scanned_bit f (drop (start div 8) bm) (start div 8) q \<longleftrightarrow> start \<le> q \<and> P q"
  shows "first_from P start (8 * length bm) r"
proof (cases "start div 8 \<le> length bm")
  case False
  then have "8 * length bm \<le> start" using group_of_start(5) by simp
  with False eq show ?thesis by (auto simp: first_from_def)
next
  case True
  then have len: "start div 8 + length (drop (start div 8) bm) = length bm" by simp
  show ?thesis
  proof (cases r)
    case None
    have "\<not> P q" if q: "start \<le> q" "q < 8 * length bm" for q
      using scan_groups_None [OF eq [symmetric, unfolded None] group_of_start(4) [OF q(1)]]
        bits [OF group_of_start(4) [OF q(1)] q(2)] q len by simp
    with None show ?thesis by (simp add: first_from_def)
  next
    case (Some p)
    note sc = scan_groups_Some [OF eq [symmetric, unfolded Some], unfolded len]
    have "\<not> P q" if q: "start \<le> q" "q < p" for q
      using sc bits [OF group_of_start(4) [OF q(1)]] group_of_start(4) [OF q(1)] q by auto
    with Some sc bits [of p] show ?thesis by (simp add: first_from_def)
  qed
qed

lemma find_one_ok: "first_from (bit_at bm) start (8 * length bm) (find_one bm start)"
  by (rule scan_first_from [OF _ scanned_find_one]) (simp_all add: find_one_def Let_def)

lemma find_zero_ok: "first_from (\<lambda>q. \<not> bit_at bm q) start (8 * length bm) (find_zero bm start)"
  by (rule scan_first_from [OF _ scanned_find_zero]) (simp_all add: find_zero_def Let_def)

text \<open>\<open>find_one\<close> returns the first set bit at or after \<open>start\<close>, or \<open>None\<close> if there is none,
  and \<open>find_zero\<close> the first clear one.\<close>

theorem find_first_bit:
  "first_from (bit_at bm) start (8 * length bm) (find_one bm start) \<and>
   first_from (\<lambda>q. \<not> bit_at bm q) start (8 * length bm) (find_zero bm start)"
  using find_one_ok find_zero_ok by blast

section \<open>Runs of bits are flipped as one\<close>

text \<open>\<open>flippable v S b\<close>: every position of \<open>S\<close> is inside \<open>b\<close> and holds \<open>\<not> v\<close>.
  \<open>flipped v S b b'\<close>: \<open>b'\<close> is \<open>b\<close> with the positions of \<open>S\<close> set to \<open>v\<close>.\<close>

definition flippable :: "bool \<Rightarrow> nat set \<Rightarrow> bytes \<Rightarrow> bool" where
  "flippable v S b \<longleftrightarrow> (\<forall>q\<in>S. q < 8 * length b \<and> bit_at b q = (\<not> v))"

definition flipped :: "bool \<Rightarrow> nat set \<Rightarrow> bytes \<Rightarrow> bytes \<Rightarrow> bool" where
  "flipped v S b b' \<longleftrightarrow> length b' = length b \<and>
     (\<forall>q < 8 * length b. bit_at b' q = (if q \<in> S then v else bit_at b q))"

text \<open>\<open>flips v S f\<close>: \<open>f\<close> flips exactly the positions of \<open>S\<close> to \<open>v\<close> and panics otherwise.\<close>

definition flips :: "bool \<Rightarrow> nat set \<Rightarrow> (bytes \<Rightarrow> bytes result) \<Rightarrow> bool" where
  "flips v S f \<longleftrightarrow> (\<forall>b. if flippable v S b then (\<exists>b'. f b = Inr b' \<and> flipped v S b b')
     else f b = Inl Panic)"

lemma flips_None: "flips v {} Inr"
  by (simp add: flips_def flippable_def flipped_def)

lemma flips_Inr:
  assumes "flips v S f" and "flippable v S b"
  obtains b' where "f b = Inr b'" and "flipped v S b b'"
  using assms by (metis flips_def)

lemma flips_Panic: "flips v S f \<Longrightarrow> \<not> flippable v S b \<Longrightarrow> f b = Inl Panic"
  by (metis flips_def)

lemma flippable_after:
  "flipped v S b b' \<Longrightarrow> S \<inter> T = {} \<Longrightarrow> flippable v T b' = flippable v T b"
  unfolding flippable_def flipped_def by (metis disjoint_iff)

lemma flips_comp:
  assumes f: "flips v S f" and g: "flips v T g" and dis: "S \<inter> T = {}"
  shows "flips v (S \<union> T) (\<lambda>b. rbind (f b) g)"
  unfolding flips_def
proof (intro allI)
  fix b
  have un: "flippable v (S \<union> T) b \<longleftrightarrow> flippable v S b \<and> flippable v T b"
    by (auto simp: flippable_def)
  show "if flippable v (S \<union> T) b
    then \<exists>b'. rbind (f b) g = Inr b' \<and> flipped v (S \<union> T) b b' else rbind (f b) g = Inl Panic"
  proof (cases "flippable v S b")
    case False
    with flips_Panic [OF f] un show ?thesis by simp
  next
    case True
    with flips_Inr [OF f] obtain c where c: "f b = Inr c" "flipped v S b c" by blast
    note T = flippable_after [OF c(2) dis]
    show ?thesis
    proof (cases "flippable v T b")
      case False
      with T flips_Panic [OF g] c(1) un show ?thesis by simp
    next
      case T': True
      with T flips_Inr [OF g] obtain d where d: "g c = Inr d" "flipped v T c d" by blast
      with c(2) have "flipped v (S \<union> T) b d" by (auto simp: flipped_def)
      with c(1) d(1) un True T' show ?thesis by simp
    qed
  qed
qed

lemma flips_for_each:
  assumes "\<And>x. flips v (S x) (f x)"
    and "\<And>x y. x \<noteq> y \<Longrightarrow> S x \<inter> S y = {}" and "distinct xs"
  shows "flips v (\<Union>x\<in>set xs. S x) (for_each xs f)"
  using assms(3)
proof (induction xs)
  case Nil
  have "for_each [] f = Inr" by (rule ext) simp
  then show ?case using flips_None by simp
next
  case (Cons x xs)
  have "S x \<inter> S y = {}" if "y \<in> set xs" for y
    using assms(2) Cons.prems that by (metis distinct.simps(2))
  then have "S x \<inter> (\<Union>y\<in>set xs. S y) = {}" by blast
  from flips_comp [OF assms(1) _ this] Cons show ?case by simp
qed

lemma flips_write_u8:
  assumes "flippable v S b \<longleftrightarrow> grp < length b \<and> P (b ! grp)"
    and "\<And>q. q \<in> S \<Longrightarrow> q div 8 = grp"
    and "\<And>i w. i < 8 \<Longrightarrow> P w \<Longrightarrow> bit (h w) i = (if grp * 8 + i \<in> S then v else bit w i)"
  shows "if flippable v S b
    then \<exists>b'. rbind (read_u8 b grp) (\<lambda>w. rbind (assertR (P w)) (\<lambda>_. write_u8 grp (h w) b)) = Inr b' \<and>
      flipped v S b b'
    else rbind (read_u8 b grp) (\<lambda>w. rbind (assertR (P w)) (\<lambda>_. write_u8 grp (h w) b)) = Inl Panic"
proof (cases "grp < length b \<and> P (b ! grp)")
  case False
  with assms(1) show ?thesis by (auto simp: read_u8_def assertR_def)
next
  case True
  have "bit_at (b[grp := h (b ! grp)]) q = (if q \<in> S then v else bit_at b q)" for q
  proof (cases "q div 8 = grp")
    case True': True
    have "grp * 8 + q mod 8 = q" using True' div_mult_mod_eq [of q 8] by simp
    with True True' assms(3) [of "q mod 8" "b ! grp"] show ?thesis by (simp add: bit_at_def)
  next
    case False
    with assms(2) show ?thesis by (auto simp: bit_at_def)
  qed
  with True assms(1) show ?thesis by (simp add: read_u8_def write_u8_def flipped_def)
qed

lemma byte_eq_iff: "v = (w :: byte) \<longleftrightarrow> (\<forall>i<8. bit v i = bit w i)"
  by (auto intro: bit_word_eqI)

lemma byte_all_ones: "v = (0xff :: byte) \<longleftrightarrow> (\<forall>i<8. bit v i)"
  using bit_255_byte by (simp add: byte_eq_iff)

lemma exp_and_eq_0: "i < 8 \<Longrightarrow> (w :: byte) AND push_bit i 1 = 0 \<longleftrightarrow> \<not> bit w i"
  by (auto simp: byte_eq_iff bit_simps)

lemma exp_and_eq_exp: "i < 8 \<Longrightarrow> (w :: byte) AND push_bit i 1 = push_bit i 1 \<longleftrightarrow> bit w i"
  by (auto simp: byte_eq_iff bit_simps)

lemma same_bit_iff: "p div 8 * 8 + i = p \<longleftrightarrow> i = p mod 8" for p i :: nat
  using div_mult_mod_eq [of p 8] by linarith

lemma set_one_bit_flips: "flips True {p} (set_one_bit p)"
  unfolding flips_def set_one_bit_def Let_def
proof (intro allI flips_write_u8)
  fix b
  show "flippable True {p} b \<longleftrightarrow> p div 8 < length b \<and> b ! (p div 8) AND push_bit (p mod 8) 1 = 0"
    by (auto simp: flippable_def bit_at_def exp_and_eq_0 simp del: push_bit_of_1)
qed (auto simp: same_bit_iff bit_simps)

lemma unset_one_bit_flips: "flips False {p} (unset_one_bit p)"
  unfolding flips_def unset_one_bit_def Let_def
proof (intro allI flips_write_u8)
  fix b
  show "flippable False {p} b \<longleftrightarrow>
    p div 8 < length b \<and> b ! (p div 8) AND push_bit (p mod 8) 1 = push_bit (p mod 8) 1"
    by (auto simp: flippable_def bit_at_def exp_and_eq_exp simp del: push_bit_of_1)
qed (auto simp: same_bit_iff bit_simps)

text \<open>The positions of byte \<open>g\<close>.\<close>

definition group_bits :: "nat \<Rightarrow> nat set" where
  "group_bits g = {g * 8..<Suc g * 8}"

lemma flippable_group:
  "flippable v (group_bits g) b \<longleftrightarrow> g < length b \<and> (\<forall>i<8. bit (b ! g) i = (\<not> v))"
proof -
  have q: "q \<in> group_bits g \<longleftrightarrow> (\<exists>i<8. q = g * 8 + i)" for q
    by (auto simp: group_bits_def intro: exI [of _ "q - g * 8"])
  then have "flippable v (group_bits g) b \<longleftrightarrow>
      (\<forall>i<8. g * 8 + i < 8 * length b \<and> bit (b ! g) i = (\<not> v))"
    unfolding flippable_def Ball_def q by (auto simp: bit_at_def)
  moreover have "g * 8 + i < 8 * length b \<longleftrightarrow> g < length b" if "i < 8" for i
    using that by auto
  ultimately show ?thesis by (metis zero_less_numeral)
qed

lemma group_bits_div: "q \<in> group_bits g \<Longrightarrow> q div 8 = g"
  by (auto simp: group_bits_def intro: div_nat_eqI)

lemma set_one_group_flips: "flips True (group_bits g) (set_one_group g)"
  unfolding flips_def set_one_group_def Let_def
proof (intro allI flips_write_u8)
  fix b show "flippable True (group_bits g) b \<longleftrightarrow> g < length b \<and> b ! g = 0"
    by (auto simp: flippable_group byte_eq_0_iff)
next
  fix i :: nat and w :: byte assume "i < 8"
  then show "bit (0xff :: byte) i = (if g * 8 + i \<in> group_bits g then True else bit w i)"
    using bit_255_byte [of i] by (simp add: group_bits_def)
qed (rule group_bits_div)

lemma unset_one_group_flips: "flips False (group_bits g) (unset_one_group g)"
  unfolding flips_def unset_one_group_def Let_def
proof (intro allI flips_write_u8)
  fix b show "flippable False (group_bits g) b \<longleftrightarrow> g < length b \<and> b ! g = 0xff"
    unfolding byte_all_ones by (auto simp: flippable_group)
next
  fix i :: nat and w :: byte assume "i < 8"
  then show "bit (0 :: byte) i = (if g * 8 + i \<in> group_bits g then False else bit w i)"
    by (auto simp: group_bits_def)
qed (rule group_bits_div)

lemma UN_group_bits: "a \<le> c \<Longrightarrow> (\<Union>g\<in>set [a..<c]. group_bits g) = {a * 8..<c * 8}"
proof (induction c)
  case (Suc c)
  then show ?case
    by (cases "a = Suc c") (auto simp: group_bits_def le_Suc_eq atLeastLessThanSuc)
qed simp

lemma run_over_bits_flips:
  assumes b: "\<And>p. flips v {p} (bit_op p)" and g: "\<And>g. flips v (group_bits g) (group_op g)"
  shows "flips v {ofs..<ofs + count} (run_over_bits bit_op group_op ofs count)"
proof -
  define oe where "oe = min ((ofs + 7) div 8 * 8) (ofs + count)"
  define me where "me = (ofs + count) div 8 * 8"
  let ?ce = "ofs + count"
  have bits: "flips v {x..<y} (for_each [x..<y] bit_op)" for x y
    using flips_for_each [where S = "\<lambda>p. {p}" and xs = "[x..<y]", OF b] by simp
  have groups: "flips v (\<Union>g\<in>set [x..<y]. group_bits g) (for_each [x..<y] group_op)" for x y
    by (rule flips_for_each [OF g]) (auto dest: group_bits_div)
  have all: "{ofs..<oe} \<union> (\<Union>g\<in>set [oe div 8..<me div 8]. group_bits g) \<union> {max oe me..<?ce} =
      {ofs..<?ce} \<and> {ofs..<oe} \<inter> (\<Union>g\<in>set [oe div 8..<me div 8]. group_bits g) = {} \<and>
      ({ofs..<oe} \<union> (\<Union>g\<in>set [oe div 8..<me div 8]. group_bits g)) \<inter> {max oe me..<?ce} = {}"
  proof (cases "?ce \<le> (ofs + 7) div 8 * 8")
    case True
    then have "oe = ?ce" by (simp add: oe_def)
    moreover have "me \<le> ?ce" by (simp add: me_def)
    moreover have "me div 8 = ?ce div 8" by (simp add: me_def)
    ultimately show ?thesis by simp
  next
    case False
    then have oe: "oe = (ofs + 7) div 8 * 8" by (simp add: oe_def)
    have "oe div 8 \<le> me div 8" using False unfolding oe me_def
      by (simp add: less_eq_div_iff_mult_less_eq)
    note un = UN_group_bits [OF this]
    have "ofs \<le> oe" using div_mult_mod_eq [of "ofs + 7" 8] mod_less_divisor [of 8 "ofs + 7"]
      unfolding oe by linarith
    moreover have "me \<le> ?ce" by (simp add: me_def)
    moreover have "oe \<le> me" "oe div 8 * 8 = oe" "me div 8 * 8 = me"
      using \<open>oe div 8 \<le> me div 8\<close> by (simp_all add: oe me_def)
    ultimately show ?thesis unfolding un by auto
  qed
  have "flips v {ofs..<?ce} (\<lambda>b. rbind (rbind (for_each [ofs..<oe] bit_op b)
      (for_each [oe div 8..<me div 8] group_op)) (for_each [max oe me..<?ce] bit_op))"
    using flips_comp [OF flips_comp [OF bits groups] bits] all by metis
  then show ?thesis
    unfolding run_over_bits_def Let_def oe_def [symmetric] me_def [symmetric] rbind_assoc .
qed

text \<open>writing back an allocation of \<open>count\<close> blocks at \<open>ofs\<close> sets exactly these bits of the
  bitmap block, provided they lie in it and are all clear; otherwise it panics.\<close>

theorem wb_set_bitmap_flips: "flips True {ofs..<ofs + count} (wb_set_bitmap ofs count)"
  unfolding wb_set_bitmap_def by (rule run_over_bits_flips [OF set_one_bit_flips set_one_group_flips])

lemma bytes_eq_by_bits:
  assumes "length b' = length b" and "\<And>q. q < 8 * length b \<Longrightarrow> bit_at b' q = bit_at b q"
  shows "b' = (b :: bytes)"
proof (rule nth_equalityI [OF assms(1)])
  fix i assume i: "i < length b'"
  have "bit (b' ! i) j = bit (b ! i) j" if "j < 8" for j
    using assms(2) [of "i * 8 + j"] that i assms(1) by (simp add: bit_at_def)
  then show "b' ! i = b ! i" by (simp add: byte_eq_iff)
qed

lemma flip_back:
  assumes f: "flips v S f" and g: "flips (\<not> v) S g" and eq: "f b = Inr b'"
  shows "g b' = Inr b"
proof -
  have able: "flippable v S b" using flips_Panic [OF f] eq by fastforce
  from flips_Inr [OF f this] eq have fl: "flipped v S b b'" by auto
  with able have "flippable (\<not> v) S b'" by (auto simp: flippable_def flipped_def)
  from flips_Inr [OF g this] obtain c where c: "g b' = Inr c" "flipped (\<not> v) S b' c" .
  have "c = b"
    by (rule bytes_eq_by_bits) (use c(2) fl able in \<open>auto simp: flipped_def flippable_def\<close>)
  with c(1) show ?thesis by simp
qed

lemma wb_unset_bitmap_flips: "flips False {ofs..<ofs + count} (wb_unset_bitmap ofs count)"
  unfolding wb_unset_bitmap_def
  by (rule run_over_bits_flips [OF unset_one_bit_flips unset_one_group_flips])

text \<open>freeing a run restores the bitmap that was there before it was allocated.\<close>

theorem wb_unset_after_set:
  assumes "wb_set_bitmap ofs count blk = Inr blk'"
  shows "wb_unset_bitmap ofs count blk' = Inr blk"
proof -
  have "flips True {ofs..<ofs + count} (wb_set_bitmap ofs count)"
    unfolding wb_set_bitmap_def
    by (rule run_over_bits_flips [OF set_one_bit_flips set_one_group_flips])
  from flip_back [OF this _ assms] wb_unset_bitmap_flips show ?thesis by simp
qed

lemma wb_unset_after_set_witness:
  "wb_set_bitmap 5 13 [0x1f, 0, 0x80] = Inr [0xff, 0xff, 0x83] \<and>
   wb_unset_bitmap 5 13 [0xff, 0xff, 0x83] = Inr [0x1f, 0, 0x80]"
proof -
  have "wb_set_bitmap 5 13 [0x1f, 0, 0x80] = Inr [0xff, 0xff, 0x83]" by code_simp
  with wb_unset_after_set [OF this] show ?thesis by simp
qed

end
