(* ===== verification/Buddy.thy ===== *)
theory Buddy
  imports Ext4_Prelude
begin

text \<open>
  The buddy allocator of free blocks, \<open>BlockGroupBuddy\<close> of \<open>src/block/allocator.rs\<close>: one
  ordered set of chunk starts per order and \<open>backref\<close>, the order of the chunk at each start.
  Block numbers and sizes are natural numbers (all stay far below \<open>2 ^ 64\<close>); the ticket
  locks around the sets are taken in one fixed order and are left to \<open>Locks\<close>. The abstract
  state is the set \<open>free\<close> of blocks that some chunk covers; \<open>buddy_wf\<close> says that the two
  data structures agree, that chunks are aligned to their size and that they are disjoint.
\<close>

section \<open>State and operations\<close>

record buddy =
  max_order :: nat
  buddies :: "nat set list"
  backref :: "nat \<rightharpoonup> nat"

definition buddy_new :: "nat \<Rightarrow> buddy" where
  "buddy_new mo = \<lparr>max_order = mo, buddies = map (\<lambda>_. {}) [0..<mo + 1], backref = Map.empty\<rparr>"

text \<open>\<open>trailing_ones\<close> of \<open>blk_size - 1\<close>.\<close>

definition trailing_ones :: "nat \<Rightarrow> nat" where
  "trailing_ones n = ctz (n + 1)"

definition allocator_new :: "nat \<Rightarrow> buddy result" where
  "allocator_new blk_size =
     rbind (sub_nat blk_size 1) (\<lambda>m. Inr (buddy_new (trailing_ones m + 2)))"

definition buddy_insert :: "nat \<Rightarrow> nat \<Rightarrow> buddy \<Rightarrow> buddy result" where
  "buddy_insert start order b =
     (if order < length (buddies b)
      then Inr (b\<lparr>buddies := (buddies b)[order := insert start (buddies b ! order)],
                  backref := (backref b)(start \<mapsto> order)\<rparr>)
      else Inl Panic)"

definition chunk_order :: "nat \<Rightarrow> nat \<Rightarrow> nat \<Rightarrow> nat" where
  "chunk_order mo start sz =
     min (min (trailing_zeros 64 start) (64 - 1 - leading_zeros 64 sz)) mo"

lemma chunk_order_size: "0 < sz \<Longrightarrow> 2 ^ chunk_order mo start sz \<le> sz"
proof -
  assume "0 < sz"
  have "chunk_order mo start sz \<le> log2 sz"
    using \<open>0 < sz\<close> by (auto simp: chunk_order_def leading_zeros_def)
  then have "(2::nat) ^ chunk_order mo start sz \<le> 2 ^ log2 sz" by simp
  with log2_bounds [OF \<open>0 < sz\<close>] show ?thesis by linarith
qed

function push_chunk :: "nat \<Rightarrow> nat \<Rightarrow> buddy \<Rightarrow> buddy result" where
  "push_chunk start sz b =
     (if sz > 0
      then let order = chunk_order (max_order b) start sz
           in (case buddy_insert start order b of
                 Inl e \<Rightarrow> Inl e
               | Inr b' \<Rightarrow> push_chunk (start + 2 ^ order) (sz - 2 ^ order) b')
      else Inr b)"
  by pat_completeness auto
termination
  by (relation "measure (\<lambda>(start, sz, b). sz)") auto

declare push_chunk.simps [simp del]

text \<open>The first loop of \<open>try_allocate_at\<close>: how far the chunks that start at \<open>hope\<close> reach.\<close>

function hope_chain :: "buddy \<Rightarrow> nat \<Rightarrow> nat \<Rightarrow> nat \<Rightarrow> nat" where
  "hope_chain b hope sz chain =
     (if chain < sz
      then (case backref b (hope + chain) of
              Some l \<Rightarrow> hope_chain b hope sz (chain + 2 ^ l)
            | None \<Rightarrow> chain)
      else chain)"
  by pat_completeness auto
termination
  by (relation "measure (\<lambda>(b, hope, sz, chain). sz - chain)") (auto intro!: diff_less_mono2)

declare hope_chain.simps [simp del]

definition bucket_remove :: "nat \<Rightarrow> nat \<Rightarrow> buddy \<Rightarrow> buddy" where
  "bucket_remove order p b =
     b\<lparr>backref := (backref b)(p := None), buddies := (buddies b)[order := buddies b ! order - {p}]\<rparr>"

text \<open>
  One round of the second loop: the chunk at \<open>lba\<close> leaves both structures. The remainder of a
  chunk that reaches beyond \<open>chain\<close> would be pushed back.
\<close>

definition hope_step :: "nat \<Rightarrow> nat \<Rightarrow> nat \<Rightarrow> buddy \<Rightarrow> (nat \<times> buddy) result" where
  "hope_step hope chain p b =
     (let lba = hope + p
      in rbind (unwrap (backref b lba)) (\<lambda>order.
         rbind (assertR (order < length (buddies b) \<and> lba \<in> buddies b ! order)) (\<lambda>_.
         let b' = bucket_remove order lba b
         in if p + 2 ^ order \<le> chain then Inr (p + 2 ^ order, b')
            else let sz = chain - p
                 in rbind (push_chunk (lba + sz) (2 ^ order - sz) b') (\<lambda>b''. Inr (p + sz, b'')))))"

lemma hope_step_advances:
  assumes "hope_step hope chain p b = Inr (p', b')" and "p < chain"
  shows "p < p'"
  using assms by (auto simp: hope_step_def Let_def rbind_Inr_iff split: if_splits)

function hope_take :: "nat \<Rightarrow> nat \<Rightarrow> nat \<Rightarrow> nat \<Rightarrow> buddy \<Rightarrow> buddy result" where
  "hope_take hope chain sz p b =
     (if p < min chain sz
      then (case hope_step hope chain p b of
              Inl e \<Rightarrow> Inl e
            | Inr (p', b') \<Rightarrow> hope_take hope chain sz p' b')
      else Inr b)"
  by pat_completeness auto
termination
  by (relation "measure (\<lambda>(hope, chain, sz, p, b). sz - p)")
    (auto dest!: hope_step_advances intro: diff_less_mono2)

declare hope_take.simps [simp del]

text \<open>The first order of a list whose bucket is not empty, with the least start in it.\<close>

fun first_bucket :: "buddy \<Rightarrow> nat list \<Rightarrow> (nat \<times> nat) option" where
  "first_bucket b [] = None"
| "first_bucket b (k # ks) =
     (if buddies b ! k = {} then first_bucket b ks else Some (k, Min (buddies b ! k)))"

definition min_fit_order :: "nat \<Rightarrow> nat" where
  "min_fit_order n = 64 - leading_zeros 64 n"

definition allocate_fit :: "nat \<Rightarrow> buddy \<Rightarrow> ((nat \<times> nat) option \<times> buddy) result" where
  "allocate_fit sz b =
     rbind (sub_nat sz 1) (\<lambda>m.
     let fit = min_fit_order m; n = length (buddies b)
     in case first_bucket b [fit..<n] of
          Some (order, p) \<Rightarrow>
            rbind (push_chunk (p + sz) (2 ^ order - sz) (bucket_remove order p b))
              (\<lambda>b'. Inr (Some (p, sz), b'))
        | None \<Rightarrow>
           (case first_bucket b (rev [0..<min fit n]) of
              Some (order, p) \<Rightarrow> Inr (Some (p, 2 ^ order), bucket_remove order p b)
            | None \<Rightarrow> Inr (None, b)))"

definition try_allocate_at :: "nat \<Rightarrow> nat option \<Rightarrow> buddy \<Rightarrow> ((nat \<times> nat) option \<times> buddy) result" where
  "try_allocate_at sz hope b =
     (case hope of
        None \<Rightarrow> allocate_fit sz b
      | Some h \<Rightarrow>
          let chain = hope_chain b h sz 0
          in if chain > sz div 2
             then let allocated = min chain sz
                  in rbind (hope_take h chain sz 0 b) (\<lambda>b'. Inr (Some (h, allocated), b'))
             else allocate_fit sz b)"

section \<open>The free blocks and the invariant\<close>

definition chunk :: "nat \<Rightarrow> nat \<Rightarrow> nat set" where
  "chunk s k = {s..<s + 2 ^ k}"

definition free :: "buddy \<Rightarrow> nat set" where
  "free b = {x. \<exists>s k. backref b s = Some k \<and> x \<in> chunk s k}"

definition buddy_wf :: "buddy \<Rightarrow> bool" where
  "buddy_wf b \<longleftrightarrow> length (buddies b) = max_order b + 1 \<and>
     (\<forall>s k. backref b s = Some k \<longleftrightarrow> k \<le> max_order b \<and> s \<in> buddies b ! k) \<and>
     (\<forall>k \<le> max_order b. finite (buddies b ! k)) \<and>
     (\<forall>s k. backref b s = Some k \<longrightarrow> 2 ^ k dvd s) \<and>
     (\<forall>s k t l. backref b s = Some k \<and> backref b t = Some l \<and> s \<noteq> t \<longrightarrow> chunk s k \<inter> chunk t l = {})"

lemma chunk_start [simp]: "s \<in> chunk s k"
  by (simp add: chunk_def)

lemma buddy_wfD:
  assumes "buddy_wf b"
  shows "length (buddies b) = max_order b + 1"
    and "backref b s = Some k \<longleftrightarrow> k \<le> max_order b \<and> s \<in> buddies b ! k"
    and "k \<le> max_order b \<Longrightarrow> finite (buddies b ! k)"
    and "backref b s = Some k \<Longrightarrow> 2 ^ k dvd s"
    and "backref b s = Some k \<Longrightarrow> backref b t = Some l \<Longrightarrow> s \<noteq> t \<Longrightarrow> chunk s k \<inter> chunk t l = {}"
  using assms unfolding buddy_wf_def by blast+

lemma free_chunk: "backref b s = Some k \<Longrightarrow> chunk s k \<subseteq> free b"
  by (auto simp: free_def)

text \<open>The empty allocator satisfies the invariant.\<close>

lemma buddy_new_wf: "buddy_wf (buddy_new mo)" and buddy_new_free: "free (buddy_new mo) = {}"
  by (auto simp: buddy_wf_def buddy_new_def free_def simp del: upt_Suc)

section \<open>Inserting and removing one chunk\<close>

lemma buddy_insert_ok:
  assumes wf: "buddy_wf b" and k: "k \<le> max_order b" and al: "2 ^ k dvd s"
    and new: "chunk s k \<inter> free b = {}"
  obtains b' where "buddy_insert s k b = Inr b'" "buddy_wf b'" "max_order b' = max_order b"
    "free b' = free b \<union> chunk s k"
proof -
  let ?b = "b\<lparr>buddies := (buddies b)[k := insert s (buddies b ! k)], backref := (backref b)(s \<mapsto> k)\<rparr>"
  note D = buddy_wfD [OF wf]
  have fresh: "backref b s = None"
  proof (cases "backref b s")
    case (Some l)
    from free_chunk [OF this] new show ?thesis by (meson chunk_start disjoint_iff subsetD)
  qed simp
  have free: "free ?b = free b \<union> chunk s k"
  proof (rule set_eqI)
    fix x
    have "x \<in> free ?b \<longleftrightarrow> (\<exists>t l. (if t = s then Some k else backref b t) = Some l \<and> x \<in> chunk t l)"
      by (simp add: free_def fun_upd_def)
    also have "\<dots> \<longleftrightarrow> x \<in> free b \<or> x \<in> chunk s k"
      using fresh by (simp add: free_def) (metis option.distinct(1) option.inject)
    finally show "x \<in> free ?b \<longleftrightarrow> x \<in> free b \<union> chunk s k" by simp
  qed
  have nin: "s \<notin> buddies b ! l" if "l \<le> max_order b" for l
    using D(2) [of s l] fresh that by auto
  have dis: "chunk s k \<inter> chunk t l = {}" if "backref b t = Some l" for t l
    using free_chunk [OF that] new by blast
  have "buddy_wf ?b"
    unfolding buddy_wf_def
  proof (intro conjI allI impI)
    show "length (buddies ?b) = max_order ?b + 1" using D(1) by simp
    show "backref ?b t = Some l \<longleftrightarrow> l \<le> max_order ?b \<and> t \<in> buddies ?b ! l" for t l
      using D(1) D(2) [of t l] k nin [of l] by (auto simp: nth_list_update)
    show "finite (buddies ?b ! l)" if "l \<le> max_order ?b" for l
      using D(1) D(3) [of l] that k by (simp add: nth_list_update)
    show "2 ^ l dvd t" if "backref ?b t = Some l" for t l
      using D(4) [of t l] that al by (auto split: if_splits)
    show "chunk t l \<inter> chunk u m = {}"
      if "backref ?b t = Some l \<and> backref ?b u = Some m \<and> t \<noteq> u" for t l u m
      using D(5) [of t l u m] dis [of t l] dis [of u m] that by (auto split: if_splits)
  qed
  moreover have "buddy_insert s k b = Inr ?b" using k D(1) by (simp add: buddy_insert_def)
  ultimately show ?thesis using that [of ?b] free by simp
qed

lemma bucket_remove_ok:
  assumes wf: "buddy_wf b" and s: "backref b s = Some k"
  shows "buddy_wf (bucket_remove k s b)" and "max_order (bucket_remove k s b) = max_order b"
    and "free (bucket_remove k s b) = free b - chunk s k"
    and "backref (bucket_remove k s b) = (backref b)(s := None)"
proof -
  note D = buddy_wfD [OF wf]
  have k: "k \<le> max_order b" using D(2) s by blast
  show "max_order (bucket_remove k s b) = max_order b"
    "backref (bucket_remove k s b) = (backref b)(s := None)"
    by (simp_all add: bucket_remove_def)
  show "free (bucket_remove k s b) = free b - chunk s k"
  proof (rule set_eqI)
    fix x
    have "x \<in> free (bucket_remove k s b) \<longleftrightarrow> (\<exists>t l. t \<noteq> s \<and> backref b t = Some l \<and> x \<in> chunk t l)"
      by (auto simp: free_def bucket_remove_def fun_upd_def split: if_splits)
    also have "\<dots> \<longleftrightarrow> x \<in> free b \<and> x \<notin> chunk s k"
    proof
      assume "\<exists>t l. t \<noteq> s \<and> backref b t = Some l \<and> x \<in> chunk t l"
      then obtain t l where t: "t \<noteq> s" "backref b t = Some l" "x \<in> chunk t l" by blast
      then have "chunk s k \<inter> chunk t l = {}" using D(5) [OF s t(2)] by blast
      with t free_chunk [OF t(2)] show "x \<in> free b \<and> x \<notin> chunk s k" by blast
    next
      assume x: "x \<in> free b \<and> x \<notin> chunk s k"
      then obtain t l where t: "backref b t = Some l" "x \<in> chunk t l" by (auto simp: free_def)
      with x s have "t \<noteq> s" by auto
      with t show "\<exists>t l. t \<noteq> s \<and> backref b t = Some l \<and> x \<in> chunk t l" by blast
    qed
    finally show "x \<in> free (bucket_remove k s b) \<longleftrightarrow> x \<in> free b - chunk s k" by simp
  qed
  have uniq: "l = k" if "l \<le> max_order b" "s \<in> buddies b ! l" for l
    using D(2) [of s l] s that by simp
  show "buddy_wf (bucket_remove k s b)"
    unfolding buddy_wf_def
  proof (intro conjI allI impI)
    show "length (buddies (bucket_remove k s b)) = max_order (bucket_remove k s b) + 1"
      using D(1) by (simp add: bucket_remove_def)
    show "backref (bucket_remove k s b) t = Some l \<longleftrightarrow>
        l \<le> max_order (bucket_remove k s b) \<and> t \<in> buddies (bucket_remove k s b) ! l" for t l
      using D(1) D(2) [of t l] k uniq [of l] by (auto simp: bucket_remove_def nth_list_update)
    show "finite (buddies (bucket_remove k s b) ! l)" if "l \<le> max_order (bucket_remove k s b)" for l
      using D(1) D(3) [of l] that k by (simp add: bucket_remove_def nth_list_update)
    show "2 ^ l dvd t" if "backref (bucket_remove k s b) t = Some l" for t l
      using D(4) [of t l] that by (auto simp: bucket_remove_def split: if_splits)
    show "chunk t l \<inter> chunk u m = {}"
      if "backref (bucket_remove k s b) t = Some l \<and> backref (bucket_remove k s b) u = Some m \<and> t \<noteq> u"
      for t l u m
      using D(5) [of t l u m] that by (auto simp: bucket_remove_def split: if_splits)
  qed
qed

section \<open>Pushing a run of blocks\<close>

lemma chunk_order_dvd: "2 ^ chunk_order mo start sz dvd start"
  unfolding chunk_order_def by (rule exp_le_trailing_zeros_dvd [of _ 64]) simp

lemma push_chunk_ok:
  assumes "buddy_wf b" and "{start..<start + sz} \<inter> free b = {}"
  shows "\<exists>b'. push_chunk start sz b = Inr b' \<and> buddy_wf b' \<and> max_order b' = max_order b \<and>
    free b' = free b \<union> {start..<start + sz}"
  using assms
proof (induction start sz b rule: push_chunk.induct)
  case (1 start sz b)
  show ?case
  proof (cases "0 < sz")
    case False
    with 1 show ?thesis by (simp add: push_chunk.simps [of start 0])
  next
    case True
    define k where "k = chunk_order (max_order b) start sz"
    have k: "2 ^ k \<le> sz" "k \<le> max_order b" "2 ^ k dvd start"
      using chunk_order_size [OF True] chunk_order_dvd
      unfolding k_def by (auto simp: chunk_order_def)
    have "chunk start k \<inter> free b = {}" using 1(3) k(1) by (fastforce simp: chunk_def)
    from buddy_insert_ok [OF 1(2) k(2,3) this] obtain c where
      c: "buddy_insert start k b = Inr c" "buddy_wf c" "max_order c = max_order b"
        "free c = free b \<union> chunk start k" .
    have "{start + 2 ^ k..<start + 2 ^ k + (sz - 2 ^ k)} \<inter> free c = {}"
    proof (rule equals0I)
      fix x assume x: "x \<in> {start + 2 ^ k..<start + 2 ^ k + (sz - 2 ^ k)} \<inter> free c"
      with c(4) have "x \<in> free b" by (auto simp: chunk_def)
      moreover have "x \<in> {start..<start + sz}" using x k(1) by auto
      ultimately show False using 1(3) by blast
    qed
    with 1(1) [OF True k_def c(1) c(2)] obtain d where
      d: "push_chunk (start + 2 ^ k) (sz - 2 ^ k) c = Inr d" "buddy_wf d" "max_order d = max_order c"
        "free d = free c \<union> {start + 2 ^ k..<start + 2 ^ k + (sz - 2 ^ k)}" by blast
    have "free d = free b \<union> {start..<start + sz}"
      using k(1) unfolding d(4) c(4) chunk_def by auto
    moreover have "push_chunk start sz b = Inr d"
      using True c(1) d(1) by (simp add: push_chunk.simps [of start sz b] k_def Let_def)
    ultimately show ?thesis using d(2,3) c(3) by auto
  qed
qed

section \<open>Allocating\<close>

lemma first_bucket_Some:
  assumes "first_bucket b ks = Some (k, p)" and "buddy_wf b" and "\<forall>k\<in>set ks. k \<le> max_order b"
  shows "k \<in> set ks \<and> backref b p = Some k"
  using assms(1,3)
proof (induction ks)
  case (Cons l ks)
  show ?case
  proof (cases "buddies b ! l = {}")
    case False
    with Cons.prems have eq: "k = l" "p = Min (buddies b ! l)" by auto
    moreover have "Min (buddies b ! l) \<in> buddies b ! l"
      using buddy_wfD(3) [OF assms(2), of l] Cons.prems False by (intro Min_in) auto
    ultimately show ?thesis
      using buddy_wfD(2) [OF assms(2), of p k] Cons.prems(2) unfolding eq by simp
  qed (use Cons in auto)
qed simp

lemma first_bucket_None:
  "first_bucket b ks = None \<longleftrightarrow> (\<forall>k\<in>set ks. buddies b ! k = {})"
  by (induction ks) auto

lemma min_fit_order_bound:
  assumes "0 < n" and "n < 2 ^ 64" and "min_fit_order (n - 1) \<le> k"
  shows "n \<le> 2 ^ k"
proof (cases "n = 1")
  case False
  let ?m = "n - 1"
  from False assms(1) have m: "0 < ?m" by simp
  note lb = log2_bounds [OF m]
  have "(2::nat) ^ log2 ?m < 2 ^ 64" using lb assms(2) by linarith
  then have "log2 ?m < 64" by (rule power_less_imp_less_exp [rotated]) simp
  then have "Suc (log2 ?m) \<le> k" using assms(3) m by (simp add: min_fit_order_def leading_zeros_def)
  then have "(2::nat) ^ Suc (log2 ?m) \<le> 2 ^ k" by (rule power_increasing) simp
  with lb show ?thesis by linarith
qed simp

lemma min_fit_order_small:
  assumes "0 < n" and "n < 2 ^ 64" and "k < min_fit_order (n - 1)"
  shows "2 ^ k \<le> n"
proof (cases "n = 1")
  case False
  let ?m = "n - 1"
  from False assms(1) have m: "0 < ?m" by simp
  note lb = log2_bounds [OF m]
  have "(2::nat) ^ log2 ?m < 2 ^ 64" using lb assms(2) by linarith
  then have "log2 ?m < 64" by (rule power_less_imp_less_exp [rotated]) simp
  then have "k \<le> log2 ?m" using assms(3) m by (simp add: min_fit_order_def leading_zeros_def)
  then have "(2::nat) ^ k \<le> 2 ^ log2 ?m" by (rule power_increasing) simp
  with lb show ?thesis by linarith
qed (use assms in \<open>simp add: min_fit_order_def leading_zeros_def\<close>)

text \<open>A chunk whose order is at least that of the request: cut the request off its front.\<close>

lemma allocate_fit_ok:
  assumes wf: "buddy_wf b" and n: "0 < n" "n < 2 ^ 64"
  shows "\<exists>r b'. allocate_fit n b = Inr (r, b') \<and> buddy_wf b' \<and>
    (case r of None \<Rightarrow> free b = {} \<and> b' = b
     | Some (p, m) \<Rightarrow> 0 < m \<and> m \<le> n \<and> {p..<p + m} \<subseteq> free b \<and> free b' = free b - {p..<p + m})"
proof -
  let ?fit = "min_fit_order (n - 1)" and ?l = "length (buddies b)"
  note D = buddy_wfD [OF wf]
  have le: "\<forall>k\<in>set [?fit..<?l]. k \<le> max_order b" "\<forall>k\<in>set (rev [0..<min ?fit ?l]). k \<le> max_order b"
    using D(1) by auto
  show ?thesis
  proof (cases "first_bucket b [?fit..<?l]")
    case (Some kp)
    then obtain k p where kp: "first_bucket b [?fit..<?l] = Some (k, p)" by (cases kp) auto
    from first_bucket_Some [OF kp wf le(1)] have k: "?fit \<le> k" "backref b p = Some k" by auto
    have nk: "n \<le> 2 ^ k" by (rule min_fit_order_bound [OF n k(1)])
    note R = bucket_remove_ok [OF wf k(2)]
    have "{p + n..<p + n + (2 ^ k - n)} \<inter> free (bucket_remove k p b) = {}"
      using nk unfolding R(3) chunk_def by auto
    from push_chunk_ok [OF R(1) this] obtain c where
      c: "push_chunk (p + n) (2 ^ k - n) (bucket_remove k p b) = Inr c" "buddy_wf c"
        "free c = free (bucket_remove k p b) \<union> {p + n..<p + n + (2 ^ k - n)}" by blast
    have sub: "{p..<p + 2 ^ k} \<subseteq> free b" using free_chunk [OF k(2)] by (simp add: chunk_def)
    have "free c = free b - {p..<p + n}" using nk sub unfolding c(3) R(3) chunk_def by auto
    moreover have "{p..<p + n} \<subseteq> free b" using sub nk by fastforce
    moreover have "allocate_fit n b = Inr (Some (p, n), c)"
      using kp c(1) n(1) by (simp add: allocate_fit_def sub_nat_def Let_def)
    ultimately show ?thesis using n(1) c(2) by simp
  next
    case fit: None
    show ?thesis
    proof (cases "first_bucket b (rev [0..<min ?fit ?l])")
      case (Some kp)
      then obtain k p where kp: "first_bucket b (rev [0..<min ?fit ?l]) = Some (k, p)" by (cases kp) auto
      from first_bucket_Some [OF kp wf le(2)] have k: "k < ?fit" "backref b p = Some k" by auto
      note R = bucket_remove_ok [OF wf k(2)]
      have "2 ^ k \<le> n" by (rule min_fit_order_small [OF n k(1)])
      moreover have "allocate_fit n b = Inr (Some (p, 2 ^ k), bucket_remove k p b)"
        using kp fit n(1) by (simp add: allocate_fit_def sub_nat_def Let_def)
      ultimately show ?thesis using R free_chunk [OF k(2)] by (simp add: chunk_def)
    next
      case None
      with fit have "allocate_fit n b = Inr (None, b)"
        using n(1) by (simp add: allocate_fit_def sub_nat_def Let_def)
      moreover have "buddies b ! k = {}" if "k \<le> max_order b" for k
      proof (cases "k < ?fit")
        case True
        then show ?thesis using None D(1) that unfolding first_bucket_None by simp
      next
        case False
        then have "k \<in> set [?fit..<?l]" using D(1) that by auto
        with fit show ?thesis unfolding first_bucket_None by blast
      qed
      then have "backref b s = None" for s using D(2) [of s] by (cases "backref b s") auto
      then have "free b = {}" by (simp add: free_def)
      ultimately show ?thesis using wf by simp
    qed
  qed
qed

section \<open>Allocating at the hoped-for block\<close>

text \<open>The chunks of \<open>b\<close> tile the interval from \<open>h + c\<close> to \<open>h + r\<close>, each starting before \<open>h + n\<close>.\<close>

inductive tiles :: "buddy \<Rightarrow> nat \<Rightarrow> nat \<Rightarrow> nat \<Rightarrow> nat \<Rightarrow> bool" for b h n where
  stop: "tiles b h n r r"
| step: "c < n \<Longrightarrow> backref b (h + c) = Some l \<Longrightarrow> tiles b h n (c + 2 ^ l) r \<Longrightarrow> tiles b h n c r"

lemma tiles_le: "tiles b h n c r \<Longrightarrow> c \<le> r"
  by (induction rule: tiles.induct) auto

lemma tiles_free: "tiles b h n c r \<Longrightarrow> {h + c..<h + r} \<subseteq> free b"
proof (induction rule: tiles.induct)
  case (step c l r)
  have "{h + c..<h + r} \<subseteq> chunk (h + c) l \<union> {h + (c + 2 ^ l)..<h + r}"
    by (auto simp: chunk_def)
  with step.IH free_chunk [OF step.hyps(2)] show ?case by blast
qed simp

lemma hope_chain_tiles: "tiles b h n c (hope_chain b h n c)"
proof (induction b h n c rule: hope_chain.induct)
  case (1 b h n c)
  then show ?case
    by (auto simp: hope_chain.simps [of b h n c] split: option.splits intro: tiles.intros)
qed

text \<open>Every round removes one whole chunk: the remainder branch of the source never runs.\<close>

lemma hope_step_whole_chunk:
  assumes wf: "buddy_wf b" and l: "backref b (h + c) = Some l" and "c + 2 ^ l \<le> chain"
  shows "hope_step h chain c b = Inr (c + 2 ^ l, bucket_remove l (h + c) b)"
  using assms buddy_wfD(1) [OF wf] buddy_wfD(2) [OF wf, of "h + c" l]
  by (simp add: hope_step_def Let_def less_Suc_eq_le)

lemma hope_take_ok:
  assumes "tiles b h n c chain" and "buddy_wf b0"
    and "\<And>x. h + c \<le> x \<Longrightarrow> backref b0 x = backref b x"
  shows "\<exists>b'. hope_take h chain n c b0 = Inr b' \<and> buddy_wf b' \<and> max_order b' = max_order b0 \<and>
    free b' = free b0 - {h + c..<h + chain}"
  using assms
proof (induction arbitrary: b0 rule: tiles.induct)
  case (stop r)
  then show ?case by (simp add: hope_take.simps [of h r n r])
next
  case (step c l r)
  let ?b = "bucket_remove l (h + c) b0"
  have l: "backref b0 (h + c) = Some l" using step.prems(2) step.hyps(2) by simp
  note R = bucket_remove_ok [OF step.prems(1) l]
  have le: "c + 2 ^ l \<le> r" by (rule tiles_le [OF step.hyps(3)])
  have "backref ?b x = backref b x" if "h + (c + 2 ^ l) \<le> x" for x
  proof -
    have "h + c < x" using that by (meson add_le_cancel_left le_trans less_le_trans not_le
      less_add_same_cancel1 zero_less_power zero_less_numeral add_less_cancel_left)
    then show ?thesis using R(4) step.prems(2) [of x] by simp
  qed
  from step.IH [OF R(1) this] obtain d where
    d: "hope_take h r n (c + 2 ^ l) ?b = Inr d" "buddy_wf d" "max_order d = max_order ?b"
      "free d = free ?b - {h + (c + 2 ^ l)..<h + r}" by blast
  have "c < c + 2 ^ l" by simp
  with le step.hyps(1) have "c < min r n" by linarith
  then have "hope_take h r n c b0 = Inr d"
    using hope_step_whole_chunk [OF step.prems(1) l le] d(1) by (simp add: hope_take.simps [of h r n c])
  moreover have "free d = free b0 - {h + c..<h + r}"
    unfolding d(4) R(3) chunk_def using le by auto
  ultimately show ?case using d(2,3) R(2) by simp
qed

lemma try_allocate_at_ok:
  assumes wf: "buddy_wf b" and n: "0 < n" "n < 2 ^ 64"
  shows "\<exists>r b'. try_allocate_at n hope b = Inr (r, b') \<and> buddy_wf b' \<and>
    (case r of None \<Rightarrow> free b = {} \<and> b' = b
     | Some (p, m) \<Rightarrow> 0 < m \<and> m \<le> n \<and> {p..<p + m} \<subseteq> free b \<and> free b' \<subseteq> free b - {p..<p + m})"
proof -
  have fit: "\<exists>r b'. allocate_fit n b = Inr (r, b') \<and> buddy_wf b' \<and>
    (case r of None \<Rightarrow> free b = {} \<and> b' = b
     | Some (p, m) \<Rightarrow> 0 < m \<and> m \<le> n \<and> {p..<p + m} \<subseteq> free b \<and> free b' \<subseteq> free b - {p..<p + m})"
  proof -
    from allocate_fit_ok [OF wf n] obtain r b' where "allocate_fit n b = Inr (r, b')" "buddy_wf b'"
      "case r of None \<Rightarrow> free b = {} \<and> b' = b
       | Some (p, m) \<Rightarrow> 0 < m \<and> m \<le> n \<and> {p..<p + m} \<subseteq> free b \<and> free b' = free b - {p..<p + m}"
      by blast
    then show ?thesis by (intro exI [of _ r] exI [of _ b']) (auto split: option.splits)
  qed
  show ?thesis
  proof (cases hope)
    case None
    with fit show ?thesis by (simp add: try_allocate_at_def)
  next
    case (Some h)
    define chain where "chain = hope_chain b h n 0"
    show ?thesis
    proof (cases "n div 2 < chain")
      case False
      with fit Some show ?thesis by (simp add: try_allocate_at_def chain_def Let_def)
    next
      case True
      note t = hope_chain_tiles [of b h n 0, folded chain_def]
      from hope_take_ok [OF t wf refl] obtain d where
        d: "hope_take h chain n 0 b = Inr d" "buddy_wf d" "free d = free b - {h..<h + chain}" by auto
      have "try_allocate_at n hope b = Inr (Some (h, min chain n), d)"
        using Some True d(1) by (simp add: try_allocate_at_def chain_def Let_def)
      moreover have "{h..<h + min chain n} \<subseteq> free b" using tiles_free [OF t] by fastforce
      moreover have "0 < min chain n" using True n by simp
      ultimately show ?thesis using d(2,3) by fastforce
    qed
  qed
qed

text \<open>C3: the first-fit and hoped-for allocations are safe: only free blocks are handed out,
  they are not free afterwards, at most what was asked for and at least one block, the
  invariant is kept, and the allocator only fails when no block is free.\<close>

theorem try_allocate_at_safe:
  assumes wf: "buddy_wf b" and n: "0 < n" "n < 2 ^ 64"
  shows "\<exists>r b'. try_allocate_at n hope b = Inr (r, b') \<and> buddy_wf b' \<and>
    (case r of None \<Rightarrow> free b = {} \<and> b' = b
     | Some (p, m) \<Rightarrow> 0 < m \<and> m \<le> n \<and> {p..<p + m} \<subseteq> free b \<and> free b' \<subseteq> free b - {p..<p + m})"
  by (rule try_allocate_at_ok [OF assms])

text \<open>without a hope the allocator removes exactly the blocks it returns.\<close>

theorem allocate_without_hope_exact:
  assumes "buddy_wf b" and "0 < n" and "n < 2 ^ 64"
  shows "\<exists>r b'. try_allocate_at n None b = Inr (r, b') \<and>
    (case r of None \<Rightarrow> free b' = {} | Some (p, m) \<Rightarrow> free b = free b' \<union> {p..<p + m} \<and> free b' \<inter> {p..<p + m} = {})"
proof -
  from allocate_fit_ok [OF assms] obtain r b' where r: "allocate_fit n b = Inr (r, b')"
    "case r of None \<Rightarrow> free b = {} \<and> b' = b
     | Some (p, m) \<Rightarrow> 0 < m \<and> m \<le> n \<and> {p..<p + m} \<subseteq> free b \<and> free b' = free b - {p..<p + m}"
    by blast
  then show ?thesis
    by (intro exI [of _ r] exI [of _ b']) (auto simp: try_allocate_at_def split: option.splits)
qed

text \<open>C37: allocating at a hoped-for block takes whole chunks: when the chunks that start there
  reach beyond the request, the blocks between the end of the request and the end of the chain
  are neither returned nor free any more.\<close>

theorem hope_allocation_loses_remainder:
  assumes wf: "buddy_wf b" and n: "0 < n" and chain: "n \<le> hope_chain b h n 0"
  shows "\<exists>b'. try_allocate_at n (Some h) b = Inr (Some (h, n), b') \<and>
    {h..<h + hope_chain b h n 0} \<subseteq> free b \<and> free b' = free b - {h..<h + hope_chain b h n 0}"
proof -
  note t = hope_chain_tiles [of b h n 0]
  from hope_take_ok [OF t wf refl] obtain d where
    "hope_take h (hope_chain b h n 0) n 0 b = Inr d" "free d = free b - {h..<h + hope_chain b h n 0}"
    by auto
  moreover have "n div 2 < hope_chain b h n 0" using chain n by linarith
  ultimately show ?thesis using chain tiles_free [OF t] by (simp add: try_allocate_at_def Let_def)
qed

text \<open>giving an allocated run back with \<open>push_chunk\<close> makes exactly the blocks free that
  were free before it was allocated.\<close>

theorem allocate_then_push_chunk:
  assumes wf: "buddy_wf b" and n: "0 < n" "n < 2 ^ 64"
    and alloc: "try_allocate_at n None b = Inr (Some (p, m), b')"
  shows "\<exists>b''. push_chunk p m b' = Inr b'' \<and> buddy_wf b'' \<and> free b'' = free b"
proof -
  have b': "buddy_wf b'" "{p..<p + m} \<subseteq> free b" "free b' = free b - {p..<p + m}"
    using allocate_fit_ok [OF wf n] alloc by (auto simp: try_allocate_at_def)
  then have "{p..<p + m} \<inter> free b' = {}" by blast
  from push_chunk_ok [OF b'(1) this] b' show ?thesis by blast
qed

section \<open>Concrete allocators\<close>

text \<open>An allocator with one chunk of eight blocks at block 16.\<close>

definition one_chunk :: buddy where
  "one_chunk = \<lparr>max_order = 3, buddies = [{}, {}, {}, {16}], backref = [16 \<mapsto> 3]\<rparr>"

lemma one_chunk_wf: "buddy_wf one_chunk"
proof -
  have "backref one_chunk s = Some k \<longleftrightarrow> s = 16 \<and> k = 3" for s k
    by (auto simp: one_chunk_def)
  moreover have "k \<le> 3 \<longleftrightarrow> k = 0 \<or> k = 1 \<or> k = 2 \<or> k = 3" for k :: nat by auto
  ultimately show ?thesis by (auto simp: buddy_wf_def one_chunk_def)
qed

lemma one_chunk_free: "free one_chunk = {16..<24}"
  by (auto simp: free_def one_chunk_def chunk_def split: if_splits)

lemma one_chunk_order: "chunk_order 3 16 8 = 3"
  by code_simp

lemma one_chunk_push: "push_chunk 16 8 (buddy_new 3) = Inr one_chunk"
  using one_chunk_order
  by (simp add: push_chunk.simps [of 16 8] push_chunk.simps [of 24 0] buddy_new_def one_chunk_def
      buddy_insert_def upt_rec Let_def)

lemma try_allocate_at_safe_witness:
  "\<exists>r b'. try_allocate_at 5 (Some 16) one_chunk = Inr (r, b') \<and> buddy_wf b' \<and>
    (case r of None \<Rightarrow> free one_chunk = {} \<and> b' = one_chunk
     | Some (p, m) \<Rightarrow> 0 < m \<and> m \<le> 5 \<and> {p..<p + m} \<subseteq> free one_chunk \<and>
         free b' \<subseteq> free one_chunk - {p..<p + m})"
  by (rule try_allocate_at_safe [OF one_chunk_wf]) simp_all

lemma allocate_without_hope_exact_witness:
  "\<exists>r b'. try_allocate_at 5 None one_chunk = Inr (r, b') \<and>
    (case r of None \<Rightarrow> free b' = {}
     | Some (p, m) \<Rightarrow> free one_chunk = free b' \<union> {p..<p + m} \<and> free b' \<inter> {p..<p + m} = {})"
  by (rule allocate_without_hope_exact [OF one_chunk_wf]) simp_all

lemma one_chunk_chain: "hope_chain one_chunk 16 1 0 = 8"
  by (simp add: hope_chain.simps one_chunk_def)

lemma hope_allocation_loses_remainder_witness:
  "\<exists>b'. try_allocate_at 1 (Some 16) one_chunk = Inr (Some (16, 1), b') \<and> free b' = {}"
  using hope_allocation_loses_remainder [OF one_chunk_wf, of 1 16]
  unfolding one_chunk_chain one_chunk_free by auto

lemma allocate_then_push_chunk_witness:
  "\<exists>b' b''. try_allocate_at 5 None one_chunk = Inr (Some (16, 5), b') \<and>
    push_chunk 16 5 b' = Inr b'' \<and> free b'' = {16..<24}"
proof -
  have ev: "min_fit_order 4 = 3" "first_bucket one_chunk [3..<4] = Some (3, 16)"
    "length (buddies one_chunk) = 4" by code_simp+
  from allocate_fit_ok [OF one_chunk_wf, of 5] obtain r b' where
    r: "allocate_fit 5 one_chunk = Inr (r, b')" by auto
  have "allocate_fit 5 one_chunk =
      rbind (push_chunk 21 3 (bucket_remove 3 16 one_chunk)) (\<lambda>b'. Inr (Some (16, 5), b'))"
    unfolding allocate_fit_def using ev by (simp add: sub_nat_def Let_def del: upt.simps)
  with r have "r = Some (16, 5)" by (auto simp: rbind_Inr_iff)
  with r have a: "try_allocate_at 5 None one_chunk = Inr (Some (16, 5), b')"
    by (simp add: try_allocate_at_def)
  from allocate_then_push_chunk [OF one_chunk_wf _ _ a] show ?thesis
    using a one_chunk_free by auto
qed

end
