(* ===== verification/Block_Store.thy ===== *)
theory Block_Store
  imports Superblock
begin

text \<open>
  Devices, caches and the block store: the device interface \<open>Config\<close> (\<open>src/types.rs\<close>) as a
  locale with the implementation for files (\<open>src/std.rs\<close>) as its interpretation, the two
  caches of \<open>src/cache.rs\<close>, the block manager of \<open>src/block/mod.rs\<close> and the I/O part of the
  transaction's \<open>Collector\<close> (\<open>src/transaction/collector.rs\<close>). The reference counted, locked
  buffers become the values of a map from block numbers to contents.
\<close>

section \<open>Devices\<close>

text \<open>
  A file as a device: \<open>read_at\<close> fills as much of the zeroed buffer as the file has, \<open>write_at\<close>
  extends the file when needed.
\<close>

definition file_read_bytes :: "bytes \<Rightarrow> nat \<Rightarrow> nat \<Rightarrow> bytes result" where
  "file_read_bytes f n ofs = (let got = take n (drop ofs f) in Inr (got @ replicate (n - length got) 0))"

definition file_write_bytes :: "nat \<Rightarrow> bytes \<Rightarrow> bytes \<Rightarrow> bytes result" where
  "file_write_bytes ofs b f = Inr (splice (f @ replicate (ofs + length b - length f) 0) ofs b)"

definition file_write_bios :: "(nat \<times> bytes) list \<Rightarrow> bytes \<Rightarrow> bytes result" where
  "file_write_bios bio = for_each bio (\<lambda>(ofs, b). file_write_bytes ofs b)"

text \<open>The default methods of the trait.\<close>

fun read_vectored :: "('d \<Rightarrow> nat \<Rightarrow> nat \<Rightarrow> bytes result) \<Rightarrow> 'd \<Rightarrow> nat \<Rightarrow> nat \<Rightarrow> nat \<Rightarrow> bytes list result" where
  "read_vectored rd d n ofs 0 = Inr []"
| "read_vectored rd d n ofs (Suc k) =
     rbind (rd d n ofs) (\<lambda>b. rmap ((#) b) (read_vectored rd d n (ofs + n) k))"

fun write_vectored :: "(nat \<Rightarrow> bytes \<Rightarrow> 'd \<Rightarrow> 'd result) \<Rightarrow> nat \<Rightarrow> bytes list \<Rightarrow> 'd \<Rightarrow> 'd result" where
  "write_vectored wr ofs [] d = Inr d"
| "write_vectored wr ofs (b # bs) d = rbind (wr ofs b d) (write_vectored wr (ofs + length b) bs)"

definition write_bios :: "(nat \<Rightarrow> bytes \<Rightarrow> 'd \<Rightarrow> 'd result) \<Rightarrow> (nat \<times> bytes) list \<Rightarrow> 'd \<Rightarrow> 'd result" where
  "write_bios wr bio = for_each bio (\<lambda>(ofs, b). wr ofs b)"

locale device =
  fixes rd :: "'d \<Rightarrow> nat \<Rightarrow> nat \<Rightarrow> bytes result"
    and wr :: "nat \<Rightarrow> bytes \<Rightarrow> 'd \<Rightarrow> 'd result"
  assumes rd_wr: "\<And>ofs b d d'. wr ofs b d = Inr d' \<Longrightarrow> rd d' (length b) ofs = Inr b"
    and rd_wr_other: "\<And>ofs b d d' n p. wr ofs b d = Inr d' \<Longrightarrow>
      p + n \<le> ofs \<or> ofs + length b \<le> p \<Longrightarrow> rd d' n p = rd d n p"
begin

text \<open>Writing blocks: the last write to a block is what is read from it afterwards.\<close>

lemma write_bios_frame:
  assumes "write_bios wr bio d = Inr d'"
    and "\<And>ofs b. (ofs, b) \<in> set bio \<Longrightarrow> p + n \<le> ofs \<or> ofs + length b \<le> p"
  shows "rd d' n p = rd d n p"
  using assms
proof (induction bio arbitrary: d)
  case (Cons x bio)
  obtain ofs b where x: "x = (ofs, b)" by (cases x)
  from Cons.prems(1) x obtain d1 where d1: "wr ofs b d = Inr d1" "write_bios wr bio d1 = Inr d'"
    by (auto simp: write_bios_def rbind_Inr_iff)
  have "rd d1 n p = rd d n p" by (rule rd_wr_other [OF d1(1)]) (use Cons.prems(2) x in auto)
  moreover have "rd d' n p = rd d1 n p"
    by (rule Cons.IH [OF d1(2)]) (use Cons.prems(2) in auto)
  ultimately show ?case by simp
qed (simp add: write_bios_def)

lemma write_bios_rd:
  assumes "write_bios wr (xs @ (ofs, b) # ys) d = Inr d'"
    and "\<And>p c. (p, c) \<in> set ys \<Longrightarrow> ofs + length b \<le> p \<or> p + length c \<le> ofs"
  shows "rd d' (length b) ofs = Inr b"
proof -
  from assms(1) obtain d1 d2 where "wr ofs b d1 = Inr d2" "write_bios wr ys d2 = Inr d'"
    by (auto simp: write_bios_def for_each_append rbind_Inr_iff)
  with rd_wr write_bios_frame [of ys d2 d' ofs "length b"] assms(2) show ?thesis by metis
qed

end

lemma file_read_eq:
  "file_read_bytes f n ofs = Inr (map (\<lambda>i. if ofs + i < length f then f ! (ofs + i) else 0) [0..<n])"
proof -
  let ?got = "take n (drop ofs f)"
  have "?got @ replicate (n - length ?got) 0 =
      map (\<lambda>i. if ofs + i < length f then f ! (ofs + i) else 0) [0..<n]"
    by (rule nth_equalityI) (auto simp: nth_append)
  then show ?thesis by (simp add: file_read_bytes_def Let_def)
qed

lemma file_write_nth:
  assumes "file_write_bytes ofs b f = Inr f'"
  shows "length f' = max (length f) (ofs + length b)"
    and "i < length f' \<Longrightarrow> f' ! i =
      (if ofs \<le> i \<and> i < ofs + length b then b ! (i - ofs) else if i < length f then f ! i else 0)"
proof -
  have f': "f' = splice (f @ replicate (ofs + length b - length f) 0) ofs b"
    using assms by (simp add: file_write_bytes_def)
  show "length f' = max (length f) (ofs + length b)" unfolding f' by simp
  then show "i < length f' \<Longrightarrow> f' ! i =
      (if ofs \<le> i \<and> i < ofs + length b then b ! (i - ofs) else if i < length f then f ! i else 0)"
    unfolding f' by (simp add: nth_splice nth_append max_def split: if_splits)
qed

interpretation file_device: device file_read_bytes file_write_bytes
proof
  fix ofs and b d d' :: bytes
  assume w: "file_write_bytes ofs b d = Inr d'"
  have "map (\<lambda>i. if ofs + i < length d' then d' ! (ofs + i) else 0) [0..<length b] = b"
    by (rule nth_equalityI) (auto simp: file_write_nth [OF w])
  then show "file_read_bytes d' (length b) ofs = Inr b" by (simp add: file_read_eq)
next
  fix ofs and b d d' :: bytes and n p
  assume w: "file_write_bytes ofs b d = Inr d'" and "p + n \<le> ofs \<or> ofs + length b \<le> p"
  then have "(if p + i < length d' then d' ! (p + i) else 0) = (if p + i < length d then d ! (p + i) else 0)"
    if "i < n" for i
    using that file_write_nth [OF w] by auto
  then show "file_read_bytes d' n p = file_read_bytes d n p" by (auto simp: file_read_eq)
qed

section \<open>Caches\<close>

text \<open>\<open>Cache\<close>: the second look-up, under the write lock, answers the same as the first one when
  no other thread intervenes.\<close>

definition cache_get_or_insert ::
  "'k \<Rightarrow> ('k \<Rightarrow> 'v result) \<Rightarrow> ('k \<rightharpoonup> 'v) \<Rightarrow> ('v \<times> ('k \<rightharpoonup> 'v)) result" where
  "cache_get_or_insert k f m =
     (case m k of
        Some v \<Rightarrow> Inr (v, m)
      | None \<Rightarrow> rbind (f k) (\<lambda>v. Inr (v, m(k \<mapsto> v))))"

text \<open>\<open>WeakCache\<close>: an entry \<open>None\<close> is a weak pointer whose object is gone.\<close>

definition weak_get :: "'k \<Rightarrow> ('k \<rightharpoonup> 'v option) \<Rightarrow> 'v option" where
  "weak_get k m = (case m k of None \<Rightarrow> None | Some w \<Rightarrow> w)"

definition weak_get_or_insert ::
  "'k \<Rightarrow> ('k \<Rightarrow> 'v result) \<Rightarrow> ('k \<rightharpoonup> 'v option) \<Rightarrow> ('v \<times> ('k \<rightharpoonup> 'v option)) result" where
  "weak_get_or_insert k f m =
     (case weak_get k m of
        Some v \<Rightarrow> Inr (v, m)
      | None \<Rightarrow>
         (case m k of
            None \<Rightarrow> rbind (f k) (\<lambda>v. Inr (v, m(k \<mapsto> Some v)))
          | Some w \<Rightarrow>
             (case w of
                Some v \<Rightarrow> Inr (v, m)
              | None \<Rightarrow> rbind (f k) (\<lambda>v. Inr (v, m(k \<mapsto> Some v))))))"

definition weak_take :: "'k \<Rightarrow> ('k \<rightharpoonup> 'v option) \<Rightarrow> ('k \<rightharpoonup> 'v option)" where
  "weak_take k m = m(k := None)"

definition cache_flush :: "('k \<rightharpoonup> 'v) \<Rightarrow> ('k \<rightharpoonup> 'v)" where
  "cache_flush m = Map.empty"

section \<open>The block manager and the collector\<close>

type_synonym bcache = "nat \<rightharpoonup> bytes"

record collector =
  modifications :: "nat set"
  is_sb_dirty :: bool

definition collector_default :: collector where
  "collector_default = \<lparr>modifications = {}, is_sb_dirty = False\<rparr>"

definition track :: "nat \<Rightarrow> collector \<Rightarrow> collector" where
  "track lba c = c\<lparr>modifications := insert lba (modifications c)\<rparr>"

definition set_sb_dirty :: "collector \<Rightarrow> collector" where
  "set_sb_dirty c = c\<lparr>is_sb_dirty := True\<rparr>"

definition read_contents :: "('d \<Rightarrow> nat \<Rightarrow> nat \<Rightarrow> bytes result) \<Rightarrow> 'd \<Rightarrow> nat \<Rightarrow> nat \<Rightarrow> bytes result" where
  "read_contents rd d n lba = rd d n (lba * n)"

definition blk_get ::
  "('d \<Rightarrow> nat \<Rightarrow> nat \<Rightarrow> bytes result) \<Rightarrow> 'd \<Rightarrow> nat \<Rightarrow> nat \<Rightarrow> bcache \<Rightarrow> (bytes \<times> bcache) result" where
  "blk_get rd d n lba bc = cache_get_or_insert lba (read_contents rd d n) bc"

text \<open>\<open>get_mut\<close> followed by a use of its write guard: dereferencing the guard tracks the block.\<close>

definition blk_modify ::
  "('d \<Rightarrow> nat \<Rightarrow> nat \<Rightarrow> bytes result) \<Rightarrow> 'd \<Rightarrow> nat \<Rightarrow> nat \<Rightarrow> (bytes \<Rightarrow> ('a \<times> bytes) result) \<Rightarrow>
   bcache \<times> collector \<Rightarrow> ('a \<times> bcache \<times> collector) result" where
  "blk_modify rd d n lba f st =
     rbind (cache_get_or_insert lba (read_contents rd d n) (fst st)) (\<lambda>(b, bc).
     rbind (f b) (\<lambda>(a, b'). Inr (a, bc(lba \<mapsto> b'), track lba (snd st))))"

text \<open>\<open>get_mut_noload\<close> tracks the block at once and its guard does not, having no collector.\<close>

definition blk_modify_noload ::
  "nat \<Rightarrow> nat \<Rightarrow> (bytes \<Rightarrow> ('a \<times> bytes) result) \<Rightarrow> bcache \<times> collector \<Rightarrow> ('a \<times> bcache \<times> collector) result"
  where
  "blk_modify_noload n lba f st =
     (let c = track lba (snd st)
      in rbind (unwrap_res (cache_get_or_insert lba (\<lambda>_. Inr (replicate n 0)) (fst st))) (\<lambda>(b, bc).
         rbind (f b) (\<lambda>(a, b'). Inr (a, bc(lba \<mapsto> b'), c))))"

definition get_io_request :: "nat \<Rightarrow> nat \<Rightarrow> bcache \<Rightarrow> (nat \<times> bytes) result" where
  "get_io_request n lba bc =
     (case bc lba of Some b \<Rightarrow> Inr (lba * n, b) | None \<Rightarrow> Inl Panic)"

text \<open>
  The I/O part of \<open>Collector::done\<close>. The iteration order of the hash set of modifications is
  not determined: \<open>l\<close> is any enumeration of it.
\<close>

fun io_requests :: "nat \<Rightarrow> nat list \<Rightarrow> bcache \<Rightarrow> (nat \<times> bytes) list result" where
  "io_requests n [] bc = Inr []"
| "io_requests n (lba # l) bc =
     rbind (get_io_request n lba bc) (\<lambda>r. rmap ((#) r) (io_requests n l bc))"

definition collector_bio :: "nat \<Rightarrow> nat list \<Rightarrow> bool \<Rightarrow> bytes \<Rightarrow> bcache \<Rightarrow> (nat \<times> bytes) list result" where
  "collector_bio n l sb_dirty man bc =
     rmap ((@) (if sb_dirty then sb_writeback n man [] else [])) (io_requests n l bc)"

definition collector_io ::
  "(nat \<Rightarrow> bytes \<Rightarrow> 'd \<Rightarrow> 'd result) \<Rightarrow> nat \<Rightarrow> nat list \<Rightarrow> bool \<Rightarrow> bytes \<Rightarrow> bcache \<Rightarrow> 'd \<Rightarrow> 'd result" where
  "collector_io wr n l sb_dirty man bc d =
     rbind (collector_bio n l sb_dirty man bc) (\<lambda>bio. write_bios wr bio d)"

section \<open>The caches answer consistently\<close>

lemma cache_get_or_insert_Inr:
  assumes "cache_get_or_insert k f m = Inr (v, m')"
  shows "m' k = Some v" and "m k = Some w \<Longrightarrow> v = w \<and> m' = m" and "m k = None \<Longrightarrow> f k = Inr v"
    and "j \<noteq> k \<Longrightarrow> m' j = m j"
  using assms by (auto simp: cache_get_or_insert_def rbind_Inr_iff split: option.splits)

text \<open>a lookup that hits does not evaluate the loader, one that misses stores what the loader
  returns, and looking the key up again returns the same object, whatever the loader is then.\<close>

theorem weak_cache_stable:
  assumes "weak_get_or_insert k f m = Inr (v, m')"
  shows "weak_get k m' = Some v \<and> weak_get_or_insert k g m' = Inr (v, m') \<and>
    (weak_get k m = None \<longrightarrow> f k = Inr v) \<and> (\<forall>w. weak_get k m = Some w \<longrightarrow> v = w \<and> m' = m) \<and>
    (\<forall>j. j \<noteq> k \<longrightarrow> weak_get j m' = weak_get j m)"
  using assms
  by (auto simp: weak_get_or_insert_def weak_get_def rbind_Inr_iff split: option.splits)

lemma weak_cache_stable_witness:
  "weak_get_or_insert (3 :: nat) (\<lambda>_. Inr (7 :: nat)) [3 \<mapsto> None] = Inr (7, [3 \<mapsto> Some 7]) \<and>
   weak_get_or_insert (3 :: nat) (\<lambda>_. Inl Panic) [3 \<mapsto> Some 7] = Inr (7 :: nat, [3 \<mapsto> Some 7])"
proof -
  have w: "weak_get_or_insert (3 :: nat) (\<lambda>_. Inr (7 :: nat)) [3 \<mapsto> None] = Inr (7, [3 \<mapsto> Some 7])"
    by (simp add: weak_get_or_insert_def weak_get_def)
  from weak_cache_stable [OF this, of "\<lambda>_. Inl Panic"] w show ?thesis by simp
qed

section \<open>Write-back is complete\<close>

lemma io_requests_Inr:
  "io_requests n l bc = Inr bio \<longleftrightarrow>
     (\<forall>lba\<in>set l. bc lba \<noteq> None) \<and> bio = map (\<lambda>lba. (lba * n, the (bc lba))) l"
  by (induction l arbitrary: bio)
    (auto simp: get_io_request_def rbind_Inr_iff rmap_Inr_iff split: option.splits)

text \<open>Every cached buffer is a whole block.\<close>

definition cache_wf :: "nat \<Rightarrow> bcache \<Rightarrow> bool" where
  "cache_wf n bc \<longleftrightarrow> (\<forall>lba b. bc lba = Some b \<longrightarrow> length b = n)"

lemma blocks_apart: "i \<noteq> j \<Longrightarrow> i * n + n \<le> j * n \<or> j * n + n \<le> (i :: nat) * n"
proof -
  assume "i \<noteq> j"
  then consider "Suc i \<le> j" | "Suc j \<le> i" by linarith
  then show ?thesis
  proof cases
    case 1 from mult_le_mono1 [OF this, of n] show ?thesis by simp
  next
    case 2 from mult_le_mono1 [OF this, of n] show ?thesis by simp
  qed
qed

text \<open>The contents of block \<open>k\<close> after writing the blocks \<open>kbs\<close> in order.\<close>

context device begin

lemma write_blocks_rd:
  assumes "write_bios wr (map (\<lambda>(k, b). (k * n, b)) kbs) d = Inr d'"
    and "\<forall>kb\<in>set kbs. length (snd kb) = n"
  shows "rd d' n (k * n) = (case map_of (rev kbs) k of Some b \<Rightarrow> Inr b | None \<Rightarrow> rd d n (k * n))"
  using assms
proof (induction kbs arbitrary: d' rule: rev_induct)
  case Nil
  then show ?case by (simp add: write_bios_def)
next
  case (snoc x kbs)
  obtain j b where x: "x = (j, b)" by (cases x)
  from snoc.prems(1) x obtain d1 where
    d1: "write_bios wr (map (\<lambda>(k, b). (k * n, b)) kbs) d = Inr d1" "wr (j * n) b d1 = Inr d'"
    by (auto simp: write_bios_def for_each_append rbind_Inr_iff)
  have len: "length b = n" using snoc.prems(2) x by simp
  have IH: "rd d1 n (k * n) = (case map_of (rev kbs) k of Some b \<Rightarrow> Inr b | None \<Rightarrow> rd d n (k * n))"
    by (rule snoc.IH [OF d1(1)]) (use snoc.prems(2) in auto)
  show ?case
  proof (cases "j = k")
    case True
    with rd_wr [OF d1(2)] len x show ?thesis by simp
  next
    case False
    with rd_wr_other [OF d1(2), of "k * n" n] blocks_apart [OF False, of n] len x IH show ?thesis
      by auto
  qed
qed

lemma collector_io_rd:
  assumes io: "collector_io wr n l dirty man bc d = Inr d'"
    and wf: "cache_wf n bc" and man: "length man = n"
  shows "rd d' n (k * n) =
    (if k \<in> set l then Inr (the (bc k))
     else if dirty \<and> k = (if n = 1024 then 1 else 0) then Inr man else rd d n (k * n))"
proof -
  let ?sb = "if dirty then [(if n = 1024 then 1 else 0, man)] else []"
  let ?kbs = "?sb @ map (\<lambda>lba. (lba, the (bc lba))) l"
  from io obtain bio where bio: "\<forall>lba\<in>set l. bc lba \<noteq> None" "collector_bio n l dirty man bc = Inr bio"
    "write_bios wr bio d = Inr d'"
    by (auto simp: collector_io_def rbind_Inr_iff collector_bio_def rmap_Inr_iff io_requests_Inr)
  then have eq: "bio = map (\<lambda>(k, b). (k * n, b)) ?kbs"
    by (auto simp: collector_bio_def rmap_Inr_iff io_requests_Inr sb_writeback_def)
  have len: "\<forall>kb\<in>set ?kbs. length (snd kb) = n"
    using bio(1) wf man by (auto simp: cache_wf_def)
  have "map_of (rev ?kbs) k =
      (if k \<in> set l then Some (the (bc k))
       else if dirty \<and> k = (if n = 1024 then 1 else 0) then Some man else None)"
    by (auto simp: map_of_append rev_map map_of_map_restrict map_add_def restrict_map_def)
  with write_blocks_rd [OF bio(3) [unfolded eq] len] show ?thesis by auto
qed

end

text \<open>C32: when the collector is done, the file system image holds, in every block of the
  transaction, what the cache holds for it, in the block of a dirty superblock its in-memory
  copy, and in every other block what it held before - in whatever order the set of modified
  blocks is enumerated. It never fails when all modified blocks are cached.\<close>

theorem collector_io_writes_back:
  assumes "\<forall>lba\<in>set l. bc lba \<noteq> None" and "cache_wf n bc" and "length man = n"
  shows "\<exists>f'. collector_io file_write_bytes n l dirty man bc f = Inr f' \<and>
    (\<forall>k. file_read_bytes f' n (k * n) =
      (if k \<in> set l then Inr (the (bc k))
       else if dirty \<and> k = (if n = 1024 then 1 else 0) then Inr man
       else file_read_bytes f n (k * n)))"
proof -
  have total: "\<exists>f'. write_bios file_write_bytes bio f = Inr f'" for bio f
    by (induction bio arbitrary: f) (auto simp: write_bios_def file_write_bytes_def)
  obtain f' where f': "collector_io file_write_bytes n l dirty man bc f = Inr f'"
    using assms(1) total by (fastforce simp: collector_io_def collector_bio_def io_requests_Inr
      rbind_Inr_iff rmap_Inr_iff)
  with file_device.collector_io_rd [OF f' assms(2,3)] show ?thesis by blast
qed

lemma collector_io_writes_back_witness:
  "\<exists>f'. collector_io file_write_bytes 2 [3] True [8, 8] [3 \<mapsto> [5, 6]] [1, 2, 3, 4] = Inr f' \<and>
    file_read_bytes f' 2 6 = Inr [5, 6] \<and> file_read_bytes f' 2 0 = Inr [8, 8] \<and>
    file_read_bytes f' 2 2 = Inr [3, 4]"
proof -
  have "\<forall>lba\<in>set [3]. ([3 \<mapsto> [5, 6]] :: bcache) lba \<noteq> None" "cache_wf 2 [3 \<mapsto> [5, 6]]"
    "length ([8, 8] :: bytes) = 2" by (auto simp: cache_wf_def split: if_splits)
  from collector_io_writes_back [OF this, of True "[1, 2, 3, 4]"] obtain f' where
    f': "collector_io file_write_bytes 2 [3] True [8, 8] [3 \<mapsto> [5, 6]] [1, 2, 3, 4] = Inr f'"
    and rd: "\<And>k. file_read_bytes f' 2 (k * 2) =
      (if k \<in> set [3] then Inr (the (([3 \<mapsto> [5, 6]] :: bcache) k))
       else if True \<and> k = (if (2 :: nat) = 1024 then 1 else 0) then Inr [8, 8]
       else file_read_bytes [1, 2, 3, 4] 2 (k * 2))" by blast
  from rd [of 3] rd [of 0] rd [of 1] f' show ?thesis by (simp add: file_read_bytes_def Let_def)
qed

end
