(* ===== verification/Block_Group.thy ===== *)
theory Block_Group
  imports Block_Store Crc
begin

text \<open>
  Block groups (\<open>src/block_group/\<close>): the on-disk descriptor with its fields split in halves
  for 64-byte descriptors, its checksum, the in-memory group with its free counters, and the
  initialisation of the bitmaps of a group that was never used.
\<close>

section \<open>The descriptor\<close>

definition is_bg_64 :: "bytes \<Rightarrow> bool" where
  "is_bg_64 d \<longleftrightarrow> 64 \<le> length d"

definition bg_block_bitmap :: "bytes \<Rightarrow> nat result" where
  "bg_block_bitmap d = rmap unat (compound_u64_get 0x0 0x20 (is_bg_64 d) d)"

definition bg_inode_bitmap :: "bytes \<Rightarrow> nat result" where
  "bg_inode_bitmap d = rmap unat (compound_u64_get 0x4 0x24 (is_bg_64 d) d)"

definition bg_inode_table :: "bytes \<Rightarrow> nat result" where
  "bg_inode_table d = rmap unat (compound_u64_get 0x8 0x28 (is_bg_64 d) d)"

definition bg_free_blocks_count :: "bytes \<Rightarrow> 32 word result" where
  "bg_free_blocks_count d = compound_u32_get 0xC 0x2C (is_bg_64 d) d"

definition bg_free_inodes_count :: "bytes \<Rightarrow> 32 word result" where
  "bg_free_inodes_count d = compound_u32_get 0xE 0x2E (is_bg_64 d) d"

definition bg_used_dirs_count :: "bytes \<Rightarrow> 32 word result" where
  "bg_used_dirs_count d = compound_u32_get 0x10 0x30 (is_bg_64 d) d"

definition bg_itable_unused :: "bytes \<Rightarrow> 32 word result" where
  "bg_itable_unused d = compound_u32_get 0x1C 0x32 (is_bg_64 d) d"

definition bg_set_free_blocks_count :: "32 word \<Rightarrow> bytes \<Rightarrow> bytes result" where
  "bg_set_free_blocks_count v d = compound_u32_set 0xC 0x2C (is_bg_64 d) v d"

definition bg_set_free_inodes_count :: "32 word \<Rightarrow> bytes \<Rightarrow> bytes result" where
  "bg_set_free_inodes_count v d = compound_u32_set 0xE 0x2E (is_bg_64 d) v d"

definition bg_set_used_dirs_count :: "32 word \<Rightarrow> bytes \<Rightarrow> bytes result" where
  "bg_set_used_dirs_count v d = compound_u32_set 0x10 0x30 (is_bg_64 d) v d"

definition bg_set_itable_unused :: "32 word \<Rightarrow> bytes \<Rightarrow> bytes result" where
  "bg_set_itable_unused v d = compound_u32_set 0x1C 0x32 (is_bg_64 d) v d"

text \<open>All fields, the halves as fields of their own; the second list adds those of 64-byte descriptors.\<close>

definition bg_layout :: "(string \<times> nat \<times> nat) list" where
  "bg_layout =
    [(''block_bitmap'', 0x0, 4), (''inode_bitmap'', 0x4, 4), (''inode_table'', 0x8, 4),
     (''free_blocks_count'', 0xC, 2), (''free_inodes_count'', 0xE, 2), (''used_dirs_count'', 0x10, 2),
     (''flags'', 0x12, 2), (''exclude_bitmap'', 0x14, 4), (''block_bitmap_checksum'', 0x18, 2),
     (''inode_bitmap_checksum'', 0x1A, 2), (''itable_unused'', 0x1C, 2), (''checksum'', 0x1E, 2)]"

definition bg_layout_64 :: "(string \<times> nat \<times> nat) list" where
  "bg_layout_64 = bg_layout @
    [(''block_bitmap_hi'', 0x20, 4), (''inode_bitmap_hi'', 0x24, 4), (''inode_table_hi'', 0x28, 4),
     (''free_blocks_count_hi'', 0x2C, 2), (''free_inodes_count_hi'', 0x2E, 2),
     (''used_dirs_count_hi'', 0x30, 2), (''exclude_bitmap_hi'', 0x34, 4),
     (''block_bitmap_checksum_hi'', 0x38, 2), (''inode_bitmap_checksum_hi'', 0x3A, 2),
     (''itable_unused_hi'', 0x32, 2)]"

section \<open>Flags\<close>

definition INODE_UNINIT :: "16 word" where "INODE_UNINIT = 0x0001"
definition BLOCK_UNINIT :: "16 word" where "BLOCK_UNINIT = 0x0002"
definition ITABLE_ZEROED :: "16 word" where "ITABLE_ZEROED = 0x0004"

definition bg_flags_truncate :: "16 word \<Rightarrow> 16 word" where
  "bg_flags_truncate w = w AND (INODE_UNINIT OR BLOCK_UNINIT OR ITABLE_ZEROED)"

definition bg_has :: "16 word \<Rightarrow> 16 word \<Rightarrow> bool" where
  "bg_has flags f \<longleftrightarrow> flags AND f = f"

section \<open>The checksum\<close>

text \<open>\<open>calculate_csum\<close> zeroes the checksum field, digests, and restores the field.\<close>

definition calculate_csum :: "nat \<Rightarrow> superblock \<Rightarrow> bytes \<Rightarrow> (16 word \<times> bytes) result" where
  "calculate_csum bgid sb d =
     (if contains_flag (features_readonly sb) METADATA_CSUM
      then rbind (read_u16 d 0x1E) (\<lambda>orig.
           rbind (write_u16 0x1E 0 d) (\<lambda>d0.
           let crc = crc32c_write d0 (crc32c_write (to_le32 (of_nat bgid))
                       (crc32c_write (uuid sb) crc32c_default))
           in rbind (write_u16 0x1E orig d0) (\<lambda>d'. Inr (ucast (crc32c_finish crc), d'))))
      else if contains_flag (features_readonly sb) GDT_CSUM
      then rbind (assertR (0x1E \<le> length d)) (\<lambda>_.
           let crc = crc16_write (take 0x1E d) (crc16_write (to_le32 (of_nat bgid))
                       (crc16_write (uuid sb) crc16_default));
               crc' = (if length d > 0x20 then crc16_write (drop 0x20 d) crc else crc)
           in Inr (crc16_finish crc', d))
      else Inr (0, d))"

definition bg_update_csum :: "nat \<Rightarrow> superblock \<Rightarrow> bytes \<Rightarrow> bytes result" where
  "bg_update_csum bgid sb d =
     rbind (calculate_csum bgid sb d) (\<lambda>(csum, d'). write_u16 0x1E csum d')"

section \<open>The in-memory group\<close>

record block_group =
  bg_id :: nat
  inode_table_first_block :: nat
  block_bitmap_lba :: nat
  inode_bitmap_lba :: nat
  bg_blocks_count :: nat
  bg_free_blocks :: nat
  bg_free_inodes :: nat

text \<open>\<open>AtomicU32::fetch_sub\<close> and \<open>fetch_add\<close> wrap around.\<close>

definition fetch_sub32 :: "nat \<Rightarrow> nat \<Rightarrow> nat" where
  "fetch_sub32 a b = (a + 2 ^ 32 - trunc 32 b) mod 2 ^ 32"

definition fetch_add32 :: "nat \<Rightarrow> nat \<Rightarrow> nat" where
  "fetch_add32 a b = trunc 32 (a + trunc 32 b)"

definition bg_dec_free_inodes :: "block_group \<Rightarrow> block_group" where
  "bg_dec_free_inodes bg = bg\<lparr>bg_free_inodes := fetch_sub32 (bg_free_inodes bg) 1\<rparr>"

definition bg_deallocate_inode :: "block_group \<Rightarrow> block_group" where
  "bg_deallocate_inode bg = bg\<lparr>bg_free_inodes := fetch_add32 (bg_free_inodes bg) 1\<rparr>"

definition bg_dec_free_blocks :: "nat \<Rightarrow> block_group \<Rightarrow> block_group" where
  "bg_dec_free_blocks count bg = bg\<lparr>bg_free_blocks := fetch_sub32 (bg_free_blocks bg) count\<rparr>"

definition bg_deallocate_blocks :: "nat \<Rightarrow> block_group \<Rightarrow> block_group" where
  "bg_deallocate_blocks count bg = bg\<lparr>bg_free_blocks := fetch_add32 (bg_free_blocks bg) count\<rparr>"

section \<open>Loading a group\<close>

definition bg_blocks_count_of :: "superblock \<Rightarrow> nat \<Rightarrow> nat result" where
  "bg_blocks_count_of sb bgid =
     (if bgid < bg_count sb then Inr (blocks_per_group sb)
      else if bgid = bg_count sb
      then rbind (sub_nat bgid 1) (\<lambda>g.
           rbind (sub_nat (blocks_count sb) (blocks_per_group sb * g)) (\<lambda>k. Inr (trunc 32 k)))
      else Inl Panic)"

definition init_block_bitmap :: "nat \<Rightarrow> superblock \<Rightarrow> nat \<Rightarrow> nat \<Rightarrow> nat \<Rightarrow> bytes \<Rightarrow> bytes result" where
  "init_block_bitmap n sb bgid desc_blocks inode_blocks bm =
     (let base = first_data_block sb + desc_blocks + 1
      in rbind (if is_super_in_bg sb bgid
                then rmap (Pair (base + 1)) (set_bitmap [0..<1 + first_data_block sb + desc_blocks] bm)
                else Inr (base, bm)) (\<lambda>(base, bm).
         rbind (set_bitmap [base..<Suc (base + 1 + inode_blocks)] bm) (\<lambda>bm.
         let pad = (bgid + 1) * blocks_per_group sb - blocks_count sb
         in rbind (sub_nat (blocks_per_group sb) pad) (\<lambda>first.
            set_bitmap [first..<n * 8] bm))))"

definition init_inode_bitmap :: "nat \<Rightarrow> superblock \<Rightarrow> bytes \<Rightarrow> bytes result" where
  "init_inode_bitmap n sb bm = set_bitmap [inodes_per_group sb..<n * 8] bm"

definition new_flags :: "16 word \<Rightarrow> 16 word" where
  "new_flags flags =
     (let f = (if bg_has flags BLOCK_UNINIT then flags AND NOT BLOCK_UNINIT else flags)
      in if bg_has flags INODE_UNINIT
         then (let g = f AND NOT INODE_UNINIT
               in if bg_has flags ITABLE_ZEROED then g else g OR ITABLE_ZEROED)
         else f)"

text \<open>The write at the end of \<open>verify\<close>: the flags field is cleared, not set to the new flags.\<close>

definition bg_store_flags :: "nat \<Rightarrow> superblock \<Rightarrow> bytes \<Rightarrow> bytes result" where
  "bg_store_flags bgid sb d = rbind (write_u16 0x12 0 d) (bg_update_csum bgid sb)"

definition on_slice :: "nat \<Rightarrow> nat \<Rightarrow> (bytes \<Rightarrow> bytes result) \<Rightarrow> bytes \<Rightarrow> bytes result" where
  "on_slice ofs len f b =
     rbind (assertR (ofs + len \<le> length b)) (\<lambda>_.
     rmap (splice b ofs) (f (take len (drop ofs b))))"

definition bg_verify ::
  "nat \<Rightarrow> superblock \<Rightarrow> nat \<Rightarrow> nat \<Rightarrow> block_group \<Rightarrow> 16 word \<Rightarrow> bcache \<times> collector \<Rightarrow>
   (block_group \<times> bcache \<times> collector) result" where
  "bg_verify n sb lba index bg flags st =
     (let desc_blocks = div_ceil (block_desc_size sb * bg_count sb) n;
          inode_blocks = div_ceil (inodes_per_group sb * inode_size sb) n;
          zeroed = \<lambda>lba st. rmap snd (blk_modify_noload n lba (\<lambda>b. Inr ((), b)) st)
      in rbind (if bg_has flags BLOCK_UNINIT
                then rmap snd (blk_modify_noload n (block_bitmap_lba bg)
                  (\<lambda>bm. rmap (Pair ()) (init_block_bitmap n sb (bg_id bg) desc_blocks inode_blocks bm)) st)
                else Inr st) (\<lambda>st.
         rbind (if bg_has flags INODE_UNINIT
                then rbind (blk_modify_noload n (inode_bitmap_lba bg)
                       (\<lambda>bm. rmap (Pair ()) (init_inode_bitmap n sb bm)) st) (\<lambda>(_, st).
                     if bg_has flags ITABLE_ZEROED then Inr st
                     else for_each [inode_table_first_block bg..<inode_table_first_block bg + inode_blocks]
                            zeroed st)
                else Inr st) (\<lambda>st.
         if flags \<noteq> new_flags flags
         then rbind (unwrap (fst st lba)) (\<lambda>b.
              rbind (on_slice index (block_desc_size sb) (bg_store_flags (bg_id bg) sb) b) (\<lambda>b'.
              Inr (bg, (fst st)(lba \<mapsto> b'), track lba (snd st))))
         else Inr (bg, st))))"

definition bg_from_disk ::
  "('d \<Rightarrow> nat \<Rightarrow> nat \<Rightarrow> bytes result) \<Rightarrow> 'd \<Rightarrow> nat \<Rightarrow> superblock \<Rightarrow> nat \<Rightarrow> bcache \<times> collector \<Rightarrow>
   (block_group \<times> bcache \<times> collector) result" where
  "bg_from_disk rd dev n sb bgid st =
     (let (lba, index) = bgid_into_lba_index n sb bgid
      in rbind (cache_get_or_insert lba (read_contents rd dev n) (fst st)) (\<lambda>(b, bc).
         rbind (assertR (index + block_desc_size sb \<le> length b)) (\<lambda>_.
         let d = take (block_desc_size sb) (drop index b)
         in rbind (bg_blocks_count_of sb bgid) (\<lambda>count.
            rbind (read_u16 d 0x12) (\<lambda>flags.
            rbind (bg_inode_table d) (\<lambda>itable.
            rbind (bg_block_bitmap d) (\<lambda>bbm.
            rbind (bg_inode_bitmap d) (\<lambda>ibm.
            rbind (bg_free_blocks_count d) (\<lambda>fb.
            rbind (bg_free_inodes_count d) (\<lambda>fi.
            bg_verify n sb lba index
              \<lparr>bg_id = bgid, inode_table_first_block = itable, block_bitmap_lba = bbm,
               inode_bitmap_lba = ibm, bg_blocks_count = count,
               bg_free_blocks = unat fb, bg_free_inodes = unat fi\<rparr>
              (bg_flags_truncate flags) (bc, snd st))))))))))) "

section \<open>Theorems\<close>

text \<open>the fields of a descriptor do not overlap, in either size, and fit it.\<close>

theorem bg_layout_disjoint:
  "overlapping_fields bg_layout = [] \<and> overlapping_fields bg_layout_64 = [] \<and>
   list_all (\<lambda>(f, p, w). p + w \<le> 32) bg_layout \<and> list_all (\<lambda>(f, p, w). p + w \<le> 64) bg_layout_64"
  by (simp add: bg_layout_def bg_layout_64_def fields_overlap_def)

lemma to_le16_le16: "to_le16 (le16 a b) = [a, b]"
  by (auto simp: to_le16_def le16_def intro!: bit_word_eqI)
    (auto simp: bit_simps dest: bit_imp_le_length)

lemma splice_same: "p + 2 \<le> length d \<Longrightarrow> splice (splice d p [x, y]) p [v, w] = splice d p [v, w]"
  by (simp add: splice_def)

lemma splice_nth: "p + 2 \<le> length d \<Longrightarrow> splice d p [d ! p, d ! Suc p] = d"
  by (rule nth_equalityI) (auto simp: nth_splice nth_Cons less_Suc_eq split: nat.splits)

lemma write_u16_twice:
  "write_u16 p v d = Inr d1 \<Longrightarrow> write_u16 p w d1 = write_u16 p w d"
  by (auto simp: write_u16_def to_le16_def splice_same split: if_splits)

lemma write_back_same:
  assumes "read_u16 d p = Inr v"
  shows "write_u16 p v d = Inr d"
  using assms by (auto simp: read_u16_def write_u16_def to_le16_le16 splice_nth split: if_splits)

lemma calculate_csum_same: "calculate_csum bgid sb d = Inr (c, d') \<Longrightarrow> d' = d"
  by (auto simp: calculate_csum_def rbind_Inr_iff Let_def write_back_same write_u16_twice split: if_splits)

lemma take_drop_write_u16:
  "write_u16 p v d = Inr d' \<Longrightarrow> take p d' = take p d \<and> drop (p + 2) d' = drop (p + 2) d"
  by (auto simp: write_u16_def splice_def to_le16_def split: if_splits)

text \<open>The checksum does not depend on the checksum stored in the descriptor.\<close>

lemma calculate_csum_stored:
  assumes "calculate_csum bgid sb d = Inr (c, d)" and "write_u16 0x1E v d = Inr d'"
  shows "calculate_csum bgid sb d' = Inr (c, d')"
proof -
  have rd: "read_u16 d' 0x1E = Inr v" by (rule read_write_u16 [OF assms(2)])
  have len: "length d' = length d" using assms(2) by (rule write_length)
  have "take 0x1E d' = take 0x1E d" "drop 0x20 d' = drop 0x20 d"
    using take_drop_write_u16 [OF assms(2)] by simp_all
  note td = this
  note same = write_u16_twice [OF assms(2)] write_back_same [OF rd]
  show ?thesis
  proof (cases "contains_flag (features_readonly sb) METADATA_CSUM")
    case True
    from assms(1) True obtain orig d0 where d0: "read_u16 d 0x1E = Inr orig" "write_u16 0x1E 0 d = Inr d0"
      "c = ucast (crc32c_finish (crc32c_write d0 (crc32c_write (to_le32 (of_nat bgid))
         (crc32c_write (uuid sb) crc32c_default))))"
      by (auto simp: calculate_csum_def rbind_Inr_iff Let_def)
    have "write_u16 0x1E 0 d' = Inr d0" using same(1) d0(2) by simp
    moreover from write_u16_twice [OF this] same(2) have "write_u16 0x1E v d0 = Inr d'" by simp
    ultimately show ?thesis using True rd d0(3) by (simp add: calculate_csum_def Let_def)
  next
    case False
    with assms(1) td len show ?thesis
      by (auto simp: calculate_csum_def rbind_Inr_iff Let_def split: if_splits)
  qed
qed

text \<open>updating the checksum leaves every other byte of the descriptor alone, and the stored
  checksum is the one a later verification computes.\<close>

theorem bg_update_csum_verifies:
  assumes "bg_update_csum bgid sb d = Inr d'"
  shows "\<exists>c. read_u16 d' 0x1E = Inr c \<and> calculate_csum bgid sb d' = Inr (c, d') \<and>
    length d' = length d \<and> (\<forall>i. i \<noteq> 0x1E \<and> i \<noteq> 0x1F \<longrightarrow> d' ! i = d ! i)"
proof -
  from assms obtain c where c: "calculate_csum bgid sb d = Inr (c, d)" "write_u16 0x1E c d = Inr d'"
    by (auto simp: bg_update_csum_def rbind_Inr_iff dest: calculate_csum_same)
  have "d' ! i = d ! i" if "i \<noteq> 0x1E \<and> i \<noteq> 0x1F" for i
    by (rule write_u16_frame [OF c(2)]) (use that in auto)
  with read_write_u16 [OF c(2)] calculate_csum_stored [OF c] write_length(2) [OF c(2)]
  show ?thesis by blast
qed

lemma init_block_bitmap_ok:
  assumes "length bm = n" and "blocks_per_group sb \<le> n * 8"
    and "first_data_block sb + desc_blocks + inode_blocks + 4 \<le> n * 8"
    and "(bgid + 1) * blocks_per_group sb - blocks_count sb \<le> blocks_per_group sb"
  shows "\<exists>bm'. init_block_bitmap n sb bgid desc_blocks inode_blocks bm = Inr bm' \<and>
    length bm' = n \<and> (\<forall>q < 8 * n. bit_at bm' q \<longleftrightarrow> bit_at bm q \<or>
    is_super_in_bg sb bgid \<and> q < 1 + first_data_block sb + desc_blocks \<or>
    first_data_block sb + desc_blocks + (if is_super_in_bg sb bgid then 2 else 1) \<le> q \<and>
      q < first_data_block sb + desc_blocks + inode_blocks + (if is_super_in_bg sb bgid then 4 else 3) \<or>
    blocks_per_group sb - ((bgid + 1) * blocks_per_group sb - blocks_count sb) \<le> q)"
proof -
  let ?fdb = "first_data_block sb + desc_blocks"
  have set: "\<exists>c. set_bitmap [x..<y] b = Inr c \<and> length c = n \<and>
      (\<forall>q < 8 * n. bit_at c q \<longleftrightarrow> bit_at b q \<or> x \<le> q \<and> q < y)"
    if "length b = n" "y \<le> n * 8" for x y and b :: bytes
  proof -
    have "p div 8 < length b" if "p \<in> set [x..<y]" for p
      using that \<open>length b = n\<close> \<open>y \<le> n * 8\<close> by auto
    from set_bitmap_Inr [OF this] obtain c where "set_bitmap [x..<y] b = Inr c" "length c = length b"
      "\<forall>q. q div 8 < length b \<longrightarrow> (bit_at c q \<longleftrightarrow> bit_at b q \<or> q \<in> set [x..<y])" by blast
    with \<open>length b = n\<close> show ?thesis by auto
  qed
  obtain b1 where b1: "length b1 = n"
    "\<forall>q < 8 * n. bit_at b1 q \<longleftrightarrow> bit_at bm q \<or> is_super_in_bg sb bgid \<and> q < 1 + ?fdb"
    "(if is_super_in_bg sb bgid then rmap (Pair (?fdb + 2)) (set_bitmap [0..<1 + first_data_block sb + desc_blocks] bm)
      else Inr (?fdb + 1, bm)) = Inr (?fdb + (if is_super_in_bg sb bgid then 2 else 1), b1)"
    using set [of bm "1 + ?fdb" 0] assms(1,3) by (cases "is_super_in_bg sb bgid") auto
  let ?base = "?fdb + (if is_super_in_bg sb bgid then 2 else 1)"
  obtain b2 where b2: "set_bitmap [?base..<Suc (?base + 1 + inode_blocks)] b1 = Inr b2" "length b2 = n"
    "\<forall>q < 8 * n. bit_at b2 q \<longleftrightarrow> bit_at b1 q \<or> ?base \<le> q \<and> q < Suc (?base + 1 + inode_blocks)"
  proof -
    have "Suc (?base + 1 + inode_blocks) \<le> n * 8" using assms(3) by (auto split: if_splits)
    from set [OF b1(1) this] that show ?thesis by blast
  qed
  let ?first = "blocks_per_group sb - ((bgid + 1) * blocks_per_group sb - blocks_count sb)"
  obtain b3 where b3: "set_bitmap [?first..<n * 8] b2 = Inr b3" "length b3 = n"
    "\<forall>q < 8 * n. bit_at b3 q \<longleftrightarrow> bit_at b2 q \<or> ?first \<le> q \<and> q < n * 8"
    using set [OF b2(2), of "n * 8" ?first] by auto
  have "init_block_bitmap n sb bgid desc_blocks inode_blocks bm = Inr b3"
    using assms(4) b1(3) b2(1) b3(1)
    by (cases "is_super_in_bg sb bgid")
      (auto simp: init_block_bitmap_def rbind_Inr_iff rmap_Inr_iff Let_def)
  with b1(2) b2(3) b3 show ?thesis by auto
qed

text \<open>a bitmap that was never written is initialised so that the bits of the group's own
  metadata and all bits from the end of the group to the end of the block are set; set bits
  stay set.\<close>

theorem init_block_bitmap_bits:
  assumes "init_block_bitmap n sb bgid desc_blocks inode_blocks bm = Inr bm'"
    and "length bm = n" and "blocks_per_group sb \<le> n * 8"
    and "first_data_block sb + desc_blocks + inode_blocks + 4 \<le> n * 8"
  shows "length bm' = n \<and> (\<forall>q < 8 * n. bit_at bm' q \<longleftrightarrow> bit_at bm q \<or>
    is_super_in_bg sb bgid \<and> q < 1 + first_data_block sb + desc_blocks \<or>
    first_data_block sb + desc_blocks + (if is_super_in_bg sb bgid then 2 else 1) \<le> q \<and>
      q < first_data_block sb + desc_blocks + inode_blocks + (if is_super_in_bg sb bgid then 4 else 3) \<or>
    blocks_per_group sb - ((bgid + 1) * blocks_per_group sb - blocks_count sb) \<le> q)"
  using init_block_bitmap_ok [OF assms(2-4), of bgid] assms(1)
  by (auto simp: init_block_bitmap_def rbind_Inr_iff Let_def)

lemma csum_defined:
  "0x20 \<le> length d \<Longrightarrow> \<exists>c. calculate_csum bgid sb d = Inr (c, d)"
proof -
  assume len: "0x20 \<le> length d"
  obtain v where v: "read_u16 d 0x1E = Inr v" using read_defined(2) [where p = "0x1E" and b = d] len by auto
  obtain d0 where d0: "write_u16 0x1E 0 d = Inr d0" using write_defined(2) [of "0x1E" d 0] len by auto
  have "write_u16 0x1E v d0 = Inr d"
    using write_u16_twice [OF d0] write_back_same [OF v] by simp
  with v d0 len show ?thesis by (simp add: calculate_csum_def Let_def)
qed

lemma bg_update_csum_defined:
  assumes "0x20 \<le> length d"
  obtains d' where "bg_update_csum bgid sb d = Inr d'"
proof -
  obtain c where c: "calculate_csum bgid sb d = Inr (c, d)" using csum_defined [OF assms] by blast
  obtain d' where "write_u16 0x1E c d = Inr d'"
    using write_defined(2) [of "0x1E" d c] assms by auto
  with c that show thesis by (simp add: bg_update_csum_def)
qed

lemma bg_update_csum_verifies_witness:
  "\<exists>d' c. bg_update_csum 3 demo_sb (replicate 64 9) = Inr d' \<and>
    calculate_csum 3 demo_sb d' = Inr (c, d') \<and> d' ! 5 = 9"
proof -
  have "0x20 \<le> length (replicate 64 (9 :: byte))" by simp
  from bg_update_csum_defined [OF this] obtain d' where
    d': "bg_update_csum 3 demo_sb (replicate 64 9) = Inr d'" .
  from bg_update_csum_verifies [OF this] obtain c where
    c: "calculate_csum 3 demo_sb d' = Inr (c, d')"
    "\<forall>i. i \<noteq> 0x1E \<and> i \<noteq> 0x1F \<longrightarrow> d' ! i = replicate 64 9 ! i" by blast
  from c(2) [rule_format, of 5] have "d' ! 5 = 9" by (simp only: nth_replicate) simp
  with c(1) d' show ?thesis by blast
qed

text \<open>Fields of the descriptor do not disturb each other.\<close>

interpretation bg_blocks_inodes: disjoint_fields
  "compound_u32_get 0xC 0x2C h" "compound_u32_set 0xC 0x2C h"
  "{0xC..<0xC+2} \<union> (if h then {0x2C..<0x2C+2} else {})" "\<lambda>v. h \<or> fst (split_u32 v) = 0"
  "compound_u32_get 0xE 0x2E h" "compound_u32_set 0xE 0x2E h"
  "{0xE..<0xE+2} \<union> (if h then {0x2E..<0x2E+2} else {})" "\<lambda>v. h \<or> fst (split_u32 v) = 0" for h
  by (intro disjoint_fields.intro disjoint_fields_axioms.intro compound_u32_field) auto

lemma compound_u32_other:
  assumes "LO + 2 \<le> HI" and "LO' + 2 \<le> HI'"
    and "LO + 2 \<le> LO' \<or> LO' + 2 \<le> LO" and "LO + 2 \<le> HI' \<or> HI' + 2 \<le> LO"
    and "HI + 2 \<le> LO' \<or> LO' + 2 \<le> HI" and "HI + 2 \<le> HI' \<or> HI' + 2 \<le> HI"
    and set: "compound_u32_set LO' HI' h v d = Inr d'"
  shows "compound_u32_get LO HI h d' = compound_u32_get LO HI h d"
proof -
  have "({LO..<LO+2} \<union> (if h then {HI..<HI+2} else {})) \<inter>
      ({LO'..<LO'+2} \<union> (if h then {HI'..<HI'+2} else {})) = {}"
    using assms(3-6) by (auto simp: set_eq_iff)
  then have "disjoint_fields (compound_u32_get LO HI h) (compound_u32_set LO HI h)
      ({LO..<LO+2} \<union> (if h then {HI..<HI+2} else {})) (\<lambda>v. h \<or> fst (split_u32 v) = 0)
      (compound_u32_get LO' HI' h) (compound_u32_set LO' HI' h)
      ({LO'..<LO'+2} \<union> (if h then {HI'..<HI'+2} else {})) (\<lambda>v. h \<or> fst (split_u32 v) = 0)"
    by (intro disjoint_fields.intro disjoint_fields_axioms.intro compound_u32_field assms(1,2))
  then show ?thesis using set by (rule disjoint_fields.get_other)
qed

lemma compound_u32_other_u16:
  assumes "LO + 2 \<le> HI" and "LO + 2 \<le> p \<or> p + 2 \<le> LO" and "HI + 2 \<le> p \<or> p + 2 \<le> HI"
    and set: "write_u16 p v d = Inr d'"
  shows "compound_u32_get LO HI h d' = compound_u32_get LO HI h d"
proof -
  have "({LO..<LO+2} \<union> (if h then {HI..<HI+2} else {})) \<inter> {p..<p+2} = {}"
    using assms(2,3) by (auto simp: set_eq_iff)
  then have "disjoint_fields (compound_u32_get LO HI h) (compound_u32_set LO HI h)
      ({LO..<LO+2} \<union> (if h then {HI..<HI+2} else {})) (\<lambda>v. h \<or> fst (split_u32 v) = 0)
      (\<lambda>b. read_u16 b p) (write_u16 p) {p..<p+2} (\<lambda>_. True)"
    by (intro disjoint_fields.intro disjoint_fields_axioms.intro compound_u32_field assms(1)
        acc_u16.field_axioms)
  then show ?thesis using set by (rule disjoint_fields.get_other)
qed

lemma compound_u32_set_length:
  "LO + 2 \<le> HI \<Longrightarrow> compound_u32_set LO HI h v d = Inr d' \<Longrightarrow> length d' = length d"
  by (rule field.set_length [OF compound_u32_field])

lemma compound_u32_get_set:
  "LO + 2 \<le> HI \<Longrightarrow> compound_u32_set LO HI h v d = Inr d' \<Longrightarrow> compound_u32_get LO HI h d' = Inr v"
  by (rule field.get_set [OF compound_u32_field])

lemma bg_has_bits:
  "bg_has w INODE_UNINIT \<longleftrightarrow> bit w 0" "bg_has w BLOCK_UNINIT \<longleftrightarrow> bit w 1"
  "bg_has w ITABLE_ZEROED \<longleftrightarrow> bit w 2"
proof -
  have eq: "a = b \<longleftrightarrow> (\<forall>n<16. bit a n = bit b n)" for a b :: "16 word"
    by (auto intro: bit_word_eqI)
  have has: "bg_has w (push_bit k 1) \<longleftrightarrow> bit w k" if "k < 16" for k
    using that unfolding bg_has_def eq by (auto simp: bit_simps)
  from has [of 0] has [of 1] has [of 2] show
    "bg_has w INODE_UNINIT \<longleftrightarrow> bit w 0" "bg_has w BLOCK_UNINIT \<longleftrightarrow> bit w 1"
    "bg_has w ITABLE_ZEROED \<longleftrightarrow> bit w 2"
    by (simp_all add: INODE_UNINIT_def BLOCK_UNINIT_def ITABLE_ZEROED_def)
qed

lemma new_flags_zeroed: "bg_has flags INODE_UNINIT \<Longrightarrow> bg_has (new_flags flags) ITABLE_ZEROED"
proof -
  assume "bg_has flags INODE_UNINIT"
  moreover have "bit ITABLE_ZEROED 2" "\<not> bit INODE_UNINIT 2" "\<not> bit BLOCK_UNINIT 2"
    by (simp_all add: INODE_UNINIT_def BLOCK_UNINIT_def ITABLE_ZEROED_def)
  ultimately show ?thesis
    by (simp add: new_flags_def bg_has_bits Let_def bit_and_iff bit_or_iff bit_not_iff)
qed

text \<open>loading a group whose inode bitmap was uninitialised computes flags that mark its inode
  table as zeroed, but stores zero, so the mark is lost; the checksum it stores is valid.\<close>

theorem bg_store_flags_clears:
  assumes "bg_store_flags bgid sb d = Inr d'" and "bg_has flags INODE_UNINIT"
  shows "read_u16 d' 0x12 = Inr 0 \<and> bg_has (new_flags flags) ITABLE_ZEROED \<and>
    (\<exists>c. read_u16 d' 0x1E = Inr c \<and> calculate_csum bgid sb d' = Inr (c, d'))"
proof -
  from assms(1) obtain d1 c where d1: "write_u16 0x12 0 d = Inr d1"
    "calculate_csum bgid sb d1 = Inr (c, d1)" "write_u16 0x1E c d1 = Inr d'"
    by (auto simp: bg_store_flags_def bg_update_csum_def rbind_Inr_iff dest: calculate_csum_same)
  have "read_u16 d' 0x12 = read_u16 d1 0x12"
    using write_u16_frame [OF d1(3)] write_length(2) [OF d1(3)] by (intro read_u16_cong) auto
  then show ?thesis
    using new_flags_zeroed [OF assms(2)] read_write_u16 [OF d1(1)] read_write_u16 [OF d1(3)] calculate_csum_stored [OF d1(2,3)]
    by simp
qed

text \<open>every group is given as many blocks as a full one; when the blocks of the file system
  do not fill the last group, its last index is beyond the end of the file system.\<close>

theorem last_group_counts_missing_blocks:
  assumes "bg_count sb = div_ceil (blocks_count sb) (blocks_per_group sb)"
    and "first_data_block sb = 0" and "0 < blocks_per_group sb"
    and "\<not> blocks_per_group sb dvd blocks_count sb"
  shows "bg_blocks_count_of sb (bg_count sb - 1) = Inr (blocks_per_group sb) \<and>
    blocks_count sb \<le> lba_from_bgid_index sb (bg_count sb - 1) (blocks_per_group sb - 1)"
proof -
  let ?n = "blocks_count sb" and ?k = "blocks_per_group sb"
  have "?n mod ?k \<noteq> 0" using assms(4) by (simp add: dvd_eq_mod_eq_0)
  then have c: "bg_count sb = ?n div ?k + 1" using assms(1) by (simp add: div_ceil_def)
  have "?n mod ?k \<le> ?k - 1" using mod_less_divisor [OF assms(3), of ?n] by linarith
  then have "?n \<le> ?k * (?n div ?k) + (?k - 1)" using mult_div_mod_eq [of ?k ?n] by linarith
  with c assms(2) show ?thesis
    by (simp add: bg_blocks_count_of_def lba_from_bgid_index_def)
qed

lemma bg_store_flags_clears_witness:
  "\<exists>d'. bg_store_flags 3 demo_sb (replicate 64 1) = Inr d' \<and> read_u16 d' 0x12 = Inr 0"
proof -
  have l: "length (replicate 64 (1 :: byte)) = 64" by simp
  obtain d1 where d1: "write_u16 0x12 0 (replicate 64 1) = Inr d1"
    using write_defined(2) [of "0x12" "replicate 64 1" 0] l by auto
  then have "0x20 \<le> length d1" using write_length(2) [OF d1] l by simp
  from bg_update_csum_defined [OF this] obtain d' where
    d': "bg_store_flags 3 demo_sb (replicate 64 1) = Inr d'"
    using d1 by (auto simp: bg_store_flags_def)
  have "bg_has 1 INODE_UNINIT" by (simp add: bg_has_def INODE_UNINIT_def)
  from bg_store_flags_clears [OF d' this] d' show ?thesis by blast
qed

lemma last_group_counts_missing_blocks_witness:
  "bg_blocks_count_of (demo_sb\<lparr>first_data_block := 0\<rparr>) 3 = Inr 8192 \<and>
   (30000 :: nat) \<le> lba_from_bgid_index (demo_sb\<lparr>first_data_block := 0\<rparr>) 3 8191"
  using last_group_counts_missing_blocks [of "demo_sb\<lparr>first_data_block := 0\<rparr>"]
  by (simp add: demo_sb_def div_ceil_def dvd_eq_mod_eq_0)

lemma init_block_bitmap_bits_witness:
  "\<exists>bm. init_block_bitmap 1024 demo_sb 3 1 512 (replicate 1024 0) = Inr bm \<and>
     bit_at bm 5424 \<and> \<not> bit_at bm 5000"
proof -
  have hyps: "length (replicate 1024 (0 :: byte)) = 1024" "blocks_per_group demo_sb \<le> 1024 * 8"
    "first_data_block demo_sb + 1 + 512 + 4 \<le> 1024 * 8"
    "(3 + 1) * blocks_per_group demo_sb - blocks_count demo_sb \<le> blocks_per_group demo_sb"
    by (simp_all add: demo_sb_def)
  from init_block_bitmap_ok [OF hyps] obtain bm where
    bm: "init_block_bitmap 1024 demo_sb 3 1 512 (replicate 1024 0) = Inr bm" by blast
  note bits = conjunct2 [OF init_block_bitmap_bits [OF bm hyps(1-3)], rule_format]
  have z: "\<not> bit_at (replicate 1024 0) 5000" by (simp add: bit_at_def)
  have "bit_at bm 5424" using bits [of 5424] by (simp add: demo_sb_def)
  moreover have "\<not> bit_at bm 5000"
    using bits [of 5000] z by (simp add: demo_sb_def)
  ultimately show ?thesis using bm by blast
qed

end
