(* ===== verification/Tx_Log.thy ===== *)
theory Tx_Log
  imports Block_Store Inode_Raw
begin

text \<open>
  The log of a transaction (\<open>src/transaction/mod.rs\<close>, the types of \<open>src/transaction/event.rs\<close>):
  operations do not write metadata but append events, which are applied when the transaction
  is done (\<open>Transaction\<close>). A \<open>tx\<close> also carries the collector of the blocks modified in place.
\<close>

datatype event =
    BlockAllocationOnBg (ev_ino: nat) (ev_bgid: nat) (ev_bitmap: nat) (ev_ofs: nat) (ev_count: nat)
  | BlockDeallocationOnBg (ev_ino: nat) (ev_bgid: nat) (ev_bitmap: nat) (ev_ofs: nat) (ev_count: nat)
  | InodeAllocationOnBg (ev_bgid: nat) (ev_bitmap: nat) (ev_ofs: nat) (ev_de: file_type)
  | InodeDeallocationOnBg (ev_ino: nat) (ev_bgid: nat) (ev_bitmap: nat) (ev_ofs: nat) (ev_de: file_type)
  | InodeSetSize (ev_ino: nat) (ev_size: "64 word") (ev_address: raw_addressing)
  | InodeAddLink (ev_ino: nat)
  | InodeRmLink (ev_ino: nat)
  | InodeUpdateOrphanLink (ev_pred: nat) (ev_succ: nat)
  | FreeInodesCountDecOnSb
  | FreeInodesCountIncOnSb

datatype postlude = PostBlockDeallocation nat nat nat | PostInodeDeallocation nat

record tx =
  tx_events :: "event list"
  tx_col :: collector

definition open_transaction :: tx where
  "open_transaction = \<lparr>tx_events = [], tx_col = collector_default\<rparr>"

definition push_event :: "event \<Rightarrow> tx \<Rightarrow> tx" where
  "push_event e t = t\<lparr>tx_events := tx_events t @ [e]\<rparr>"

definition block_allocation_on_bg :: "nat \<Rightarrow> nat \<Rightarrow> nat \<Rightarrow> nat \<Rightarrow> nat \<Rightarrow> tx \<Rightarrow> tx" where
  "block_allocation_on_bg ino bgid bitmap_lba ofs count =
     push_event (BlockAllocationOnBg ino bgid bitmap_lba ofs count)"

definition block_deallocation_on_bg :: "nat \<Rightarrow> nat \<Rightarrow> nat \<Rightarrow> nat \<Rightarrow> nat \<Rightarrow> tx \<Rightarrow> tx" where
  "block_deallocation_on_bg ino bgid bitmap_lba ofs count =
     push_event (BlockDeallocationOnBg ino bgid bitmap_lba ofs count)"

definition inode_allocation_on_bg :: "nat \<Rightarrow> nat \<Rightarrow> nat \<Rightarrow> file_type \<Rightarrow> tx \<Rightarrow> tx" where
  "inode_allocation_on_bg bgid bitmap_lba ofs de =
     push_event (InodeAllocationOnBg bgid bitmap_lba ofs de)"

definition inode_deallocation_on_bg :: "nat \<Rightarrow> nat \<Rightarrow> nat \<Rightarrow> nat \<Rightarrow> file_type \<Rightarrow> tx \<Rightarrow> tx" where
  "inode_deallocation_on_bg ino bgid bitmap_lba ofs de =
     push_event (InodeDeallocationOnBg ino bgid bitmap_lba ofs de)"

definition free_inodes_count_dec_on_sb :: "tx \<Rightarrow> tx" where
  "free_inodes_count_dec_on_sb = push_event FreeInodesCountDecOnSb"

definition free_inodes_count_inc_on_sb :: "tx \<Rightarrow> tx" where
  "free_inodes_count_inc_on_sb = push_event FreeInodesCountIncOnSb"

definition inode_set_size :: "nat \<Rightarrow> 64 word \<Rightarrow> raw_addressing \<Rightarrow> tx \<Rightarrow> tx" where
  "inode_set_size ino sz address = push_event (InodeSetSize ino sz address)"

definition inode_add_link :: "nat \<Rightarrow> tx \<Rightarrow> tx" where
  "inode_add_link ino = push_event (InodeAddLink ino)"

definition inode_rm_link :: "nat \<Rightarrow> tx \<Rightarrow> tx" where
  "inode_rm_link ino = push_event (InodeRmLink ino)"

definition inode_update_orphan_link :: "nat \<Rightarrow> nat \<Rightarrow> tx \<Rightarrow> tx" where
  "inode_update_orphan_link pred succ = push_event (InodeUpdateOrphanLink pred succ)"

text \<open>Dropping a transaction that was not done is \<open>todo!()\<close> as soon as it has logged anything.\<close>

definition events_drop :: "tx \<Rightarrow> unit result" where
  "events_drop t = assertR (tx_events t = [])"

lemma push_event_simps [simp]:
  "tx_events (push_event e t) = tx_events t @ [e]" "tx_col (push_event e t) = tx_col t"
  by (simp_all add: push_event_def)

lemmas log_defs = block_allocation_on_bg_def block_deallocation_on_bg_def inode_allocation_on_bg_def
  inode_deallocation_on_bg_def free_inodes_count_dec_on_sb_def free_inodes_count_inc_on_sb_def
  inode_set_size_def inode_add_link_def inode_rm_link_def inode_update_orphan_link_def

end
