(* ===== verification/Fs_State.thy ===== *)
theory Fs_State
  imports Bitmap Buddy Block_Group Tx_Log
begin

text \<open>
  The state of a mounted file system (\<open>src/filesystem.rs\<close>, \<open>src/block/mod.rs\<close>): superblock,
  block groups (loaded on first use), block cache, buddy allocator, inode bitmaps and the
  device with its two operations. Loading a group turns its bitmap into free chunks of the
  buddy allocator (\<open>build_buddy\<close>).
\<close>

section \<open>State\<close>

record 'd fs =
  blk_size :: nat
  conf_rd :: "'d \<Rightarrow> nat \<Rightarrow> nat \<Rightarrow> bytes result"
  conf_wr :: "nat \<Rightarrow> bytes \<Rightarrow> 'd \<Rightarrow> 'd result"
  disk :: 'd
  fs_sb :: superblock
  block_groups :: "block_group option list"
  blocks :: bcache
  allocator :: buddy
  ino_bitmaps :: "bytes option list"
  last_inode_bg_id :: nat

definition fs_get_block :: "nat \<Rightarrow> 'd fs \<Rightarrow> (bytes \<times> 'd fs) result" where
  "fs_get_block lba fs =
     rmap (\<lambda>(b, bc). (b, fs\<lparr>blocks := bc\<rparr>)) (blk_get (conf_rd fs) (disk fs) (blk_size fs) lba (blocks fs))"

definition fs_modify_block ::
  "nat \<Rightarrow> (bytes \<Rightarrow> bytes result) \<Rightarrow> 'd fs \<times> collector \<Rightarrow> ('d fs \<times> collector) result" where
  "fs_modify_block lba f st =
     rmap (\<lambda>(_, bc, c). ((fst st)\<lparr>blocks := bc\<rparr>, c))
       (blk_modify (conf_rd (fst st)) (disk (fst st)) (blk_size (fst st)) lba (\<lambda>b. rmap (Pair ()) (f b))
         (blocks (fst st), snd st))"

section \<open>Building the buddy allocator\<close>

lemma find_zero_Some:
  assumes "find_zero bm pos = Some z"
  shows "pos \<le> z" "z < 8 * length bm" "\<not> bit_at bm z" "\<And>q. pos \<le> q \<Longrightarrow> q < z \<Longrightarrow> bit_at bm q"
  using find_zero_ok [of bm pos] assms by (auto simp: first_from_def)

lemma find_one_after_zero:
  assumes "\<not> bit_at bm z" and "find_one bm z = Some p"
  shows "z < p" "p < 8 * length bm" "bit_at bm p" "\<And>q. z \<le> q \<Longrightarrow> q < p \<Longrightarrow> \<not> bit_at bm q"
proof -
  have f: "z \<le> p" "p < 8 * length bm" "bit_at bm p" "\<forall>q. z \<le> q \<and> q < p \<longrightarrow> \<not> bit_at bm q"
    using find_one_ok [of bm z] assms(2) by (auto simp: first_from_def)
  moreover from f(1,3) assms(1) have "z \<noteq> p" by auto
  ultimately show "z < p" "p < 8 * length bm" "bit_at bm p" "\<And>q. z \<le> q \<Longrightarrow> q < p \<Longrightarrow> \<not> bit_at bm q"
    by auto
qed

text \<open>One run of clear bits: its start and the position after it.\<close>

definition next_free_run :: "bytes \<Rightarrow> nat \<Rightarrow> nat \<Rightarrow> (nat \<times> nat) result option" where
  "next_free_run bm count pos =
     (case find_zero bm pos of
        None \<Rightarrow> None
      | Some z \<Rightarrow>
          Some (rmap (\<lambda>len. (z, z + len))
            (sub_nat (case find_one bm z of Some p \<Rightarrow> p | None \<Rightarrow> count) z)))"

lemma next_free_run_less:
  assumes "next_free_run bm count pos = Some (Inr (z, p))" and "pos < count"
  shows "pos < p"
proof -
  have z: "find_zero bm pos = Some z" using assms(1)
    by (auto simp: next_free_run_def rmap_Inr_iff split: option.splits)
  note fz = find_zero_Some [OF z]
  show ?thesis
  proof (cases "find_one bm z")
    case None
    with assms z show ?thesis by (auto simp: next_free_run_def rmap_Inr_iff)
  next
    case (Some q)
    with find_one_after_zero [OF fz(3) Some] fz(1) assms z show ?thesis
      by (auto simp: next_free_run_def rmap_Inr_iff)
  qed
qed

function build_buddy_loop :: "superblock \<Rightarrow> nat \<Rightarrow> nat \<Rightarrow> bytes \<Rightarrow> nat \<Rightarrow> buddy \<Rightarrow> buddy result" where
  "build_buddy_loop sb bgid count bm pos b =
     (if pos < count
      then (case next_free_run bm count pos of
              None \<Rightarrow> Inr b
            | Some (Inl e) \<Rightarrow> Inl e
            | Some (Inr (z, p)) \<Rightarrow>
               (case push_chunk (lba_from_bgid_index sb bgid z) (p - z) b of
                  Inl e \<Rightarrow> Inl e
                | Inr b' \<Rightarrow> build_buddy_loop sb bgid count bm p b'))
      else Inr b)"
  by pat_completeness auto
termination
  by (relation "measure (\<lambda>(sb, bgid, count, bm, pos, b). count - pos)")
    (auto intro!: diff_less_mono2 dest: next_free_run_less)

declare build_buddy_loop.simps [simp del]

definition build_buddy :: "block_group \<Rightarrow> 'd fs \<Rightarrow> 'd fs result" where
  "build_buddy bg fs =
     rbind (fs_get_block (block_bitmap_lba bg) fs) (\<lambda>(bm, fs).
     rbind (build_buddy_loop (fs_sb fs) (bg_id bg) (bg_blocks_count bg) bm 0 (allocator fs)) (\<lambda>b.
     Inr (fs\<lparr>allocator := b\<rparr>)))"

section \<open>Block groups\<close>

text \<open>
  \<open>get_block_group\<close>: a group that is not in memory is read from the disk; the transaction
  around it has no events, so it only writes back the blocks that \<open>verify\<close> initialised.
\<close>

definition get_block_group :: "nat \<Rightarrow> 'd fs \<Rightarrow> (block_group \<times> 'd fs) result" where
  "get_block_group bgid fs =
     rbind (assertR (bgid < length (block_groups fs))) (\<lambda>_.
     case block_groups fs ! bgid of
       Some bg \<Rightarrow> Inr (bg, fs)
     | None \<Rightarrow>
         rbind (bg_from_disk (conf_rd fs) (disk fs) (blk_size fs) (fs_sb fs) bgid
                  (blocks fs, collector_default)) (\<lambda>(bg, bc, col).
         rbind (collector_io (conf_wr fs) (blk_size fs) (sorted_list_of_set (modifications col))
                  (is_sb_dirty col) (manipulator (fs_sb fs)) bc (disk fs)) (\<lambda>d.
         rbind (build_buddy bg (fs\<lparr>blocks := bc, disk := d,
                  block_groups := (block_groups fs)[bgid := Some bg]\<rparr>)) (\<lambda>fs.
         Inr (bg, fs)))))"

definition set_block_group :: "nat \<Rightarrow> block_group \<Rightarrow> 'd fs \<Rightarrow> 'd fs" where
  "set_block_group bgid bg fs = fs\<lparr>block_groups := (block_groups fs)[bgid := Some bg]\<rparr>"

text \<open>\<open>FileSystem::new\<close> loads every group and ignores the errors, but not the panics, of doing so.\<close>

fun load_groups :: "nat list \<Rightarrow> 'd fs \<Rightarrow> 'd fs result" where
  "load_groups [] fs = Inr fs"
| "load_groups (i # is) fs =
     (case get_block_group i fs of
        Inr (_, fs') \<Rightarrow> load_groups is fs'
      | Inl (Fs e) \<Rightarrow> load_groups is fs
      | Inl Panic \<Rightarrow> Inl Panic)"

definition fs_new ::
  "('d \<Rightarrow> nat \<Rightarrow> nat \<Rightarrow> bytes result) \<Rightarrow> (nat \<Rightarrow> bytes \<Rightarrow> 'd \<Rightarrow> 'd result) \<Rightarrow> nat \<Rightarrow> 'd \<Rightarrow>
   superblock \<Rightarrow> 'd fs result" where
  "fs_new rd wr n d sb =
     rbind (allocator_new n) (\<lambda>alloc.
     load_groups [0..<bg_count sb]
       \<lparr>blk_size = n, conf_rd = rd, conf_wr = wr, disk = d, fs_sb = sb,
        block_groups = replicate (bg_count sb) None, blocks = Map.empty, allocator = alloc,
        ino_bitmaps = replicate (bg_count sb) None, last_inode_bg_id = 0\<rparr>)"

definition open_fs ::
  "('d \<Rightarrow> nat \<Rightarrow> nat \<Rightarrow> bytes result) \<Rightarrow> (nat \<Rightarrow> bytes \<Rightarrow> 'd \<Rightarrow> 'd result) \<Rightarrow> nat \<Rightarrow> 'd \<Rightarrow> 'd fs result" where
  "open_fs rd wr n d = rbind (new_sb (rd d) n) (fs_new rd wr n d)"

section \<open>The buddy allocator holds exactly the clear bits\<close>

definition group_blocks :: "superblock \<Rightarrow> nat \<Rightarrow> nat set \<Rightarrow> nat set" where
  "group_blocks sb bgid I = lba_from_bgid_index sb bgid ` I"

lemma group_blocks_run:
  "z \<le> p \<Longrightarrow> {lba_from_bgid_index sb bgid z..<lba_from_bgid_index sb bgid z + (p - z)} =
    group_blocks sb bgid {z..<p}"
proof -
  assume zp: "z \<le> p"
  obtain c where c: "\<And>i. lba_from_bgid_index sb bgid i = c + i"
    by (cases "first_data_block sb = 0")
      (auto simp: lba_from_bgid_index_def intro: that [of "blocks_per_group sb * bgid"]
        that [of "blocks_per_group sb * bgid + 1"])
  have "(\<lambda>i. c + i) ` {z..<p} = {c + z..<c + p}"
    by (auto simp: image_iff intro!: bexI [of _ "_ - c"])
  with zp show ?thesis by (simp add: group_blocks_def c)
qed

lemma group_blocks_disjoint:
  "I \<inter> J = {} \<Longrightarrow> group_blocks sb bgid I \<inter> group_blocks sb bgid J = {}"
  by (auto simp: group_blocks_def lba_from_bgid_index_def split: if_splits)

lemma build_buddy_loop_ok:
  assumes "buddy_wf b" and "group_blocks sb bgid {pos..<count} \<inter> free b = {}"
    and "count \<le> 8 * length bm" and "\<And>q. count \<le> q \<Longrightarrow> q < 8 * length bm \<Longrightarrow> bit_at bm q"
  shows "\<exists>b'. build_buddy_loop sb bgid count bm pos b = Inr b' \<and> buddy_wf b' \<and>
    free b' = free b \<union> group_blocks sb bgid {i. pos \<le> i \<and> i < count \<and> \<not> bit_at bm i}"
  using assms
proof (induction sb bgid count bm pos b rule: build_buddy_loop.induct)
  case (1 sb bgid count bm pos b)
  show ?case
  proof (cases "pos < count")
    case False
    then have "group_blocks sb bgid {i. pos \<le> i \<and> i < count \<and> \<not> bit_at bm i} = {}"
      by (auto simp: group_blocks_def)
    with False 1(2) show ?thesis
      by (simp add: build_buddy_loop.simps [of sb bgid count bm pos b])
  next
    case pos: True
    show ?thesis
    proof (cases "find_zero bm pos")
      case None
      with find_zero_ok [of bm pos] 1(4)
      have "group_blocks sb bgid {i. pos \<le> i \<and> i < count \<and> \<not> bit_at bm i} = {}"
        by (auto simp: first_from_def group_blocks_def)
      with None pos 1(2) show ?thesis
        by (simp add: build_buddy_loop.simps [of sb bgid count bm pos b] next_free_run_def)
    next
      case (Some z)
      note fz = find_zero_Some [OF Some]
      have zc: "z < count" using 1(5) [of z] fz(2,3) by (meson not_le)
      define p where "p = (case find_one bm z of Some p \<Rightarrow> p | None \<Rightarrow> count)"
      have p: "z < p" "p \<le> count" "\<forall>q. z \<le> q \<and> q < p \<longrightarrow> \<not> bit_at bm q"
      proof -
        show "z < p" using zc find_one_after_zero(1) [OF fz(3)] by (auto simp: p_def split: option.splits)
        show "\<forall>q. z \<le> q \<and> q < p \<longrightarrow> \<not> bit_at bm q"
          using find_one_ok [of bm z] 1(4) by (auto simp: p_def first_from_def split: option.splits)
        then show "p \<le> count"
          using 1(5) [of count] zc find_one_after_zero(2) [OF fz(3)]
          by (auto simp: p_def split: option.splits) (meson less_imp_le_nat not_le order_less_trans)
      qed
      have run: "next_free_run bm count pos = Some (Inr (z, p))"
        using Some p(1) by (simp add: next_free_run_def p_def [symmetric] sub_nat_def)
      have sub: "group_blocks sb bgid I \<subseteq> group_blocks sb bgid {pos..<count}" if "I \<subseteq> {pos..<count}" for I
        using that by (auto simp: group_blocks_def)
      have "group_blocks sb bgid {z..<p} \<inter> free b = {}"
        using sub [of "{z..<p}"] fz(1) p(2) 1(3) by fastforce
      then obtain b1 where b1: "push_chunk (lba_from_bgid_index sb bgid z) (p - z) b = Inr b1"
        "buddy_wf b1" "free b1 = free b \<union> group_blocks sb bgid {z..<p}"
        using push_chunk_ok [OF 1(2)] group_blocks_run [of z p sb bgid] p(1) by (metis less_imp_le)
      have "group_blocks sb bgid {p..<count} \<inter> free b1 = {}"
        using sub [of "{p..<count}"] fz(1) p(1) 1(3) group_blocks_disjoint [of "{p..<count}" "{z..<p}" sb bgid]
        unfolding b1(3) by fastforce
      from 1(1) [OF pos run refl refl b1(1) b1(2) this 1(4) 1(5)] obtain b' where
        b': "build_buddy_loop sb bgid count bm p b1 = Inr b'" "buddy_wf b'"
        "free b' = free b1 \<union> group_blocks sb bgid {i. p \<le> i \<and> i < count \<and> \<not> bit_at bm i}" by blast
      have "{i. pos \<le> i \<and> i < count \<and> \<not> bit_at bm i} =
          {z..<p} \<union> {i. p \<le> i \<and> i < count \<and> \<not> bit_at bm i}"
        using p fz by fastforce
      then have "free b' = free b \<union> group_blocks sb bgid {i. pos \<le> i \<and> i < count \<and> \<not> bit_at bm i}"
        unfolding b'(3) b1(3) by (auto simp: group_blocks_def image_Un)
      moreover have "build_buddy_loop sb bgid count bm pos b = Inr b'"
        using pos run b1(1) b'(1) by (simp add: build_buddy_loop.simps [of sb bgid count bm pos b])
      ultimately show ?thesis using b'(2) by blast
    qed
  qed
qed

text \<open>C21: loading a group makes exactly its clear bitmap bits free blocks of the allocator, provided
  none of its blocks is free already and the bits after the end of the group are set.\<close>

theorem build_buddy_frees_clear_bits:
  assumes "buddy_wf b" and "group_blocks sb bgid {0..<count} \<inter> free b = {}"
    and "count \<le> 8 * length bm" and "\<forall>q. count \<le> q \<and> q < 8 * length bm \<longrightarrow> bit_at bm q"
  shows "\<exists>b'. build_buddy_loop sb bgid count bm 0 b = Inr b' \<and> buddy_wf b' \<and>
    free b' = free b \<union> group_blocks sb bgid {i. i < count \<and> \<not> bit_at bm i}"
  using build_buddy_loop_ok [OF assms(1-3)] assms(4) by simp

lemma build_buddy_frees_clear_bits_witness:
  "\<exists>b'. build_buddy_loop demo_sb 1 12 [0x0f, 0xf3] 0 (buddy_new 3) = Inr b' \<and>
    free b' = {8197, 8198, 8199, 8200, 8203, 8204}"
proof -
  have bits: "bit_at [0x0f, 0xf3] q \<longleftrightarrow> q \<in> {0, 1, 2, 3, 8, 9, 12, 13, 14, 15}" if "q < 16" for q
  proof -
    have "q = 0 \<or> q = 1 \<or> q = 2 \<or> q = 3 \<or> q = 4 \<or> q = 5 \<or> q = 6 \<or> q = 7 \<or> q = 8 \<or> q = 9 \<or>
        q = 10 \<or> q = 11 \<or> q = 12 \<or> q = 13 \<or> q = 14 \<or> q = 15"
      using that by presburger
    then show ?thesis by (elim disjE) (simp_all add: bit_at_def)
  qed
  then have "\<forall>q. 12 \<le> q \<and> q < 8 * length [0x0f, 0xf3 :: byte] \<longrightarrow> bit_at [0x0f, 0xf3] q" by auto
  from build_buddy_frees_clear_bits [OF buddy_new_wf _ _ this, of demo_sb 1 3] obtain b' where
    b': "build_buddy_loop demo_sb 1 12 [0x0f, 0xf3] 0 (buddy_new 3) = Inr b'"
    "free b' = group_blocks demo_sb 1 {i. i < 12 \<and> \<not> bit_at [0x0f, 0xf3] i}"
    by (auto simp: buddy_new_free)
  have "q < 12 \<and> \<not> bit_at [0x0f, 0xf3] q \<longleftrightarrow> q = 4 \<or> q = 5 \<or> q = 6 \<or> q = 7 \<or> q = 10 \<or> q = 11" for q
  proof (cases "q < 12")
    case True
    then have b: "bit_at [0x0f, 0xf3] q \<longleftrightarrow> q \<in> {0, 1, 2, 3, 8, 9, 12, 13, 14, 15}" by (simp add: bits)
    have "q < 12 \<and> q \<notin> {0, 1, 2, 3, 8, 9, 12, 13, 14, 15} \<longleftrightarrow>
        q = 4 \<or> q = 5 \<or> q = 6 \<or> q = 7 \<or> q = 10 \<or> q = 11"
      unfolding insert_iff empty_iff by presburger
    then show ?thesis unfolding b .
  qed auto
  then have "{i. i < 12 \<and> \<not> bit_at [0x0f, 0xf3] i} = {4, 5, 6, 7, 10, 11}" by auto
  with b' show ?thesis
    by (simp add: group_blocks_def lba_from_bgid_index_def demo_sb_def)
qed

end
