(* ===== verification/Block_Alloc.thy ===== *)
theory Block_Alloc
  imports Fs_State
begin

text \<open>
  Allocating and freeing blocks at the level of the file system (\<open>Allocator\<close> of
  \<open>src/block/allocator.rs\<close>, \<open>allocate_blocks\<close> of \<open>src/block_group/mod.rs\<close>): the buddy
  allocator chooses a run, the group's free counter is adjusted in memory, and the change of
  the bitmap is logged. Freeing only logs: the blocks become free when the transaction is done.
\<close>

definition bg_allocate_blocks :: "nat \<Rightarrow> nat \<Rightarrow> nat \<Rightarrow> block_group \<Rightarrow> tx \<Rightarrow> block_group \<times> tx" where
  "bg_allocate_blocks ino ofs count bg t =
     (bg_dec_free_blocks count bg,
      block_allocation_on_bg ino (bg_id bg) (block_bitmap_lba bg) ofs count t)"

definition fs_allocate ::
  "nat \<Rightarrow> nat \<Rightarrow> nat \<Rightarrow> 'd fs \<times> tx \<Rightarrow> ((nat \<times> nat) \<times> 'd fs \<times> tx) result" where
  "fs_allocate ino sz hope st =
     (case st of (fs, t) \<Rightarrow>
      rbind (assertR (sz \<noteq> 0)) (\<lambda>_.
      rbind (try_allocate_at (min sz (blk_size fs * 4)) (Some hope) (allocator fs)) (\<lambda>(r, b).
      let fs = fs\<lparr>allocator := b\<rparr>
      in case r of
           Some (lba, allocated) \<Rightarrow>
             rbind (unwrap (lba_into_bgid_index (fs_sb fs) lba)) (\<lambda>(bgid, index).
             rbind (get_block_group bgid fs) (\<lambda>(bg, fs).
             let (bg', t') = bg_allocate_blocks ino index allocated bg t
             in Inr ((lba_from_bgid_index (fs_sb fs) bgid index, allocated),
                     set_block_group bgid bg' fs, t')))
         | None \<Rightarrow> Inl (Fs FsFull))))"

text \<open>
  The loop of \<open>deallocate\<close>, one round per group. A round frees at least one block, so as many
  rounds as blocks are enough; a round that frees none would be repeated for ever.
\<close>

definition dealloc_round ::
  "nat \<Rightarrow> nat \<Rightarrow> nat \<Rightarrow> 'd fs \<times> tx \<Rightarrow> (nat \<times> 'd fs \<times> tx) result" where
  "dealloc_round ino lba sz st =
     (case st of (fs, t) \<Rightarrow>
      rbind (unwrap (lba_into_bgid_index (fs_sb fs) lba)) (\<lambda>(bgid, ofs).
      rbind (get_block_group bgid fs) (\<lambda>(bg, fs).
      rbind (sub_nat (bg_blocks_count bg) ofs) (\<lambda>rest.
      let count = min rest sz
      in Inr (count, fs, block_deallocation_on_bg ino bgid (block_bitmap_lba bg) ofs count t)))))"

fun dealloc_loop :: "nat \<Rightarrow> nat \<Rightarrow> nat \<Rightarrow> nat \<Rightarrow> 'd fs \<times> tx \<Rightarrow> ('d fs \<times> tx) result option" where
  "dealloc_loop fuel ino lba 0 st = Some (Inr st)"
| "dealloc_loop 0 ino lba (Suc k) st = None"
| "dealloc_loop (Suc fuel) ino lba (Suc k) st =
     (case dealloc_round ino lba (Suc k) st of
        Inl e \<Rightarrow> Some (Inl e)
      | Inr (count, st') \<Rightarrow> dealloc_loop fuel ino (lba + count) (Suc k - count) st')"

definition fs_deallocate :: "nat \<Rightarrow> nat \<Rightarrow> nat \<Rightarrow> 'd fs \<times> tx \<Rightarrow> ('d fs \<times> tx) result option" where
  "fs_deallocate ino lba sz st = dealloc_loop sz ino lba sz st"

section \<open>File systems with all groups loaded\<close>

definition groups_loaded :: "'d fs \<Rightarrow> bool" where
  "groups_loaded fs \<longleftrightarrow> length (block_groups fs) = bg_count (fs_sb fs) \<and>
     0 < blocks_per_group (fs_sb fs) \<and> bg_count (fs_sb fs) < 2 ^ 32 \<and>
     (\<forall>i < bg_count (fs_sb fs). \<exists>bg. block_groups fs ! i = Some bg \<and> bg_id bg = i \<and>
        bg_blocks_count bg = blocks_per_group (fs_sb fs))"

definition the_group :: "'d fs \<Rightarrow> nat \<Rightarrow> block_group" where
  "the_group fs i = the (block_groups fs ! i)"

lemma get_loaded_group:
  assumes "groups_loaded fs" and "i < bg_count (fs_sb fs)"
  shows "get_block_group i fs = Inr (the_group fs i, fs)" and "bg_id (the_group fs i) = i"
    and "bg_blocks_count (the_group fs i) = blocks_per_group (fs_sb fs)"
proof -
  from assms obtain bg where "block_groups fs ! i = Some bg" "bg_id bg = i"
    "bg_blocks_count bg = blocks_per_group (fs_sb fs)" by (auto simp: groups_loaded_def)
  with assms show "get_block_group i fs = Inr (the_group fs i, fs)" "bg_id (the_group fs i) = i"
    "bg_blocks_count (the_group fs i) = blocks_per_group (fs_sb fs)"
    by (simp_all add: get_block_group_def groups_loaded_def the_group_def)
qed

text \<open>The first block of the first group, and the end of the last one.\<close>

definition blocks_base :: "superblock \<Rightarrow> nat" where
  "blocks_base sb = (if first_data_block sb = 0 then 0 else 1)"

definition blocks_end :: "superblock \<Rightarrow> nat" where
  "blocks_end sb = blocks_base sb + bg_count sb * blocks_per_group sb"

lemma lba_into_bgid_index_in_range:
  assumes "0 < blocks_per_group sb" and "bg_count sb < 2 ^ 32"
    and "blocks_base sb \<le> lba" and "lba < blocks_end sb"
  obtains g i where "lba_into_bgid_index sb lba = Some (g, i)" "g < bg_count sb"
    "i < blocks_per_group sb" "lba_from_bgid_index sb g i = lba"
    "lba = blocks_base sb + g * blocks_per_group sb + i"
proof -
  define a where "a = lba - blocks_base sb"
  let ?k = "blocks_per_group sb"
  have a: "(if first_data_block sb \<noteq> 0 \<and> lba \<noteq> 0 then lba - 1 else lba) = a" "lba = blocks_base sb + a"
    using assms(3) by (auto simp: a_def blocks_base_def split: if_splits)
  have "a < bg_count sb * ?k" using assms(3,4) by (simp add: a_def blocks_end_def)
  then have g: "a div ?k < bg_count sb" by (simp add: less_mult_imp_div_less)
  then have t: "trunc 32 (a div ?k) = a div ?k" using assms(2) by (intro trunc_id) linarith
  have eq: "a = a div ?k * ?k + a mod ?k" by simp
  show thesis
  proof (rule that)
    show "lba_into_bgid_index sb lba = Some (a div ?k, a mod ?k)"
      unfolding lba_into_bgid_index_def a(1) Let_def t using g by simp
    show "a div ?k < bg_count sb" by (rule g)
    show "a mod ?k < ?k" using assms(1) by simp
    show "lba = blocks_base sb + a div ?k * ?k + a mod ?k" using a(2) eq by simp
    then show "lba_from_bgid_index sb (a div ?k) (a mod ?k) = lba"
      by (simp add: lba_from_bgid_index_def blocks_base_def)
  qed
qed

section \<open>Freeing logs exactly the run\<close>

text \<open>The blocks named by an event of freeing, as a list.\<close>

definition ev_blocks :: "superblock \<Rightarrow> event \<Rightarrow> nat list" where
  "ev_blocks sb e = (case e of
     BlockDeallocationOnBg ino g bitmap ofs count \<Rightarrow> map (lba_from_bgid_index sb g) [ofs..<ofs + count]
   | BlockAllocationOnBg ino g bitmap ofs count \<Rightarrow> map (lba_from_bgid_index sb g) [ofs..<ofs + count]
   | _ \<Rightarrow> [])"

definition dealloc_event_ok :: "'d fs \<Rightarrow> nat \<Rightarrow> event \<Rightarrow> bool" where
  "dealloc_event_ok fs ino e \<longleftrightarrow> (\<exists>g ofs count. e = BlockDeallocationOnBg ino g
      (block_bitmap_lba (the_group fs g)) ofs count \<and> g < bg_count (fs_sb fs) \<and>
      0 < count \<and> ofs + count \<le> blocks_per_group (fs_sb fs))"

lemma map_lba_from_upt:
  "map (lba_from_bgid_index sb g) [i..<i + n] =
     [lba_from_bgid_index sb g i..<lba_from_bgid_index sb g i + n]"
  by (rule nth_equalityI) (simp_all add: lba_from_bgid_index_def)

lemma dealloc_loop_ok:
  assumes "groups_loaded fs" and "blocks_base (fs_sb fs) \<le> lba" and "lba + sz \<le> blocks_end (fs_sb fs)"
    and "sz \<le> fuel"
  shows "\<exists>evs. dealloc_loop fuel ino lba sz (fs, t) = Some (Inr (fs, t\<lparr>tx_events := tx_events t @ evs\<rparr>)) \<and>
    concat (map (ev_blocks (fs_sb fs)) evs) = [lba..<lba + sz] \<and> list_all (dealloc_event_ok fs ino) evs"
  using assms(2-)
proof (induction fuel arbitrary: lba sz t)
  case 0
  then show ?case by (auto intro!: exI [of _ "[]"])
next
  case (Suc fuel)
  show ?case
  proof (cases sz)
    case 0
    then show ?thesis by (auto intro!: exI [of _ "[]"])
  next
    case (Suc k)
    let ?sb = "fs_sb fs"
    have gl: "0 < blocks_per_group ?sb" "bg_count ?sb < 2 ^ 32"
      using assms(1) by (simp_all add: groups_loaded_def)
    have "lba < blocks_end ?sb" using Suc.prems(2) Suc by simp
    from lba_into_bgid_index_in_range [OF gl Suc.prems(1) this] obtain g i where
      gi: "lba_into_bgid_index ?sb lba = Some (g, i)" "g < bg_count ?sb" "i < blocks_per_group ?sb"
        "lba_from_bgid_index ?sb g i = lba" .
    note G = get_loaded_group [OF assms(1) gi(2)]
    define c where "c = min (blocks_per_group ?sb - i) sz"
    have c: "0 < c" "c \<le> sz" "i + c \<le> blocks_per_group ?sb" using gi(3) Suc by (auto simp: c_def)
    let ?e = "BlockDeallocationOnBg ino g (block_bitmap_lba (the_group fs g)) i c"
    have round: "dealloc_round ino lba sz (fs, t) = Inr (c, fs, push_event ?e t)"
      using gi(1,3) G by (simp add: dealloc_round_def c_def log_defs sub_nat_def Let_def)
    have "blocks_base ?sb \<le> lba + c" "lba + c + (sz - c) \<le> blocks_end ?sb" "sz - c \<le> fuel"
      using Suc.prems c Suc by auto
    from Suc.IH [OF this] obtain evs where
      evs: "dealloc_loop fuel ino (lba + c) (sz - c) (fs, push_event ?e t) =
          Some (Inr (fs, (push_event ?e t)\<lparr>tx_events := tx_events (push_event ?e t) @ evs\<rparr>))"
        "concat (map (ev_blocks ?sb) evs) = [lba + c..<lba + c + (sz - c)]"
        "list_all (dealloc_event_ok fs ino) evs" by blast
    have "concat (map (ev_blocks ?sb) (?e # evs)) = [lba..<lba + c] @ [lba + c..<lba + sz]"
      using evs(2) c(2) gi(4) by (simp add: ev_blocks_def map_lba_from_upt)
    also have "\<dots> = [lba..<lba + sz]" using c(2) upt_add_eq_append [of lba "lba + c" "sz - c"] by simp
    finally have "concat (map (ev_blocks ?sb) (?e # evs)) = [lba..<lba + sz]" .
    moreover have "list_all (dealloc_event_ok fs ino) (?e # evs)"
      using evs(3) gi(2) c by (simp add: dealloc_event_ok_def)
    moreover have "dealloc_loop (Suc fuel) ino lba sz (fs, t) =
        Some (Inr (fs, t\<lparr>tx_events := tx_events t @ (?e # evs)\<rparr>))"
      using round evs(1) Suc by (simp add: push_event_def)
    ultimately show ?thesis by blast
  qed
qed

text \<open>freeing a run of blocks terminates and logs one event per group it touches; the events
  together name exactly the blocks of the run, in order, and each stays within its group.\<close>

theorem fs_deallocate_logs_run:
  assumes "groups_loaded fs" and "blocks_base (fs_sb fs) \<le> lba" and "lba + sz \<le> blocks_end (fs_sb fs)"
  shows "\<exists>evs. fs_deallocate ino lba sz (fs, t) = Some (Inr (fs, t\<lparr>tx_events := tx_events t @ evs\<rparr>)) \<and>
    concat (map (ev_blocks (fs_sb fs)) evs) = [lba..<lba + sz] \<and> list_all (dealloc_event_ok fs ino) evs"
  using dealloc_loop_ok [OF assms order_refl] by (simp add: fs_deallocate_def)

section \<open>Allocating\<close>

lemma fs_allocate_run:
  assumes gl: "groups_loaded fs" and wf: "buddy_wf (allocator fs)"
    and range: "free (allocator fs) \<subseteq> {blocks_base (fs_sb fs)..<blocks_end (fs_sb fs)}"
    and sz: "0 < sz" "0 < blk_size fs" "blk_size fs \<le> 4096"
  shows "(free (allocator fs) = {} \<and> fs_allocate ino sz hope (fs, t) = Inl (Fs FsFull)) \<or>
    (\<exists>p m fs' g i. fs_allocate ino sz hope (fs, t) = Inr ((p, m), fs',
        push_event (BlockAllocationOnBg ino g (block_bitmap_lba (the_group fs g)) i m) t) \<and>
      0 < m \<and> m \<le> sz \<and> m \<le> blk_size fs * 4 \<and> {p..<p + m} \<subseteq> free (allocator fs) \<and>
      buddy_wf (allocator fs') \<and> free (allocator fs') \<subseteq> free (allocator fs) - {p..<p + m} \<and>
      g < bg_count (fs_sb fs) \<and> i < blocks_per_group (fs_sb fs) \<and>
      lba_from_bgid_index (fs_sb fs) g i = p \<and>
      fs' = set_block_group g (bg_dec_free_blocks m (the_group fs g)) (fs\<lparr>allocator := allocator fs'\<rparr>))"
proof -
  let ?n = "min sz (blk_size fs * 4)"
  have n: "0 < ?n" "?n < 2 ^ 64" using sz by simp_all
  from try_allocate_at_ok [OF wf n] obtain r b' where
    r: "try_allocate_at ?n (Some hope) (allocator fs) = Inr (r, b')" "buddy_wf b'"
    and alt: "case r of None \<Rightarrow> free (allocator fs) = {} \<and> b' = allocator fs
     | Some (p, m) \<Rightarrow> 0 < m \<and> m \<le> ?n \<and> {p..<p + m} \<subseteq> free (allocator fs) \<and>
         free b' \<subseteq> free (allocator fs) - {p..<p + m}" by blast
  show ?thesis
  proof (cases r)
    case None
    with r alt sz show ?thesis by (simp add: fs_allocate_def)
  next
    case (Some pm)
    then obtain p m where pm: "r = Some (p, m)" by (cases pm) auto
    with alt have m: "0 < m" "m \<le> ?n" "{p..<p + m} \<subseteq> free (allocator fs)"
      "free b' \<subseteq> free (allocator fs) - {p..<p + m}" by simp_all
    then have "p \<in> free (allocator fs)" by (simp add: subsetD)
    with range have p: "blocks_base (fs_sb fs) \<le> p" "p < blocks_end (fs_sb fs)" by auto
    have "0 < blocks_per_group (fs_sb fs)" "bg_count (fs_sb fs) < 2 ^ 32"
      using gl by (simp_all add: groups_loaded_def)
    from lba_into_bgid_index_in_range [OF this p] obtain g i where
      gi: "lba_into_bgid_index (fs_sb fs) p = Some (g, i)" "g < bg_count (fs_sb fs)"
        "i < blocks_per_group (fs_sb fs)" "lba_from_bgid_index (fs_sb fs) g i = p" .
    let ?fs = "fs\<lparr>allocator := b'\<rparr>"
    have gl': "groups_loaded ?fs" using gl by (simp add: groups_loaded_def)
    have tg: "the_group ?fs g = the_group fs g" by (simp add: the_group_def)
    have "g < bg_count (fs_sb ?fs)" using gi(2) by simp
    note G = get_loaded_group(1,2) [OF gl' this, unfolded tg]
    let ?fs' = "set_block_group g (bg_dec_free_blocks m (the_group fs g)) ?fs"
    have "fs_allocate ino sz hope (fs, t) = Inr ((p, m), ?fs',
        push_event (BlockAllocationOnBg ino g (block_bitmap_lba (the_group fs g)) i m) t)"
      using r(1) pm gi(1,4) G sz
      by (simp add: fs_allocate_def bg_allocate_blocks_def log_defs Let_def)
    moreover have "allocator ?fs' = b'" by (simp add: set_block_group_def)
    ultimately show ?thesis using m gi r(2) by fastforce
  qed
qed

text \<open>C8: an allocation takes only free blocks, at most as many as asked for and as four blocks'
  worth of bits, names its first block correctly, lowers the free counter of that block's group
  and logs the run in it; it fails only when no block is free.\<close>

theorem fs_allocate_ok:
  assumes gl: "groups_loaded fs" and wf: "buddy_wf (allocator fs)"
    and range: "free (allocator fs) \<subseteq> {blocks_base (fs_sb fs)..<blocks_end (fs_sb fs)}"
    and sz: "0 < sz" "0 < blk_size fs" "blk_size fs \<le> 4096"
  shows "(free (allocator fs) = {} \<and> fs_allocate ino sz hope (fs, t) = Inl (Fs FsFull)) \<or>
    (\<exists>p m fs' g i. fs_allocate ino sz hope (fs, t) = Inr ((p, m), fs',
        push_event (BlockAllocationOnBg ino g (block_bitmap_lba (the_group fs g)) i m) t) \<and>
      0 < m \<and> m \<le> sz \<and> m \<le> blk_size fs * 4 \<and> {p..<p + m} \<subseteq> free (allocator fs) \<and>
      buddy_wf (allocator fs') \<and> free (allocator fs') \<subseteq> free (allocator fs) - {p..<p + m} \<and>
      g < bg_count (fs_sb fs) \<and> i < blocks_per_group (fs_sb fs) \<and>
      lba_from_bgid_index (fs_sb fs) g i = p \<and>
      fs' = set_block_group g (bg_dec_free_blocks m (the_group fs g)) (fs\<lparr>allocator := allocator fs'\<rparr>))"
  using assms by (rule fs_allocate_run)

section \<open>A concrete file system\<close>

definition demo_group :: "nat \<Rightarrow> block_group" where
  "demo_group i = \<lparr>bg_id = i, inode_table_first_block = 10 + 600 * i, block_bitmap_lba = 50 + i,
     inode_bitmap_lba = 6 + i, bg_blocks_count = 8192, bg_free_blocks = 100, bg_free_inodes = 50\<rparr>"

definition demo_fs :: "buddy \<Rightarrow> bytes fs" where
  "demo_fs b =
     \<lparr>blk_size = 1024, conf_rd = file_read_bytes, conf_wr = file_write_bytes, disk = [], fs_sb = demo_sb,
      block_groups = map (\<lambda>i. Some (demo_group i)) [0..<4], blocks = Map.empty, allocator = b,
      ino_bitmaps = [None, None, None, None], last_inode_bg_id = 0\<rparr>"

lemma demo_fs_loaded: "groups_loaded (demo_fs b)"
  by (simp add: groups_loaded_def demo_fs_def demo_sb_def demo_group_def del: upt_Suc)

lemma demo_fs_simps [simp]:
  "fs_sb (demo_fs b) = demo_sb" "allocator (demo_fs b) = b" "blk_size (demo_fs b) = 1024"
  "blocks_base demo_sb = 1" "blocks_end demo_sb = 32769"
  by (simp_all add: demo_fs_def blocks_base_def blocks_end_def demo_sb_def)

lemma fs_deallocate_logs_run_witness:
  "\<exists>evs. fs_deallocate 12 8190 10 (demo_fs one_chunk, open_transaction) =
      Some (Inr (demo_fs one_chunk, open_transaction\<lparr>tx_events := evs\<rparr>)) \<and>
    concat (map (ev_blocks demo_sb) evs) = [8190..<8200]"
proof -
  have "blocks_base (fs_sb (demo_fs one_chunk)) \<le> 8190"
    "8190 + 10 \<le> blocks_end (fs_sb (demo_fs one_chunk))" by simp_all
  from fs_deallocate_logs_run [OF demo_fs_loaded this, of 12 open_transaction] show ?thesis
    by (simp add: open_transaction_def del: upt_Suc) blast
qed

lemma fs_allocate_ok_witness:
  "\<exists>p m fs' t'. fs_allocate 12 5 16 (demo_fs one_chunk, open_transaction) = Inr ((p, m), fs', t') \<and>
    0 < m \<and> m \<le> 5 \<and> {p..<p + m} \<subseteq> {16..<24}"
proof -
  have "free (allocator (demo_fs one_chunk)) \<subseteq>
      {blocks_base (fs_sb (demo_fs one_chunk))..<blocks_end (fs_sb (demo_fs one_chunk))}"
    by (auto simp: one_chunk_free)
  from fs_allocate_ok [OF demo_fs_loaded _ this, of 5 12 16 open_transaction] show ?thesis
    using one_chunk_wf one_chunk_free by auto
qed

text \<open>Two free blocks on both sides of the end of the first group.\<close>

definition two_chunks :: buddy where
  "two_chunks = \<lparr>max_order = 0, buddies = [{8192, 8193}], backref = [8192 \<mapsto> 0, 8193 \<mapsto> 0]\<rparr>"

text \<open>at a hoped-for block the allocator joins chunks of adjacent groups; the run is logged in
  the first group alone, at bits beyond its bitmap block, and writing the bitmap back panics.\<close>

theorem allocation_across_group_end:
  "\<exists>fs' t'. fs_allocate 12 2 8192 (demo_fs two_chunks, open_transaction) = Inr ((8192, 2), fs', t') \<and>
     tx_events t' = [BlockAllocationOnBg 12 0 50 8191 2] \<and>
     wb_set_bitmap 8191 2 (replicate 1024 0) = Inl Panic"
proof -
  have chain: "hope_chain two_chunks 8192 2 0 = 2"
    by (simp add: hope_chain.simps two_chunks_def)
  have take: "\<exists>b. hope_take 8192 2 2 0 two_chunks = Inr b"
    by (simp add: hope_take.simps [of 8192 2 2] hope_step_def bucket_remove_def two_chunks_def Let_def)
  have into: "lba_into_bgid_index demo_sb 8192 = Some (0, 8191)" "lba_from_bgid_index demo_sb 0 8191 = 8192"
    by (simp_all add: lba_into_bgid_index_def lba_from_bgid_index_def demo_sb_def trunc_def Let_def)
  have "\<not> flippable True {8191..<8191 + 2} (replicate 1024 0)" by (auto simp: flippable_def)
  then have "wb_set_bitmap 8191 2 (replicate 1024 0) = Inl Panic"
    unfolding wb_set_bitmap_def
    by (rule flips_Panic [OF run_over_bits_flips [OF set_one_bit_flips set_one_group_flips]])
  moreover obtain b where b: "try_allocate_at 2 (Some 8192) two_chunks = Inr (Some (8192, 2), b)"
    using chain take by (auto simp: try_allocate_at_def Let_def)
  moreover have "fs_allocate 12 2 8192 (demo_fs two_chunks, open_transaction) =
      Inr ((8192, 2), set_block_group 0 (bg_dec_free_blocks 2 (demo_group 0))
        (demo_fs two_chunks\<lparr>allocator := b\<rparr>),
        push_event (BlockAllocationOnBg 12 0 50 8191 2) open_transaction)"
    using b into
    by (simp add: fs_allocate_def get_block_group_def bg_allocate_blocks_def log_defs demo_fs_def
        demo_group_def Let_def)
  ultimately show ?thesis by (simp add: open_transaction_def)
qed

end
