(* ===== verification/Extent_Path.thy ===== *)
theory Extent_Path
  imports Extent_Node Block_Alloc Fs_Types
begin

text \<open>
  Walking and changing the extent tree (\<open>src/inode/extent/path.rs\<close>): a path from the root to a
  leaf node with an index at every level, loading it for a file block, inserting a leaf (merging
  with its predecessor, growing the tree, splitting a full node) and removing leafs from the end.
  A node of the path is named by its block; the path's reference keeps its contents in the cache.
  \<open>Leafs::get\<close> beyond the size of the path is not reached by any of these operations.
\<close>

section \<open>Paths\<close>

record path =
  p_ino :: nat
  p_tree :: extent_tree
  p_root :: "nat option"
  p_leafs :: "(nat \<times> nat option) list"
  p_cache :: "leaf option"

type_synonym 'd pst = "path \<times> 'd fs \<times> tx"

definition path_empty :: "nat \<Rightarrow> extent_tree \<Rightarrow> path" where
  "path_empty ino t = \<lparr>p_ino = ino, p_tree = t, p_root = None, p_leafs = [], p_cache = None\<rparr>"

definition leafs_push :: "nat \<times> nat option \<Rightarrow> (nat \<times> nat option) list \<Rightarrow> (nat \<times> nat option) list result" where
  "leafs_push v ls = (if length ls < 5 then Inr (ls @ [v]) else Inl Panic)"

definition path_len :: "path \<Rightarrow> nat" where
  "path_len p = 1 + length (p_leafs p)"

definition nth_leaf :: "path \<Rightarrow> nat \<Rightarrow> (nat \<times> nat option) result" where
  "nth_leaf p i = (if i < length (p_leafs p) then Inr (p_leafs p ! i) else Inl Panic)"

definition held :: "nat \<Rightarrow> 'd fs \<Rightarrow> bytes result" where
  "held lba fs = unwrap (blocks fs lba)"

text \<open>Dispatching on the entry at a level: the root at level 0, the nodes below it.\<close>

definition en_idx :: "path \<Rightarrow> nat \<Rightarrow> nat option result" where
  "en_idx p at = (if at = 0 then Inr (p_root p) else rmap snd (nth_leaf p (at - 1)))"

definition en_set_idx :: "nat \<Rightarrow> nat option \<Rightarrow> path \<Rightarrow> path" where
  "en_set_idx at i p =
     (if at = 0 then p\<lparr>p_root := i\<rparr>
      else p\<lparr>p_leafs := (p_leafs p)[at - 1 := (fst (p_leafs p ! (at - 1)), i)]\<rparr>)"

definition en_read :: "(extent_tree \<Rightarrow> 'a result) \<Rightarrow> (bytes \<Rightarrow> 'a result) \<Rightarrow> path \<Rightarrow> nat \<Rightarrow> 'd fs \<Rightarrow> 'a result" where
  "en_read on_root on_node p at fs =
     (if at = 0 then on_root (p_tree p)
      else rbind (nth_leaf p (at - 1)) (\<lambda>(lba, _). rbind (held lba fs) on_node))"

definition en_get :: "path \<Rightarrow> nat \<Rightarrow> nat \<Rightarrow> 'd fs \<Rightarrow> extent_entry option result" where
  "en_get p at i = en_read (\<lambda>t. et_get t i) (\<lambda>b. node_get b i) p at"

definition en_cnt :: "path \<Rightarrow> nat \<Rightarrow> 'd fs \<Rightarrow> nat result" where
  "en_cnt = en_read (\<lambda>t. Inr (et_entries_cnt t)) node_entries_cnt"

definition en_max :: "path \<Rightarrow> nat \<Rightarrow> 'd fs \<Rightarrow> nat result" where
  "en_max = en_read (\<lambda>t. Inr (et_max_entries_cnt t)) node_max_entries_cnt"

definition en_depth :: "path \<Rightarrow> nat \<Rightarrow> 'd fs \<Rightarrow> nat result" where
  "en_depth = en_read (\<lambda>t. Inr (et_depth t)) node_depth"

definition en_full :: "path \<Rightarrow> nat \<Rightarrow> 'd fs \<Rightarrow> bool result" where
  "en_full p at fs = rbind (en_cnt p at fs) (\<lambda>c. rmap (is_full c) (en_max p at fs))"

text \<open>The entry an index points to: \<open>index.and_then(|i| node.get(i))\<close>.\<close>

definition opt_get :: "(nat \<Rightarrow> extent_entry option result) \<Rightarrow> nat option \<Rightarrow> extent_entry option result" where
  "opt_get get i = (case i of None \<Rightarrow> Inr None | Some i \<Rightarrow> get i)"

text \<open>Writing to a block under a transaction.\<close>

definition tx_modify :: "nat \<Rightarrow> (bytes \<Rightarrow> ('a \<times> bytes) result) \<Rightarrow> 'd fs \<times> tx \<Rightarrow> ('a \<times> 'd fs \<times> tx) result" where
  "tx_modify lba f st =
     rmap (\<lambda>(a, bc, c). (a, (fst st)\<lparr>blocks := bc\<rparr>, (snd st)\<lparr>tx_col := c\<rparr>))
       (blk_modify (conf_rd (fst st)) (disk (fst st)) (blk_size (fst st)) lba f
         (blocks (fst st), tx_col (snd st)))"

definition tx_modify_noload ::
  "nat \<Rightarrow> (bytes \<Rightarrow> ('a \<times> bytes) result) \<Rightarrow> 'd fs \<times> tx \<Rightarrow> ('a \<times> 'd fs \<times> tx) result" where
  "tx_modify_noload lba f st =
     rmap (\<lambda>(a, bc, c). (a, (fst st)\<lparr>blocks := bc\<rparr>, (snd st)\<lparr>tx_col := c\<rparr>))
       (blk_modify_noload (blk_size (fst st)) lba f (blocks (fst st), tx_col (snd st)))"

definition en_write ::
  "(extent_tree \<Rightarrow> ('a \<times> extent_tree) result) \<Rightarrow> (bytes \<Rightarrow> ('a \<times> bytes) result) \<Rightarrow>
   nat \<Rightarrow> 'd pst \<Rightarrow> ('a \<times> 'd pst) result" where
  "en_write on_root on_node at pst = (case pst of (p, st) \<Rightarrow>
     if at = 0 then rmap (\<lambda>(a, t). (a, p\<lparr>p_tree := t\<rparr>, st)) (on_root (p_tree p))
     else rbind (nth_leaf p (at - 1)) (\<lambda>(lba, _). rmap (\<lambda>(a, st). (a, p, st)) (tx_modify lba on_node st)))"

text \<open>A refused insertion or replacement is an \<open>unreachable!()\<close>, a \<open>todo!()\<close> or an \<open>unwrap\<close>.\<close>

definition must :: "(bool \<times> 'a) result \<Rightarrow> 'a result" where
  "must m = rbind m (\<lambda>(ok, x). if ok then Inr x else Inl Panic)"

definition en_insert_at :: "extent_entry \<Rightarrow> nat \<Rightarrow> nat \<Rightarrow> 'd pst \<Rightarrow> 'd pst result" where
  "en_insert_at e i at pst = must (en_write (et_insert_at e i) (node_insert_at e i) at pst)"

definition en_replace_at :: "extent_entry \<Rightarrow> nat \<Rightarrow> nat \<Rightarrow> 'd pst \<Rightarrow> 'd pst result" where
  "en_replace_at e i at pst = must (en_write (et_replace_at e i) (node_replace_at e i) at pst)"

definition en_set_cnt :: "nat \<Rightarrow> nat \<Rightarrow> 'd pst \<Rightarrow> 'd pst result" where
  "en_set_cnt n at pst =
     rmap snd (en_write (\<lambda>t. Inr ((), t\<lparr>et_entries_cnt := n\<rparr>)) (\<lambda>b. rmap (Pair ()) (node_set_entries_cnt n b)) at pst)"

definition get_leaf :: "path \<Rightarrow> 'd fs \<Rightarrow> leaf option result" where
  "get_leaf p fs =
     (case p_cache p of
        Some l \<Rightarrow> Inr (Some l)
      | None \<Rightarrow>
         rbind (en_idx p (length (p_leafs p))) (\<lambda>i.
         rmap (\<lambda>en. case en of Some e \<Rightarrow> entry_leaf e | None \<Rightarrow> None)
           (opt_get (\<lambda>i. en_get p (length (p_leafs p)) i fs) i)))"

section \<open>Loading\<close>

text \<open>
  One level down: the node named by an internal entry, the index that \<open>pick\<close> chooses in it, and the
  entry there.
\<close>

fun load_levels ::
  "(bytes \<Rightarrow> nat option result) \<Rightarrow> nat \<Rightarrow> extent_entry option \<Rightarrow> (nat \<times> nat option) list \<Rightarrow> 'd fs \<Rightarrow>
   (extent_entry option \<times> (nat \<times> nat option) list \<times> 'd fs) result" where
  "load_levels pick 0 cur ls fs = Inr (cur, ls, fs)"
| "load_levels pick (Suc d) None ls fs = Inr (None, ls, fs)"
| "load_levels pick (Suc d) (Some e) ls fs =
     rbind (unwrap (next_node e)) (\<lambda>lba.
     rbind (fs_get_block lba fs) (\<lambda>(b, fs).
     rbind (node_from_bytes b) (\<lambda>_.
     rbind (pick b) (\<lambda>i.
     rbind (opt_get (node_get b) i) (\<lambda>cur.
     rbind (leafs_push (lba, i) ls) (\<lambda>ls.
     load_levels pick d cur ls fs))))))"

definition pick_last :: "bytes \<Rightarrow> nat option result" where
  "pick_last b = rbind (node_entries_cnt b) (\<lambda>c. rmap Some (sub_nat c 1))"

text \<open>\<open>Path::load\<close>; the read-only one also drops the cached leaf, the mutable one does not.\<close>

definition path_load :: "nat \<Rightarrow> path \<times> 'd fs \<Rightarrow> (path \<times> 'd fs) result" where
  "path_load fba st = (case st of (p, fs) \<Rightarrow>
     rbind (binary_search (\<lambda>t. Inr (et_entries_cnt t)) et_get fba (p_tree p)) (\<lambda>i.
     rbind (opt_get (et_get (p_tree p)) i) (\<lambda>cur.
     rmap (\<lambda>(_, ls, fs). (p\<lparr>p_root := i, p_leafs := ls\<rparr>, fs))
       (load_levels (binary_search node_entries_cnt node_get fba) (et_depth (p_tree p)) cur [] fs))))"

definition path_load_ro :: "nat \<Rightarrow> path \<times> 'd fs \<Rightarrow> (path \<times> 'd fs) result" where
  "path_load_ro fba st = rmap (\<lambda>(p, fs). (p\<lparr>p_cache := None\<rparr>, fs)) (path_load fba st)"

definition load_last :: "path \<times> 'd fs \<Rightarrow> (nat option \<times> path \<times> 'd fs) result" where
  "load_last st = (case st of (p, fs) \<Rightarrow>
     if 0 < et_entries_cnt (p_tree p)
     then let i = et_entries_cnt (p_tree p) - 1
          in rbind (et_get (p_tree p) i) (\<lambda>cur.
             rbind (load_levels pick_last (et_depth (p_tree p)) cur [] fs) (\<lambda>(cur, ls, fs).
             rbind (case cur of Some e \<Rightarrow> Inr e | None \<Rightarrow> rbind (et_get (p_tree p) i) unwrap) (\<lambda>e.
             rbind (unwrap (entry_leaf e)) (\<lambda>l.
             rmap (\<lambda>fba. (Some fba, p\<lparr>p_root := Some i, p_leafs := ls\<rparr>, fs)) (last_fba l)))))
     else Inr (None, p\<lparr>p_root := None, p_leafs := []\<rparr>, fs))"

definition load_path_to_last :: "path \<times> 'd fs \<Rightarrow> (path \<times> 'd fs) result" where
  "load_path_to_last st = (case st of (p, fs) \<Rightarrow>
     let i = (if 0 < et_entries_cnt (p_tree p) then Some (et_entries_cnt (p_tree p) - 1) else None)
     in rbind (opt_get (et_get (p_tree p)) i) (\<lambda>cur.
        rmap (\<lambda>(_, ls, fs). (p\<lparr>p_root := i, p_leafs := ls, p_cache := None\<rparr>, fs))
          (load_levels pick_last (et_depth (p_tree p)) cur [] fs)))"

section \<open>Inserting a leaf\<close>

text \<open>Does \<open>new\<close> continue the leaf in place? Evaluated as the chain of \<open>&&\<close> is.\<close>

definition continues :: "leaf \<Rightarrow> leaf \<Rightarrow> bool result" where
  "continues l new =
     rbind (chk 32 (lf_block l + lf_len l)) (\<lambda>e.
     if e = lf_block new
     then rbind (chk 64 (lf_start l + lf_len l)) (\<lambda>s.
       if s = lf_start new
       then rmap (\<lambda>n. n \<le> 0x8000 \<and> lf_init l) (chk 16 (lf_len l + lf_len new))
       else Inr False)
     else Inr False)"

text \<open>The first block of the ancestors follows the first block of a leaf inserted in front.\<close>

fun fix_firsts :: "nat \<Rightarrow> nat \<Rightarrow> nat \<Rightarrow> 'd pst \<Rightarrow> 'd pst result" where
  "fix_firsts 0 pos s pst = Inr pst"
| "fix_firsts (Suc k) pos s pst =
     (if pos \<noteq> 0 then Inr pst
      else rbind (rbind (en_idx (fst pst) k) unwrap) (\<lambda>i.
           rbind (rbind (en_get (fst pst) k i (fst (snd pst))) unwrap) (\<lambda>e.
           rbind (unwrap (get_internal e)) (\<lambda>(_, next).
           rbind (en_replace_at (Internal s next) i k pst) (\<lambda>pst.
           fix_firsts k i s pst)))))"

definition insert_leaf :: "leaf \<Rightarrow> 'd pst \<Rightarrow> (leaf option \<times> 'd pst) result" where
  "insert_leaf new pst = (case pst of (p, fs, t) \<Rightarrow>
     rbind (get_leaf p fs) (\<lambda>lf.
     if (case lf of Some l \<Rightarrow> lf_block l = lf_block new | None \<Rightarrow> False)
     then Inl (Fs (InvalidFs ''Extent tree is corrupted''))
     else
       let at = path_len p - 1
       in rbind (en_idx p at) (\<lambda>idx.
          rbind (opt_get (\<lambda>i. en_get p at i fs) idx) (\<lambda>cur.
          let old = (case cur of Some (Leaf l) \<Rightarrow> Some l | _ \<Rightarrow> None)
          in rbind (case old of Some l \<Rightarrow> continues l new | None \<Rightarrow> Inr False) (\<lambda>merge.
             if merge
             then rbind (unwrap idx) (\<lambda>i.
                  rmap (Pair None) (en_replace_at (Leaf ((the old)\<lparr>lf_len := lf_len (the old) + lf_len new\<rparr>)) i at pst))
             else rbind (en_full p at fs) (\<lambda>full.
                  if full then Inr (Some new, pst)
                  else rbind (case lf of
                           None \<Rightarrow> Inr 0
                         | Some l \<Rightarrow> rmap (\<lambda>i. if lf_block l < lf_block new then i + 1 else i) (unwrap idx)) (\<lambda>pos.
                       rbind (en_insert_at (Leaf new) pos at (en_set_idx at (Some pos) p, fs, t)) (\<lambda>pst.
                       rmap (Pair None) (fix_firsts at pos (lf_block new) pst)))))))))"

text \<open>A fresh node.\<close>

definition init_node :: "nat \<Rightarrow> nat \<Rightarrow> bytes \<Rightarrow> bytes result" where
  "init_node n depth b =
     rbind (write_u16 0 0xF30A b) (\<lambda>b.
     rbind (write_u16 2 0 b) (\<lambda>b.
     rbind (sub_nat n 16) (\<lambda>m.
     rbind (write_u16 4 (of_nat (m div 12)) b) (\<lambda>b.
     write_u16 6 (of_nat depth) b))))"

definition copy_entries :: "(nat \<Rightarrow> extent_entry option result) \<Rightarrow> nat \<Rightarrow> bytes \<Rightarrow> bytes result" where
  "copy_entries get n b =
     for_each [0..<n] (\<lambda>i b. rbind (rbind (get i) unwrap) (\<lambda>e. must (node_insert_at e i b))) b"

definition grow_extent :: "nat \<Rightarrow> 'd pst \<Rightarrow> 'd pst result" where
  "grow_extent ino pst = (case pst of (p, fs, t) \<Rightarrow>
     let root = p_tree p
     in rbind (et_get root 0) (\<lambda>e0.
        rbind (sub_nat ino 1) (\<lambda>i.
        rbind (assertR (0 < inodes_per_group (fs_sb fs))) (\<lambda>_.
        let hope = (case Option.bind e0 next_node of Some lba \<Rightarrow> lba | None \<Rightarrow> i div inodes_per_group (fs_sb fs))
        in rbind (fs_allocate (p_ino p) 1 hope (fs, t)) (\<lambda>((lba, _), st).
           rbind (tx_modify_noload lba (\<lambda>b.
               rbind (init_node (blk_size fs) (et_depth root) b) (\<lambda>b.
               rbind (unwrap_res (node_from_bytes b)) (\<lambda>_.
               rbind (copy_entries (et_get root) (et_entries_cnt root) b) (\<lambda>b.
               rbind (rbind (node_get b 0) unwrap) (\<lambda>e. Inr (first_block e, b)))))) st) (\<lambda>(first, st).
           rbind (chk 16 (et_depth root + 1)) (\<lambda>d.
           rbind (must (et_insert_at (Internal first lba) 0 (root\<lparr>et_entries_cnt := 0, et_depth := d\<rparr>))) (\<lambda>root.
           Inr (p\<lparr>p_tree := root\<rparr>, st)))))))))"

definition insert_internal :: "nat \<Rightarrow> nat \<Rightarrow> nat \<Rightarrow> 'd pst \<Rightarrow> (bool \<times> 'd pst) result" where
  "insert_internal block next at pst = (case pst of (p, fs, t) \<Rightarrow>
     rbind (en_full p at fs) (\<lambda>full.
     if full then Inr (False, pst)
     else rbind (en_idx p at) (\<lambda>idx.
          rbind (case idx of
              None \<Rightarrow> Inr 0
            | Some i \<Rightarrow> rmap (\<lambda>e. if first_block e < block then i + 1 else i) (rbind (en_get p at i fs) unwrap)) (\<lambda>loc.
          rmap (Pair True) (en_insert_at (Internal block next) loc at pst)))))"

fun alloc_nodes :: "nat \<Rightarrow> nat \<Rightarrow> 'd fs \<times> tx \<Rightarrow> (nat list \<times> 'd fs \<times> tx) result" where
  "alloc_nodes ino 0 st = Inr ([], st)"
| "alloc_nodes ino (Suc k) st =
     rbind (fs_allocate ino 1 0 st) (\<lambda>((lba, _), st).
     rbind (tx_modify_noload lba (\<lambda>b. Inr ((), b)) st) (\<lambda>(_, st).
     rmap (\<lambda>(lbas, st). (lba # lbas, st)) (alloc_nodes ino k st)))"

text \<open>Moving the entries behind the index of the last level to a new node; other levels are \<open>todo!()\<close>.\<close>

definition split_level :: "nat \<Rightarrow> nat \<Rightarrow> 'd pst \<Rightarrow> 'd pst result" where
  "split_level at lba pst = (case pst of (p, fs, t) \<Rightarrow>
     if at = path_len p - 1
     then rbind (en_depth p at fs) (\<lambda>depth.
          rbind (rbind (en_idx p at) unwrap) (\<lambda>base.
          rbind (en_cnt p at fs) (\<lambda>cnt.
          rbind (sub_nat cnt (base + 1)) (\<lambda>amount.
          rbind (tx_modify_noload lba (\<lambda>b.
              rbind (init_node (blk_size fs) depth b) (\<lambda>b.
              rbind (unwrap_res (node_from_bytes b)) (\<lambda>_.
              rmap (Pair ()) (copy_entries (\<lambda>i. en_get p at (base + i + 1) fs) amount b)))) (fs, t)) (\<lambda>(_, st).
          en_set_cnt (base + 1) at (p, st))))))
     else Inl Panic)"

definition split_at :: "leaf \<Rightarrow> nat \<Rightarrow> 'd pst \<Rightarrow> ((bool \<times> nat list) \<times> 'd pst) result" where
  "split_at new at pst = (case pst of (p, fs, t) \<Rightarrow>
     let last = path_len p - 1
     in rbind (en_idx p last) (\<lambda>idx.
        rbind (rbind (en_max p last fs) (\<lambda>m. sub_nat m 1)) (\<lambda>m.
        rbind (if idx = Some m then Inr (lf_block new)
               else rbind (unwrap idx) (\<lambda>i.
                    rbind (en_get p last (i + 1) fs) (\<lambda>e.
                    rmap first_block (ok_or e (InvalidFs ''Corrupted Extent Tree''))))) (\<lambda>insert_idx.
        rbind (sub_nat (path_len p) at) (\<lambda>n.
        rbind (alloc_nodes (p_ino p) n (fs, t)) (\<lambda>(lbas, st).
        rbind (for_each (zip [0..<n] lbas) (\<lambda>(d, lba). split_level (d + at) lba) (p, st)) (\<lambda>pst.
        rbind (unwrap (if lbas = [] then None else Some (hd lbas))) (\<lambda>lba.
        rbind (sub_nat at 1) (\<lambda>up.
        rbind (insert_internal insert_idx lba up pst) (\<lambda>(ok, pst).
        if ok then Inr ((insert_idx \<le> lf_block new, lbas), pst)
        else Inl (Fs (InvalidFs ''Extent Tree is corrupted.''))))))))))))"

definition as_io_error :: "'a result \<Rightarrow> 'a result" where
  "as_io_error m = (case m of Inl (Fs _) \<Rightarrow> Inl (Fs IoError) | _ \<Rightarrow> m)"

fun find_level :: "nat \<Rightarrow> path \<Rightarrow> 'd fs \<Rightarrow> nat option result" where
  "find_level 0 p fs = Inr None"
| "find_level (Suc k) p fs =
     rbind (en_full p k fs) (\<lambda>full. if full then find_level k p fs else Inr (Some k))"

text \<open>After a split the path continues in the new node.\<close>

definition set_node :: "nat \<Rightarrow> nat \<Rightarrow> path \<times> 'd fs \<Rightarrow> (path \<times> 'd fs) result" where
  "set_node level lba st = (case st of (p, fs) \<Rightarrow>
     rbind (nth_leaf p level) (\<lambda>_.
     rbind (held lba fs) (\<lambda>b.
     rbind (unwrap_res (node_from_bytes b)) (\<lambda>_.
     rbind (node_entries_cnt b) (\<lambda>c.
     Inr (p\<lparr>p_leafs := (p_leafs p)[level := (lba, if c = 0 then None else Some (c - 1))]\<rparr>, fs))))))"

text \<open>The loops of \<open>do_insert\<close> and \<open>insert\<close>, with a bound on their rounds (\<open>None\<close>: not finished yet).\<close>

fun do_insert :: "nat \<Rightarrow> leaf \<Rightarrow> nat \<Rightarrow> 'd pst \<Rightarrow> (leaf option \<times> 'd pst) result option" where
  "do_insert 0 new ino pst = None"
| "do_insert (Suc fuel) new ino pst =
     (case insert_leaf new pst of
        Inl e \<Rightarrow> Some (Inl e)
      | Inr (None, pst) \<Rightarrow> Some (Inr (None, pst))
      | Inr (Some new, pst) \<Rightarrow>
         (case find_level (path_len (fst pst)) (fst pst) (fst (snd pst)) of
            Inl e \<Rightarrow> Some (Inl e)
          | Inr None \<Rightarrow> Some (rmap (Pair (Some new)) (grow_extent ino pst))
          | Inr (Some level) \<Rightarrow>
             (case rbind (as_io_error (rbind (sub_nat (path_len (fst pst)) (level + 1)) (\<lambda>at. split_at new at pst)))
                (\<lambda>((fix, lbas), (p, fs, t)).
                  if fix
                  then rbind (en_idx p level) (\<lambda>i.
                       rmap (\<lambda>(p, fs). (p, fs, t))
                         (for_each lbas (set_node level)
                           (en_set_idx level (Some (case i of None \<Rightarrow> 0 | Some n \<Rightarrow> n + 1)) p, fs)))
                  else Inr (p, fs, t)) of
                Inl e \<Rightarrow> Some (Inl e)
              | Inr pst \<Rightarrow> do_insert fuel new ino pst)))"

fun path_insert_loop :: "nat \<Rightarrow> nat \<Rightarrow> leaf \<Rightarrow> nat \<Rightarrow> 'd pst \<Rightarrow> 'd pst result option" where
  "path_insert_loop 0 fba leaf ino pst = None"
| "path_insert_loop (Suc fuel) fba leaf ino pst =
     (case do_insert (Suc fuel) leaf ino pst of
        None \<Rightarrow> None
      | Some (Inl e) \<Rightarrow> Some (Inl e)
      | Some (Inr (None, pst)) \<Rightarrow> Some (Inr pst)
      | Some (Inr (Some leaf, (p, fs, t))) \<Rightarrow>
         (case path_load fba (p, fs) of
            Inl e \<Rightarrow> Some (Inl e)
          | Inr (p, fs) \<Rightarrow> path_insert_loop fuel fba leaf ino (p, fs, t)))"

definition path_insert :: "nat \<Rightarrow> leaf \<Rightarrow> nat \<Rightarrow> 'd pst \<Rightarrow> (nat \<times> 'd pst) result option" where
  "path_insert fuel leaf ino pst =
     map_option (rmap (Pair (lf_start leaf))) (path_insert_loop fuel (lf_block leaf) leaf ino pst)"

section \<open>Removing leafs from the end\<close>

text \<open>A call that may not return: \<open>None\<close>.\<close>

definition obind :: "'a result option \<Rightarrow> ('a \<Rightarrow> 'b result option) \<Rightarrow> 'b result option" where
  "obind m f = (case m of None \<Rightarrow> None | Some (Inl e) \<Rightarrow> Some (Inl e) | Some (Inr x) \<Rightarrow> f x)"

text \<open>
  \<open>move_prev_with_cleanup\<close>, upwards: the first argument is the number of nodes below the root in the
  path; \<open>False\<close> is the early return.
\<close>

fun cleanup_up :: "nat \<Rightarrow> 'd pst \<Rightarrow> (bool \<times> 'd pst) result option" where
  "cleanup_up 0 (p, fs, t) =
     Some (Inr (case p_root p of
        Some (Suc n) \<Rightarrow> (True, p\<lparr>p_root := Some n\<rparr>, fs, t)
      | _ \<Rightarrow> (False, p\<lparr>p_root := None\<rparr>, fs, t)))"
| "cleanup_up (Suc k) (p, fs, t) =
     obind (Some (nth_leaf p k)) (\<lambda>(lba, idx).
     case idx of
       None \<Rightarrow> Some (Inr (False, p, fs, t))
     | Some (Suc n) \<Rightarrow> Some (Inr (True, en_set_idx (Suc k) (Some n) p, fs, t))
     | Some 0 \<Rightarrow>
        obind (Some (rbind (held lba fs) node_entries_cnt)) (\<lambda>pcnt.
        let p = p\<lparr>p_leafs := butlast (p_leafs p)\<rparr>
        in if pcnt \<noteq> 0 then cleanup_up k (p, fs, t)
           else obind (Some (rbind (en_idx p k) unwrap)) (\<lambda>i.
                obind (Some (en_cnt p k fs)) (\<lambda>cnt.
                obind (Some (assertR (i + 1 = cnt))) (\<lambda>_.
                obind (Some (rbind (rbind (en_get p k i fs) unwrap) (\<lambda>e. unwrap (next_node e)))) (\<lambda>nxt.
                obind (Some (assertR (nxt = lba))) (\<lambda>_.
                obind (fs_deallocate (p_ino p) lba 1 (fs, t)) (\<lambda>(fs, t).
                obind (Some (en_set_cnt (cnt - 1) k (p, fs, t))) (\<lambda>pst.
                if cnt - 1 \<noteq> 0 then Some (Inr (True, pst)) else cleanup_up k pst)))))))))"

definition move_prev_with_cleanup :: "'d pst \<Rightarrow> 'd pst result option" where
  "move_prev_with_cleanup pst =
     obind (cleanup_up (length (p_leafs (fst pst))) pst) (\<lambda>(go, (p, fs, t)).
     if go
     then let at = length (p_leafs p)
          in Some (rbind (en_idx p at) (\<lambda>i.
             rbind (opt_get (\<lambda>i. en_get p at i fs) i) (\<lambda>cur.
             rmap (\<lambda>(_, ls, fs). (p\<lparr>p_leafs := ls\<rparr>, fs, t))
               (load_levels pick_last (length (p_leafs (fst pst)) - at) cur (p_leafs p) fs))))
     else Some (Inr (p, fs, t)))"

definition truncate_last :: "nat \<Rightarrow> 'd pst \<Rightarrow> 'd pst result option" where
  "truncate_last new_len pst = (case pst of (p, fs, t) \<Rightarrow>
     obind (Some (rbind (get_leaf p fs) unwrap)) (\<lambda>l.
     let p = p\<lparr>p_cache := None\<rparr>; at = length (p_leafs p)
     in obind (if lf_init l
               then obind (Some (chk 64 (lf_start l + new_len))) (\<lambda>lba.
                    obind (Some (sub_nat (lf_len l) new_len)) (\<lambda>n. fs_deallocate (p_ino p) lba n (fs, t)))
               else Some (Inr (fs, t))) (\<lambda>(fs, t).
        if new_len \<noteq> 0
        then Some (rbind (rbind (en_idx p at) unwrap) (\<lambda>i. en_replace_at (Leaf (l\<lparr>lf_len := new_len\<rparr>)) i at (p, fs, t)))
        else obind (Some (rbind (en_cnt p at fs) (\<lambda>c. en_set_cnt (c - 1) at (p, fs, t)))) move_prev_with_cleanup)))"

end
