(* ===== verification/Extent_Cursor.thy ===== *)
theory Extent_Cursor
  imports Extent_Path
begin

text \<open>
  Cursors over the blocks of a file (\<open>src/inode/extent/cursor.rs\<close>, the constructors in
  \<open>src/inode/extent/mod.rs\<close>): a block number of the file with the path loaded for it. Dropping a
  cursor stores its leaf in the tree's cache, which the next cursor starts from.
\<close>

record cursor =
  cu_fba :: nat
  cu_path :: path

section \<open>Reading\<close>

definition cur_current :: "nat \<Rightarrow> path \<Rightarrow> 'd fs \<Rightarrow> addressing_output option result" where
  "cur_current fba p fs =
     rbind (get_leaf p fs) (\<lambda>lf.
     case lf of
       None \<Rightarrow> Inr None
     | Some l \<Rightarrow>
         rbind (leaf_contains l fba) (\<lambda>inside.
         if inside
         then if lf_init l
              then rmap (\<lambda>lba. Some (Initialized lba)) (chk 64 (lf_start l + (fba - lf_block l)))
              else Inr (Some Uninitialized)
         else Inr None))"

definition cursor_from_fba ::
  "nat \<Rightarrow> extent_tree \<Rightarrow> leaf option \<Rightarrow> nat \<Rightarrow> 'd fs \<Rightarrow> (cursor \<times> 'd fs) result" where
  "cursor_from_fba ino t cache fba fs =
     rbind (case cache of Some l \<Rightarrow> leaf_contains l fba | None \<Rightarrow> Inr False) (\<lambda>hit.
     if hit then Inr (\<lparr>cu_fba = fba, cu_path = (path_empty ino t)\<lparr>p_cache := cache\<rparr>\<rparr>, fs)
     else rmap (\<lambda>(p, fs). (\<lparr>cu_fba = fba, cu_path = p\<rparr>, fs)) (path_load_ro fba (path_empty ino t, fs)))"

definition cur_move_next :: "cursor \<times> 'd fs \<Rightarrow> (cursor \<times> 'd fs) result" where
  "cur_move_next st = (case st of (cu, fs) \<Rightarrow>
     rbind (get_leaf (cu_path cu) fs) (\<lambda>lf.
     case lf of
       None \<Rightarrow> Inr (cu, fs)
     | Some l \<Rightarrow>
         rbind (chk 32 (cu_fba cu + 1)) (\<lambda>fba.
         rbind (leaf_contains l fba) (\<lambda>inside.
         if inside then Inr (cu\<lparr>cu_fba := fba\<rparr>, fs)
         else rmap (\<lambda>(p, fs). (\<lparr>cu_fba = fba, cu_path = p\<rparr>, fs)) (path_load_ro fba (cu_path cu, fs))))))"

text \<open>The iterator: a failing step ends the iteration and leaves its error in the cursor.\<close>

definition cur_next :: "cursor \<times> 'd fs \<Rightarrow> (addressing_output option \<times> fs_error option \<times> cursor \<times> 'd fs) result" where
  "cur_next st = (case st of (cu, fs) \<Rightarrow>
     rbind (cur_current (cu_fba cu) (cu_path cu) fs) (\<lambda>o'.
     if o' = None then Inr (None, None, st)
     else (case cur_move_next st of
             Inr st \<Rightarrow> Inr (o', None, st)
           | Inl (Fs e) \<Rightarrow> Inr (None, Some e, st)
           | Inl Panic \<Rightarrow> Inl Panic)))"

definition cursor_drop :: "path \<Rightarrow> 'd fs \<Rightarrow> leaf option \<Rightarrow> leaf option result" where
  "cursor_drop p fs cache =
     rmap (\<lambda>lf. case lf of Some l \<Rightarrow> Some l | None \<Rightarrow> cache) (get_leaf p fs)"

section \<open>Writing\<close>

definition cursor_from_fba_mut ::
  "nat \<Rightarrow> extent_tree \<Rightarrow> leaf option \<Rightarrow> nat \<Rightarrow> 'd fs \<Rightarrow> (cursor \<times> 'd fs) result" where
  "cursor_from_fba_mut ino t cache fba fs =
     rbind (case cache of Some l \<Rightarrow> leaf_contains l fba | None \<Rightarrow> Inr False) (\<lambda>hit.
     if hit then Inr (\<lparr>cu_fba = fba, cu_path = (path_empty ino t)\<lparr>p_cache := cache\<rparr>\<rparr>, fs)
     else rmap (\<lambda>(p, fs). (\<lparr>cu_fba = fba, cu_path = p\<rparr>, fs)) (path_load fba (path_empty ino t, fs)))"

definition cur_move_next_many :: "nat \<Rightarrow> cursor \<times> 'd fs \<Rightarrow> (cursor \<times> 'd fs) result" where
  "cur_move_next_many n st = (case st of (cu, fs) \<Rightarrow>
     rbind (get_leaf (cu_path cu) fs) (\<lambda>lf.
     case lf of
       None \<Rightarrow> Inr (cu, fs)
     | Some l \<Rightarrow>
         rbind (chk 32 (cu_fba cu + n)) (\<lambda>fba.
         rbind (leaf_contains l fba) (\<lambda>inside.
         if inside then Inr (cu\<lparr>cu_fba := fba\<rparr>, fs)
         else rmap (\<lambda>(p, fs). (\<lparr>cu_fba = fba, cu_path = p\<rparr>, fs)) (path_load fba (cu_path cu, fs))))))"

definition cur_mut_current :: "cursor \<Rightarrow> 'd fs \<Rightarrow> addressing_output option result" where
  "cur_mut_current cu fs = cur_current (cu_fba cu) (cu_path cu) fs"

definition cur_mut_next ::
  "cursor \<times> 'd fs \<Rightarrow> (addressing_output option \<times> fs_error option \<times> cursor \<times> 'd fs) result" where
  "cur_mut_next st = (case st of (cu, fs) \<Rightarrow>
     rbind (cur_mut_current cu fs) (\<lambda>o'.
     if o' = None then Inr (None, None, st)
     else (case cur_move_next_many 1 st of
             Inr st \<Rightarrow> Inr (o', None, st)
           | Inl (Fs e) \<Rightarrow> Inr (None, Some e, st)
           | Inl Panic \<Rightarrow> Inl Panic)))"

definition cursor_last_mut :: "nat \<Rightarrow> extent_tree \<Rightarrow> 'd fs \<Rightarrow> (cursor \<times> 'd fs) result" where
  "cursor_last_mut ino t fs =
     rbind (load_last (path_empty ino t, fs)) (\<lambda>(last, p, fs).
     case last of
       Some fba \<Rightarrow> cur_move_next_many 1 (\<lparr>cu_fba = fba, cu_path = p\<rparr>, fs)
     | None \<Rightarrow> Inr (\<lparr>cu_fba = 0, cu_path = p\<rparr>, fs))"

text \<open>Where to look for new blocks: the block itself when it exists already (\<open>Inl\<close>), or a hint.\<close>

definition alloc_hint :: "nat \<Rightarrow> path \<Rightarrow> 'd fs \<Rightarrow> (nat + nat) result" where
  "alloc_hint fba p fs =
     rbind (get_leaf p fs) (\<lambda>lf.
     case lf of
       Some l \<Rightarrow>
         rbind (chk 32 (lf_block l + lf_len l)) (\<lambda>e.
         if lf_block l \<le> fba \<and> fba < e \<and> lf_init l
         then rmap Inl (chk 64 (lf_start l + (fba - lf_block l)))
         else if \<not> lf_init l then Inl Panic
         else if fba < lf_block l
         then rbind (sub_nat fba (lf_start l)) (\<lambda>d. rmap Inr (chk 64 (lf_start l + d)))
         else rmap Inr (sub_nat (lf_start l) (fba - lf_block l)))
     | None \<Rightarrow>
         if p_leafs p = []
         then rbind (sub_nat (p_ino p) 1) (\<lambda>i.
              rbind (assertR (0 < inodes_per_group (fs_sb fs))) (\<lambda>_.
              Inr (Inr (i div inodes_per_group (fs_sb fs)))))
         else Inr (Inr (fst (last (p_leafs p)))))"

definition or_allocated_many ::
  "nat \<Rightarrow> nat \<Rightarrow> bool \<Rightarrow> nat \<Rightarrow> 'd pst \<Rightarrow> ((nat \<times> nat) \<times> 'd pst) result option" where
  "or_allocated_many fuel sz is_meta fba pst = (case pst of (p, fs, t) \<Rightarrow>
     (case alloc_hint fba p fs of
        Inl e \<Rightarrow> Some (Inl e)
      | Inr (Inl lba) \<Rightarrow> Some (Inr ((lba, 1), pst))
      | Inr (Inr hope) \<Rightarrow>
         obind (Some (rbind (fs_allocate (p_ino p) sz hope (fs, t)) (\<lambda>((lba, len), st).
           rmap (\<lambda>len. (lba, len, st)) (chk 16 len)))) (\<lambda>(lba, len, st).
         obind (path_insert fuel \<lparr>lf_block = fba, lf_start = lba, lf_len = len, lf_init = True\<rparr> (p_ino p) (p, st)) (\<lambda>(n, p, st).
         Some (rmap (\<lambda>st. ((n, len), p, st))
           (if is_meta
            then for_each [0..<len] (\<lambda>i st. rmap snd (tx_modify_noload (n + i) (\<lambda>b. Inr ((), b)) st)) st
            else Inr st))))))"

definition or_allocated :: "nat \<Rightarrow> bool \<Rightarrow> nat \<Rightarrow> 'd pst \<Rightarrow> (nat \<times> 'd pst) result option" where
  "or_allocated fuel is_meta fba pst =
     map_option (rmap (\<lambda>((n, _), pst). (n, pst))) (or_allocated_many fuel 1 is_meta fba pst)"

text \<open>The loop of \<open>remove_after\<close>, with a bound on its rounds (\<open>None\<close>: not finished yet).\<close>

fun remove_after_loop :: "nat \<Rightarrow> nat \<Rightarrow> 'd pst \<Rightarrow> 'd pst result option" where
  "remove_after_loop 0 until pst = None"
| "remove_after_loop (Suc fuel) until pst =
     obind (Some (get_leaf (fst pst) (fst (snd pst)))) (\<lambda>lf.
     case lf of
       None \<Rightarrow> Some (Inr pst)
     | Some l \<Rightarrow>
         obind (Some (chk 32 (lf_block l + lf_len l))) (\<lambda>e.
         if e < until then Some (Inr pst)
         else obind (Some (chk 16 (until - lf_block l))) (\<lambda>new_len.
              obind (truncate_last new_len pst) (remove_after_loop fuel until))))"

definition remove_after :: "nat \<Rightarrow> nat \<Rightarrow> 'd pst \<Rightarrow> 'd pst result option" where
  "remove_after fuel fba pst = (case pst of (p, fs, t) \<Rightarrow>
     obind (Some (load_path_to_last (p, fs))) (\<lambda>(p, fs). remove_after_loop fuel fba (p, fs, t)))"


section \<open>The extents of a tree\<close>

text \<open>
  The contents of a block, in the cache or on the device, and the leafs below an entry at depth \<open>d\<close>,
  in order.
\<close>

definition fs_view :: "'d fs \<Rightarrow> nat \<Rightarrow> bytes option" where
  "fs_view fs lba = (case blocks fs lba of
     Some b \<Rightarrow> Some b
   | None \<Rightarrow> (case read_contents (conf_rd fs) (disk fs) (blk_size fs) lba of Inr b \<Rightarrow> Some b | Inl _ \<Rightarrow> None))"

primrec entry_leafs :: "nat \<Rightarrow> (nat \<Rightarrow> bytes option) \<Rightarrow> extent_entry \<Rightarrow> leaf list" where
  "entry_leafs 0 m e = (case e of Leaf l \<Rightarrow> [l] | Internal _ _ \<Rightarrow> [])"
| "entry_leafs (Suc d) m e = (case e of
     Internal _ next \<Rightarrow> (case m next of Some b \<Rightarrow> concat (map (entry_leafs d m) (node_ents b)) | None \<Rightarrow> [])
   | Leaf _ \<Rightarrow> [])"

definition tree_leafs :: "extent_tree \<Rightarrow> (nat \<Rightarrow> bytes option) \<Rightarrow> leaf list" where
  "tree_leafs t m = concat (map (entry_leafs (et_depth t) m) (et_ents t))"

text \<open>What a block of the file is mapped to: the promise of the tree.\<close>

definition within :: "nat \<Rightarrow> leaf \<Rightarrow> bool" where
  "within fba l \<longleftrightarrow> lf_block l \<le> fba \<and> fba < lf_block l + lf_len l"

definition ext_lookup :: "leaf list \<Rightarrow> nat \<Rightarrow> addressing_output option" where
  "ext_lookup ls fba = map_option
     (\<lambda>l. if lf_init l then Initialized (lf_start l + (fba - lf_block l)) else Uninitialized)
     (find (within fba) ls)"

text \<open>
  Well-formed levels: the entries are in order, each covers the range up to the next one, \<open>sub\<close> holds
  of every entry and its range.
\<close>

fun level_wf :: "(extent_entry \<Rightarrow> nat \<Rightarrow> nat \<Rightarrow> bool) \<Rightarrow> nat \<Rightarrow> nat \<Rightarrow> extent_entry list \<Rightarrow> bool" where
  "level_wf sub lo hi [] = True"
| "level_wf sub lo hi [e] = (lo \<le> first_block e \<and> sub e (first_block e) hi)"
| "level_wf sub lo hi (e # e' # es) =
     (lo \<le> first_block e \<and> first_block e \<le> first_block e' \<and> sub e (first_block e) (first_block e') \<and>
      level_wf sub (first_block e') hi (e' # es))"

primrec entry_wf :: "nat \<Rightarrow> (nat \<Rightarrow> bytes option) \<Rightarrow> extent_entry \<Rightarrow> nat \<Rightarrow> nat \<Rightarrow> bool" where
  "entry_wf 0 m e lo hi = (case e of
     Leaf l \<Rightarrow> lf_block l = lo \<and> lf_block l + lf_len l \<le> hi \<and> lf_start l + lf_len l < 2 ^ 64
   | Internal _ _ \<Rightarrow> False)"
| "entry_wf (Suc d) m e lo hi = (case e of
     Internal _ next \<Rightarrow> (case m next of
         Some b \<Rightarrow> 12 \<le> length b \<and> node_from_bytes b = Inr () \<and> node_ok b \<and> node_level b = d \<and>
           node_ents b \<noteq> [] \<and> first_block (hd (node_ents b)) = lo \<and>
           level_wf (entry_wf d m) lo hi (node_ents b)
       | None \<Rightarrow> False)
   | Leaf _ \<Rightarrow> False)"

definition tree_wf :: "extent_tree \<Rightarrow> (nat \<Rightarrow> bytes option) \<Rightarrow> bool" where
  "tree_wf t m \<longleftrightarrow> et_ok t \<and> et_depth t \<le> 5 \<and> level_wf (entry_wf (et_depth t) m) 0 (2 ^ 32 - 1) (et_ents t)"

lemma level_wf_Cons:
  "level_wf sub lo hi (e # es) \<longleftrightarrow> lo \<le> first_block e \<and>
     sub e (first_block e) (case es of [] \<Rightarrow> hi | e' # _ \<Rightarrow> first_block e') \<and>
     (es \<noteq> [] \<longrightarrow> first_block e \<le> first_block (hd es) \<and> level_wf sub (first_block (hd es)) hi es)"
  by (cases es) auto

lemma level_wf_sorted: "level_wf sub lo hi es \<Longrightarrow> sorted (map first_block es) \<and> (\<forall>e\<in>set es. lo \<le> first_block e)"
proof (induction es arbitrary: lo)
  case (Cons e es)
  show ?case
  proof (cases es)
    case Nil
    with Cons.prems show ?thesis by simp
  next
    case (Cons e' es')
    with Cons.prems Cons.IH [of "first_block e'"] show ?thesis by force
  qed
qed simp

lemma level_leafs_range:
  assumes "\<And>e lo hi. sub e lo hi \<Longrightarrow> lo \<le> hi \<and> (\<forall>l\<in>set (leafs e). lo \<le> lf_block l \<and> lf_block l + lf_len l \<le> hi)"
    and "level_wf sub lo hi es"
  shows "(es \<noteq> [] \<longrightarrow> lo \<le> hi) \<and> (\<forall>l\<in>set (concat (map leafs es)). lo \<le> lf_block l \<and> lf_block l + lf_len l \<le> hi)"
  using assms(2)
proof (induction es arbitrary: lo)
  case (Cons e es)
  show ?case
  proof (cases es)
    case Nil
    with Cons.prems assms(1) [of e "first_block e" hi] show ?thesis by fastforce
  next
    case (Cons e' es')
    with Cons.prems Cons.IH [of "first_block e'"] have
      IH: "first_block e' \<le> hi" "\<forall>l\<in>set (concat (map leafs es)). first_block e' \<le> lf_block l \<and> lf_block l + lf_len l \<le> hi"
      and lo: "lo \<le> first_block e"
      and b: "first_block e \<le> first_block e'"
        "\<forall>l\<in>set (leafs e). first_block e \<le> lf_block l \<and> lf_block l + lf_len l \<le> first_block e'"
      using assms(1) [of e "first_block e" "first_block e'"] by auto
    have "lo \<le> lf_block l \<and> lf_block l + lf_len l \<le> hi" if "l \<in> set (concat (map leafs (e # es)))" for l
    proof (cases "l \<in> set (leafs e)")
      case True
      then show ?thesis using lo b(2) IH(1) by (meson order_trans)
    next
      case False
      with that have "l \<in> set (concat (map leafs es))" by simp
      then show ?thesis using lo b(1) IH(2) by (meson order_trans)
    qed
    then show ?thesis using lo b(1) IH(1) by (meson order_trans)
  qed
qed simp

lemma entry_wf_range:
  "entry_wf d m e lo hi \<Longrightarrow> lo \<le> hi \<and> (\<forall>l\<in>set (entry_leafs d m e). lo \<le> lf_block l \<and> lf_block l + lf_len l \<le> hi)"
proof (induction d arbitrary: e lo hi)
  case 0
  then show ?case by (auto split: extent_entry.splits)
next
  case (Suc d)
  then obtain bl nx b where e: "e = Internal bl nx" "m nx = Some b" "node_ents b \<noteq> []"
    "level_wf (entry_wf d m) lo hi (node_ents b)"
    by (auto split: extent_entry.splits option.splits)
  from level_leafs_range [OF Suc.IH e(4)] e(1-3) show ?case by auto
qed

lemma level_wf_range:
  assumes "level_wf (entry_wf d m) lo hi es"
  shows "(es \<noteq> [] \<longrightarrow> lo \<le> hi) \<and>
    (\<forall>l\<in>set (concat (map (entry_leafs d m) es)). lo \<le> lf_block l \<and> lf_block l + lf_len l \<le> hi)"
  by (rule level_leafs_range [OF _ assms]) (rule entry_wf_range)

lemma find_append: "find P (xs @ ys) = (case find P xs of None \<Rightarrow> find P ys | Some x \<Rightarrow> Some x)"
  by (induction xs) auto

text \<open>The entry a search chooses holds every leaf that can contain the block.\<close>

definition choice :: "nat \<Rightarrow> extent_entry list \<Rightarrow> extent_entry" where
  "choice fba es = es ! (below fba es - 1)"

lemma choice_simps:
  "choice fba [e] = e"
  "first_block e \<le> fba \<Longrightarrow> first_block e2 \<le> fba \<Longrightarrow> choice fba (e # e2 # es) = choice fba (e2 # es)"
  "first_block e \<le> fba \<Longrightarrow> \<not> first_block e2 \<le> fba \<Longrightarrow> choice fba (e # e2 # es) = e"
  by (simp_all add: choice_def below_def)

lemma level_choice:
  assumes "level_wf (entry_wf d m) lo hi (e # es)" and "first_block e \<le> fba"
  shows "\<exists>hi'. entry_wf d m (choice fba (e # es)) (first_block (choice fba (e # es))) hi' \<and> hi' \<le> hi \<and>
    first_block (choice fba (e # es)) \<le> fba \<and>
    find (within fba) (concat (map (entry_leafs d m) (e # es))) =
      find (within fba) (entry_leafs d m (choice fba (e # es)))"
  using assms
proof (induction es arbitrary: e lo)
  case Nil
  then show ?case by (auto simp: choice_simps)
next
  case (Cons e2 es)
  let ?L = "entry_leafs d m"
  from Cons.prems(1) have wf: "entry_wf d m e (first_block e) (first_block e2)"
    "level_wf (entry_wf d m) (first_block e2) hi (e2 # es)" by auto
  show ?case
  proof (cases "first_block e2 \<le> fba")
    case True
    note c = choice_simps(2) [OF Cons.prems(2) True, of es]
    have "find (within fba) (?L e) = None"
      using entry_wf_range [OF wf(1)] True by (fastforce simp: find_None_iff within_def)
    then have "find (within fba) (concat (map ?L (e # e2 # es))) = find (within fba) (concat (map ?L (e2 # es)))"
      by (simp add: find_append)
    with Cons.IH [OF wf(2) True] show ?thesis unfolding c by simp
  next
    case False
    note c = choice_simps(3) [OF Cons.prems(2) False, of es]
    have "find (within fba) (concat (map ?L (e2 # es))) = None"
      using level_wf_range [OF wf(2)] False unfolding find_None_iff within_def by (meson order_trans)
    then have "find (within fba) (concat (map ?L (e # e2 # es))) = find (within fba) (?L e)"
      by (simp add: find_append split: option.splits)
    moreover have "first_block e2 \<le> hi" using level_wf_range [OF wf(2)] by simp
    ultimately show ?thesis using wf(1) Cons.prems(2) unfolding c by auto
  qed
qed

lemma fs_get_block_view:
  assumes "fs_view fs lba = Some b"
  obtains fs' where "fs_get_block lba fs = Inr (b, fs')" "fs_view fs' = fs_view fs" "blocks fs' lba = Some b"
    "\<And>l. l \<noteq> lba \<Longrightarrow> blocks fs' l = blocks fs l"
proof (cases "blocks fs lba")
  case None
  with assms have r: "read_contents (conf_rd fs) (disk fs) (blk_size fs) lba = Inr b"
    by (auto simp: fs_view_def split: sum.splits)
  let ?fs = "fs\<lparr>blocks := (blocks fs)(lba \<mapsto> b)\<rparr>"
  have "fs_get_block lba fs = Inr (b, ?fs)"
    using None r by (simp add: fs_get_block_def blk_get_def cache_get_or_insert_def)
  moreover have "fs_view ?fs = fs_view fs" using None r
    by (auto simp: fs_view_def fun_eq_iff split: option.split)
  ultimately show thesis by (intro that [of ?fs]) auto
next
  case (Some c)
  with assms have "c = b" by (simp add: fs_view_def)
  with Some that [of fs] show thesis by (simp add: fs_get_block_def blk_get_def cache_get_or_insert_def)
qed

text \<open>Loading the levels below an entry ends in a leaf that is the only candidate for the block.\<close>

lemma load_levels_find:
  assumes "entry_wf d (fs_view fs) e (first_block e) hi" and "first_block e \<le> fba" and "length ls + d \<le> 5"
  shows "\<exists>l ls' fs'. load_levels (binary_search node_entries_cnt node_get fba) d (Some e) ls fs = Inr (Some (Leaf l), ls', fs') \<and>
    fs_view fs' = fs_view fs \<and> lf_block l + lf_len l \<le> hi \<and> lf_start l + lf_len l < 2 ^ 64 \<and>
    find (within fba) (entry_leafs d (fs_view fs) e) = (if within fba l then Some l else None) \<and>
    l \<in> set (entry_leafs d (fs_view fs) e) \<and>
    (if d = 0 then ls' = ls \<and> e = Leaf l
     else ls' \<noteq> [] \<and> (\<exists>lba i b. last ls' = (lba, Some i) \<and> blocks fs' lba = Some b \<and> node_get b i = Inr (Some (Leaf l))))"
  using assms
proof (induction d arbitrary: e ls fs hi)
  case 0
  then show ?case by (auto split: extent_entry.splits)
next
  case (Suc d)
  define m where "m = fs_view fs"
  from Suc.prems(1) obtain bl nx b where e: "e = Internal bl nx" "m nx = Some b"
    and b: "12 \<le> length b" "node_from_bytes b = Inr ()" "node_ok b" "node_ents b \<noteq> []"
      "first_block (hd (node_ents b)) = first_block e" "level_wf (entry_wf d m) (first_block e) hi (node_ents b)"
    by (auto simp: m_def split: extent_entry.splits option.splits)
  obtain fs1 where fs1: "fs_get_block nx fs = Inr (b, fs1)" "fs_view fs1 = m" "blocks fs1 nx = Some b"
    using fs_get_block_view e(2) unfolding m_def by metis
  obtain e1 es where es: "node_ents b = e1 # es" using b(4) by (cases "node_ents b") auto
  have f: "first_block e1 \<le> fba" using b(5) es Suc.prems(2) by simp
  define c where "c = choice fba (node_ents b)"
  define i where "i = below fba (node_ents b) - 1"
  have bl: "0 < below fba (node_ents b)" using f es by (simp add: below_def)
  then have i: "binary_search node_entries_cnt node_get fba b = Inr (Some i)" "i < length (node_ents b)"
    using node.search [OF b(3)] level_wf_sorted [OF b(6)] b(4) below_le [of fba "node_ents b"]
    by (simp_all add: i_def)
  have g: "node_get b i = Inr (Some c)" using node.get_ents [OF b(3)] i(2) by (simp add: c_def choice_def i_def)
  from level_choice [OF b(6) [unfolded es] f] obtain hi' where
    wf: "entry_wf d m c (first_block c) hi'" "hi' \<le> hi" "first_block c \<le> fba"
    and find: "find (within fba) (entry_leafs (Suc d) m e) = find (within fba) (entry_leafs d m c)"
    by (auto simp: c_def es e)
  have "c \<in> set (node_ents b)" using i(2) by (simp add: c_def choice_def i_def)
  then have sub: "set (entry_leafs d m c) \<subseteq> set (entry_leafs (Suc d) m e)" using e by auto
  define ls1 where "ls1 = ls @ [(nx, Some i)]"
  have "length ls < 5" using Suc.prems(3) by simp
  then have step: "load_levels (binary_search node_entries_cnt node_get fba) (Suc d) (Some e) ls fs =
      load_levels (binary_search node_entries_cnt node_get fba) d (Some c) ls1 fs1"
    using fs1(1) b(2) i(1) g by (simp add: e next_node_def opt_get_def leafs_push_def ls1_def)
  have len: "length ls1 + d \<le> 5" using Suc.prems(3) by (simp add: ls1_def)
  from Suc.IH [OF wf(1) [folded fs1(2)] wf(3) len] obtain l ls' fs' where
    IH: "load_levels (binary_search node_entries_cnt node_get fba) d (Some c) ls1 fs1 = Inr (Some (Leaf l), ls', fs')"
      "fs_view fs' = m" "lf_block l + lf_len l \<le> hi'" "lf_start l + lf_len l < 2 ^ 64"
      "find (within fba) (entry_leafs d m c) = (if within fba l then Some l else None)"
      "l \<in> set (entry_leafs d m c)"
      "if d = 0 then ls' = ls1 \<and> c = Leaf l
       else ls' \<noteq> [] \<and> (\<exists>lba i b. last ls' = (lba, Some i) \<and> blocks fs' lba = Some b \<and> node_get b i = Inr (Some (Leaf l)))"
    unfolding fs1(2) by blast
  have "ls' \<noteq> [] \<and> (\<exists>lba i b. last ls' = (lba, Some i) \<and> blocks fs' lba = Some b \<and> node_get b i = Inr (Some (Leaf l)))"
  proof (cases d)
    case 0
    with IH(1,7) have "ls' = ls1" "fs' = fs1" "c = Leaf l" by simp_all
    with fs1(3) g show ?thesis by (simp add: ls1_def)
  next
    case (Suc _)
    with IH(7) show ?thesis by simp
  qed
  with IH step wf(2) find sub show ?case unfolding m_def by auto
qed


text \<open>A tree of depth 1: its root points to the node of two leafs, blocks 4..5 and 9..11.\<close>

definition demo_tree :: extent_tree where
  "demo_tree = \<lparr>et_entries_cnt = 1, et_max_entries_cnt = 4, et_depth = 1,
     et_b = [4, 0, 0, 0, 77, 0, 0, 0, 0, 0, 0, 0] @ replicate 36 0\<rparr>"

definition demo_ext_fs :: "bytes fs" where
  "demo_ext_fs = (demo_fs one_chunk)\<lparr>blocks := [77 \<mapsto> demo_node]\<rparr>"

lemma demo_tree_ents: "et_ok demo_tree" "et_depth demo_tree = 1" "et_ents demo_tree = [Internal 4 77]"
  by (simp_all add: demo_tree_def et_ok_def et_ents_def dec_list_def chunk12_def dec_entry_def le32_def le16_def
      merge_u32_def upt_conv_Cons)

lemma demo_tree_wf: "fs_view demo_ext_fs 77 = Some demo_node" "tree_wf demo_tree (fs_view demo_ext_fs)"
  "tree_leafs demo_tree (fs_view demo_ext_fs) =
     [\<lparr>lf_block = 4, lf_start = 50, lf_len = 2, lf_init = True\<rparr>, \<lparr>lf_block = 9, lf_start = 70, lf_len = 3, lf_init = True\<rparr>]"
proof -
  show v: "fs_view demo_ext_fs 77 = Some demo_node" by (simp add: fs_view_def demo_ext_fs_def)
  have "12 \<le> length demo_node" "node_from_bytes demo_node = Inr ()"
    by (simp_all add: demo_node_def node_from_bytes_def read_u16_def le16_def)
  then show "tree_wf demo_tree (fs_view demo_ext_fs)"
    by (simp add: tree_wf_def demo_tree_ents v demo_node_ok demo_leaf_def first_block_def)
  show "tree_leafs demo_tree (fs_view demo_ext_fs) =
     [\<lparr>lf_block = 4, lf_start = 50, lf_len = 2, lf_init = True\<rparr>, \<lparr>lf_block = 9, lf_start = 70, lf_len = 3, lf_init = True\<rparr>]"
    by (simp add: tree_leafs_def demo_tree_ents v demo_node_ok demo_leaf_def)
qed

lemma demo_lookup:
  "ext_lookup (tree_leafs demo_tree (fs_view demo_ext_fs)) 10 = Some (Initialized 71)"
  "ext_lookup (tree_leafs demo_tree (fs_view demo_ext_fs)) 6 = None"
  "ext_lookup (tree_leafs demo_tree (fs_view demo_ext_fs)) 11 = Some (Initialized 72)"
  by (simp_all add: demo_tree_wf(3) ext_lookup_def within_def)

section \<open>Reading refines the map\<close>

lemma current_of_leaf:
  assumes "get_leaf p fs = Inr (Some l)" and "lf_block l + lf_len l < 2 ^ 32" and "lf_start l + lf_len l < 2 ^ 64"
  shows "cur_current fba p fs = Inr (if within fba l
      then Some (if lf_init l then Initialized (lf_start l + (fba - lf_block l)) else Uninitialized) else None)"
  using assms by (auto simp: cur_current_def leaf_contains_def within_def chk_def)

lemma path_load_find:
  assumes "tree_wf (p_tree p) (fs_view fs)" and "et_ents (p_tree p) \<noteq> []"
    and "first_block (hd (et_ents (p_tree p))) \<le> fba"
  shows "\<exists>l p' fs'. path_load fba (p, fs) = Inr (p', fs') \<and> fs_view fs' = fs_view fs \<and>
    p_tree p' = p_tree p \<and> p_cache p' = p_cache p \<and> p_ino p' = p_ino p \<and>
    get_leaf (p'\<lparr>p_cache := None\<rparr>) fs' = Inr (Some l) \<and> lf_block l + lf_len l < 2 ^ 32 \<and> lf_start l + lf_len l < 2 ^ 64 \<and>
    find (within fba) (tree_leafs (p_tree p) (fs_view fs)) = (if within fba l then Some l else None) \<and>
    l \<in> set (tree_leafs (p_tree p) (fs_view fs))"
proof -
  let ?t = "p_tree p"
  have t: "et_ok ?t" "et_depth ?t \<le> 5" "level_wf (entry_wf (et_depth ?t) (fs_view fs)) 0 (2 ^ 32 - 1) (et_ents ?t)"
    using assms(1) by (simp_all add: tree_wf_def)
  obtain e1 es where es: "et_ents ?t = e1 # es" using assms(2) by (cases "et_ents ?t") auto
  have f: "first_block e1 \<le> fba" using assms(3) es by simp
  define c where "c = choice fba (et_ents ?t)"
  define i where "i = below fba (et_ents ?t) - 1"
  have "0 < below fba (et_ents ?t)" using f es by (simp add: below_def)
  then have i: "binary_search (\<lambda>t. Inr (et_entries_cnt t)) et_get fba ?t = Inr (Some i)" "i < length (et_ents ?t)"
    using root.search [OF t(1)] level_wf_sorted [OF t(3)] assms(2) below_le [of fba "et_ents ?t"]
    by (simp_all add: i_def)
  have g: "et_get ?t i = Inr (Some c)" using root.get_ents [OF t(1)] i(2) by (simp add: c_def choice_def i_def)
  from level_choice [OF t(3) [unfolded es] f] obtain hi' where
    wf: "entry_wf (et_depth ?t) (fs_view fs) c (first_block c) hi'" "hi' \<le> 2 ^ 32 - 1" "first_block c \<le> fba"
    and find: "find (within fba) (tree_leafs ?t (fs_view fs)) = find (within fba) (entry_leafs (et_depth ?t) (fs_view fs) c)"
    unfolding c_def es tree_leafs_def by blast
  have "length [] + et_depth ?t \<le> 5" using t(2) by simp
  from load_levels_find [OF wf(1,3) this] obtain l ls' fs' where
    l: "load_levels (binary_search node_entries_cnt node_get fba) (et_depth ?t) (Some c) [] fs = Inr (Some (Leaf l), ls', fs')"
      "fs_view fs' = fs_view fs" "lf_block l + lf_len l \<le> hi'" "lf_start l + lf_len l < 2 ^ 64"
      "find (within fba) (entry_leafs (et_depth ?t) (fs_view fs) c) = (if within fba l then Some l else None)"
      "l \<in> set (entry_leafs (et_depth ?t) (fs_view fs) c)"
      "if et_depth ?t = 0 then ls' = [] \<and> c = Leaf l
       else ls' \<noteq> [] \<and> (\<exists>lba i b. last ls' = (lba, Some i) \<and> blocks fs' lba = Some b \<and> node_get b i = Inr (Some (Leaf l)))"
    by blast
  define p' where "p' = p\<lparr>p_root := Some i, p_leafs := ls'\<rparr>"
  have load: "path_load fba (p, fs) = Inr (p', fs')"
    using i(1) g l(1) by (simp add: path_load_def opt_get_def p'_def)
  have "get_leaf (p'\<lparr>p_cache := None\<rparr>) fs' = Inr (Some l)"
  proof (cases "et_depth ?t = 0")
    case True
    with l(7) g show ?thesis
      by (simp add: get_leaf_def p'_def en_idx_def opt_get_def en_get_def en_read_def entry_leaf_def)
  next
    case False
    with l(7) obtain lba j b where j: "ls' \<noteq> []" "last ls' = (lba, Some j)" "blocks fs' lba = Some b"
      "node_get b j = Inr (Some (Leaf l))" by auto
    then have "ls' ! (length ls' - 1) = (lba, Some j)" by (simp add: last_conv_nth)
    with j show ?thesis
      by (simp add: get_leaf_def p'_def en_idx_def opt_get_def en_get_def en_read_def nth_leaf_def held_def entry_leaf_def)
  qed
  moreover have "l \<in> set (tree_leafs ?t (fs_view fs))"
    using l(6) i(2) by (auto simp: tree_leafs_def c_def choice_def i_def)
  ultimately show ?thesis using load l wf(2) find by (intro exI [of _ l] exI [of _ p'] exI [of _ fs']) (auto simp: p'_def)
qed

text \<open>C4: Reading refines the tree's map: on a well-formed tree a fresh cursor at a block not before the
  first extent finds exactly what the extents of the whole tree say of it, its block on the disk,
  uninitialised, or nothing, whatever the depth of the tree; only the cache of blocks changes.\<close>

theorem cursor_refines_lookup:
  assumes "tree_wf t (fs_view fs)" and "et_ents t \<noteq> []" and "first_block (hd (et_ents t)) \<le> fba"
  shows "\<exists>cu fs'. cursor_from_fba ino t None fba fs = Inr (cu, fs') \<and> fs_view fs' = fs_view fs \<and>
    cur_current (cu_fba cu) (cu_path cu) fs' = Inr (ext_lookup (tree_leafs t (fs_view fs)) fba)"
proof -
  have e: "p_tree (path_empty ino t) = t" by (simp add: path_empty_def)
  obtain l p' fs' where l: "path_load fba (path_empty ino t, fs) = Inr (p', fs')" "fs_view fs' = fs_view fs"
    "get_leaf (p'\<lparr>p_cache := None\<rparr>) fs' = Inr (Some l)" "lf_block l + lf_len l < 2 ^ 32" "lf_start l + lf_len l < 2 ^ 64"
    "find (within fba) (tree_leafs t (fs_view fs)) = (if within fba l then Some l else None)"
    using path_load_find [of "path_empty ino t" fs fba] assms unfolding e by blast
  have "cursor_from_fba ino t None fba fs = Inr (\<lparr>cu_fba = fba, cu_path = p'\<lparr>p_cache := None\<rparr>\<rparr>, fs')"
    using l(1) by (simp add: cursor_from_fba_def path_load_ro_def)
  then show ?thesis using l(2,6) current_of_leaf [OF l(3-5), of fba]
    by (simp add: ext_lookup_def)
qed


lemma cursor_refines_lookup_witness:
  "\<exists>cu fs'. cursor_from_fba 12 demo_tree None 10 demo_ext_fs = Inr (cu, fs') \<and>
    cur_current (cu_fba cu) (cu_path cu) fs' = Inr (Some (Initialized 71))"
  using cursor_refines_lookup [OF demo_tree_wf(2), of 10 12]
  by (simp add: demo_tree_ents first_block_def demo_lookup) blast

text \<open>The leafs of a tree are in order and do not overlap, so a block lies in one of them at most.\<close>

lemma level_leafs_sorted:
  assumes "\<And>e lo hi. sub e lo hi \<Longrightarrow> lo \<le> hi \<and> (\<forall>l\<in>set (leafs e). lo \<le> lf_block l \<and> lf_block l + lf_len l \<le> hi)"
    and "\<And>e lo hi. sub e lo hi \<Longrightarrow> sorted_wrt (\<lambda>l l'. lf_block l + lf_len l \<le> lf_block l') (leafs e)"
    and "level_wf sub lo hi es"
  shows "sorted_wrt (\<lambda>l l'. lf_block l + lf_len l \<le> lf_block l') (concat (map leafs es))"
  using assms(3)
proof (induction es arbitrary: lo)
  case (Cons e es)
  show ?case
  proof (cases es)
    case Nil
    with Cons.prems assms(2) [of e "first_block e" hi] show ?thesis by simp
  next
    case (Cons e' es')
    with Cons.prems have wf: "sub e (first_block e) (first_block e')" "level_wf sub (first_block e') hi es" by simp_all
    have "lf_block l + lf_len l \<le> lf_block l'" if "l \<in> set (leafs e)" "l' \<in> set (concat (map leafs es))" for l l'
      using assms(1) [OF wf(1)] level_leafs_range [of sub leafs, OF assms(1) wf(2)] that by (meson order_trans)
    with Cons.IH [OF wf(2)] assms(2) [OF wf(1)] show ?thesis by (auto simp: sorted_wrt_append)
  qed
qed simp

lemma entry_leafs_sorted:
  "entry_wf d m e lo hi \<Longrightarrow> sorted_wrt (\<lambda>l l'. lf_block l + lf_len l \<le> lf_block l') (entry_leafs d m e)"
proof (induction d arbitrary: e lo hi)
  case 0
  then show ?case by (auto split: extent_entry.splits)
next
  case (Suc d)
  then obtain bl nx b where e: "e = Internal bl nx" "m nx = Some b"
    "level_wf (entry_wf d m) lo hi (node_ents b)"
    by (auto split: extent_entry.splits option.splits)
  from level_leafs_sorted [of "entry_wf d m" "entry_leafs d m", OF entry_wf_range Suc.IH e(3)] e(1,2)
  show ?case by simp
qed

lemma find_within_unique:
  assumes "sorted_wrt (\<lambda>l l'. lf_block l + lf_len l \<le> lf_block l') ls" and "l \<in> set ls" and "within x l"
  shows "find (within x) ls = Some l"
  using assms by (induction ls) (auto simp: within_def)

lemma tree_find_unique:
  assumes "tree_wf t m" and "l \<in> set (tree_leafs t m)" and "within x l"
  shows "find (within x) (tree_leafs t m) = Some l"
  using assms level_leafs_sorted [of "entry_wf (et_depth t) m" "entry_leafs (et_depth t) m", OF entry_wf_range entry_leafs_sorted]
  by (intro find_within_unique) (auto simp: tree_wf_def tree_leafs_def)

text \<open>A read cursor on the extents: its leaf is one of the tree, and what it shows is the map.\<close>

definition cursor_on :: "extent_tree \<Rightarrow> cursor \<Rightarrow> 'd fs \<Rightarrow> bool" where
  "cursor_on t cu fs \<longleftrightarrow> p_tree (cu_path cu) = t \<and> first_block (hd (et_ents t)) \<le> cu_fba cu \<and>
     (\<exists>l \<in> set (tree_leafs t (fs_view fs)). get_leaf (cu_path cu) fs = Inr (Some l) \<and>
        lf_block l + lf_len l < 2 ^ 32 \<and> lf_start l + lf_len l < 2 ^ 64)"

lemma cursor_next_refines:
  assumes "tree_wf t (fs_view fs)" and "et_ents t \<noteq> []" and "cursor_on t cu fs" and "cu_fba cu + 1 < 2 ^ 32"
  shows "\<exists>cu' fs'. cur_move_next (cu, fs) = Inr (cu', fs') \<and> cu_fba cu' = cu_fba cu + 1 \<and> fs_view fs' = fs_view fs \<and>
    cursor_on t cu' fs' \<and> cur_current (cu_fba cu') (cu_path cu') fs' = Inr (ext_lookup (tree_leafs t (fs_view fs)) (cu_fba cu + 1))"
proof -
  define n where "n = cu_fba cu + 1"
  then have sn: "Suc (cu_fba cu) = n" by simp
  from assms(3) obtain l where l: "l \<in> set (tree_leafs t (fs_view fs))" "get_leaf (cu_path cu) fs = Inr (Some l)"
    "lf_block l + lf_len l < 2 ^ 32" "lf_start l + lf_len l < 2 ^ 64" and t: "p_tree (cu_path cu) = t"
    "first_block (hd (et_ents t)) \<le> cu_fba cu" by (auto simp: cursor_on_def)
  have c: "leaf_contains l n = Inr (within n l)" using l(3) by (auto simp: leaf_contains_def within_def chk_def)
  have fba: "chk 32 n = Inr n" using assms(4) by (simp add: chk_def n_def)
  show ?thesis
  proof (cases "within n l")
    case True
    let ?cu = "cu\<lparr>cu_fba := n\<rparr>"
    have "cur_move_next (cu, fs) = Inr (?cu, fs)" using l(2) c True fba by (simp add: cur_move_next_def sn chk_def)
    moreover have "cursor_on t ?cu fs" using l t by (auto simp: cursor_on_def n_def)
    moreover have "cur_current n (cu_path cu) fs = Inr (ext_lookup (tree_leafs t (fs_view fs)) n)"
      using current_of_leaf [OF l(2-4), of n] True tree_find_unique [OF assms(1) l(1) True]
      by (simp add: ext_lookup_def)
    ultimately show ?thesis by (intro exI [of _ ?cu] exI [of _ fs]) (simp add: sn)
  next
    case False
    have "first_block (hd (et_ents t)) \<le> n" using t(2) by (simp add: n_def)
    with path_load_find [of "cu_path cu" fs n] assms(1,2) t(1) obtain l' p' fs' where
      l': "path_load n (cu_path cu, fs) = Inr (p', fs')" "fs_view fs' = fs_view fs" "p_tree p' = t"
      "get_leaf (p'\<lparr>p_cache := None\<rparr>) fs' = Inr (Some l')" "lf_block l' + lf_len l' < 2 ^ 32"
      "lf_start l' + lf_len l' < 2 ^ 64" "find (within n) (tree_leafs t (fs_view fs)) = (if within n l' then Some l' else None)"
      "l' \<in> set (tree_leafs t (fs_view fs))" by auto
    let ?cu = "\<lparr>cu_fba = n, cu_path = p'\<lparr>p_cache := None\<rparr>\<rparr>"
    have "cur_move_next (cu, fs) = Inr (?cu, fs')"
      using l(2) c False fba l'(1)
      by (simp add: cur_move_next_def path_load_ro_def sn chk_def)
    moreover have "cursor_on t ?cu fs'" using l' t by (auto simp: cursor_on_def n_def)
    moreover have "cur_current n (p'\<lparr>p_cache := None\<rparr>) fs' = Inr (ext_lookup (tree_leafs t (fs_view fs)) n)"
      using current_of_leaf [OF l'(4-6), of n] l'(7) by (simp add: ext_lookup_def)
    ultimately show ?thesis using l'(2) by (intro exI [of _ ?cu] exI [of _ fs']) (simp add: sn)
  qed
qed

text \<open>Moving a read cursor to the next block keeps it on the tree, and it then shows what the map says
  of the next block, whether the step stays in the same extent or has to search the tree again.\<close>

theorem cursor_next_refines_lookup:
  assumes "tree_wf t (fs_view fs)" and "et_ents t \<noteq> []" and "cursor_on t cu fs" and "cu_fba cu + 1 < 2 ^ 32"
  shows "\<exists>cu' fs'. cur_move_next (cu, fs) = Inr (cu', fs') \<and> cu_fba cu' = cu_fba cu + 1 \<and> fs_view fs' = fs_view fs \<and>
    cursor_on t cu' fs' \<and> cur_current (cu_fba cu') (cu_path cu') fs' = Inr (ext_lookup (tree_leafs t (fs_view fs)) (cu_fba cu + 1))"
  using assms by (rule cursor_next_refines)

lemma cursor_next_refines_lookup_witness:
  "\<exists>cu cu' fs'. cursor_on demo_tree cu demo_ext_fs \<and> cur_move_next (cu, demo_ext_fs) = Inr (cu', fs') \<and>
    cur_current (cu_fba cu') (cu_path cu') fs' = Inr (Some (Initialized 71))"
proof -
  let ?l = "\<lparr>lf_block = 9, lf_start = 70, lf_len = 3, lf_init = True\<rparr>"
  let ?cu = "\<lparr>cu_fba = 9, cu_path = (path_empty 12 demo_tree)\<lparr>p_cache := Some ?l\<rparr>\<rparr>"
  have on: "cursor_on demo_tree ?cu demo_ext_fs"
    by (simp add: cursor_on_def path_empty_def demo_tree_ents first_block_def demo_tree_wf(3) get_leaf_def)
  have "et_ents demo_tree \<noteq> []" "cu_fba ?cu + 1 < 2 ^ 32" by (simp_all add: demo_tree_ents)
  from cursor_next_refines_lookup [OF demo_tree_wf(2) this(1) on this(2)] on show ?thesis
    by (simp add: demo_lookup) blast
qed

text \<open>The cached leaf of a mutable cursor is never given up: when the cursor moves out of it, the path
  is loaded for the new block, but \<open>current\<close> still looks at the cached leaf and reports the block as
  absent, whatever the tree says of it; without the cached leaf it would report the map's answer.\<close>

theorem stale_leaf_hides_blocks:
  assumes "tree_wf (p_tree (cu_path cu)) (fs_view fs)" and "et_ents (p_tree (cu_path cu)) \<noteq> []"
    and "first_block (hd (et_ents (p_tree (cu_path cu)))) \<le> cu_fba cu"
    and "p_cache (cu_path cu) = Some l" and "lf_block l + lf_len l < 2 ^ 32"
    and "cu_fba cu + n < 2 ^ 32" and "\<not> within (cu_fba cu + n) l"
  shows "\<exists>cu' fs'. cur_move_next_many n (cu, fs) = Inr (cu', fs') \<and> cu_fba cu' = cu_fba cu + n \<and>
    cur_current (cu_fba cu') (cu_path cu') fs' = Inr None \<and>
    cur_current (cu_fba cu') ((cu_path cu')\<lparr>p_cache := None\<rparr>) fs' =
      Inr (ext_lookup (tree_leafs (p_tree (cu_path cu)) (fs_view fs)) (cu_fba cu + n))"
proof -
  let ?n = "cu_fba cu + n"
  have g: "get_leaf (cu_path cu) fs = Inr (Some l)" using assms(4) by (simp add: get_leaf_def)
  have c: "leaf_contains l ?n = Inr False"
    using assms(5,7) by (auto simp: leaf_contains_def within_def chk_def)
  have "first_block (hd (et_ents (p_tree (cu_path cu)))) \<le> ?n" using assms(3) by simp
  from path_load_find [OF assms(1,2) this] obtain l' p' fs' where
    l': "path_load ?n (cu_path cu, fs) = Inr (p', fs')" "p_cache p' = Some l"
      "get_leaf (p'\<lparr>p_cache := None\<rparr>) fs' = Inr (Some l')" "lf_block l' + lf_len l' < 2 ^ 32"
      "lf_start l' + lf_len l' < 2 ^ 64" "find (within ?n) (tree_leafs (p_tree (cu_path cu)) (fs_view fs)) = (if within ?n l' then Some l' else None)"
    using assms(4) by auto
  let ?cu = "\<lparr>cu_fba = ?n, cu_path = p'\<rparr>"
  have "cur_move_next_many n (cu, fs) = Inr (?cu, fs')"
    using g c assms(6) l'(1) by (simp add: cur_move_next_many_def chk_def)
  moreover have "cur_current ?n p' fs' = Inr None" using c l'(2) by (simp add: cur_current_def get_leaf_def)
  ultimately show ?thesis using current_of_leaf [OF l'(3-5), of ?n] l'(6)
    by (intro exI [of _ ?cu] exI [of _ fs']) (simp add: ext_lookup_def)
qed


lemma stale_leaf_hides_blocks_witness:
  "\<exists>cu cu' fs'. cur_move_next_many 5 (cu, demo_ext_fs) = Inr (cu', fs') \<and>
    cur_current (cu_fba cu') (cu_path cu') fs' = Inr None \<and>
    cur_current (cu_fba cu') ((cu_path cu')\<lparr>p_cache := None\<rparr>) fs' = Inr (Some (Initialized 71))"
proof -
  let ?l = "\<lparr>lf_block = 4, lf_start = 50, lf_len = 2, lf_init = True\<rparr>"
  let ?cu = "\<lparr>cu_fba = 5, cu_path = (path_empty 12 demo_tree)\<lparr>p_cache := Some ?l\<rparr>\<rparr>"
  have t: "p_tree (cu_path ?cu) = demo_tree" by (simp add: path_empty_def)
  from stale_leaf_hides_blocks [of ?cu demo_ext_fs ?l 5, unfolded t] demo_tree_wf(2) show ?thesis
    by (simp add: path_empty_def demo_tree_ents first_block_def within_def demo_lookup) blast
qed

end
