(* ===== verification/Extent_Update.thy ===== *)
theory Extent_Update
  imports Extent_Cursor
begin

text \<open>
  What the updates of \<open>src/inode/extent/path.rs\<close> and \<open>cursor.rs\<close> do to the map of a file whose
  extents are all in the inode: appending, growing the tree by a level, removing from the end; and
  the branches that fail or do not return.
\<close>

section \<open>Extents in the inode\<close>

lemma et_ents_leafs:
  assumes "et_depth tr = 0"
  shows "et_ents tr = map Leaf (tree_leafs tr m)"
proof -
  have "concat (map (entry_leafs 0 m) es) = concat (map (entry_leafs 0 m) es) \<and>
      es = map Leaf (concat (map (entry_leafs 0 m) es))" if "\<forall>e\<in>set es. \<exists>l. e = Leaf l" for es
    using that by (induction es) auto
  moreover have "\<forall>e\<in>set (et_ents tr). \<exists>l. e = Leaf l"
    using assms by (auto simp: et_ents_def dec_list_def dec_entry_def)
  ultimately show ?thesis using assms by (simp add: tree_leafs_def)
qed

lemma tree_leafs_of_ents:
  "et_depth tr = 0 \<Longrightarrow> et_ents tr = map Leaf ls \<Longrightarrow> tree_leafs tr m = ls"
  using et_ents_leafs [of tr m] by (metis extent_entry.inject(2) inj_map_eq_map inj_on_def injI)

lemma length_tree_leafs: "et_depth tr = 0 \<Longrightarrow> length (tree_leafs tr m) = et_entries_cnt tr"
  using et_ents_leafs [of tr m] by (metis et_ents_def dec_list_simps(1) length_map)

lemma et_get_leafs:
  assumes "et_ok tr" and "et_depth tr = 0"
  shows "et_get tr i = Inr (if i < length (tree_leafs tr m) then Some (Leaf (tree_leafs tr m ! i)) else None)"
  using root.get_ents [OF assms(1), of i] et_ents_leafs [OF assms(2), of m] by simp

text \<open>A path that points to the last extent of the inode.\<close>

definition at_end :: "path \<Rightarrow> bool" where
  "at_end p \<longleftrightarrow> et_ok (p_tree p) \<and> et_depth (p_tree p) = 0 \<and> p_leafs p = [] \<and> p_cache p = None \<and>
     p_root p = (if et_entries_cnt (p_tree p) = 0 then None else Some (et_entries_cnt (p_tree p) - 1))"

lemma get_leaf_at_end:
  assumes "at_end p"
  shows "get_leaf p fs = Inr (if tree_leafs (p_tree p) m = [] then None else Some (last (tree_leafs (p_tree p) m)))"
proof -
  have a: "et_ok (p_tree p)" "et_depth (p_tree p) = 0" using assms by (simp_all add: at_end_def)
  note g = et_get_leafs [OF a, of _ m] and n = length_tree_leafs [OF a(2), of m]
  show ?thesis
  proof (cases "tree_leafs (p_tree p) m = []")
    case True
    with n assms show ?thesis by (simp add: at_end_def get_leaf_def en_idx_def opt_get_def)
  next
    case False
    then have "0 < et_entries_cnt (p_tree p)" unfolding n [symmetric] by simp
    with assms g n False show ?thesis
      by (simp add: at_end_def get_leaf_def en_idx_def opt_get_def en_get_def en_read_def entry_leaf_def last_conv_nth)
  qed
qed

section \<open>Appending\<close>

text \<open>The chain of comparisons that lets a leaf be continued in place.\<close>

lemma continues_eq:
  assumes "lf_block l + lf_len l < 2 ^ 32" and "lf_start l + lf_len l < 2 ^ 64" and "lf_len l + lf_len new < 2 ^ 15"
  shows "continues l new = Inr (lf_block l + lf_len l = lf_block new \<and> lf_start l + lf_len l = lf_start new \<and> lf_init l)"
  using assms by (simp add: continues_def chk_def)

lemma ext_lookup_append:
  assumes "\<forall>l\<in>set ls. lf_block l + lf_len l \<le> lf_block new" and "lf_init new"
  shows "ext_lookup (ls @ [new]) x =
    (if within x new then Some (Initialized (lf_start new + (x - lf_block new))) else ext_lookup ls x)"
proof (cases "within x new")
  case True
  then have "find (within x) ls = None"
    using assms(1) by (fastforce simp: find_None_iff within_def)
  with True assms(2) show ?thesis by (simp add: ext_lookup_def find_append)
next
  case False
  then show ?thesis by (simp add: ext_lookup_def find_append split: option.splits)
qed

lemma ext_lookup_merge:
  assumes "\<forall>l'\<in>set (ls @ [l]). lf_block l' + lf_len l' \<le> lf_block new" and "lf_init l"
    and "lf_block l + lf_len l = lf_block new" and "lf_start l + lf_len l = lf_start new"
  shows "ext_lookup (ls @ [l\<lparr>lf_len := lf_len l + lf_len new\<rparr>]) x =
    (if within x new then Some (Initialized (lf_start new + (x - lf_block new))) else ext_lookup (ls @ [l]) x)"
proof (cases "within x new")
  case True
  then have "find (within x) ls = None"
    using assms(1) by (fastforce simp: find_None_iff within_def)
  moreover have "lf_start l + (x - lf_block l) = lf_start new + (x - lf_block new)"
    using True assms(3,4) by (simp add: within_def)
  ultimately show ?thesis using True assms(2,3)
    by (simp add: ext_lookup_def find_append within_def)
next
  case False
  with assms(3) have "within x (l\<lparr>lf_len := lf_len l + lf_len new\<rparr>) \<longleftrightarrow> within x l"
    by (auto simp: within_def)
  with False show ?thesis by (simp add: ext_lookup_def find_append split: option.splits)
qed

text \<open>The two ways to append: as an entry of its own after the last extent, or by lengthening it.\<close>

lemma insert_leaf_appends:
  assumes e: "at_end p" and room: "et_entries_cnt (p_tree p) < et_max_entries_cnt (p_tree p)" and new: "entry_fits 0 (Leaf new)"
    and after: "tree_leafs (p_tree p) m = [] \<or> (let l = last (tree_leafs (p_tree p) m) in
      lf_block l \<noteq> lf_block new \<and> continues l new = Inr False \<and> lf_block l < lf_block new)"
  shows "\<exists>p'. insert_leaf new (p, fs, t) = Inr (None, p', fs, t) \<and> et_ok (p_tree p') \<and> et_depth (p_tree p') = 0 \<and>
    tree_leafs (p_tree p') m = tree_leafs (p_tree p) m @ [new]"
proof -
  let ?tr = "p_tree p"
  let ?ls = "tree_leafs ?tr m"
  have a: "et_ok ?tr" "et_depth ?tr = 0" "p_leafs p = []" using e by (simp_all add: at_end_def)
  note n = length_tree_leafs [OF a(2), of m] and ents = et_ents_leafs [OF a(2), of m]
  have idx: "en_idx p 0 = Inr (if ?ls = [] then None else Some (length ?ls - 1))"
    using e n by (auto simp: at_end_def en_idx_def)
  have full: "en_full p 0 fs = Inr False"
    using room by (simp add: en_full_def en_cnt_def en_max_def en_read_def is_full_def)
  have get: "en_get p 0 i fs = Inr (if i < length ?ls then Some (Leaf (?ls ! i)) else None)" for i
    using et_get_leafs [OF a(1,2), of i m] by (simp add: en_get_def en_read_def)
  have fit: "entry_fits (et_depth ?tr) (Leaf new)" using new a(2) by simp
  have len: "length (et_ents ?tr) < et_max_entries_cnt ?tr" using room ents n by simp
  from root.ins_last [OF a(1) fit len] obtain tr' where
    tr': "et_insert_at (Leaf new) (length ?ls) ?tr = Inr (True, tr')" "et_ok tr'" "et_ents tr' = map Leaf (?ls @ [new])"
    using ents by auto
  have d: "et_depth tr' = 0"
    using tr'(1) a(2) by (auto simp: et_insert_at_def rbind_Inr_iff rmap_Inr_iff split: if_splits)
  let ?p = "p\<lparr>p_root := Some (length ?ls), p_tree := tr'\<rparr>"
  have w: "en_insert_at (Leaf new) (length ?ls) 0 (en_set_idx 0 (Some (length ?ls)) p, fs, t) = Inr (?p, fs, t)"
    using tr'(1) by (simp add: en_insert_at_def en_write_def en_set_idx_def must_def)
  have "insert_leaf new (p, fs, t) = Inr (None, ?p, fs, t)"
  proof (cases "?ls = []")
    case True
    with w get_leaf_at_end [OF e, of fs m] a(3) idx full show ?thesis
      by (simp add: insert_leaf_def path_len_def opt_get_def Let_def)
  next
    case False
    then have "length ?ls - 1 < length ?ls" "Suc (length ?ls - Suc 0) = length ?ls" by simp_all
    with False after w get_leaf_at_end [OF e, of fs m] a(3) idx full get show ?thesis
      by (simp add: insert_leaf_def path_len_def opt_get_def Let_def last_conv_nth)
  qed
  with tr'(2) d tree_leafs_of_ents [OF d tr'(3)] show ?thesis by (intro exI [of _ ?p]) simp
qed

lemma insert_leaf_joins:
  assumes e: "at_end p" and ls: "tree_leafs (p_tree p) m = xs @ [l]" and joins: "lf_block l < lf_block new" "continues l new = Inr True"
    and fits: "entry_fits 0 (Leaf (l\<lparr>lf_len := lf_len l + lf_len new\<rparr>))" "lf_len l + lf_len new < 2 ^ 15" "lf_init l"
  shows "\<exists>p'. insert_leaf new (p, fs, t) = Inr (None, p', fs, t) \<and> et_ok (p_tree p') \<and> et_depth (p_tree p') = 0 \<and>
    tree_leafs (p_tree p') m = xs @ [l\<lparr>lf_len := lf_len l + lf_len new\<rparr>]"
proof -
  let ?tr = "p_tree p" and ?l = "l\<lparr>lf_len := lf_len l + lf_len new\<rparr>"
  have a: "et_ok ?tr" "et_depth ?tr = 0" "p_leafs p = []" using e by (simp_all add: at_end_def)
  note n = length_tree_leafs [OF a(2), of m] and ents = et_ents_leafs [OF a(2), of m]
  have idx: "en_idx p 0 = Inr (Some (length xs))" using e n ls by (auto simp: at_end_def en_idx_def)
  have get: "en_get p 0 (length xs) fs = Inr (Some (Leaf l))"
    using et_get_leafs [OF a(1,2), of "length xs" m] ls by (simp add: en_get_def en_read_def)
  have "entry_fits (et_depth ?tr) (Leaf ?l)" "length xs < length (et_ents ?tr)" using fits(1) a(2) ents ls by simp_all
  from root.repl_ents [OF a(1) this] obtain tr' where
    t: "et_replace_at (Leaf ?l) (length xs) ?tr = Inr (True, tr')" "et_ok tr'" "et_ents tr' = map Leaf (xs @ [?l])"
    unfolding ents ls by (auto simp: list_update_append)
  have d: "et_depth tr' = 0" using t(1) a(2) by (auto simp: et_replace_at_def rmap_Inr_iff)
  have "insert_leaf new (p, fs, t) = Inr (None, p\<lparr>p_tree := tr'\<rparr>, fs, t)"
    using t(1) joins fits get_leaf_at_end [OF e, of fs m] a(3) idx get ls
    by (simp add: insert_leaf_def path_len_def opt_get_def Let_def en_replace_at_def en_write_def must_def)
  with t(2) d tree_leafs_of_ents [OF d t(3)] show ?thesis by (intro exI [of _ "p\<lparr>p_tree := tr'\<rparr>"]) simp
qed

lemma insert_leaf_eq:
  assumes e: "at_end p" and room: "et_entries_cnt (p_tree p) < et_max_entries_cnt (p_tree p)"
    and new: "entry_fits 0 (Leaf new)"
    and ls: "\<forall>l\<in>set (tree_leafs (p_tree p) m). entry_fits 0 (Leaf l) \<and> lf_block l + lf_len l \<le> lf_block new \<and>
      lf_len l + lf_len new < 2 ^ 15"
  shows "\<exists>p'. insert_leaf new (p, fs, t) = Inr (None, p', fs, t) \<and> et_ok (p_tree p') \<and> et_depth (p_tree p') = 0 \<and>
    tree_leafs (p_tree p') m =
      (let ls = tree_leafs (p_tree p) m; l = last ls
       in if ls \<noteq> [] \<and> lf_block l + lf_len l = lf_block new \<and> lf_start l + lf_len l = lf_start new \<and> lf_init l
          then butlast ls @ [l\<lparr>lf_len := lf_len l + lf_len new\<rparr>] else ls @ [new])"
proof (cases "tree_leafs (p_tree p) m" rule: rev_cases)
  case Nil
  with insert_leaf_appends [OF e room new, of m fs t] show ?thesis by simp
next
  case (snoc xs l)
  with ls have l: "entry_fits 0 (Leaf l)" "lf_block l + lf_len l \<le> lf_block new" "lf_len l + lf_len new < 2 ^ 15" by auto
  then have f: "0 < lf_len l" "lf_start l < 2 ^ 48" "lf_block new < 2 ^ 32" using new by (simp_all add: entry_fits_def)
  with l have b: "lf_block l < lf_block new" by linarith
  have c: "continues l new = Inr (lf_block l + lf_len l = lf_block new \<and> lf_start l + lf_len l = lf_start new \<and> lf_init l)"
    using l f by (intro continues_eq) simp_all
  show ?thesis
  proof (cases "lf_block l + lf_len l = lf_block new \<and> lf_start l + lf_len l = lf_start new \<and> lf_init l")
    case True
    moreover have "entry_fits 0 (Leaf (l\<lparr>lf_len := lf_len l + lf_len new\<rparr>))" using l by (simp add: entry_fits_def)
    ultimately show ?thesis using insert_leaf_joins [OF e snoc b, of fs t] c l(3) by (simp add: snoc)
  next
    case False
    then have "\<exists>p'. insert_leaf new (p, fs, t) = Inr (None, p', fs, t) \<and> et_ok (p_tree p') \<and> et_depth (p_tree p') = 0 \<and>
        tree_leafs (p_tree p') m = tree_leafs (p_tree p) m @ [new]"
      using b c by (intro insert_leaf_appends [OF e room new]) (auto simp: snoc Let_def)
    with False show ?thesis by (auto simp: snoc Let_def)
  qed
qed


text \<open>C5: Appending to a file whose extents fit the inode: the new blocks are mapped to the allocated
  ones, either as an extent of their own or by lengthening the last extent when they continue it on
  the disk, and every other block of the file keeps its mapping.\<close>

theorem insert_leaf_extends_map:
  assumes "at_end p" and "et_entries_cnt (p_tree p) < et_max_entries_cnt (p_tree p)"
    and "entry_fits 0 (Leaf new)" and "lf_init new"
    and "\<forall>l\<in>set (tree_leafs (p_tree p) m). entry_fits 0 (Leaf l) \<and> lf_block l + lf_len l \<le> lf_block new \<and>
      lf_len l + lf_len new < 2 ^ 15"
  shows "\<exists>p'. insert_leaf new (p, fs, t) = Inr (None, p', fs, t) \<and>
    (\<forall>x. ext_lookup (tree_leafs (p_tree p') m) x =
      (if within x new then Some (Initialized (lf_start new + (x - lf_block new)))
       else ext_lookup (tree_leafs (p_tree p) m) x))"
proof -
  let ?ls = "tree_leafs (p_tree p) m"
  from insert_leaf_eq [OF assms(1-3,5)] obtain p' where p': "insert_leaf new (p, fs, t) = Inr (None, p', fs, t)"
    "tree_leafs (p_tree p') m =
      (let ls = ?ls; l = last ls
       in if ls \<noteq> [] \<and> lf_block l + lf_len l = lf_block new \<and> lf_start l + lf_len l = lf_start new \<and> lf_init l
          then butlast ls @ [l\<lparr>lf_len := lf_len l + lf_len new\<rparr>] else ls @ [new])" by blast
  have le: "\<forall>l\<in>set ?ls. lf_block l + lf_len l \<le> lf_block new" using assms(5) by blast
  show ?thesis
  proof (cases "?ls \<noteq> [] \<and> lf_block (last ?ls) + lf_len (last ?ls) = lf_block new \<and>
      lf_start (last ?ls) + lf_len (last ?ls) = lf_start new \<and> lf_init (last ?ls)")
    case True
    then have ls: "butlast ?ls @ [last ?ls] = ?ls" by simp
    with le have "\<forall>l\<in>set (butlast ?ls @ [last ?ls]). lf_block l + lf_len l \<le> lf_block new" by metis
    from ext_lookup_merge [OF this] True p' ls show ?thesis by (auto simp: Let_def)
  next
    case False
    with p' ext_lookup_append [OF le assms(4)] show ?thesis by (auto simp: Let_def)
  qed
qed

section \<open>Removing from the end\<close>

lemma set_cnt_leafs:
  assumes "et_ok tr" and "et_depth tr = 0" and "n \<le> et_entries_cnt tr"
  shows "tree_leafs (tr\<lparr>et_entries_cnt := n\<rparr>) m = take n (tree_leafs tr m)"
proof (rule tree_leafs_of_ents)
  show "et_depth (tr\<lparr>et_entries_cnt := n\<rparr>) = 0" using assms(2) by simp
  have "et_ents (tr\<lparr>et_entries_cnt := n\<rparr>) = take n (et_ents tr)"
    using assms(3) by (simp add: et_ents_def dec_list_def take_map)
  then show "et_ents (tr\<lparr>et_entries_cnt := n\<rparr>) = map Leaf (take n (tree_leafs tr m))"
    by (simp add: et_ents_leafs [OF assms(2), of m] take_map)
qed

lemma obind_simps [simp]:
  "obind (Some (Inr x)) f = f x" "obind (Some (Inl e)) f = Some (Inl e)" "obind None f = None"
  by (simp_all add: obind_def)

text \<open>One round with nothing to keep: the last extent is freed and dropped from the inode.\<close>

lemma truncate_last_0:
  assumes e: "at_end p" and ls: "tree_leafs (p_tree p) m = ls @ [l]" and l: "lf_init l" "lf_start l < 2 ^ 64"
    and d: "fs_deallocate (p_ino p) (lf_start l) (lf_len l) (fs, t) = Some (Inr (fs', t'))"
  shows "\<exists>p'. truncate_last 0 (p, fs, t) = Some (Inr (p', fs', t')) \<and> at_end p' \<and> p_ino p' = p_ino p \<and>
    tree_leafs (p_tree p') m = ls"
proof -
  let ?tr = "p_tree p"
  have a: "et_ok ?tr" "et_depth ?tr = 0" "p_leafs p = []" "p_cache p = None" using e by (simp_all add: at_end_def)
  have n: "et_entries_cnt ?tr = Suc (length ls)" using length_tree_leafs [OF a(2), of m] ls by simp
  have r: "p_root p = Some (length ls)" using e n by (simp add: at_end_def)
  define p' where "p' = p\<lparr>p_tree := ?tr\<lparr>et_entries_cnt := length ls\<rparr>,
    p_root := (if length ls = 0 then None else Some (length ls - 1))\<rparr>"
  have c: "p\<lparr>p_cache := None\<rparr> = p" using a(4) by (cases p) simp
  have g: "get_leaf p fs = Inr (Some l)" using get_leaf_at_end [OF e, of fs m] ls by simp
  have ok': "et_ok (?tr\<lparr>et_entries_cnt := k\<rparr>)" if "k \<le> length ls" for k
    using a(1) n that by (simp add: et_ok_def)
  have mv: "move_prev_with_cleanup (p\<lparr>p_tree := ?tr\<lparr>et_entries_cnt := length ls\<rparr>\<rparr>, fs', t') = Some (Inr (p', fs', t'))"
  proof (cases "length ls")
    case 0
    with a(3) r show ?thesis by (simp add: move_prev_with_cleanup_def p'_def)
  next
    case (Suc k)
    have "\<exists>x. et_get (?tr\<lparr>et_entries_cnt := length ls\<rparr>) k = Inr x"
      using et_get_leafs [OF ok' [OF order_refl], of k m] a(2) by simp
    then obtain x where x: "et_get (?tr\<lparr>et_entries_cnt := Suc k\<rparr>) k = Inr x" using Suc by auto
    have pl: "p\<lparr>p_leafs := []\<rparr> = p" using a(3) by (cases p) simp
    with Suc a(3) r x show ?thesis
      by (cases p) (simp add: move_prev_with_cleanup_def p'_def en_idx_def opt_get_def en_get_def en_read_def Let_def)
  qed
  have cnt: "en_cnt p 0 fs' = Inr (Suc (length ls))"
    using n by (simp add: en_cnt_def en_read_def)
  have "truncate_last 0 (p, fs, t) = Some (Inr (p', fs', t'))"
    using g c l d a(3) cnt mv
    by (simp add: truncate_last_def chk_def sub_nat_def en_set_cnt_def en_write_def Let_def)
  moreover have "at_end p'" using a ok' by (simp add: at_end_def p'_def)
  moreover have "tree_leafs (p_tree p') m = ls"
    using set_cnt_leafs [OF a(1,2), of "length ls" m] n ls by (simp add: p'_def)
  ultimately show ?thesis by (auto simp: p'_def)
qed

definition leaf_blocks :: "leaf \<Rightarrow> nat list" where
  "leaf_blocks l = [lf_start l..<lf_start l + lf_len l]"

definition leaf_on_disk :: "'d fs \<Rightarrow> leaf \<Rightarrow> bool" where
  "leaf_on_disk fs l \<longleftrightarrow> lf_init l \<and> lf_block l + lf_len l < 2 ^ 32 \<and> lf_start l < 2 ^ 64 \<and>
     blocks_base (fs_sb fs) \<le> lf_start l \<and> lf_start l + lf_len l \<le> blocks_end (fs_sb fs)"


lemma remove_loop_0:
  assumes "groups_loaded fs" and "at_end p" and "\<forall>l\<in>set (tree_leafs (p_tree p) m). leaf_on_disk fs l"
    and "length (tree_leafs (p_tree p) m) < fuel"
  shows "\<exists>p' evs. remove_after_loop fuel 0 (p, fs, t) = Some (Inr (p', fs, t\<lparr>tx_events := tx_events t @ evs\<rparr>)) \<and>
    et_entries_cnt (p_tree p') = 0 \<and>
    concat (map (ev_blocks (fs_sb fs)) evs) = concat (map leaf_blocks (rev (tree_leafs (p_tree p) m)))"
  using assms(2-)
proof (induction fuel arbitrary: p t)
  case 0
  then show ?case by simp
next
  case (Suc fuel)
  have d: "et_depth (p_tree p) = 0" using Suc.prems(1) by (simp add: at_end_def)
  note g = get_leaf_at_end [OF Suc.prems(1), of fs m] and n = length_tree_leafs [OF d, of m]
  show ?case
  proof (cases "tree_leafs (p_tree p) m" rule: rev_cases)
    case Nil
    with g n show ?thesis by (intro exI [of _ p] exI [of _ "[]"]) simp
  next
    case (snoc ls l)
    with Suc.prems(2) have l: "leaf_on_disk fs l" by simp
    then have le: "lf_init l" "lf_start l < 2 ^ 64" "lf_block l + lf_len l < 2 ^ 32"
      "blocks_base (fs_sb fs) \<le> lf_start l" "lf_start l + lf_len l \<le> blocks_end (fs_sb fs)"
      by (simp_all add: leaf_on_disk_def)
    from dealloc_loop_ok [OF assms(1) le(4,5) order_refl, of "p_ino p" t] obtain ev where
      ev: "fs_deallocate (p_ino p) (lf_start l) (lf_len l) (fs, t) = Some (Inr (fs, t\<lparr>tx_events := tx_events t @ ev\<rparr>))"
        "concat (map (ev_blocks (fs_sb fs)) ev) = leaf_blocks l"
      by (auto simp: fs_deallocate_def leaf_blocks_def)
    from truncate_last_0 [OF Suc.prems(1) snoc le(1,2) ev(1)] obtain p1 where
      p1: "truncate_last 0 (p, fs, t) = Some (Inr (p1, fs, t\<lparr>tx_events := tx_events t @ ev\<rparr>))" "at_end p1"
        "tree_leafs (p_tree p1) m = ls" by blast
    have "\<forall>l\<in>set (tree_leafs (p_tree p1) m). leaf_on_disk fs l" "length (tree_leafs (p_tree p1) m) < fuel"
      using Suc.prems(2,3) snoc p1(3) by simp_all
    from Suc.IH [OF p1(2) this, of "t\<lparr>tx_events := tx_events t @ ev\<rparr>"] obtain p' evs where
      r: "remove_after_loop fuel 0 (p1, fs, t\<lparr>tx_events := tx_events t @ ev\<rparr>) =
          Some (Inr (p', fs, t\<lparr>tx_events := tx_events t @ (ev @ evs)\<rparr>))"
        "et_entries_cnt (p_tree p') = 0"
        "concat (map (ev_blocks (fs_sb fs)) evs) = concat (map leaf_blocks (rev ls))"
      unfolding p1(3) by auto
    have "remove_after_loop (Suc fuel) 0 (p, fs, t) = Some (Inr (p', fs, t\<lparr>tx_events := tx_events t @ (ev @ evs)\<rparr>))"
      using g snoc le(3) p1(1) r(1) by (simp add: chk_def)
    with r(2,3) ev(2) snoc show ?thesis
      by (intro exI [of _ p'] exI [of _ "ev @ evs"]) simp
  qed
qed

lemma load_path_to_last_at_end:
  assumes "et_ok (p_tree p)" and "et_depth (p_tree p) = 0"
  shows "\<exists>p'. load_path_to_last (p, fs) = Inr (p', fs) \<and> at_end p' \<and> p_tree p' = p_tree p \<and> p_ino p' = p_ino p"
proof -
  let ?i = "if 0 < et_entries_cnt (p_tree p) then Some (et_entries_cnt (p_tree p) - 1) else None"
  have "\<exists>x. opt_get (et_get (p_tree p)) ?i = Inr x"
    using et_get_leafs [OF assms, of _ "\<lambda>_. None"] by (simp add: opt_get_def)
  then obtain x where "opt_get (et_get (p_tree p)) ?i = Inr x" by blast
  with assms show ?thesis by (simp add: load_path_to_last_def at_end_def Let_def)
qed

text \<open>Truncating a file whose extents fit the inode to nothing ends after one round per extent (and
  a last one that finds none), leaves the inode without extents, and logs the freeing of exactly the
  blocks of its extents, the last extent first.\<close>

theorem remove_after_0:
  assumes "groups_loaded fs" and "et_ok (p_tree p)" and "et_depth (p_tree p) = 0"
    and "\<forall>l\<in>set (tree_leafs (p_tree p) m). leaf_on_disk fs l"
    and "et_entries_cnt (p_tree p) < fuel"
  shows "\<exists>p' evs. remove_after fuel 0 (p, fs, t) = Some (Inr (p', fs, t\<lparr>tx_events := tx_events t @ evs\<rparr>)) \<and>
    et_entries_cnt (p_tree p') = 0 \<and>
    concat (map (ev_blocks (fs_sb fs)) evs) = concat (map leaf_blocks (rev (tree_leafs (p_tree p) m)))"
proof -
  obtain p1 where p1: "load_path_to_last (p, fs) = Inr (p1, fs)" "at_end p1" "p_tree p1 = p_tree p"
    using load_path_to_last_at_end [OF assms(2,3)] by blast
  have "length (tree_leafs (p_tree p1) m) < fuel"
    using length_tree_leafs [OF assms(3)] assms(5) p1(3) by simp
  with remove_loop_0 [OF assms(1) p1(2), of m fuel t] assms(4) p1(1,3) show ?thesis
    by (simp add: remove_after_def)
qed

text \<open>One round that only shortens the last extent to where the file shall end.\<close>

lemma truncate_last_keep:
  assumes e: "at_end p" and ls: "tree_leafs (p_tree p) m = ls @ [l]"
    and l: "entry_fits 0 (Leaf l)" "lf_init l" "n \<noteq> 0" "n \<le> lf_len l"
    and d: "fs_deallocate (p_ino p) (lf_start l + n) (lf_len l - n) (fs, t) = Some (Inr (fs', t'))"
  shows "\<exists>p'. truncate_last n (p, fs, t) = Some (Inr (p', fs', t')) \<and> at_end p' \<and> p_ino p' = p_ino p \<and>
    tree_leafs (p_tree p') m = ls @ [l\<lparr>lf_len := n\<rparr>]"
proof -
  let ?tr = "p_tree p" and ?l = "l\<lparr>lf_len := n\<rparr>"
  have a: "et_ok ?tr" "et_depth ?tr = 0" "p_leafs p = []" "p_cache p = None" using e by (simp_all add: at_end_def)
  note ents = et_ents_leafs [OF a(2), of m]
  have n: "et_entries_cnt ?tr = Suc (length ls)" using length_tree_leafs [OF a(2), of m] ls by simp
  have r: "p_root p = Some (length ls)" using e n by (simp add: at_end_def)
  have c: "p\<lparr>p_cache := None\<rparr> = p" using a(4) by (cases p) simp
  have g: "get_leaf p fs = Inr (Some l)" using get_leaf_at_end [OF e, of fs m] ls by simp
  have "entry_fits (et_depth ?tr) (Leaf ?l)" "length ls < length (et_ents ?tr)"
    using l a(2) ls ents by (simp_all add: entry_fits_def)
  from root.repl_ents [OF a(1) this] obtain t2 where
    t2: "et_replace_at (Leaf ?l) (length ls) ?tr = Inr (True, t2)" "et_ok t2" "et_ents t2 = map Leaf (ls @ [?l])"
    unfolding ents by (auto simp: ls list_update_append)
  have d2: "et_depth t2 = 0" "et_entries_cnt t2 = et_entries_cnt ?tr"
    using t2(1) a(2) by (auto simp: et_replace_at_def rmap_Inr_iff)
  have "lf_start l + n < 2 ^ 64" using l by (simp add: entry_fits_def)
  then have "truncate_last n (p, fs, t) = Some (Inr (p\<lparr>p_tree := t2\<rparr>, fs', t'))"
    using g c l d a(3) r t2(1)
    by (simp add: truncate_last_def chk_def sub_nat_def en_replace_at_def en_write_def must_def en_idx_def Let_def)
  moreover have "at_end (p\<lparr>p_tree := t2\<rparr>)" using e t2(2) d2 by (simp add: at_end_def)
  ultimately show ?thesis using tree_leafs_of_ents [OF d2(1) t2(3), of m] by auto
qed

lemma remove_loop_stuck:
  assumes "at_end p" and "tree_leafs (p_tree p) m = ls @ [l]" and "entry_fits 0 (Leaf l)" and "lf_init l"
    and "until = lf_block l + lf_len l" and "until < 2 ^ 32"
  shows "remove_after_loop fuel until (p, fs, t) = None"
  using assms(1,2)
proof (induction fuel arbitrary: p)
  case (Suc fuel)
  have l: "0 < lf_len l" "lf_len l < 2 ^ 15" using assms(3) by (simp_all add: entry_fits_def)
  have d: "fs_deallocate (p_ino p) (lf_start l + lf_len l) (lf_len l - lf_len l) (fs, t) = Some (Inr (fs, t))"
    by (simp add: fs_deallocate_def)
  have "lf_len l \<noteq> 0" using l by simp
  from truncate_last_keep [OF Suc.prems assms(3,4) this order_refl d] obtain p' where
    "truncate_last (lf_len l) (p, fs, t) = Some (Inr (p', fs, t))" "at_end p'" "tree_leafs (p_tree p') m = ls @ [l]"
    by auto
  with Suc.IH [of p'] get_leaf_at_end [OF Suc.prems(1), of fs m] Suc.prems(2) l assms(5,6) show ?case
    by (simp add: chk_def)
qed simp

text \<open>C35: Truncating a file to a length that ends inside its last extent, or exactly where the extent ends,
  never returns: the loop leaves off only when an extent ends before the new end (\<open><\<close>), so it
  shortens the last extent and then finds it again in every round.\<close>

theorem remove_after_never_returns:
  assumes "et_ok (p_tree p)" and "et_depth (p_tree p) = 0" and "tree_leafs (p_tree p) m = ls @ [l]"
    and "entry_fits 0 (Leaf l)" and "lf_init l" and "lf_block l < until" and "until \<le> lf_block l + lf_len l"
    and "lf_block l + lf_len l < 2 ^ 32"
    and "fs_deallocate (p_ino p) (lf_start l + (until - lf_block l)) (lf_block l + lf_len l - until) (fs, t) =
      Some (Inr (fs', t'))"
  shows "remove_after fuel until (p, fs, t) = None"
proof -
  obtain p1 where p1: "load_path_to_last (p, fs) = Inr (p1, fs)" "at_end p1" "p_tree p1 = p_tree p" "p_ino p1 = p_ino p"
    using load_path_to_last_at_end [OF assms(1,2)] by blast
  let ?n = "until - lf_block l"
  have n: "?n \<noteq> 0" "?n \<le> lf_len l" "?n < 2 ^ 15" "lf_len l - ?n = lf_block l + lf_len l - until"
    using assms(6,7) assms(4) [unfolded entry_fits_def] by auto
  have ls1: "tree_leafs (p_tree p1) m = ls @ [l]" using assms(3) p1(3) by simp
  have "fs_deallocate (p_ino p1) (lf_start l + ?n) (lf_len l - ?n) (fs, t) = Some (Inr (fs', t'))"
    using assms(9) unfolding n(4) p1(4) .
  from truncate_last_keep [OF p1(2) ls1 assms(4,5) n(1,2) this] obtain p2 where
    p2: "truncate_last ?n (p1, fs, t) = Some (Inr (p2, fs', t'))" "at_end p2"
      "tree_leafs (p_tree p2) m = ls @ [l\<lparr>lf_len := ?n\<rparr>]" by blast
  have "remove_after_loop f until (p2, fs', t') = None" for f
    by (rule remove_loop_stuck [OF p2(2,3)]) (use assms n in \<open>auto simp: entry_fits_def\<close>)
  then have "remove_after_loop fuel until (p1, fs, t) = None"
    using get_leaf_at_end [OF p1(2), of fs m] ls1 assms(7,8) n p2(1) by (cases fuel) (simp_all add: chk_def)
  then show ?thesis using p1(1) by (simp add: remove_after_def)
qed


section \<open>Growing the tree\<close>

lemma init_node_ok:
  assumes "16 \<le> n" and "length b = n" and "d < 2 ^ 16" and "(n - 16) div 12 < 2 ^ 16"
  obtains b' where "init_node n d b = Inr b'" "length b' = n" "node_from_bytes b' = Inr ()" "node_ok b'"
    "node_level b' = d" "node_room b' = (n - 16) div 12" "node_ents b' = []"
proof -
  define c r where "c = take 12 b" and "r = drop 12 b"
  then have b: "b = c @ r" "length c = 12" using assms(1,2) by simp_all
  obtain c0 c1 c2 c3 c4 c5 c6 c7 c8 c9 c10 c11 where c: "c = [c0, c1, c2, c3, c4, c5, c6, c7, c8, c9, c10, c11]"
    using list12_cases [OF b(2)] .
  define b' where "b' = to_le16 0xF30A @ to_le16 0 @ to_le16 (of_nat ((n - 16) div 12)) @ to_le16 (of_nat d) @ [c8, c9, c10, c11] @ r"
  have i: "init_node n d b = Inr b'"
    using assms(1) unfolding b(1) c b'_def
    by (simp add: init_node_def write_u16_def splice_def sub_nat_def to_le16_def)
  have z: "le16 0 0 = 0" "le16 62218 243 = 62218" by (simp_all add: le16_def)
  have h: "node_cnt b' = 0" "node_room b' = (n - 16) div 12" "node_level b' = d" "read_u16 b' 0 = Inr 0xF30A"
    using assms(3,4)
    by (simp_all add: b'_def to_le16_def node_cnt_def node_room_def node_level_def read_u16_def le16_to_le16 unat_small16 z)
  have len: "length b' = n" using assms(2) by (simp add: b'_def b c)
  show thesis
  proof (rule that [OF i len _ _ h(3,2)])
    show "node_from_bytes b' = Inr ()" by (simp add: node_from_bytes_def h(4))
    have "12 * ((n - 16) div 12) \<le> n - 16" by (simp add: div_times_less_eq_dividend mult.commute)
    then show "node_ok b'" using h len assms(1) by (simp add: node_ok_def)
    show "node_ents b' = []" using h(1) by (simp add: node_ents_def dec_list_def)
  qed
qed


lemma copy_entries_ok:
  assumes "node_ok b" and "node_ents b = []" and "n \<le> node_room b"
    and "\<And>i. i < n \<Longrightarrow> get i = Inr (Some (es ! i)) \<and> entry_fits (node_level b) (es ! i)" and "n \<le> length es"
  shows "\<exists>b'. copy_entries get n b = Inr b' \<and> node_ok b' \<and> node_ents b' = take n es \<and>
    node_level b' = node_level b \<and> node_room b' = node_room b \<and> node_from_bytes b' = node_from_bytes b"
  using assms(3-)
proof (induction n)
  case 0
  with assms(1,2) show ?case by (simp add: copy_entries_def)
next
  case (Suc n)
  then obtain c where c: "copy_entries get n b = Inr c" "node_ok c" "node_ents c = take n es"
    "node_level c = node_level b" "node_room c = node_room b" "node_from_bytes c = node_from_bytes b" by auto
  have n: "length (node_ents c) = n" "n < node_room c" using c(3,5) Suc.prems by simp_all
  have "entry_fits (node_level c) (es ! n)" using Suc.prems(2) [of n] c(4) by simp
  from node.ins_last [OF c(2) this] n obtain b' where
    b': "node_insert_at (es ! n) n c = Inr (True, b')" "node_ok b'" "node_ents b' = node_ents c @ [es ! n]" by auto
  have "copy_entries get (Suc n) b = Inr b'"
    using c(1) b'(1) Suc.prems(2) [of n] by (simp add: copy_entries_def for_each_append must_def)
  moreover have "node_ents b' = take (Suc n) es" using b'(3) c(3) Suc.prems(3) by (simp add: take_Suc_conv_app_nth)
  ultimately show ?case using b'(2) node_insert_at_frame [OF b'(1)] c by auto
qed

lemma tree_leafs_one_level:
  assumes "et_depth tr = 1" and "et_ents tr = [Internal bl lba]" and "m lba = Some b" and "node_ents b = map Leaf ls"
  shows "tree_leafs tr m = ls"
proof -
  have "concat (map (entry_leafs 0 m) (map Leaf ls)) = ls" by (induction ls) auto
  with assms show ?thesis by (simp add: tree_leafs_def)
qed

lemma noload_fresh:
  assumes "case blocks fs lba of None \<Rightarrow> True | Some b \<Rightarrow> length b = blk_size fs"
    and "\<And>b. length b = blk_size fs \<Longrightarrow> \<exists>a b'. f b = Inr (a, b') \<and> P a b'"
  shows "\<exists>a b' fs' t'. tx_modify_noload lba f (fs, t) = Inr (a, fs', t') \<and> P a b' \<and> fs_view fs' lba = Some b' \<and>
    tx_events t' = tx_events t"
proof -
  obtain b where b: "cache_get_or_insert lba (\<lambda>_. Inr (replicate (blk_size fs) 0)) (blocks fs) = Inr (b, (blocks fs)(lba \<mapsto> b))"
    "length b = blk_size fs"
    using assms(1) by (cases "blocks fs lba") (auto simp: cache_get_or_insert_def fun_upd_idem)
  from assms(2) [OF b(2)] obtain a b' where f: "f b = Inr (a, b')" "P a b'" by blast
  let ?fs = "fs\<lparr>blocks := (blocks fs)(lba \<mapsto> b')\<rparr>"
  have "tx_modify_noload lba f (fs, t) = Inr (a, ?fs, t\<lparr>tx_col := track lba (tx_col t)\<rparr>)"
    using b(1) f(1) by (simp add: tx_modify_noload_def blk_modify_noload_def Let_def)
  moreover have "fs_view ?fs lba = Some b'" by (simp add: fs_view_def)
  ultimately show ?thesis using f(2) by (intro exI [of _ a] exI [of _ b'] exI [of _ ?fs]) auto
qed

text \<open>What the new block is filled with: a node of the same level holding the entries of the root.\<close>

definition moved_node :: "nat \<Rightarrow> extent_tree \<Rightarrow> bytes \<Rightarrow> (nat \<times> bytes) result" where
  "moved_node bs tr b =
     rbind (init_node bs (et_depth tr) b) (\<lambda>b.
     rbind (unwrap_res (node_from_bytes b)) (\<lambda>_.
     rbind (copy_entries (et_get tr) (et_entries_cnt tr) b) (\<lambda>b.
     rbind (rbind (node_get b 0) unwrap) (\<lambda>e. Inr (first_block e, b)))))"

lemma moved_node_ok:
  assumes tr: "et_ok tr" "et_depth tr = 0" "0 < et_entries_cnt tr" "\<forall>l\<in>set (tree_leafs tr m). entry_fits 0 (Leaf l)"
    and blk: "64 \<le> bs" "bs \<le> 4096" "length b = bs"
  shows "\<exists>a b'. moved_node bs tr b = Inr (a, b') \<and> a < 2 ^ 32 \<and> node_ents b' = map Leaf (tree_leafs tr m)"
proof -
  let ?ls = "tree_leafs tr m"
  note len = length_tree_leafs [OF tr(2), of m] and get = et_get_leafs [OF tr(1,2), of _ m]
  have "16 \<le> bs" "(bs - 16) div 12 < 2 ^ 16" using blk by simp_all
  from init_node_ok [OF this(1) blk(3) _ this(2), of 0] obtain c where
    c: "init_node bs 0 b = Inr c" "node_from_bytes c = Inr ()" "node_ok c" "node_level c = 0"
      "node_room c = (bs - 16) div 12" "node_ents c = []" by auto
  have "4 \<le> (bs - 16) div 12" using blk by simp
  then have room: "et_entries_cnt tr \<le> node_room c" using tr(1) c(5) by (simp add: et_ok_def)
  have "et_get tr i = Inr (Some (map Leaf ?ls ! i)) \<and> entry_fits (node_level c) (map Leaf ?ls ! i)"
    if "i < et_entries_cnt tr" for i
    using that get [of i] tr(4) c(4) len by simp
  from copy_entries_ok [OF c(3,6) room this] obtain b' where
    b': "copy_entries (et_get tr) (et_entries_cnt tr) c = Inr b'" "node_ok b'" "node_ents b' = map Leaf ?ls"
    using len by auto
  then have "node_get b' 0 = Inr (Some (Leaf (?ls ! 0)))" using node.get_ents [OF b'(2), of 0] len tr(3) by simp
  then have "moved_node bs tr b = Inr (lf_block (?ls ! 0), b')"
    using c(1,2) b'(1) tr(2) by (simp add: moved_node_def first_block_def)
  moreover have "?ls ! 0 \<in> set ?ls" using len tr(3) by simp
  then have "lf_block (?ls ! 0) < 2 ^ 32" using tr(4) by (auto simp: entry_fits_def)
  ultimately show ?thesis using b'(3) by blast
qed

lemma grown_root:
  assumes "et_ok tr" and "0 < et_entries_cnt tr" and "a < 2 ^ 32" and "lba < 2 ^ 48"
  shows "\<exists>tr'. et_insert_at (Internal a lba) 0 (tr\<lparr>et_entries_cnt := 0, et_depth := 1\<rparr>) = Inr (True, tr') \<and>
    et_ents tr' = [Internal a lba] \<and> et_depth tr' = 1 \<and> et_entries_cnt tr' = 1"
proof -
  let ?r = "tr\<lparr>et_entries_cnt := 0, et_depth := 1\<rparr>"
  have r: "et_ok ?r" "entry_fits (et_depth ?r) (Internal a lba)" "et_ents ?r = []" "et_entries_cnt tr \<le> et_max_entries_cnt tr"
    using assms by (simp_all add: et_ok_def entry_fits_def et_ents_def dec_list_def)
  then have "length (et_ents ?r) < et_max_entries_cnt ?r" using assms(2) by simp
  from root.ins_last [OF r(1,2) this] r(3) obtain tr' where
    t: "et_insert_at (Internal a lba) 0 ?r = Inr (True, tr')" "et_ents tr' = [Internal a lba]" by auto
  then have "et_depth tr' = 1" "et_entries_cnt tr' = 1"
    by (auto simp: et_insert_at_def rbind_Inr_iff rmap_Inr_iff split: if_splits)
  with t show ?thesis by blast
qed

text \<open>C29: Growing the tree by a level (\<open>grow_extent\<close>): when the extents in the inode are moved to a new
  block, the inode then holds one entry, the depth is one, and the extents of the tree are the same
  as before, so no block of the file changes its mapping.\<close>

theorem grow_extent_keeps_extents:
  assumes tr: "et_ok (p_tree p)" "et_depth (p_tree p) = 0" "0 < et_entries_cnt (p_tree p)"
      "\<forall>l\<in>set (tree_leafs (p_tree p) m). entry_fits 0 (Leaf l)"
    and gl: "groups_loaded fs" and wf: "buddy_wf (allocator fs)"
    and range: "free (allocator fs) \<subseteq> {blocks_base (fs_sb fs)..<blocks_end (fs_sb fs)}" "blocks_end (fs_sb fs) < 2 ^ 48"
    and free: "free (allocator fs) \<noteq> {}" and blk: "64 \<le> blk_size fs" "blk_size fs \<le> 4096"
    and cached: "\<forall>q\<in>free (allocator fs). case blocks fs q of None \<Rightarrow> True | Some b \<Rightarrow> length b = blk_size fs"
    and ino: "0 < ino" "0 < inodes_per_group (fs_sb fs)"
  shows "\<exists>p' fs' t'. grow_extent ino (p, fs, t) = Inr (p', fs', t') \<and> et_depth (p_tree p') = 1 \<and>
    et_entries_cnt (p_tree p') = 1 \<and> tree_leafs (p_tree p') (fs_view fs') = tree_leafs (p_tree p) m"
proof -
  let ?tr = "p_tree p"
  note len = length_tree_leafs [OF tr(2), of m] and get = et_get_leafs [OF tr(1,2), of _ m]
  define hope where "hope = (ino - 1) div inodes_per_group (fs_sb fs)"
  have "0 < blk_size fs" using blk by simp
  from fs_allocate_run [OF gl wf range(1) zero_less_one this blk(2), of "p_ino p" hope t] free obtain lba k fs1 g i where
    al: "fs_allocate (p_ino p) 1 hope (fs, t) = Inr ((lba, k), fs1,
        push_event (BlockAllocationOnBg (p_ino p) g (block_bitmap_lba (the_group fs g)) i k) t)"
      "0 < k" "{lba..<lba + k} \<subseteq> free (allocator fs)"
      "fs1 = set_block_group g (bg_dec_free_blocks k (the_group fs g)) (fs\<lparr>allocator := allocator fs1\<rparr>)" by blast
  have lba: "lba \<in> free (allocator fs)" using al(2,3) by (simp add: subsetD)
  then have lba48: "lba < 2 ^ 48" using range by force
  have fs1: "blk_size fs1 = blk_size fs" "blocks fs1 = blocks fs"
    by (subst al(4), simp add: set_block_group_def)+
  have "case blocks fs1 lba of None \<Rightarrow> True | Some b \<Rightarrow> length b = blk_size fs1"
    unfolding fs1 using cached lba by blast
  from noload_fresh [OF this, of "moved_node (blk_size fs) ?tr" "\<lambda>a b'. a < 2 ^ 32 \<and> node_ents b' = map Leaf (tree_leafs ?tr m)",
      unfolded fs1, OF moved_node_ok [OF tr blk]] obtain a b' fs2 t2 where
    m: "tx_modify_noload lba (moved_node (blk_size fs) ?tr)
          (fs1, push_event (BlockAllocationOnBg (p_ino p) g (block_bitmap_lba (the_group fs g)) i k) t) = Inr (a, fs2, t2)"
      "a < 2 ^ 32" "node_ents b' = map Leaf (tree_leafs ?tr m)" "fs_view fs2 lba = Some b'" by blast
  obtain t3 where t3: "et_insert_at (Internal a lba) 0 (?tr\<lparr>et_entries_cnt := 0, et_depth := 1\<rparr>) = Inr (True, t3)"
    "et_ents t3 = [Internal a lba]" "et_depth t3 = 1" "et_entries_cnt t3 = 1"
    using grown_root [OF tr(1,3) m(2) lba48] by blast
  have "grow_extent ino (p, fs, t) = Inr (p\<lparr>p_tree := t3\<rparr>, fs2, t2)"
    using get [of 0] len tr(2,3) ino al(1) [unfolded hope_def] m(1) [unfolded moved_node_def [abs_def] tr(2)] t3(1)
    by (simp add: grow_extent_def next_node_def sub_nat_def chk_def must_def Let_def)
  moreover have "tree_leafs t3 (fs_view fs2) = tree_leafs ?tr m"
    using t3(3,2) m(4,3) by (rule tree_leafs_one_level)
  ultimately show ?thesis using t3(3,4) by (intro exI [of _ "p\<lparr>p_tree := t3\<rparr>"] exI [of _ fs2] exI [of _ t2]) simp
qed


section \<open>Branches that fail\<close>

text \<open>The hint for new blocks after the last extent is computed as its first block on the disk minus
  the distance in the file; appending to an extent that is further from its start in the file than
  its first block is from the start of the disk underflows and panics instead of allocating.\<close>

theorem append_hint_underflows:
  assumes "get_leaf p fs = Inr (Some l)" and "lf_init l" and "lf_block l + lf_len l \<le> fba"
    and "lf_block l + lf_len l < 2 ^ 32" and "lf_start l < fba - lf_block l"
  shows "or_allocated_many fuel sz is_meta fba (p, fs, t) = Some (Inl Panic)"
  using assms by (simp add: or_allocated_many_def alloc_hint_def chk_def sub_nat_def)

lemma append_hint_underflows_witness:
  "or_allocated_many 3 1 False 104 ((path_empty 12 demo_tree)\<lparr>p_cache :=
     Some \<lparr>lf_block = 100, lf_start = 3, lf_len = 4, lf_init = True\<rparr>\<rparr>, demo_ext_fs, open_transaction) = Some (Inl Panic)"
  by (rule append_hint_underflows [of _ _ "\<lparr>lf_block = 100, lf_start = 3, lf_len = 4, lf_init = True\<rparr>"])
    (simp_all add: get_leaf_def)

text \<open>In a tree of depth two a leaf cannot be split even when its parent has room: the level to split
  from is computed as \<open>len - level - 1\<close>, which names the parent, and splitting an inner node is not
  implemented, so inserting into the full leaf fails.\<close>

theorem deep_insert_fails:
  assumes "insert_leaf new (p, fs, t) = Inr (Some new', p', fs', t')" and "length (p_leafs p') = 2"
    and "en_full p' 2 fs' = Inr True" and "en_full p' 1 fs' = Inr False"
  shows "\<exists>e. do_insert (Suc fuel) new ino (p, fs, t) = Some (Inl e)"
proof -
  have len: "path_len p' = 3" using assms(2) by (simp add: path_len_def)
  have lvl: "find_level (path_len p') p' fs' = Inr (Some 1)"
    using assms(3,4) by (simp add: len eval_nat_numeral)
  have "\<nexists>r. split_at new' 1 (p', fs', t') = Inr r"
  proof
    assume "\<exists>r. split_at new' 1 (p', fs', t') = Inr r"
    then obtain lbas st pst where n: "alloc_nodes (p_ino p') 2 (fs', t') = Inr (lbas, st)"
      and l: "for_each (zip [0..<2] lbas) (\<lambda>(d, lba). split_level (d + 1) lba) (p', st) = Inr pst"
      by (auto simp: split_at_def len rbind_Inr_iff Let_def split: if_splits)
    then obtain a b where "lbas = [a, b]"
      by (auto simp: eval_nat_numeral rbind_Inr_iff rmap_Inr_iff)
    with l have "\<exists>pst. split_level 1 a (p', st) = Inr pst" by (auto simp: upt_conv_Cons rbind_Inr_iff)
    then show False using len by (auto simp: split_level_def split: prod.splits)
  qed
  then obtain e where "split_at new' 1 (p', fs', t') = Inl e" by (cases "split_at new' 1 (p', fs', t')") auto
  then have "\<exists>e. as_io_error (split_at new' 1 (p', fs', t')) = Inl e"
    by (cases e) (simp_all add: as_io_error_def)
  then obtain e' where e': "as_io_error (split_at new' 1 (p', fs', t')) = Inl e'" by blast
  show ?thesis using assms(1) lvl e' by (simp add: len sub_nat_def)
qed


text \<open>When removing the last extent empties a leaf node that is not the only one, the node is freed and
  the entry of the root is dropped, but the path is left at the dropped entry: it shows no leaf, so the
  removal ends there although the remaining nodes still hold extents.\<close>

theorem cleanup_stops_early:
  assumes "p_cache p = None" and "p_leafs p = [(lba, Some 0)]" and "p_root p = Some (Suc i)"
    and "et_entries_cnt (p_tree p) = Suc (Suc i)" and "et_get (p_tree p) (Suc i) = Inr (Some (Internal bl lba))"
    and "blocks fs lba = Some b" and "12 \<le> length b" and "node_cnt b = 0"
    and "fs_deallocate (p_ino p) lba 1 (fs, t) = Some (Inr (fs', t'))"
  shows "\<exists>p'. move_prev_with_cleanup (p, fs, t) = Some (Inr (p', fs', t')) \<and>
    et_entries_cnt (p_tree p') = Suc i \<and> get_leaf p' fs' = Inr None \<and>
    remove_after_loop (Suc fuel) until (p', fs', t') = Some (Inr (p', fs', t'))"
proof -
  let ?p = "p\<lparr>p_leafs := [], p_tree := (p_tree p)\<lparr>et_entries_cnt := Suc i\<rparr>\<rparr>"
  have g: "et_get ((p_tree p)\<lparr>et_entries_cnt := Suc i\<rparr>) (Suc i) = Inr None" by (simp add: et_get_def ext_get_def)
  have "cleanup_up 1 (p, fs, t) = Some (Inr (True, ?p, fs', t'))"
    using assms
    by (simp add: nth_leaf_def held_def node_header en_idx_def en_cnt_def en_read_def en_get_def next_node_def
        en_set_cnt_def en_write_def Let_def)
  then have "move_prev_with_cleanup (p, fs, t) = Some (Inr (?p, fs', t'))"
    using assms(2,3) g
    by (simp add: move_prev_with_cleanup_def en_idx_def opt_get_def en_get_def en_read_def Let_def)
  moreover have l: "get_leaf ?p fs' = Inr None"
    using assms(1,3) g by (simp add: get_leaf_def en_idx_def opt_get_def en_get_def en_read_def)
  ultimately show ?thesis by (intro exI [of _ ?p]) simp
qed

section \<open>Concrete inputs\<close>

text \<open>An inode with the extent of blocks 4..5 alone, and one of depth two with a full leaf node.\<close>

definition demo_inline :: extent_tree where
  "demo_inline = \<lparr>et_entries_cnt = 1, et_max_entries_cnt = 4, et_depth = 0,
     et_b = [4, 0, 0, 0, 2, 0, 0, 0, 50, 0, 0, 0] @ replicate 36 0\<rparr>"

definition demo_inline_path :: path where
  "demo_inline_path = (path_empty 12 demo_inline)\<lparr>p_root := Some 0\<rparr>"

lemma demo_inline_simps: "et_ok demo_inline" "et_depth demo_inline = 0" "et_entries_cnt demo_inline = 1"
  "et_max_entries_cnt demo_inline = 4" "p_tree demo_inline_path = demo_inline" "p_ino demo_inline_path = 12"
  "tree_leafs demo_inline m = [\<lparr>lf_block = 4, lf_start = 50, lf_len = 2, lf_init = True\<rparr>]"
  by (simp_all add: demo_inline_def et_ok_def tree_leafs_def et_ents_def dec_list_def chunk12_def dec_entry_def
      le32_def le16_def merge_u32_def root_len_def upt_conv_Cons demo_inline_path_def path_empty_def)

lemma demo_inline_at_end: "at_end demo_inline_path"
  by (simp add: at_end_def demo_inline_simps) (simp add: demo_inline_path_def path_empty_def)

lemma insert_leaf_extends_map_witness:
  "\<exists>p'. insert_leaf \<lparr>lf_block = 6, lf_start = 52, lf_len = 3, lf_init = True\<rparr> (demo_inline_path, demo_ext_fs, open_transaction) =
      Inr (None, p', demo_ext_fs, open_transaction) \<and>
    ext_lookup (tree_leafs (p_tree p') Map.empty) 8 = Some (Initialized 54) \<and>
    ext_lookup (tree_leafs (p_tree p') Map.empty) 5 = Some (Initialized 51)"
proof -
  let ?new = "\<lparr>lf_block = 6, lf_start = 52, lf_len = 3, lf_init = True\<rparr>"
  from insert_leaf_extends_map [OF demo_inline_at_end, of ?new Map.empty demo_ext_fs open_transaction] obtain p' where
    "insert_leaf ?new (demo_inline_path, demo_ext_fs, open_transaction) = Inr (None, p', demo_ext_fs, open_transaction)"
    "\<forall>x. ext_lookup (tree_leafs (p_tree p') Map.empty) x =
      (if within x ?new then Some (Initialized (52 + (x - 6))) else ext_lookup (tree_leafs demo_inline Map.empty) x)"
    by (auto simp: demo_inline_simps entry_fits_def)
  moreover have "ext_lookup (tree_leafs demo_inline Map.empty) 5 = Some (Initialized 51)"
    by (simp add: within_def demo_inline_simps(7) ext_lookup_def)
  ultimately show ?thesis by (simp add: within_def)
qed

lemma remove_after_0_witness:
  "\<exists>p' evs. remove_after 2 0 (demo_inline_path, demo_fs one_chunk, open_transaction) =
      Some (Inr (p', demo_fs one_chunk, open_transaction\<lparr>tx_events := evs\<rparr>)) \<and>
    et_entries_cnt (p_tree p') = 0 \<and> concat (map (ev_blocks demo_sb) evs) = [50, 51]"
  using remove_after_0 [OF demo_fs_loaded, of demo_inline_path Map.empty one_chunk 2 open_transaction]
  by (simp add: demo_inline_simps leaf_on_disk_def leaf_blocks_def open_transaction_def upt_conv_Cons)

lemma remove_after_never_returns_witness:
  "remove_after 1000 6 (demo_inline_path, demo_ext_fs, open_transaction) = None"
  by (rule remove_after_never_returns [of _ Map.empty "[]" "\<lparr>lf_block = 4, lf_start = 50, lf_len = 2, lf_init = True\<rparr>"])
    (simp_all add: demo_inline_simps entry_fits_def fs_deallocate_def)

lemma grow_extent_keeps_extents_witness:
  "\<exists>p' fs' t'. grow_extent 12 (demo_inline_path, demo_fs one_chunk, open_transaction) = Inr (p', fs', t') \<and>
    et_depth (p_tree p') = 1 \<and> et_entries_cnt (p_tree p') = 1 \<and>
    tree_leafs (p_tree p') (fs_view fs') = [\<lparr>lf_block = 4, lf_start = 50, lf_len = 2, lf_init = True\<rparr>]"
  unfolding demo_inline_simps(7) [of Map.empty, symmetric] demo_inline_simps(5) [symmetric]
proof (rule grow_extent_keeps_extents)
  show "groups_loaded (demo_fs one_chunk)" by (rule demo_fs_loaded)
  show "buddy_wf (allocator (demo_fs one_chunk))" using one_chunk_wf by simp
  show "\<forall>q\<in>free (allocator (demo_fs one_chunk)). case blocks (demo_fs one_chunk) q of None \<Rightarrow> True
      | Some b \<Rightarrow> length b = blk_size (demo_fs one_chunk)" by (simp add: demo_fs_def)
  show "0 < inodes_per_group (fs_sb (demo_fs one_chunk))" by (simp add: demo_sb_def)
qed (auto simp: demo_inline_simps entry_fits_def one_chunk_free)

definition demo_inner :: bytes where
  "demo_inner = [0x0A, 0xF3, 1, 0, 3, 0, 1, 0, 0, 0, 0, 0] @ [4, 0, 0, 0, 78, 0, 0, 0, 0, 0, 0, 0] @ replicate 24 0"

definition demo_full :: bytes where
  "demo_full = [0x0A, 0xF3, 1, 0, 1, 0, 0, 0, 0, 0, 0, 0] @ [4, 0, 0, 0, 2, 0, 0, 0, 50, 0, 0, 0]"

definition demo_deep_path :: path where
  "demo_deep_path = (path_empty 12 \<lparr>et_entries_cnt = 1, et_max_entries_cnt = 4, et_depth = 2,
     et_b = [4, 0, 0, 0, 77, 0, 0, 0, 0, 0, 0, 0] @ replicate 36 0\<rparr>)
     \<lparr>p_root := Some 0, p_leafs := [(77, Some 0), (78, Some 0)]\<rparr>"

definition demo_deep_fs :: "bytes fs" where
  "demo_deep_fs = (demo_fs one_chunk)\<lparr>blocks := [77 \<mapsto> demo_inner, 78 \<mapsto> demo_full]\<rparr>"

lemma demo_nodes: "node_ok demo_full" "node_entries_cnt demo_full = Inr 1" "node_max_entries_cnt demo_full = Inr 1"
  "node_ents demo_full = [Leaf \<lparr>lf_block = 4, lf_start = 50, lf_len = 2, lf_init = True\<rparr>]"
  "node_entries_cnt demo_inner = Inr 1" "node_max_entries_cnt demo_inner = Inr 3"
  by (simp_all add: node_header node_ok_def node_room_def node_cnt_def node_level_def demo_full_def demo_inner_def
      le16_def le32_def merge_u32_def node_ents_def dec_list_def chunk12_def dec_entry_def node_len_def)

lemma deep_insert_fails_witness:
  "\<exists>e. do_insert 5 \<lparr>lf_block = 9, lf_start = 70, lf_len = 1, lf_init = True\<rparr> 12 (demo_deep_path, demo_deep_fs, open_transaction) =
    Some (Inl e)"
proof -
  let ?new = "\<lparr>lf_block = 9, lf_start = 70, lf_len = 1, lf_init = True\<rparr>"
  have p: "length (p_leafs demo_deep_path) = 2" "en_idx demo_deep_path 2 = Inr (Some 0)" "p_cache demo_deep_path = None"
    by (simp_all add: demo_deep_path_def en_idx_def nth_leaf_def path_empty_def)
  have rd: "en_read f g demo_deep_path 2 demo_deep_fs = g demo_full" "en_read f g demo_deep_path (Suc 0) demo_deep_fs = g demo_inner"
    for f :: "extent_tree \<Rightarrow> 'a result" and g
    by (simp_all add: en_read_def demo_deep_path_def demo_deep_fs_def nth_leaf_def held_def path_empty_def)
  have full: "en_full demo_deep_path 2 demo_deep_fs = Inr True" "en_full demo_deep_path 1 demo_deep_fs = Inr False"
    by (simp_all add: en_full_def en_cnt_def en_max_def rd demo_nodes is_full_def)
  have get: "en_get demo_deep_path 2 0 demo_deep_fs = Inr (Some (Leaf \<lparr>lf_block = 4, lf_start = 50, lf_len = 2, lf_init = True\<rparr>))"
    using node.get_ents [OF demo_nodes(1), of 0] by (simp add: en_get_def rd demo_nodes)
  have pl: "path_len demo_deep_path - Suc 0 = 2" by (simp add: path_len_def p)
  have "insert_leaf ?new (demo_deep_path, demo_deep_fs, open_transaction) =
      Inr (Some ?new, demo_deep_path, demo_deep_fs, open_transaction)"
    using p get full pl
    by (simp add: insert_leaf_def get_leaf_def opt_get_def entry_leaf_def continues_def chk_def Let_def)
  from deep_insert_fails [OF this p(1) full, of 4 12] show ?thesis by simp
qed

definition demo_cleanup_path :: path where
  "demo_cleanup_path = (path_empty 12 \<lparr>et_entries_cnt = 2, et_max_entries_cnt = 4, et_depth = 1,
     et_b = [0, 0, 0, 0, 76, 0, 0, 0, 0, 0, 0, 0] @ [4, 0, 0, 0, 77, 0, 0, 0, 0, 0, 0, 0] @ replicate 24 0\<rparr>)
     \<lparr>p_root := Some 1, p_leafs := [(77, Some 0)]\<rparr>"

definition demo_empty_node :: bytes where
  "demo_empty_node = [0x0A, 0xF3, 0, 0, 3, 0, 0, 0, 0, 0, 0, 0] @ replicate 36 0"

definition demo_cleanup_fs :: "bytes fs" where
  "demo_cleanup_fs = (demo_fs one_chunk)\<lparr>blocks := [77 \<mapsto> demo_empty_node]\<rparr>"

lemma cleanup_stops_early_witness:
  "\<exists>p' st. move_prev_with_cleanup (demo_cleanup_path, demo_cleanup_fs, open_transaction) = Some (Inr (p', st)) \<and>
    et_entries_cnt (p_tree p') = 1 \<and> get_leaf p' (fst st) = Inr None \<and>
    remove_after_loop 1 0 (p', st) = Some (Inr (p', st))"
proof -
  let ?t = "p_tree demo_cleanup_path"
  have get: "et_get ?t (Suc 0) = Inr (Some (Internal 4 77))"
    by (simp add: et_get_def ext_get_def demo_cleanup_path_def path_empty_def num32_def read_u16_def read_u32_def
        le16_def le32_def merge_u32_def)
  have gl: "groups_loaded demo_cleanup_fs"
    using demo_fs_loaded [of one_chunk] by (simp add: groups_loaded_def demo_cleanup_fs_def)
  have sb: "blocks_base (fs_sb demo_cleanup_fs) \<le> 77" "77 + 1 \<le> blocks_end (fs_sb demo_cleanup_fs)"
    by (simp_all add: demo_cleanup_fs_def)
  from dealloc_loop_ok [OF gl sb order_refl, of 12 open_transaction] obtain fs' t' where
    d: "fs_deallocate (p_ino demo_cleanup_path) 77 1 (demo_cleanup_fs, open_transaction) = Some (Inr (fs', t'))"
    by (auto simp: fs_deallocate_def demo_cleanup_path_def path_empty_def)
  have b: "p_cache demo_cleanup_path = None" "p_leafs demo_cleanup_path = [(77, Some 0)]"
    "p_root demo_cleanup_path = Some (Suc 0)" "et_entries_cnt ?t = Suc (Suc 0)" "blocks demo_cleanup_fs 77 = Some demo_empty_node"
    "12 \<le> length demo_empty_node" "node_cnt demo_empty_node = 0"
    by (simp_all add: demo_cleanup_path_def path_empty_def demo_cleanup_fs_def demo_empty_node_def node_cnt_def le16_def)
  from cleanup_stops_early [OF b(1-4) get b(5-7) d, of 0 0] obtain p' where
    "move_prev_with_cleanup (demo_cleanup_path, demo_cleanup_fs, open_transaction) = Some (Inr (p', fs', t'))"
    "et_entries_cnt (p_tree p') = Suc 0" "get_leaf p' fs' = Inr None"
    "remove_after_loop (Suc 0) 0 (p', fs', t') = Some (Inr (p', fs', t'))" by blast
  then show ?thesis by (intro exI [of _ p'] exI [of _ "(fs', t')"]) simp
qed

end
