(* ===== verification/Inode_Alloc.thy ===== *)
theory Inode_Alloc
  imports Block_Alloc
begin

text \<open>
  The inode allocator (\<open>src/inode/allocator.rs\<close>, \<open>apply_deallocation_on_core\<close> of
  \<open>src/inode/manager.rs\<close>): per-group bitmaps read on first use and then kept in memory, where
  a bit is taken with \<open>fetch_or\<close>. The operations run one after the other here, so the
  compare-and-set loop succeeds in its first round.
\<close>

definition ino_bitmap :: "nat \<Rightarrow> 'd fs \<Rightarrow> (bytes \<times> 'd fs) result" where
  "ino_bitmap bgid fs =
     rbind (assertR (bgid < length (ino_bitmaps fs))) (\<lambda>_.
     case ino_bitmaps fs ! bgid of
       Some bm \<Rightarrow> Inr (bm, fs)
     | None \<Rightarrow>
         rbind (get_block_group bgid fs) (\<lambda>(bg, fs).
         rbind (fs_get_block (inode_bitmap_lba bg) fs) (\<lambda>(bm, fs).
         Inr (bm, fs\<lparr>ino_bitmaps := (ino_bitmaps fs)[bgid := Some bm]\<rparr>))))"

definition set_ino_bitmap :: "nat \<Rightarrow> bytes \<Rightarrow> 'd fs \<Rightarrow> 'd fs" where
  "set_ino_bitmap bgid bm fs = fs\<lparr>ino_bitmaps := (ino_bitmaps fs)[bgid := Some bm]\<rparr>"

definition ino_try_allocate_at :: "nat \<Rightarrow> 'd fs \<Rightarrow> (nat option \<times> 'd fs) result" where
  "ino_try_allocate_at i fs =
     rbind (ino_into_bgid_index (fs_sb fs) i) (\<lambda>(bgid, idx).
     rbind (ino_bitmap bgid fs) (\<lambda>(bm, fs).
     rbind (read_u8 bm (idx div 8)) (\<lambda>v.
     let fs' = set_ino_bitmap bgid (bm[idx div 8 := v OR push_bit (idx mod 8) 1]) fs
     in Inr (if v AND push_bit (idx mod 8) 1 = 0 then Some i else None, fs'))))"

text \<open>\<open>get_free_ino\<close>: the lowest clear bit of the first byte that is not full.\<close>

definition get_free_ino :: "nat \<Rightarrow> 'd fs \<Rightarrow> (nat option \<times> 'd fs) result" where
  "get_free_ino bgid fs =
     rmap (\<lambda>(bm, fs).
       case scan_groups (\<lambda>_ b. b XOR 255) 0 bm of
         Some ret \<Rightarrow> (Some ret,
           set_ino_bitmap bgid (bm[ret div 8 := bm ! (ret div 8) OR push_bit (ret mod 8) 1]) fs)
       | None \<Rightarrow> (None, fs)) (ino_bitmap bgid fs)"

definition sb_dec_free_inodes :: "'d fs \<Rightarrow> 'd fs" where
  "sb_dec_free_inodes fs =
     fs\<lparr>fs_sb := (fs_sb fs)\<lparr>free_inodes_count := fetch_sub32 (free_inodes_count (fs_sb fs)) 1\<rparr>\<rparr>"

definition sb_inc_free_inodes :: "'d fs \<Rightarrow> 'd fs" where
  "sb_inc_free_inodes fs =
     fs\<lparr>fs_sb := (fs_sb fs)\<lparr>free_inodes_count := fetch_add32 (free_inodes_count (fs_sb fs)) 1\<rparr>\<rparr>"

fun ino_alloc_in :: "nat list \<Rightarrow> file_type \<Rightarrow> 'd fs \<times> tx \<Rightarrow> (nat \<times> 'd fs \<times> tx) result" where
  "ino_alloc_in [] de st = Inl (Fs FsFull)"
| "ino_alloc_in (bgid # rest) de (fs, t) =
     rbind (get_block_group bgid fs) (\<lambda>(bg, fs).
     if bg_free_inodes bg > 0
     then rbind (get_free_ino bgid fs) (\<lambda>(r, fs).
          case r of
            Some ofs \<Rightarrow>
              let fs = set_block_group bgid (bg_dec_free_inodes bg) fs;
                  t = inode_allocation_on_bg (bg_id bg) (inode_bitmap_lba bg) (trunc 32 ofs) de t;
                  fs = sb_dec_free_inodes fs;
                  t = free_inodes_count_dec_on_sb t;
                  fs = fs\<lparr>last_inode_bg_id := bgid\<rparr>
              in rmap (\<lambda>ino. (ino, fs, t)) (ino_from_bgid_index (fs_sb fs) bgid ofs)
          | None \<Rightarrow> ino_alloc_in rest de (fs, t))
     else ino_alloc_in rest de (fs, t))"

definition group_order :: "nat \<Rightarrow> nat \<Rightarrow> nat list" where
  "group_order start n = map (\<lambda>k. (start + k) mod n) [0..<n]"

definition ino_allocate :: "file_type \<Rightarrow> 'd fs \<times> tx \<Rightarrow> (nat \<times> 'd fs \<times> tx) result" where
  "ino_allocate de st =
     (if free_inodes_count (fs_sb (fst st)) = 0 then Inl (Fs FsFull)
      else ino_alloc_in (group_order (last_inode_bg_id (fst st)) (bg_count (fs_sb (fst st)))) de st)"

definition ino_deallocate :: "nat \<Rightarrow> file_type \<Rightarrow> 'd fs \<times> tx \<Rightarrow> ('d fs \<times> tx) result" where
  "ino_deallocate ino de st =
     (case st of (fs, t) \<Rightarrow>
      rbind (ino_into_bgid_index (fs_sb fs) ino) (\<lambda>(bgid, ofs).
      rbind (get_block_group bgid fs) (\<lambda>(bg, fs).
      rbind (unwrap_res (ino_bitmap bgid fs)) (\<lambda>(bm, fs).
      rbind (read_u8 bm (ofs div 8)) (\<lambda>v.
      rbind (assertR (v AND push_bit (ofs mod 8) 1 \<noteq> 0)) (\<lambda>_.
      Inr (fs, free_inodes_count_inc_on_sb
        (inode_deallocation_on_bg ino bgid (inode_bitmap_lba bg) ofs de t))))))))"

definition ino_apply_deallocation :: "nat \<Rightarrow> 'd fs \<Rightarrow> 'd fs result" where
  "ino_apply_deallocation ino fs =
     rbind (ino_into_bgid_index (fs_sb fs) ino) (\<lambda>(bgid, ofs).
     rbind (get_block_group bgid fs) (\<lambda>(bg, fs).
     rbind (ino_bitmap bgid fs) (\<lambda>(bm, fs).
     rbind (read_u8 bm (ofs div 8)) (\<lambda>v.
     let mask = push_bit (ofs mod 8) 1
     in rbind (assertR (v AND mask = mask)) (\<lambda>_.
        Inr (set_block_group bgid (bg_deallocate_inode bg)
          (sb_inc_free_inodes (set_ino_bitmap bgid (bm[ofs div 8 := v AND NOT mask]) fs))))))))"

section \<open>Theorems\<close>

definition bitmaps_loaded :: "'d fs \<Rightarrow> bool" where
  "bitmaps_loaded fs \<longleftrightarrow> length (ino_bitmaps fs) = bg_count (fs_sb fs) \<and>
     (\<forall>i < bg_count (fs_sb fs). ino_bitmaps fs ! i \<noteq> None)"

definition the_bitmap :: "'d fs \<Rightarrow> nat \<Rightarrow> bytes" where
  "the_bitmap fs i = the (ino_bitmaps fs ! i)"

lemma get_loaded_bitmap:
  "bitmaps_loaded fs \<Longrightarrow> i < bg_count (fs_sb fs) \<Longrightarrow> ino_bitmap i fs = Inr (the_bitmap fs i, fs)"
  by (auto simp: bitmaps_loaded_def ino_bitmap_def the_bitmap_def)

text \<open>\<open>in_use fs ino\<close>: the bit of the inode is set in the in-memory bitmap of its group.\<close>

definition in_use :: "'d fs \<Rightarrow> nat \<Rightarrow> nat \<Rightarrow> bool" where
  "in_use fs g i \<longleftrightarrow> bit_at (the_bitmap fs g) i"

lemma scan_free_ino:
  assumes "scan_groups (\<lambda>_ b. b XOR 255) 0 bm = Some r"
  shows "r < 8 * length bm" and "\<not> bit_at bm r" and "\<And>q. q < r \<Longrightarrow> bit_at bm q"
proof -
  have eq: "scanned_bit (\<lambda>_ b. b XOR 255) bm 0 q \<longleftrightarrow> \<not> bit_at bm q" for q
    using bit_255_byte [of "q mod 8"] by (simp add: scanned_bit_def bit_at_def bit_xor_iff)
  from scan_groups_Some [OF assms] eq
  show "r < 8 * length bm" "\<not> bit_at bm r" "\<And>q. q < r \<Longrightarrow> bit_at bm q" by simp_all
qed

lemma bit_at_update_or:
  "r < 8 * length bm \<Longrightarrow>
   bit_at (bm[r div 8 := bm ! (r div 8) OR push_bit (r mod 8) 1]) q \<longleftrightarrow> bit_at bm q \<or> q = r"
  using div_mod_8_eq_iff [of q r]
  by (cases "q div 8 = r div 8") (auto simp: bit_at_def bit_or_exp)

lemma bit_at_update_and_not:
  assumes "r < 8 * length bm"
  shows "bit_at (bm[r div 8 := bm ! (r div 8) AND NOT (push_bit (r mod 8) 1)]) q \<longleftrightarrow> bit_at bm q \<and> q \<noteq> r"
proof (cases "q div 8 = r div 8")
  case True
  have "bit (bm ! (r div 8) AND NOT (push_bit (r mod 8) 1)) (q mod 8) \<longleftrightarrow>
      bit (bm ! (r div 8)) (q mod 8) \<and> q mod 8 \<noteq> r mod 8"
    by (auto simp: bit_simps)
  with True assms div_mod_8_eq_iff [of q r] show ?thesis by (auto simp: bit_at_def)
next
  case False
  then show ?thesis by (auto simp: bit_at_def)
qed

lemma group_order_all: "0 < n \<Longrightarrow> set (group_order start n) = {..<n}"
proof -
  assume n: "0 < n"
  have "\<exists>k<n. (start + k) mod n = g" if "g < n" for g
  proof -
    let ?k = "(g + n - start mod n) mod n"
    have "(start + ?k) mod n = (start mod n + (g + n - start mod n)) mod n" by (simp add: mod_simps)
    also have "\<dots> = (g + n) mod n" using mod_less_divisor [OF n, of start] by simp
    also have "\<dots> = g" using that by simp
    finally show ?thesis using n by (intro exI [of _ ?k]) simp
  qed
  then show ?thesis
    using n by (auto simp: group_order_def image_iff) (metis atLeastLessThan_iff zero_le)
qed

text \<open>What one group contributes: either it has no free inode, or its lowest clear bit is taken.\<close>

definition took :: "'d fs \<Rightarrow> tx \<Rightarrow> file_type \<Rightarrow> nat \<Rightarrow> nat \<Rightarrow> 'd fs \<Rightarrow> tx \<Rightarrow> bool" where
  "took fs t de g i fs' t' \<longleftrightarrow>
     g < bg_count (fs_sb fs) \<and> i < 8 * length (the_bitmap fs g) \<and> \<not> in_use fs g i \<and>
     (\<forall>h < bg_count (fs_sb fs). \<forall>j. in_use fs' h j \<longleftrightarrow> in_use fs h j \<or> (h = g \<and> j = i)) \<and>
     tx_events t' = tx_events t @ [InodeAllocationOnBg g (inode_bitmap_lba (the_group fs g))
       (trunc 32 i) de, FreeInodesCountDecOnSb] \<and>
     allocator fs' = allocator fs \<and> blocks fs' = blocks fs"

lemma ino_alloc_in_ok:
  assumes gl: "groups_loaded fs" and bl: "bitmaps_loaded fs"
    and gs: "\<forall>g\<in>set gs. g < bg_count (fs_sb fs)"
    and ok: "ino_alloc_in gs de (fs, t) = Inr (ino, fs', t')"
  shows "\<exists>g i. took fs t de g i fs' t' \<and> ino_from_bgid_index (fs_sb fs) g i = Inr ino"
  using gs ok
proof (induction gs)
  case (Cons g gs)
  have g: "g < bg_count (fs_sb fs)" using Cons.prems(1) by simp
  note G = get_loaded_group [OF gl g] and B = get_loaded_bitmap [OF bl g]
  have rest: ?case if "ino_alloc_in gs de (fs, t) = Inr (ino, fs', t')"
    using Cons.IH [OF _ that] Cons.prems(1) by simp
  show ?case
  proof (cases "bg_free_inodes (the_group fs g) > 0")
    case False
    with Cons.prems(2) G rest show ?thesis by simp
  next
    case True
    show ?thesis
    proof (cases "scan_groups (\<lambda>_ b. b XOR 255) 0 (the_bitmap fs g)")
      case None
      with Cons.prems(2) True G B rest show ?thesis by (simp add: get_free_ino_def)
    next
      case (Some r)
      note sc = scan_free_ino [OF Some]
      let ?bm = "(the_bitmap fs g)[r div 8 := the_bitmap fs g ! (r div 8) OR push_bit (r mod 8) 1]"
      let ?fs = "(sb_dec_free_inodes (set_block_group g (bg_dec_free_inodes (the_group fs g))
          (set_ino_bitmap g ?bm fs)))\<lparr>last_inode_bg_id := g\<rparr>"
      have step: "ino_from_bgid_index (fs_sb ?fs) g r = Inr ino" "fs' = ?fs"
        "t' = free_inodes_count_dec_on_sb (inode_allocation_on_bg g
           (inode_bitmap_lba (the_group fs g)) (trunc 32 r) de t)"
        using Cons.prems(2) True G B Some
        by (auto simp: get_free_ino_def Let_def rmap_Inr_iff)
      have same: "ino_from_bgid_index (fs_sb ?fs) g r = ino_from_bgid_index (fs_sb fs) g r"
        by (simp add: ino_from_bgid_index_def sb_dec_free_inodes_def set_block_group_def set_ino_bitmap_def)
      have bm: "the_bitmap ?fs h = (if h = g then ?bm else the_bitmap fs h)" if "h < bg_count (fs_sb fs)" for h
        using that bl by (simp add: the_bitmap_def sb_dec_free_inodes_def set_block_group_def
            set_ino_bitmap_def bitmaps_loaded_def)
      have "took fs t de g r fs' t'"
        unfolding took_def step(2,3)
        using g sc bm bit_at_update_or [OF sc(1)]
        by (auto simp: in_use_def log_defs sb_dec_free_inodes_def set_block_group_def set_ino_bitmap_def)
      with step(1) same show ?thesis by auto
    qed
  qed
qed simp

text \<open>C25: an allocated inode was not in use before and is the only one taken; its number, read as
  group and index, is the bit that was set, and this bit and one fewer free inode are logged.\<close>

theorem ino_allocate_fresh:
  assumes "groups_loaded fs" and "bitmaps_loaded fs" and "0 < bg_count (fs_sb fs)"
    and "ino_allocate de (fs, t) = Inr (ino, fs', t')"
  shows "\<exists>g i. took fs t de g i fs' t' \<and> ino_from_bgid_index (fs_sb fs) g i = Inr ino"
proof (rule ino_alloc_in_ok [OF assms(1,2)])
  show "\<forall>g\<in>set (group_order (last_inode_bg_id fs) (bg_count (fs_sb fs))). g < bg_count (fs_sb fs)"
    using group_order_all [OF assms(3)] by simp
  show "ino_alloc_in (group_order (last_inode_bg_id fs) (bg_count (fs_sb fs))) de (fs, t) = Inr (ino, fs', t')"
    using assms(4) by (simp add: ino_allocate_def split: if_splits)
qed

lemma ino_alloc_in_full:
  assumes gl: "groups_loaded fs" and bl: "bitmaps_loaded fs" and gs: "\<forall>g\<in>set gs. g < bg_count (fs_sb fs)"
    and ok: "ino_alloc_in gs de (fs, t) = Inl (Fs FsFull)" and g: "g \<in> set gs"
  shows "bg_free_inodes (the_group fs g) = 0 \<or> (\<forall>i < 8 * length (the_bitmap fs g). in_use fs g i)"
  using gs ok g
proof (induction gs)
  case (Cons h gs)
  have h: "h < bg_count (fs_sb fs)" using Cons.prems(1) by simp
  note G = get_loaded_group [OF gl h] and B = get_loaded_bitmap [OF bl h]
  have eq: "scanned_bit (\<lambda>_ b. b XOR 255) bm 0 q \<longleftrightarrow> \<not> bit_at bm q" for q and bm :: bytes
    using bit_255_byte [of "q mod 8"] by (simp add: scanned_bit_def bit_at_def bit_xor_iff)
  have none: "in_use fs h i" if "scan_groups (\<lambda>_ b. b XOR 255) 0 (the_bitmap fs h) = None"
    "i < 8 * length (the_bitmap fs h)" for i
    using scan_groups_None [OF that(1), of i] that(2) eq by (simp add: in_use_def)
  have nofull: "ino_from_bgid_index sb x y \<noteq> Inl (Fs FsFull)" for sb x y
    by (auto simp: ino_from_bgid_index_def rbind_def chk_def)
  show ?case
  proof (cases "bg_free_inodes (the_group fs h) > 0")
    case True
    then have sc: "scan_groups (\<lambda>_ b. b XOR 255) 0 (the_bitmap fs h) = None"
      using Cons.prems(2) G B nofull
      by (auto simp: get_free_ino_def Let_def rmap_def rbind_def split: option.splits sum.splits)
    with Cons.prems(2) True G B have "ino_alloc_in gs de (fs, t) = Inl (Fs FsFull)"
      by (simp add: get_free_ino_def)
    with Cons sc none show ?thesis by auto
  next
    case False
    with Cons.prems(2) G have "ino_alloc_in gs de (fs, t) = Inl (Fs FsFull)" by simp
    with Cons False show ?thesis by auto
  qed
qed simp

text \<open>the allocator reports a full file system only when the superblock counts no free inode
  or every group counts none or has a full bitmap, whatever group the search starts at.\<close>

theorem ino_allocate_full:
  assumes "groups_loaded fs" and "bitmaps_loaded fs" and "g < bg_count (fs_sb fs)"
    and "ino_allocate de (fs, t) = Inl (Fs FsFull)" and "0 < free_inodes_count (fs_sb fs)"
  shows "bg_free_inodes (the_group fs g) = 0 \<or> (\<forall>i < 8 * length (the_bitmap fs g). in_use fs g i)"
proof (rule ino_alloc_in_full [OF assms(1,2)])
  let ?gs = "group_order (last_inode_bg_id fs) (bg_count (fs_sb fs))"
  have all: "set ?gs = {..<bg_count (fs_sb fs)}" using group_order_all assms(3) by simp
  then show "\<forall>g\<in>set ?gs. g < bg_count (fs_sb fs)" by simp
  show "g \<in> set ?gs" using all assms(3) by simp
  show "ino_alloc_in ?gs de (fs, t) = Inl (Fs FsFull)"
    using assms(4,5) by (simp add: ino_allocate_def)
qed

text \<open>applying the deallocation of an inode in memory clears its bit and no other, and panics
  when the bit is not set, so an inode is not freed twice.\<close>

theorem ino_apply_deallocation_frees:
  assumes gl: "groups_loaded fs" and bl: "bitmaps_loaded fs"
    and into: "ino_into_bgid_index (fs_sb fs) ino = Inr (g, i)" and g: "g < bg_count (fs_sb fs)"
    and i: "i < 8 * length (the_bitmap fs g)"
  shows "if in_use fs g i
    then \<exists>fs'. ino_apply_deallocation ino fs = Inr fs' \<and>
      (\<forall>h < bg_count (fs_sb fs). \<forall>j. in_use fs' h j \<longleftrightarrow> in_use fs h j \<and> \<not> (h = g \<and> j = i))
    else ino_apply_deallocation ino fs = Inl Panic"
proof -
  note G = get_loaded_group [OF gl g] and B = get_loaded_bitmap [OF bl g]
  let ?v = "the_bitmap fs g ! (i div 8)"
  have rd: "read_u8 (the_bitmap fs g) (i div 8) = Inr ?v" using i by (simp add: read_u8_def)
  have bit: "in_use fs g i \<longleftrightarrow> ?v AND push_bit (i mod 8) 1 = push_bit (i mod 8) 1"
    using exp_and_eq_exp [of "i mod 8" ?v] by (simp add: in_use_def bit_at_def)
  let ?bm = "(the_bitmap fs g)[i div 8 := ?v AND NOT (push_bit (i mod 8) 1)]"
  let ?fs = "set_block_group g (bg_deallocate_inode (the_group fs g))
    (sb_inc_free_inodes (set_ino_bitmap g ?bm fs))"
  have run: "ino_apply_deallocation ino fs =
      (if in_use fs g i then Inr ?fs else Inl Panic)"
    using into G B rd by (simp add: ino_apply_deallocation_def Let_def bit assertR_def del: push_bit_of_1)
  have bm: "the_bitmap ?fs h = (if h = g then ?bm else the_bitmap fs h)" if "h < bg_count (fs_sb fs)" for h
    using that bl by (simp add: the_bitmap_def sb_inc_free_inodes_def set_block_group_def
        set_ino_bitmap_def bitmaps_loaded_def)
  show ?thesis
    using run bm bit_at_update_and_not [OF i] by (auto simp: in_use_def)
qed

section \<open>A concrete allocation\<close>

definition demo_fs2 :: "bytes fs" where
  "demo_fs2 = (demo_fs one_chunk)\<lparr>ino_bitmaps :=
     [Some [0xff], Some [0xff, 0x0b, 0], Some [0], Some [0xff]]\<rparr>"

lemma demo_fs2_loaded: "groups_loaded demo_fs2" "bitmaps_loaded demo_fs2" "fs_sb demo_fs2 = demo_sb"
proof -
  show "groups_loaded demo_fs2" using demo_fs_loaded [of one_chunk]
    by (simp add: demo_fs2_def groups_loaded_def)
  have "i < 4 \<longleftrightarrow> i = 0 \<or> i = 1 \<or> i = 2 \<or> i = 3" for i :: nat by auto
  then show "bitmaps_loaded demo_fs2"
    by (auto simp: bitmaps_loaded_def demo_fs2_def demo_sb_def demo_fs_def)
  show "fs_sb demo_fs2 = demo_sb" by (simp add: demo_fs2_def)
qed

lemma demo_scan:
  "scan_groups (\<lambda>_ b. b XOR 255) 0 [0xff, 0x0b, 0] = Some 10"
  "scan_groups (\<lambda>_ b. b XOR 255) 0 [0xff] = None"
  by code_simp+

lemma demo_fs2_allocate:
  "\<exists>fs' t'. ino_allocate Directory (demo_fs2, open_transaction) = Inr (2059, fs', t')"
proof -
  have G: "get_block_group 0 demo_fs2 = Inr (demo_group 0, demo_fs2)"
    "get_block_group 1 demo_fs2 = Inr (demo_group 1, demo_fs2)"
    by (simp_all add: get_block_group_def demo_fs2_def demo_fs_def)
  have B: "ino_bitmap 0 demo_fs2 = Inr ([0xff], demo_fs2)"
    "ino_bitmap 1 demo_fs2 = Inr ([0xff, 0x0b, 0], demo_fs2)"
    by (simp_all add: ino_bitmap_def demo_fs2_def demo_fs_def)
  have order: "group_order (last_inode_bg_id demo_fs2) (bg_count (fs_sb demo_fs2)) = [0, 1, 2, 3]"
    by (simp add: group_order_def demo_fs2_def demo_fs_def demo_sb_def upt_rec)
  have count: "free_inodes_count (fs_sb demo_fs2) = 7000" "bg_free_inodes (demo_group 0) = 50"
    "bg_free_inodes (demo_group 1) = 50"
    by (simp_all add: demo_fs2_loaded demo_sb_def demo_group_def)
  have "ino_from_bgid_index (fs_sb (sb_dec_free_inodes (set_block_group 1 bg
      (set_ino_bitmap 1 bm demo_fs2)))) 1 10 = Inr 2059" for bg bm
    by (simp add: ino_from_bgid_index_def sb_dec_free_inodes_def set_block_group_def set_ino_bitmap_def
        demo_fs2_loaded demo_sb_def chk_def trunc_def)
  then show ?thesis
    using G B count demo_scan
    by (simp add: ino_allocate_def order get_free_ino_def Let_def)
qed

lemma ino_allocate_fresh_witness:
  "\<exists>fs' t' g i. ino_allocate Directory (demo_fs2, open_transaction) = Inr (2059, fs', t') \<and>
     took demo_fs2 open_transaction Directory g i fs' t'"
proof -
  obtain fs' t' where a: "ino_allocate Directory (demo_fs2, open_transaction) = Inr (2059, fs', t')"
    using demo_fs2_allocate by blast
  have "0 < bg_count (fs_sb demo_fs2)" by (simp add: demo_fs2_loaded demo_sb_def)
  from ino_allocate_fresh [OF demo_fs2_loaded(1,2) this a] a show ?thesis by blast
qed

definition demo_fs3 :: "bytes fs" where
  "demo_fs3 = (demo_fs one_chunk)\<lparr>ino_bitmaps := [Some [0xff], Some [0xff], Some [0xff], Some [0xff]]\<rparr>"

lemma ino_allocate_full_witness:
  "ino_allocate Directory (demo_fs3, open_transaction) = Inl (Fs FsFull) \<and> in_use demo_fs3 2 5"
proof -
  have gl: "groups_loaded demo_fs3" using demo_fs_loaded [of one_chunk]
    by (simp add: demo_fs3_def groups_loaded_def)
  have less: "i < 4 \<longleftrightarrow> i = 0 \<or> i = 1 \<or> i = 2 \<or> i = 3" for i :: nat by auto
  have bl: "bitmaps_loaded demo_fs3"
    by (auto simp: bitmaps_loaded_def demo_fs3_def demo_sb_def demo_fs_def less)
  have sb: "fs_sb demo_fs3 = demo_sb" by (simp add: demo_fs3_def)
  have GB: "get_block_group g demo_fs3 = Inr (demo_group g, demo_fs3)"
    "ino_bitmap g demo_fs3 = Inr ([0xff], demo_fs3)" if "g < 4" for g
    using that unfolding less
    by (auto simp: get_block_group_def ino_bitmap_def demo_fs3_def demo_fs_def numeral_2_eq_2)
  have order: "group_order (last_inode_bg_id demo_fs3) 4 = [0, 1, 2, 3]"
    by (simp add: group_order_def demo_fs3_def demo_fs_def upt_rec)
  have full: "ino_allocate Directory (demo_fs3, open_transaction) = Inl (Fs FsFull)"
    using GB [of 0] GB [of 1] GB [of 2] GB [of 3] demo_scan(2)
    by (simp add: ino_allocate_def order get_free_ino_def sb demo_sb_def demo_group_def)
  have "bg_free_inodes (the_group demo_fs3 2) = 50" "the_bitmap demo_fs3 2 = [0xff]"
    by (simp_all add: the_group_def the_bitmap_def demo_fs3_def demo_fs_def demo_group_def)
  with ino_allocate_full [OF gl bl _ full, of 2] full show ?thesis by (simp add: sb demo_sb_def)
qed

lemma ino_apply_deallocation_frees_witness:
  "\<exists>fs'. ino_apply_deallocation 2050 demo_fs2 = Inr fs' \<and> \<not> in_use fs' 1 1"
proof -
  have "ino_into_bgid_index (fs_sb demo_fs2) 2050 = Inr (1, 1)"
    by (simp add: demo_fs2_loaded ino_into_bgid_index_def demo_sb_def sub_nat_def)
  moreover have "the_bitmap demo_fs2 1 = [0xff, 0x0b, 0]"
    by (simp add: the_bitmap_def demo_fs2_def demo_fs_def)
  moreover from this have "in_use demo_fs2 1 1" by (simp add: in_use_def bit_at_def)
  ultimately show ?thesis
    using ino_apply_deallocation_frees [OF demo_fs2_loaded(1,2), of 2050 1 1]
    by (auto simp: demo_fs2_loaded demo_sb_def)
qed

end
