(* ===== verification/Transaction.thy ===== *)
theory Transaction
  imports Inode_Alloc
begin

text \<open>
  Applying a transaction (\<open>src/transaction/event.rs\<close>, \<open>collector.rs\<close>): the events of the log
  are compressed into counter deltas per block group, one for the superblock and a list of
  inode operations, while the bitmaps are updated in the cache; the deltas are then written
  into the cached descriptors, inodes and superblock, the modified blocks go to the device,
  and finally the freed blocks and inodes are given back to the allocators. Hash maps are
  traversed in ascending order here; the rounds for different groups touch different slots.
\<close>

section \<open>Compressing the log\<close>

record bg_delta =
  d_free_blocks :: int
  d_free_inodes :: int
  d_used_dirs :: int
  d_max_alloc_idx :: "nat option"

record sb_delta =
  s_free_inodes :: int
  s_free_blocks :: int

datatype inode_op =
    OpAddLink nat
  | OpRmLink nat
  | OpInit nat file_type
  | OpSetSize nat "64 word" raw_addressing
  | OpUpdateOrphanLink nat nat
  | OpSetBlock nat int

record writeback_group =
  bg_deltas :: "nat \<rightharpoonup> bg_delta"
  wb_sb_delta :: "sb_delta option"
  inode_ops :: "inode_op list"

definition writeback_group_new :: writeback_group where
  "writeback_group_new = \<lparr>bg_deltas = Map.empty, wb_sb_delta = None, inode_ops = []\<rparr>"

definition bg_delta_default :: bg_delta where
  "bg_delta_default =
     \<lparr>d_free_blocks = 0, d_free_inodes = 0, d_used_dirs = 0, d_max_alloc_idx = None\<rparr>"

definition sb_delta_default :: sb_delta where
  "sb_delta_default = \<lparr>s_free_inodes = 0, s_free_blocks = 0\<rparr>"

definition bg_delta_of :: "writeback_group \<Rightarrow> nat \<Rightarrow> bg_delta" where
  "bg_delta_of w g = (case bg_deltas w g of None \<Rightarrow> bg_delta_default | Some d \<Rightarrow> d)"

definition sb_delta_of :: "writeback_group \<Rightarrow> sb_delta" where
  "sb_delta_of w = (case wb_sb_delta w of None \<Rightarrow> sb_delta_default | Some d \<Rightarrow> d)"

definition upd_bg_delta :: "nat \<Rightarrow> (bg_delta \<Rightarrow> bg_delta) \<Rightarrow> writeback_group \<Rightarrow> writeback_group" where
  "upd_bg_delta g f w = w\<lparr>bg_deltas := (bg_deltas w)(g \<mapsto> f (bg_delta_of w g))\<rparr>"

definition upd_sb_delta :: "(sb_delta \<Rightarrow> sb_delta) \<Rightarrow> writeback_group \<Rightarrow> writeback_group" where
  "upd_sb_delta f w = w\<lparr>wb_sb_delta := Some (f (sb_delta_of w))\<rparr>"

definition push_op :: "inode_op \<Rightarrow> writeback_group \<Rightarrow> writeback_group" where
  "push_op op w = w\<lparr>inode_ops := inode_ops w @ [op]\<rparr>"

definition add_free_blocks :: "int \<Rightarrow> bg_delta \<Rightarrow> bg_delta" where
  "add_free_blocks k d = d\<lparr>d_free_blocks := d_free_blocks d + k\<rparr>"

definition add_free_inodes :: "int \<Rightarrow> bg_delta \<Rightarrow> bg_delta" where
  "add_free_inodes k d = d\<lparr>d_free_inodes := d_free_inodes d + k\<rparr>"

definition add_used_dirs :: "int \<Rightarrow> bg_delta \<Rightarrow> bg_delta" where
  "add_used_dirs k d = d\<lparr>d_used_dirs := d_used_dirs d + k\<rparr>"

definition raise_max_idx :: "nat \<Rightarrow> bg_delta \<Rightarrow> bg_delta" where
  "raise_max_idx i d =
     d\<lparr>d_max_alloc_idx := (case d_max_alloc_idx d of
        Some pmax \<Rightarrow> Some (max pmax (trunc 32 i)) | None \<Rightarrow> Some (trunc 32 i))\<rparr>"

definition sb_add_free_blocks :: "int \<Rightarrow> sb_delta \<Rightarrow> sb_delta" where
  "sb_add_free_blocks k d = d\<lparr>s_free_blocks := s_free_blocks d + k\<rparr>"

definition sb_add_free_inodes :: "int \<Rightarrow> sb_delta \<Rightarrow> sb_delta" where
  "sb_add_free_inodes k d = d\<lparr>s_free_inodes := s_free_inodes d + k\<rparr>"

text \<open>The part of an event that concerns counters and inodes.\<close>

definition compress_counts :: "superblock \<Rightarrow> event \<Rightarrow> writeback_group \<Rightarrow> writeback_group result" where
  "compress_counts sb e w = (case e of
     BlockAllocationOnBg ino g bitmap ofs count \<Rightarrow>
       Inr (push_op (OpSetBlock ino (int count))
         (upd_sb_delta (sb_add_free_blocks (- int count))
           (upd_bg_delta g (add_free_blocks (- int count)) w)))
   | BlockDeallocationOnBg ino g bitmap ofs count \<Rightarrow>
       Inr (push_op (OpSetBlock ino (-1))
         (upd_sb_delta (sb_add_free_blocks (int count))
           (upd_bg_delta g (add_free_blocks (int count)) w)))
   | InodeUpdateOrphanLink pred succ \<Rightarrow> Inr (push_op (OpUpdateOrphanLink pred succ) w)
   | InodeAllocationOnBg g bitmap ofs de \<Rightarrow>
       rmap (\<lambda>ino. push_op (OpInit ino de)
           (upd_bg_delta g (\<lambda>d. raise_max_idx ofs
              (if de = Directory then add_used_dirs 1 (add_free_inodes (-1) d)
               else add_free_inodes (-1) d)) w))
         (ino_from_bgid_index sb g ofs)
   | InodeDeallocationOnBg ino g bitmap ofs de \<Rightarrow>
       Inr (let w = upd_bg_delta g (add_free_inodes 1) w
            in if de = Directory then upd_bg_delta g (add_used_dirs (-1)) w else w)
   | InodeAddLink ino \<Rightarrow> Inr (push_op (OpAddLink ino) w)
   | InodeRmLink ino \<Rightarrow> Inr (push_op (OpRmLink ino) w)
   | FreeInodesCountDecOnSb \<Rightarrow> Inr (upd_sb_delta (sb_add_free_inodes (-1)) w)
   | FreeInodesCountIncOnSb \<Rightarrow> Inr (upd_sb_delta (sb_add_free_inodes 1) w)
   | InodeSetSize ino sz address \<Rightarrow> Inr (push_op (OpSetSize ino sz address) w))"

text \<open>The part that concerns the cached bitmaps.\<close>

definition compress_bitmap :: "event \<Rightarrow> 'd fs \<times> collector \<Rightarrow> ('d fs \<times> collector) result" where
  "compress_bitmap e st = (case e of
     BlockAllocationOnBg ino g bitmap ofs count \<Rightarrow>
       unwrap_res (fs_modify_block bitmap (wb_set_bitmap ofs count) st)
   | BlockDeallocationOnBg ino g bitmap ofs count \<Rightarrow>
       unwrap_res (fs_modify_block bitmap (wb_unset_bitmap ofs count) st)
   | InodeAllocationOnBg g bitmap ofs de \<Rightarrow>
       unwrap_res (fs_modify_block bitmap (wb_set_bitmap ofs 1) st)
   | InodeDeallocationOnBg ino g bitmap ofs de \<Rightarrow>
       unwrap_res (fs_modify_block bitmap (wb_unset_bitmap ofs 1) st)
   | _ \<Rightarrow> Inr st)"

definition postlude_of :: "event \<Rightarrow> postlude list" where
  "postlude_of e = (case e of
     BlockDeallocationOnBg ino g bitmap ofs count \<Rightarrow> [PostBlockDeallocation g ofs count]
   | InodeDeallocationOnBg ino g bitmap ofs de \<Rightarrow> [PostInodeDeallocation ino]
   | _ \<Rightarrow> [])"

fun compress ::
  "event list \<Rightarrow> writeback_group \<times> 'd fs \<times> collector \<times> postlude list \<Rightarrow>
   (writeback_group \<times> 'd fs \<times> collector \<times> postlude list) result" where
  "compress [] st = Inr st"
| "compress (e # es) (w, fs, col, posts) =
     rbind (compress_counts (fs_sb fs) e w) (\<lambda>w.
     rbind (compress_bitmap e (fs, col)) (\<lambda>(fs, col).
     compress es (w, fs, col, posts @ postlude_of e)))"

section \<open>Writing the deltas back\<close>

definition to_u32 :: "int \<Rightarrow> 32 word result" where
  "to_u32 x = (if 0 \<le> x \<and> x < 2 ^ 32 then Inr (word_of_int x) else Inl Panic)"

definition to_u64 :: "int \<Rightarrow> 64 word result" where
  "to_u64 x = (if 0 \<le> x \<and> x < 2 ^ 64 then Inr (word_of_int x) else Inl Panic)"

definition adjust :: "(bytes \<Rightarrow> 32 word result) \<Rightarrow> (32 word \<Rightarrow> bytes \<Rightarrow> bytes result) \<Rightarrow> int \<Rightarrow> bytes \<Rightarrow> bytes result"
  where
  "adjust get set_f delta d =
     rbind (get d) (\<lambda>v. rbind (to_u32 (uint v + delta)) (\<lambda>c. set_f c d))"

definition update_itable_unused :: "superblock \<Rightarrow> nat \<Rightarrow> nat \<Rightarrow> bytes \<Rightarrow> bytes result" where
  "update_itable_unused sb bgid idx d =
     rbind (sub_nat (blocks_count sb) (first_data_block sb)) (\<lambda>nblocks.
     rbind (assertR (blocks_per_group sb \<noteq> 0)) (\<lambda>_.
     let bgs_count = trunc 32 (div_ceil nblocks (blocks_per_group sb))
     in rbind (sub_nat bgs_count 1) (\<lambda>top.
        rbind (if top = bgid
               then rbind (chk 32 (inodes_per_group sb * top)) (sub_nat (inodes_count sb))
               else Inr (inodes_per_group sb)) (\<lambda>inodes_in_bg.
        rbind (bg_itable_unused d) (\<lambda>unused.
        rbind (sub_nat inodes_in_bg (unat unused)) (\<lambda>used.
        if idx \<ge> used
        then rbind (sub_nat inodes_in_bg idx) (\<lambda>k. rbind (sub_nat k 1) (\<lambda>k.
             bg_set_itable_unused (of_nat k) d))
        else Inr d))))))"

definition descriptor_update :: "superblock \<Rightarrow> nat \<Rightarrow> bg_delta \<Rightarrow> bytes \<Rightarrow> bytes result" where
  "descriptor_update sb bgid delta d =
     rbind (case d_max_alloc_idx delta of
              Some idx \<Rightarrow> update_itable_unused sb bgid idx d | None \<Rightarrow> Inr d) (\<lambda>d.
     rbind (adjust bg_free_blocks_count bg_set_free_blocks_count (d_free_blocks delta) d) (\<lambda>d.
     rbind (adjust bg_free_inodes_count bg_set_free_inodes_count (d_free_inodes delta) d) (\<lambda>d.
     rbind (adjust bg_used_dirs_count bg_set_used_dirs_count (d_used_dirs delta) d) (\<lambda>d.
     bg_update_csum bgid sb d))))"

definition submit_block_group :: "nat \<Rightarrow> bg_delta \<Rightarrow> 'd fs \<times> collector \<Rightarrow> ('d fs \<times> collector) result" where
  "submit_block_group bgid delta st =
     (if d_free_blocks delta \<noteq> 0 \<or> d_free_inodes delta \<noteq> 0 \<or> d_used_dirs delta \<noteq> 0
      then let sb = fs_sb (fst st);
               (lba, off) = bgid_into_lba_index (blk_size (fst st)) sb bgid
           in fs_modify_block lba
                (on_slice off (block_desc_size sb) (descriptor_update sb bgid delta)) st
      else Inr st)"

text \<open>\<open>get_inode\<close>: the block of the inode table that holds the inode, and the offset in it.\<close>

definition get_inode :: "nat \<Rightarrow> 'd fs \<Rightarrow> ((nat \<times> nat) \<times> 'd fs) result" where
  "get_inode ino fs =
     (let isize = inode_size (fs_sb fs) in
      rbind (ino_into_bgid_index (fs_sb fs) ino) (\<lambda>(g, idx).
      rbind (get_block_group g fs) (\<lambda>(bg, fs).
      rbind (assertR (isize \<noteq> 0)) (\<lambda>_.
      let pos = idx * isize
      in Inr ((inode_table_first_block bg + pos div blk_size fs, pos mod blk_size fs div isize * isize), fs)))))"

definition modify_inode ::
  "nat \<Rightarrow> (bytes \<Rightarrow> bytes result) \<Rightarrow> 'd fs \<times> collector \<Rightarrow> ('d fs \<times> collector) result" where
  "modify_inode ino f st =
     rbind (get_inode ino (fst st)) (\<lambda>((lba, ofs), fs).
     fs_modify_block lba (on_slice ofs (inode_size (fs_sb fs)) f) (fs, snd st))"

text \<open>The superblock's in-memory bytes, with the dirty mark of \<open>SbDirtyTracker\<close> in the third component.\<close>

definition modify_sb ::
  "(bytes \<Rightarrow> bytes result) \<Rightarrow> ('d fs \<times> collector) \<times> bool \<Rightarrow> (('d fs \<times> collector) \<times> bool) result" where
  "modify_sb f st =
     (case st of ((fs, col), _) \<Rightarrow>
      rmap (\<lambda>man. ((fs\<lparr>fs_sb := (fs_sb fs)\<lparr>manipulator := man\<rparr>\<rparr>, col), True))
        (sb_modify (blk_size fs) f (manipulator (fs_sb fs))))"

definition sb_last_orphan :: "'d fs \<Rightarrow> 32 word result" where
  "sb_last_orphan fs = read_u32 (sb_view (blk_size fs) (manipulator (fs_sb fs))) 0xE8"

definition add_link :: "bytes \<Rightarrow> bytes result" where
  "add_link d = rbind (read_u16 d 0x1A) (\<lambda>n. rbind (add_chk n 1) (\<lambda>n. write_u16 0x1A n d))"

definition links_minus_one :: "bytes \<Rightarrow> 16 word result" where
  "links_minus_one d = rbind (read_u16 d 0x1A) (\<lambda>n. sub_chk n 1)"

definition add_set_block :: "nat \<Rightarrow> superblock \<Rightarrow> int \<Rightarrow> bytes \<Rightarrow> bytes result" where
  "add_set_block n sb cnt d =
     rbind (inode_blocks_get sb d) (\<lambda>b.
     inode_blocks_set sb (b + of_nat (n div 512) * word_of_int cnt) d)"

definition submit_rm_link ::
  "nat \<Rightarrow> ('d fs \<times> collector) \<times> bool \<Rightarrow> (('d fs \<times> collector) \<times> bool) result" where
  "submit_rm_link ino st =
     rbind (get_inode ino (fst (fst st))) (\<lambda>((lba, ofs), fs).
     rbind (fs_get_block lba fs) (\<lambda>(b, fs).
     let isize = inode_size (fs_sb fs); col = snd (fst st) in
     rbind (slice_of ofs (ofs + isize) b) (\<lambda>d.
     rbind (links_minus_one d) (\<lambda>n.
     if n = 0
     then rbind (sb_last_orphan fs) (\<lambda>head.
          rbind (fs_modify_block lba (on_slice ofs isize
                   (\<lambda>d. rbind (write_u32 0x14 head d) (write_u16 0x1A 0))) (fs, col)) (\<lambda>fc.
          rbind (modify_sb (write_u32 0xE8 (of_nat ino)) (fc, snd st)) (\<lambda>((fs, col), dirty).
          let m = add_orphan_link 0 ino (unat head)
                    (replace_orphan_prevlink ino (unat head) (orphaned_inode (fs_sb fs)))
          in Inr ((fs\<lparr>fs_sb := (fs_sb fs)\<lparr>orphaned_inode := m\<rparr>\<rparr>, col), dirty))))
     else rmap (\<lambda>fc. (fc, snd st)) (fs_modify_block lba (on_slice ofs isize (write_u16 0x1A n)) (fs, col))))))"

definition submit_inode_op ::
  "inode_op \<Rightarrow> ('d fs \<times> collector) \<times> bool \<Rightarrow> (('d fs \<times> collector) \<times> bool) result" where
  "submit_inode_op op st =
     (let fc = fst st; sb = fs_sb (fst fc); keep = rmap (\<lambda>fc. (fc, snd st)) in
      case op of
        OpAddLink ino \<Rightarrow> keep (modify_inode ino add_link fc)
      | OpRmLink ino \<Rightarrow> submit_rm_link ino st
      | OpInit ino ft \<Rightarrow> keep (modify_inode ino (inode_init sb ft) fc)
      | OpSetSize ino sz address \<Rightarrow>
          keep (modify_inode ino (\<lambda>d. rbind (inode_size_set sb sz d) (set_addresses sb address)) fc)
      | OpUpdateOrphanLink pred succ \<Rightarrow>
          if pred = 0 then modify_sb (write_u32 0xE8 (of_nat succ)) st
          else keep (modify_inode pred (write_u32 0x14 (of_nat succ)) fc)
      | OpSetBlock ino cnt \<Rightarrow>
          keep (modify_inode ino (add_set_block (blk_size (fst fc)) sb cnt) fc))"

definition submit_sb ::
  "sb_delta option \<Rightarrow> ('d fs \<times> collector) \<times> bool \<Rightarrow> ('d fs \<times> collector) result" where
  "submit_sb delta st =
     rbind (case delta of
        None \<Rightarrow> Inr st
      | Some d \<Rightarrow> modify_sb (\<lambda>v.
          rbind (adjust (\<lambda>v. read_u32 v 0x10) (write_u32 0x10) (s_free_inodes d) v) (\<lambda>v.
          rbind (is_feature_incompat64 v) (\<lambda>hi.
          rbind (compound_u64_get 0xC 0x158 hi v) (\<lambda>c.
          rbind (to_u64 (sint c + s_free_blocks d)) (\<lambda>c.
          compound_u64_set 0xC 0x158 hi c v))))) st) (\<lambda>((fs, col), dirty).
     Inr (fs, if dirty then set_sb_dirty col else col))"

definition wb_flush :: "writeback_group \<Rightarrow> 'd fs \<times> collector \<Rightarrow> ('d fs \<times> collector) result" where
  "wb_flush w st =
     rbind (for_each (sorted_list_of_set (dom (bg_deltas w)))
              (\<lambda>g. submit_block_group g (bg_delta_of w g)) st) (\<lambda>st.
     rbind (for_each (inode_ops w) submit_inode_op (st, False)) (\<lambda>st.
     submit_sb (wb_sb_delta w) st))"

section \<open>Finishing\<close>

definition apply_deallocation_on_core :: "nat \<Rightarrow> nat \<Rightarrow> nat \<Rightarrow> 'd fs \<Rightarrow> 'd fs result" where
  "apply_deallocation_on_core bgid ofs count fs =
     rbind (get_block_group bgid fs) (\<lambda>(bg, fs).
     rbind (push_chunk (lba_from_bgid_index (fs_sb fs) bgid ofs) count (allocator fs)) (\<lambda>b.
     Inr (set_block_group bgid (bg_deallocate_blocks count bg) (fs\<lparr>allocator := b\<rparr>))))"

definition run_postlude :: "postlude \<Rightarrow> 'd fs \<Rightarrow> 'd fs result" where
  "run_postlude p fs = (case p of
     PostBlockDeallocation bgid ofs count \<Rightarrow> apply_deallocation_on_core bgid ofs count fs
   | PostInodeDeallocation ino \<Rightarrow> ino_apply_deallocation ino fs)"

definition collector_done :: "collector \<Rightarrow> postlude list \<Rightarrow> 'd fs \<Rightarrow> 'd fs result" where
  "collector_done col posts fs =
     rbind (collector_io (conf_wr fs) (blk_size fs) (sorted_list_of_set (modifications col))
              (is_sb_dirty col) (manipulator (fs_sb fs)) (blocks fs) (disk fs)) (\<lambda>d.
     for_each posts run_postlude (fs\<lparr>disk := d\<rparr>))"

definition tx_done :: "tx \<Rightarrow> 'd fs \<Rightarrow> 'd fs result" where
  "tx_done t fs =
     rbind (compress (tx_events t) (writeback_group_new, fs, tx_col t, [])) (\<lambda>(w, fs, col, posts).
     rbind (wb_flush w (fs, col)) (\<lambda>(fs, col). collector_done col posts fs))"

section \<open>The deltas are the sums over the log\<close>

definition block_change :: "event \<Rightarrow> int" where
  "block_change e = (case e of
     BlockAllocationOnBg ino g bitmap ofs count \<Rightarrow> - int count
   | BlockDeallocationOnBg ino g bitmap ofs count \<Rightarrow> int count
   | _ \<Rightarrow> 0)"

definition inode_change :: "event \<Rightarrow> int" where
  "inode_change e = (case e of
     InodeAllocationOnBg g bitmap ofs de \<Rightarrow> -1
   | InodeDeallocationOnBg ino g bitmap ofs de \<Rightarrow> 1
   | _ \<Rightarrow> 0)"

definition dir_change :: "event \<Rightarrow> int" where
  "dir_change e = (case e of
     InodeAllocationOnBg g bitmap ofs de \<Rightarrow> if de = Directory then 1 else 0
   | InodeDeallocationOnBg ino g bitmap ofs de \<Rightarrow> if de = Directory then -1 else 0
   | _ \<Rightarrow> 0)"

definition sb_inode_change :: "event \<Rightarrow> int" where
  "sb_inode_change e = (case e of FreeInodesCountDecOnSb \<Rightarrow> -1 | FreeInodesCountIncOnSb \<Rightarrow> 1 | _ \<Rightarrow> 0)"

definition event_group :: "event \<Rightarrow> nat option" where
  "event_group e = (case e of
     BlockAllocationOnBg ino g bitmap ofs count \<Rightarrow> Some g
   | BlockDeallocationOnBg ino g bitmap ofs count \<Rightarrow> Some g
   | InodeAllocationOnBg g bitmap ofs de \<Rightarrow> Some g
   | InodeDeallocationOnBg ino g bitmap ofs de \<Rightarrow> Some g
   | _ \<Rightarrow> None)"

definition change_in :: "nat \<Rightarrow> (event \<Rightarrow> int) \<Rightarrow> event \<Rightarrow> int" where
  "change_in g f e = (if event_group e = Some g then f e else 0)"

lemma bg_delta_upd [simp]:
  "bg_delta_of (upd_bg_delta g f w) h = (if h = g then f (bg_delta_of w g) else bg_delta_of w h)"
  "bg_delta_of (upd_sb_delta k w) h = bg_delta_of w h"
  "bg_delta_of (push_op op w) h = bg_delta_of w h"
  by (simp_all add: bg_delta_of_def upd_bg_delta_def upd_sb_delta_def push_op_def)

lemma sb_delta_upd [simp]:
  "sb_delta_of (upd_bg_delta g f w) = sb_delta_of w"
  "sb_delta_of (upd_sb_delta k w) = k (sb_delta_of w)"
  "sb_delta_of (push_op op w) = sb_delta_of w"
  by (simp_all add: sb_delta_of_def upd_bg_delta_def upd_sb_delta_def push_op_def)

lemmas delta_defs = add_free_blocks_def add_free_inodes_def add_used_dirs_def raise_max_idx_def
  sb_add_free_blocks_def sb_add_free_inodes_def

lemmas change_defs = change_in_def event_group_def block_change_def inode_change_def dir_change_def
  sb_inode_change_def

text \<open>\<open>sums es w w'\<close>: the deltas of \<open>w'\<close> are those of \<open>w\<close> plus the changes of \<open>es\<close>.\<close>

definition sums :: "event list \<Rightarrow> writeback_group \<Rightarrow> writeback_group \<Rightarrow> bool" where
  "sums es w w' \<longleftrightarrow>
     (\<forall>g. d_free_blocks (bg_delta_of w' g) = d_free_blocks (bg_delta_of w g) + (\<Sum>e\<leftarrow>es. change_in g block_change e) \<and>
          d_free_inodes (bg_delta_of w' g) = d_free_inodes (bg_delta_of w g) + (\<Sum>e\<leftarrow>es. change_in g inode_change e) \<and>
          d_used_dirs (bg_delta_of w' g) = d_used_dirs (bg_delta_of w g) + (\<Sum>e\<leftarrow>es. change_in g dir_change e)) \<and>
     s_free_blocks (sb_delta_of w') = s_free_blocks (sb_delta_of w) + (\<Sum>e\<leftarrow>es. block_change e) \<and>
     s_free_inodes (sb_delta_of w') = s_free_inodes (sb_delta_of w) + (\<Sum>e\<leftarrow>es. sb_inode_change e)"

lemma compress_counts_sums:
  assumes "compress_counts sb e w = Inr w'"
  shows "sums [e] w w'"
  using assms
  by (cases e) (auto simp: compress_counts_def sums_def change_defs delta_defs rmap_Inr_iff Let_def
      split: if_splits)

lemma compress_ok:
  assumes "compress es (w, fs, col, posts) = Inr (w', fs', col', posts')"
  shows "sums es w w' \<and> posts' = posts @ concat (map postlude_of es)"
  using assms
proof (induction es arbitrary: w fs col posts)
  case Nil
  then show ?case by (simp add: sums_def)
next
  case (Cons e es)
  from Cons.prems obtain w1 fs1 col1 where
    w1: "compress_counts (fs_sb fs) e w = Inr w1" and
    rest: "compress es (w1, fs1, col1, posts @ postlude_of e) = Inr (w', fs', col', posts')"
    by (auto simp: rbind_Inr_iff)
  from compress_counts_sums [OF w1] Cons.IH [OF rest] show ?case
    by (simp add: sums_def)
qed

text \<open>C9: compressing a log adds up, for every group and for the superblock, exactly the changes its
  events stand for, and keeps the freed blocks and inodes, in order, for the end of the transaction.\<close>

theorem compress_sums:
  assumes "compress es (writeback_group_new, fs, col, []) = Inr (w, fs', col', posts)"
  shows "(\<forall>g. d_free_blocks (bg_delta_of w g) = (\<Sum>e\<leftarrow>es. change_in g block_change e) \<and>
        d_free_inodes (bg_delta_of w g) = (\<Sum>e\<leftarrow>es. change_in g inode_change e) \<and>
        d_used_dirs (bg_delta_of w g) = (\<Sum>e\<leftarrow>es. change_in g dir_change e)) \<and>
     s_free_blocks (sb_delta_of w) = (\<Sum>e\<leftarrow>es. block_change e) \<and>
     s_free_inodes (sb_delta_of w) = (\<Sum>e\<leftarrow>es. sb_inode_change e) \<and>
     posts = concat (map postlude_of es)"
  using compress_ok [OF assms]
  by (simp add: sums_def bg_delta_of_def sb_delta_of_def writeback_group_new_def bg_delta_default_def
      sb_delta_default_def)

text \<open>allocating a run and freeing it in the same transaction cancels in the free-block
  counters, but not in the inode: freeing is recorded as one block, whatever the length.\<close>

theorem free_run_recorded_as_one_block:
  "\<exists>w. rbind (compress_counts sb (BlockAllocationOnBg ino g bm ofs c) writeback_group_new)
        (compress_counts sb (BlockDeallocationOnBg ino g bm ofs c)) = Inr w \<and>
     d_free_blocks (bg_delta_of w g) = 0 \<and> s_free_blocks (sb_delta_of w) = 0 \<and>
     inode_ops w = [OpSetBlock ino (int c), OpSetBlock ino (-1)]"
  by (simp add: compress_counts_def delta_defs bg_delta_of_def sb_delta_of_def writeback_group_new_def
      bg_delta_default_def sb_delta_default_def upd_bg_delta_def upd_sb_delta_def push_op_def)

section \<open>The descriptor of a group after a transaction\<close>

lemma to_u32_Inr: "to_u32 x = Inr w \<Longrightarrow> uint w = x"
proof -
  assume "to_u32 x = Inr w"
  then have x: "0 \<le> x" "x < 2 ^ 32" "w = word_of_int x" by (auto simp: to_u32_def split: if_splits)
  have "uint (word_of_int x :: 32 word) = x mod 2 ^ 32" by (simp add: uint_word_of_int)
  with x show "uint w = x" by (simp only: mod_pos_pos_trivial)
qed

lemma adjust_Inr:
  "adjust get set_f delta d = Inr d' \<Longrightarrow>
   \<exists>v c. get d = Inr v \<and> set_f c d = Inr d' \<and> uint c = uint v + delta"
  by (auto simp: adjust_def rbind_Inr_iff dest: to_u32_Inr)

lemma itable_unused_others:
  assumes "update_itable_unused sb bgid idx d = Inr d'"
  shows "length d' = length d \<and> bg_free_blocks_count d' = bg_free_blocks_count d \<and>
    bg_free_inodes_count d' = bg_free_inodes_count d \<and> bg_used_dirs_count d' = bg_used_dirs_count d"
proof -
  from assms consider "d' = d" | v where "bg_set_itable_unused v d = Inr d'"
    by (auto simp: update_itable_unused_def rbind_Inr_iff Let_def split: if_splits)
  then show ?thesis
  proof cases
    case (2 v)
    then have s: "compound_u32_set 0x1C 0x32 (is_bg_64 d) v d = Inr d'" by (simp add: bg_set_itable_unused_def)
    have len: "length d' = length d" by (rule compound_u32_set_length [OF _ s]) simp
    then show ?thesis
      using compound_u32_other [OF _ _ _ _ _ _ s]
      by (simp add: bg_free_blocks_count_def bg_free_inodes_count_def bg_used_dirs_count_def is_bg_64_def)
  qed simp
qed

text \<open>after a group's deltas are applied, its counters of free blocks, free inodes and
  directories are the old ones plus the deltas, and the stored checksum is valid again.\<close>

theorem descriptor_update_counts:
  assumes "descriptor_update sb bgid delta d = Inr d'"
  shows "(\<exists>a a'. bg_free_blocks_count d = Inr a \<and> bg_free_blocks_count d' = Inr a' \<and>
        uint a' = uint a + d_free_blocks delta) \<and>
    (\<exists>a a'. bg_free_inodes_count d = Inr a \<and> bg_free_inodes_count d' = Inr a' \<and>
        uint a' = uint a + d_free_inodes delta) \<and>
    (\<exists>a a'. bg_used_dirs_count d = Inr a \<and> bg_used_dirs_count d' = Inr a' \<and>
        uint a' = uint a + d_used_dirs delta) \<and>
    (\<exists>c. read_u16 d' 0x1E = Inr c \<and> calculate_csum bgid sb d' = Inr (c, d'))"
proof -
  from assms obtain d0 d1 d2 d3 where
    d0: "(case d_max_alloc_idx delta of Some idx \<Rightarrow> update_itable_unused sb bgid idx d | None \<Rightarrow> Inr d) = Inr d0"
    and a1: "adjust bg_free_blocks_count bg_set_free_blocks_count (d_free_blocks delta) d0 = Inr d1"
    and a2: "adjust bg_free_inodes_count bg_set_free_inodes_count (d_free_inodes delta) d1 = Inr d2"
    and a3: "adjust bg_used_dirs_count bg_set_used_dirs_count (d_used_dirs delta) d2 = Inr d3"
    and cs: "bg_update_csum bgid sb d3 = Inr d'"
    by (auto simp: descriptor_update_def rbind_Inr_iff)
  have o0: "length d0 = length d" "bg_free_blocks_count d0 = bg_free_blocks_count d"
    "bg_free_inodes_count d0 = bg_free_inodes_count d" "bg_used_dirs_count d0 = bg_used_dirs_count d"
    using d0 itable_unused_others by (auto split: option.splits)
  obtain fb fb' where fb: "bg_free_blocks_count d0 = Inr fb" "uint fb' = uint fb + d_free_blocks delta"
    and s1: "compound_u32_set 0xC 0x2C (is_bg_64 d0) fb' d0 = Inr d1"
    using adjust_Inr [OF a1] by (auto simp: bg_set_free_blocks_count_def)
  obtain fi fi' where fi: "bg_free_inodes_count d1 = Inr fi" "uint fi' = uint fi + d_free_inodes delta"
    and s2: "compound_u32_set 0xE 0x2E (is_bg_64 d1) fi' d1 = Inr d2"
    using adjust_Inr [OF a2] by (auto simp: bg_set_free_inodes_count_def)
  obtain ud ud' where ud: "bg_used_dirs_count d2 = Inr ud" "uint ud' = uint ud + d_used_dirs delta"
    and s3: "compound_u32_set 0x10 0x30 (is_bg_64 d2) ud' d2 = Inr d3"
    using adjust_Inr [OF a3] by (auto simp: bg_set_used_dirs_count_def)
  obtain c where c: "calculate_csum bgid sb d3 = Inr (c, d3)" and s4: "write_u16 0x1E c d3 = Inr d'"
    using cs by (auto simp: bg_update_csum_def rbind_Inr_iff dest: calculate_csum_same)
  have len: "length d1 = length d0" "length d2 = length d1" "length d3 = length d2" "length d' = length d3"
    using compound_u32_set_length [OF _ s1] compound_u32_set_length [OF _ s2]
      compound_u32_set_length [OF _ s3] write_length(2) [OF s4] by simp_all
  define h where "h = is_bg_64 d0"
  have h: "is_bg_64 d0 = h" "is_bg_64 d1 = h" "is_bg_64 d2 = h" "is_bg_64 d3 = h" "is_bg_64 d' = h"
    using len by (simp_all add: h_def is_bg_64_def)
  note S = s1 [unfolded h] s2 [unfolded h] s3 [unfolded h]
  note other = compound_u32_other [OF _ _ _ _ _ _ S(1)] compound_u32_other [OF _ _ _ _ _ _ S(2)]
    compound_u32_other [OF _ _ _ _ _ _ S(3)] compound_u32_other_u16 [OF _ _ _ s4]
  have "bg_free_blocks_count d' = Inr fb'"
    using compound_u32_get_set [OF _ S(1)] other(2-4) [of "0xC" "0x2C"]
    by (simp add: bg_free_blocks_count_def h)
  moreover have fi': "bg_free_inodes_count d' = Inr fi'" "bg_free_inodes_count d1 = bg_free_inodes_count d0"
    using compound_u32_get_set [OF _ S(2)] other(1,3,4) [of "0xE" "0x2E"]
    by (simp_all add: bg_free_inodes_count_def h)
  moreover have ud': "bg_used_dirs_count d' = Inr ud'" "bg_used_dirs_count d2 = bg_used_dirs_count d0"
    using compound_u32_get_set [OF _ S(3)] other(1,2,4) [of "0x10" "0x30"]
    by (simp_all add: bg_used_dirs_count_def h)
  moreover have "bg_free_inodes_count d = Inr fi" using fi(1) fi'(2) o0(3) by argo
  moreover have "bg_used_dirs_count d = Inr ud" using ud(1) ud'(2) o0(4) by argo
  moreover have "bg_free_blocks_count d = Inr fb" using fb(1) o0(2) by simp
  moreover have "\<exists>c. read_u16 d' 0x1E = Inr c \<and> calculate_csum bgid sb d' = Inr (c, d')"
    using read_write_u16 [OF s4] calculate_csum_stored [OF c s4] by blast
  ultimately show ?thesis using fb(2) fi(2) ud(2) by blast
qed

section \<open>Freed blocks become available at the end\<close>

definition frees_in :: "superblock \<Rightarrow> event \<Rightarrow> bool" where
  "frees_in sb e \<longleftrightarrow> (\<exists>ino g bm ofs c. e = BlockDeallocationOnBg ino g bm ofs c \<and> g < bg_count sb)"

lemma set_group_loaded:
  assumes "groups_loaded fs" and "g < bg_count (fs_sb fs)" and "bg_id bg = g"
    and "bg_blocks_count bg = blocks_per_group (fs_sb fs)"
  shows "groups_loaded (set_block_group g bg (fs\<lparr>allocator := b\<rparr>))"
  using assms by (auto simp: groups_loaded_def set_block_group_def nth_list_update)

lemma postlude_block:
  assumes gl: "groups_loaded fs" and wf: "buddy_wf (allocator fs)" and g: "g < bg_count (fs_sb fs)"
    and e: "e = BlockDeallocationOnBg ino g bm ofs c"
    and dis: "set (ev_blocks (fs_sb fs) e) \<inter> free (allocator fs) = {}"
  obtains fs' where "for_each (postlude_of e) run_postlude fs = Inr fs'" "groups_loaded fs'"
    "fs_sb fs' = fs_sb fs" "buddy_wf (allocator fs')"
    "free (allocator fs') = free (allocator fs) \<union> set (ev_blocks (fs_sb fs) e)"
proof -
  let ?p = "lba_from_bgid_index (fs_sb fs) g ofs"
  have blocks: "set (ev_blocks (fs_sb fs) e) = {?p..<?p + c}"
    unfolding e by (simp add: ev_blocks_def map_lba_from_upt del: set_map)
  from push_chunk_ok [OF wf dis [unfolded blocks]] obtain b where
    b: "push_chunk ?p c (allocator fs) = Inr b" "buddy_wf b" "free b = free (allocator fs) \<union> {?p..<?p + c}"
    by blast
  note G = get_loaded_group [OF gl g]
  let ?fs = "set_block_group g (bg_deallocate_blocks c (the_group fs g)) (fs\<lparr>allocator := b\<rparr>)"
  show thesis
  proof (rule that [of ?fs])
    show "for_each (postlude_of e) run_postlude fs = Inr ?fs"
      unfolding e using G b(1) by (simp add: postlude_of_def run_postlude_def apply_deallocation_on_core_def)
    show "groups_loaded ?fs"
      by (rule set_group_loaded [OF gl g]) (simp_all add: G bg_deallocate_blocks_def)
    show "free (allocator ?fs) = free (allocator fs) \<union> set (ev_blocks (fs_sb fs) e)"
      using b(3) blocks by (simp add: set_block_group_def)
  qed (simp_all add: set_block_group_def b)
qed

lemma postludes_free:
  assumes "groups_loaded fs" and "buddy_wf (allocator fs)" and "list_all (frees_in (fs_sb fs)) evs"
    and "distinct (concat (map (ev_blocks (fs_sb fs)) evs))"
    and "set (concat (map (ev_blocks (fs_sb fs)) evs)) \<inter> free (allocator fs) = {}"
  shows "\<exists>fs'. for_each (concat (map postlude_of evs)) run_postlude fs = Inr fs' \<and> buddy_wf (allocator fs') \<and>
    free (allocator fs') = free (allocator fs) \<union> set (concat (map (ev_blocks (fs_sb fs)) evs))"
  using assms
proof (induction evs arbitrary: fs)
  case (Cons e evs)
  from Cons.prems(3) obtain ino g bm ofs c where
    e: "e = BlockDeallocationOnBg ino g bm ofs c" "g < bg_count (fs_sb fs)"
    by (auto simp: frees_in_def)
  have "set (ev_blocks (fs_sb fs) e) \<inter> free (allocator fs) = {}" using Cons.prems(5) by auto
  from postlude_block [OF Cons.prems(1,2) e(2,1) this] obtain fs1 where
    f1: "for_each (postlude_of e) run_postlude fs = Inr fs1" "groups_loaded fs1" "fs_sb fs1 = fs_sb fs"
      "buddy_wf (allocator fs1)"
      "free (allocator fs1) = free (allocator fs) \<union> set (ev_blocks (fs_sb fs) e)" .
  have "list_all (frees_in (fs_sb fs1)) evs" "distinct (concat (map (ev_blocks (fs_sb fs1)) evs))"
    "set (concat (map (ev_blocks (fs_sb fs1)) evs)) \<inter> free (allocator fs1) = {}"
    using Cons.prems(3-5) unfolding f1(3,5) by auto
  from Cons.IH [OF f1(2,4) this] obtain fs' where
    "for_each (concat (map postlude_of evs)) run_postlude fs1 = Inr fs'" "buddy_wf (allocator fs')"
    "free (allocator fs') = free (allocator fs1) \<union> set (concat (map (ev_blocks (fs_sb fs1)) evs))"
    by blast
  then show ?case using f1(1,3,5) by (auto simp: for_each_append)
qed simp

text \<open>a freed run is not available to the allocator while its transaction is open; when the
  transaction is finished, exactly the blocks of the run have become free.\<close>

theorem freed_run_available_after_postludes:
  assumes gl: "groups_loaded fs" and wf: "buddy_wf (allocator fs)"
    and range: "blocks_base (fs_sb fs) \<le> lba" "lba + sz \<le> blocks_end (fs_sb fs)"
    and used: "{lba..<lba + sz} \<inter> free (allocator fs) = {}"
  shows "\<exists>evs fs'. fs_deallocate ino lba sz (fs, open_transaction) =
        Some (Inr (fs, open_transaction\<lparr>tx_events := evs\<rparr>)) \<and>
      for_each (concat (map postlude_of evs)) run_postlude fs = Inr fs' \<and> buddy_wf (allocator fs') \<and>
      free (allocator fs') = free (allocator fs) \<union> {lba..<lba + sz}"
proof -
  from dealloc_loop_ok [OF gl range order_refl, of ino open_transaction] obtain evs where
    evs: "fs_deallocate ino lba sz (fs, open_transaction) =
        Some (Inr (fs, open_transaction\<lparr>tx_events := evs\<rparr>))"
      "concat (map (ev_blocks (fs_sb fs)) evs) = [lba..<lba + sz]" "list_all (dealloc_event_ok fs ino) evs"
    by (auto simp: fs_deallocate_def open_transaction_def)
  have "list_all (frees_in (fs_sb fs)) evs"
    using evs(3) by (auto simp: list_all_iff dealloc_event_ok_def frees_in_def)
  from postludes_free [OF gl wf this] evs(2) used obtain fs' where
    "for_each (concat (map postlude_of evs)) run_postlude fs = Inr fs'" "buddy_wf (allocator fs')"
    "free (allocator fs') = free (allocator fs) \<union> {lba..<lba + sz}" by (auto simp del: upt_Suc)
  with evs(1) show ?thesis by blast
qed

section \<open>The list of orphans on disk and in memory\<close>








lemma descriptor_update_counts_witness:
  "\<exists>d'. descriptor_update demo_sb 1 \<lparr>d_free_blocks = -3, d_free_inodes = 1, d_used_dirs = 2, d_max_alloc_idx = None\<rparr>
      (replicate 32 9) = Inr d' \<and> (\<exists>a'. bg_free_blocks_count d' = Inr a' \<and> uint a' = 0x0906)"
proof -
  let ?\<delta> = "\<lparr>d_free_blocks = -3, d_free_inodes = 1, d_used_dirs = 2, d_max_alloc_idx = None\<rparr>"
  let ?d = "replicate 12 (9::byte) @ [6, 9, 10, 9, 11, 9] @ replicate 14 9"
  have "rbind (adjust bg_free_blocks_count bg_set_free_blocks_count (-3) (replicate 32 9)) (\<lambda>d.
      rbind (adjust bg_free_inodes_count bg_set_free_inodes_count 1 d)
        (adjust bg_used_dirs_count bg_set_used_dirs_count 2)) = Inr ?d" by code_simp
  then have "descriptor_update demo_sb 1 ?\<delta> (replicate 32 9) = bg_update_csum 1 demo_sb ?d"
    by (auto simp: descriptor_update_def rbind_Inr_iff)
  moreover obtain d' where "bg_update_csum 1 demo_sb ?d = Inr d'"
    using bg_update_csum_defined [of ?d] by auto
  ultimately have "descriptor_update demo_sb 1 ?\<delta> (replicate 32 9) = Inr d'" by simp
  moreover have "bg_free_blocks_count (replicate 32 9) = Inr 0x0909" by code_simp
  ultimately show ?thesis using descriptor_update_counts [of demo_sb 1 ?\<delta> "replicate 32 9" d'] by auto
qed

lemma compress_sums_witness:
  "\<exists>r. compress [FreeInodesCountDecOnSb, InodeAllocationOnBg 1 50 3 Directory]
      (writeback_group_new, (demo_fs one_chunk)\<lparr>blocks := [50 \<mapsto> [1, 0]]\<rparr>, collector_default, []) = Inr r \<and>
    s_free_inodes (sb_delta_of (fst r)) = -1 \<and> d_used_dirs (bg_delta_of (fst r) 1) = 1"
proof -
  have "wb_set_bitmap 3 1 [1, 0] = Inr [9, 0]" by code_simp
  then obtain w fs' col' posts where
    "compress [FreeInodesCountDecOnSb, InodeAllocationOnBg 1 50 3 Directory]
      (writeback_group_new, (demo_fs one_chunk)\<lparr>blocks := [50 \<mapsto> [1, 0]]\<rparr>, collector_default, []) = Inr (w, fs', col', posts)"
    by (simp add: compress_counts_def compress_bitmap_def fs_modify_block_def blk_modify_def
        cache_get_or_insert_def ino_from_bgid_index_def demo_sb_def chk_def trunc_def)
  from compress_sums [OF this] this show ?thesis
    by (auto simp: sb_inode_change_def change_in_def dir_change_def event_group_def)
qed

lemma freed_run_available_after_postludes_witness:
  "\<exists>evs fs'. fs_deallocate 12 8190 10 (demo_fs one_chunk, open_transaction) =
      Some (Inr (demo_fs one_chunk, open_transaction\<lparr>tx_events := evs\<rparr>)) \<and>
    for_each (concat (map postlude_of evs)) run_postlude (demo_fs one_chunk) = Inr fs' \<and>
    free (allocator fs') = {16..<24} \<union> {8190..<8200}"
proof -
  have "{8190..<8190 + 10} \<inter> free (allocator (demo_fs one_chunk)) = {}"
    by (auto simp: one_chunk_free)
  from freed_run_available_after_postludes [OF demo_fs_loaded _ _ _ this, of 12] show ?thesis
    using one_chunk_wf by (auto simp: one_chunk_free)
qed



end
