(* ===== verification/Inode_Core.thy ===== *)
theory Inode_Core
  imports Extent_Update Transaction
begin

text \<open>
  Inodes in memory (\<open>src/inode/mod.rs\<close>, \<open>src/inode/manager.rs\<close>, \<open>src/inode/legacy\<close>): reading one
  from its slot of the inode table, creating one, the two kinds of cursors, preallocation, the size,
  and what dropping the last reference does. The manager's weak cache is the map of live inodes.
  Block maps without extents (\<open>Legacy\<close>) have only direct blocks; the rest of them is \<open>todo!()\<close>.
\<close>

section \<open>Inodes\<close>

record inode =
  i_ino :: nat
  i_ftype :: file_type
  i_flags :: "32 word"
  i_generation :: "32 word"
  i_mode :: "32 word"
  i_size :: nat
  i_links :: nat
  i_addr :: addressing
  i_tcache :: "leaf option"

definition inode_from_bytes :: "superblock \<Rightarrow> nat \<Rightarrow> file_type option \<Rightarrow> bytes \<Rightarrow> inode result" where
  "inode_from_bytes sb ino ty raw =
     rbind (calculate_checksum sb ino raw) (\<lambda>csum.
     rbind (case csum of Some c \<Rightarrow> rmap (\<lambda>v. c = v) (inode_checksum_get raw) | None \<Rightarrow> Inr True) (\<lambda>ok.
     if ok
     then rbind (detect_type raw) (\<lambda>ft.
          if (case ty of Some t \<Rightarrow> t = ft | None \<Rightarrow> True)
          then rbind (get_addressing_mode sb raw) (\<lambda>a.
               rbind (read_u32 raw 0x20) (\<lambda>flags.
               rbind (read_u32 raw 0x64) (\<lambda>gen.
               rbind (inode_size_get sb raw) (\<lambda>size.
               rbind (read_u16 raw 0x1A) (\<lambda>links.
               rbind (inode_mode_get sb raw) (\<lambda>mode.
               Inr \<lparr>i_ino = ino, i_ftype = ft, i_flags = from_bits_truncate all_inode_flags flags,
                 i_generation = gen, i_mode = from_bits_truncate all_inode_modes mode,
                 i_size = unat size, i_links = unat links, i_addr = a, i_tcache = None\<rparr>))))))
          else Inl (Fs (InvalidFs ''Directory entry is corrupted (FileType is differ).'')))
     else Inl (Fs (InvalidFs ''Failed to verify inode checksum.''))))"

definition inode_new :: "superblock \<Rightarrow> nat \<Rightarrow> file_type \<Rightarrow> inode result" where
  "inode_new sb ino ft =
     (if ft = Symlink then Inl Panic
      else rmap (\<lambda>mode. \<lparr>i_ino = ino, i_ftype = ft,
          i_flags = (if uses_extents sb ft then inode_flag_bits EXTENTS else 0) OR
            (if ft = Directory then inode_flag_bits INDEX else 0),
          i_generation = 0, i_mode = mode, i_size = 0, i_links = 1,
          i_addr = (if uses_extents sb ft then Extent extent_tree_default else Legacy (replicate 15 0)),
          i_tcache = None\<rparr>)
        (default_mode (de_from_file_type ft)))"

definition set_size :: "nat \<Rightarrow> inode \<Rightarrow> tx \<Rightarrow> inode \<times> tx" where
  "set_size sz i t =
     (if i_size i \<noteq> sz
      then (i\<lparr>i_size := sz\<rparr>, inode_set_size (i_ino i) (of_nat sz) (as_raw (i_addr i)) t)
      else (i, t))"

text \<open>The kinds of objects a file type has; the others are not implemented.\<close>

datatype fs_object = ObjFile nat | ObjDirectory nat | ObjSymlink nat

definition into_fs_object :: "inode \<Rightarrow> fs_object result" where
  "into_fs_object i = (case i_ftype i of
     RegularFile \<Rightarrow> Inr (ObjFile (i_ino i))
   | Directory \<Rightarrow> Inr (ObjDirectory (i_ino i))
   | Symlink \<Rightarrow> Inr (ObjSymlink (i_ino i))
   | _ \<Rightarrow> Inl Panic)"

definition get_directory :: "fs_object \<Rightarrow> nat option" where
  "get_directory ob = (case ob of ObjDirectory i \<Rightarrow> Some i | _ \<Rightarrow> None)"

definition get_file :: "fs_object \<Rightarrow> nat option" where
  "get_file ob = (case ob of ObjFile i \<Rightarrow> Some i | _ \<Rightarrow> None)"

definition object_ino :: "fs_object \<Rightarrow> nat" where
  "object_ino ob = (case ob of ObjFile i \<Rightarrow> i | ObjDirectory i \<Rightarrow> i | ObjSymlink i \<Rightarrow> i)"

section \<open>Cursors of either kind\<close>

definition legacy_current :: "32 word list \<Rightarrow> nat \<Rightarrow> addressing_output option result" where
  "legacy_current l fba =
     (if fba < 12 then rmap (\<lambda>w. Some (Initialized (unat w))) (if fba < length l then Inr (l ! fba) else Inl Panic)
      else Inl Panic)"

definition legacy_move_next :: "nat \<Rightarrow> nat result" where
  "legacy_move_next fba = rbind (chk 32 (fba + 1)) (\<lambda>f. if 12 < f then Inl Panic else Inr f)"

datatype any_cursor = ExtCursor cursor | LegCursor "32 word list" nat

definition legacy_next :: "32 word list \<Rightarrow> nat \<Rightarrow> (addressing_output option \<times> nat) result" where
  "legacy_next l fba = rbind (legacy_current l fba) (\<lambda>o'. rmap (Pair o') (legacy_move_next fba))"

definition open_cursor :: "inode \<Rightarrow> nat \<Rightarrow> 'd fs \<Rightarrow> (any_cursor \<times> 'd fs) result" where
  "open_cursor i fba fs = (case i_addr i of
     Extent t \<Rightarrow> rmap (\<lambda>(cu, fs). (ExtCursor cu, fs)) (cursor_from_fba (i_ino i) t (i_tcache i) fba fs)
   | Legacy l \<Rightarrow> Inr (LegCursor l fba, fs))"

definition any_next :: "any_cursor \<times> 'd fs \<Rightarrow> (addressing_output option \<times> any_cursor \<times> 'd fs) result" where
  "any_next st = (case st of
     (ExtCursor cu, fs) \<Rightarrow> rmap (\<lambda>(o', _, cu, fs). (o', ExtCursor cu, fs)) (cur_next (cu, fs))
   | (LegCursor l fba, fs) \<Rightarrow> rmap (\<lambda>(o', fba). (o', LegCursor l fba, fs)) (legacy_next l fba))"

text \<open>Dropping a cursor stores its leaf in the cache of the tree.\<close>

definition close_cursor :: "any_cursor \<Rightarrow> 'd fs \<Rightarrow> inode \<Rightarrow> inode result" where
  "close_cursor c fs i = (case c of
     ExtCursor cu \<Rightarrow> rmap (\<lambda>tc. i\<lparr>i_tcache := tc\<rparr>) (cursor_drop (cu_path cu) fs (i_tcache i))
   | LegCursor _ _ \<Rightarrow> Inr i)"

definition open_cursor_mut :: "inode \<Rightarrow> nat \<Rightarrow> 'd fs \<Rightarrow> (any_cursor \<times> 'd fs) result" where
  "open_cursor_mut i fba fs = (case i_addr i of
     Extent t \<Rightarrow> rmap (\<lambda>(cu, fs). (ExtCursor cu, fs)) (cursor_from_fba_mut (i_ino i) t (i_tcache i) fba fs)
   | Legacy l \<Rightarrow> Inr (LegCursor l fba, fs))"

definition open_cursor_last_mut :: "inode \<Rightarrow> 'd fs \<Rightarrow> (any_cursor \<times> 'd fs) result" where
  "open_cursor_last_mut i fs = (case i_addr i of
     Extent t \<Rightarrow> rmap (\<lambda>(cu, fs). (ExtCursor cu, fs)) (cursor_last_mut (i_ino i) t fs)
   | Legacy _ \<Rightarrow> Inl Panic)"

definition any_fba :: "any_cursor \<Rightarrow> nat" where
  "any_fba c = (case c of ExtCursor cu \<Rightarrow> cu_fba cu | LegCursor _ fba \<Rightarrow> fba)"

definition any_current :: "any_cursor \<Rightarrow> 'd fs \<Rightarrow> addressing_output option result" where
  "any_current c fs = (case c of
     ExtCursor cu \<Rightarrow> cur_mut_current cu fs
   | LegCursor l fba \<Rightarrow> legacy_current l fba)"

definition any_or_allocated_many ::
  "nat \<Rightarrow> nat \<Rightarrow> bool \<Rightarrow> any_cursor \<times> 'd fs \<times> tx \<Rightarrow> ((nat \<times> nat) \<times> any_cursor \<times> 'd fs \<times> tx) result option" where
  "any_or_allocated_many fuel n is_meta st = (case st of
     (ExtCursor cu, w) \<Rightarrow>
       map_option (rmap (\<lambda>(r, p, w). (r, ExtCursor (cu\<lparr>cu_path := p\<rparr>), w)))
         (or_allocated_many fuel n is_meta (cu_fba cu) (cu_path cu, w))
   | (LegCursor _ _, _) \<Rightarrow> Some (Inl Panic))"

definition any_or_allocated ::
  "nat \<Rightarrow> bool \<Rightarrow> any_cursor \<times> 'd fs \<times> tx \<Rightarrow> (nat \<times> any_cursor \<times> 'd fs \<times> tx) result option" where
  "any_or_allocated fuel is_meta st = (case st of
     (ExtCursor cu, w) \<Rightarrow>
       map_option (rmap (\<lambda>(r, p, w). (r, ExtCursor (cu\<lparr>cu_path := p\<rparr>), w)))
         (or_allocated fuel is_meta (cu_fba cu) (cu_path cu, w))
   | (LegCursor l fba, _) \<Rightarrow>
       Some (rbind (legacy_current l fba) (\<lambda>o'. case Option.bind o' get_initialized of
           Some lba \<Rightarrow> Inr (lba, st)
         | None \<Rightarrow> Inl Panic)))"

definition any_move_next_many :: "nat \<Rightarrow> any_cursor \<times> 'd fs \<Rightarrow> (any_cursor \<times> 'd fs) result" where
  "any_move_next_many n st = (case st of
     (ExtCursor cu, fs) \<Rightarrow> rmap (\<lambda>(cu, fs). (ExtCursor cu, fs)) (cur_move_next_many n (cu, fs))
   | (LegCursor _ _, _) \<Rightarrow> Inl Panic)"

definition any_move_next :: "any_cursor \<times> 'd fs \<Rightarrow> (any_cursor \<times> 'd fs) result" where
  "any_move_next st = (case st of
     (ExtCursor cu, fs) \<Rightarrow> rmap (\<lambda>(cu, fs). (ExtCursor cu, fs)) (cur_move_next_many 1 (cu, fs))
   | (LegCursor l fba, fs) \<Rightarrow> rmap (\<lambda>fba. (LegCursor l fba, fs)) (legacy_move_next fba))"

definition any_remove_after :: "nat \<Rightarrow> any_cursor \<times> 'd fs \<times> tx \<Rightarrow> (any_cursor \<times> 'd fs \<times> tx) result option" where
  "any_remove_after fuel st = (case st of
     (ExtCursor cu, w) \<Rightarrow>
       map_option (rmap (\<lambda>(p, w). (ExtCursor (cu\<lparr>cu_path := p\<rparr>), w)))
         (remove_after fuel (cu_fba cu) (cu_path cu, w))
   | (LegCursor _ _, _) \<Rightarrow> Some (Inl Panic))"

text \<open>The mutable cursor changed the tree of the inode in place.\<close>

definition close_cursor_mut :: "any_cursor \<Rightarrow> 'd fs \<Rightarrow> inode \<Rightarrow> inode result" where
  "close_cursor_mut c fs i = (case c of
     ExtCursor cu \<Rightarrow> rmap (\<lambda>tc. i\<lparr>i_addr := Extent (p_tree (cu_path cu)), i_tcache := tc\<rparr>)
       (cursor_drop (cu_path cu) fs (i_tcache i))
   | LegCursor _ _ \<Rightarrow> Inr i)"

section \<open>Preallocation\<close>

fun prealloc_loop :: "nat \<Rightarrow> nat \<Rightarrow> any_cursor \<times> 'd fs \<times> tx \<Rightarrow> (any_cursor \<times> 'd fs \<times> tx) result option" where
  "prealloc_loop fuel 0 st = Some (Inr st)"
| "prealloc_loop 0 (Suc k) st = None"
| "prealloc_loop (Suc fuel) (Suc k) st =
     obind (any_or_allocated_many (Suc fuel) (Suc k) False st) (\<lambda>((_, got), c, fs, t).
     obind (Some (sub_nat (Suc k) got)) (\<lambda>rem.
     obind (Some (any_move_next_many got (c, fs))) (\<lambda>(c, fs).
     prealloc_loop fuel rem (c, fs, t))))"

definition prealloc :: "nat \<Rightarrow> nat \<Rightarrow> inode \<times> 'd fs \<times> tx \<Rightarrow> (inode \<times> 'd fs \<times> tx) result option" where
  "prealloc fuel fba st = (case st of (i, fs, t) \<Rightarrow>
     if fba < i_size i div 4096 then Some (Inr st)
     else obind (Some (open_cursor_last_mut i fs)) (\<lambda>(c, fs).
          obind (if any_fba c \<le> fba then prealloc_loop fuel (fba - any_fba c) (c, fs, t)
                 else Some (Inr (c, fs, t))) (\<lambda>(c, fs, t).
          Some (rmap (\<lambda>i. (i, fs, t)) (close_cursor_mut c fs i)))))"

section \<open>The manager\<close>

type_synonym inode_map = "nat \<rightharpoonup> inode"

definition mgr_allocate ::
  "file_type \<Rightarrow> inode_map \<times> 'd fs \<times> tx \<Rightarrow> (nat \<times> inode_map \<times> 'd fs \<times> tx) result" where
  "mgr_allocate de st = (case st of (im, w) \<Rightarrow>
     rbind (ino_allocate de w) (\<lambda>(ino, fs, t).
     case im ino of
       Some _ \<Rightarrow> Inl (Fs (InvalidFs ''Inode object is not cleaned up''))
     | None \<Rightarrow> rmap (\<lambda>i. (ino, im(ino \<mapsto> i), fs, t)) (inode_new (fs_sb fs) ino de)))"

definition read_inode :: "nat \<Rightarrow> file_type option \<Rightarrow> 'd fs \<Rightarrow> (inode \<times> 'd fs) result" where
  "read_inode ino hint fs =
     rbind (ino_into_bgid_index (fs_sb fs) ino) (\<lambda>(bgid, idx).
     rbind (get_block_group bgid fs) (\<lambda>(bg, fs).
     let ofs = idx * inode_size (fs_sb fs);
         lba = inode_table_first_block bg + ofs div blk_size fs;
         p = ofs mod blk_size fs
     in rbind (fs_get_block lba fs) (\<lambda>(b, fs).
        rbind (slice_of p (p + inode_size (fs_sb fs)) b) (\<lambda>raw.
        rmap (\<lambda>i. (i, fs)) (inode_from_bytes (fs_sb fs) ino hint raw)))))"

definition mgr_get ::
  "nat \<Rightarrow> file_type option \<Rightarrow> inode_map \<times> 'd fs \<Rightarrow> (inode \<times> inode_map \<times> 'd fs) result" where
  "mgr_get ino hint st = (case st of (im, fs) \<Rightarrow>
     case im ino of
       Some i \<Rightarrow> Inr (i, im, fs)
     | None \<Rightarrow> rmap (\<lambda>(i, fs). (i, im(ino \<mapsto> i), fs)) (read_inode ino hint fs))"

definition fs_root :: "inode_map \<times> 'd fs \<Rightarrow> (nat \<times> inode_map \<times> 'd fs) result" where
  "fs_root st =
     rbind (mgr_get 2 None st) (\<lambda>(i, st).
     rbind (into_fs_object i) (\<lambda>ob.
     rmap (\<lambda>d. (d, st)) (ok_or (get_directory ob) NotDirectory)))"

section \<open>Dropping the last reference\<close>

definition sb_remove_orphan :: "nat \<Rightarrow> 'd fs \<times> tx \<Rightarrow> ('d fs \<times> tx) result" where
  "sb_remove_orphan ino st = (case st of (fs, t) \<Rightarrow>
     rmap (\<lambda>((pred, succ), m).
       (fs\<lparr>fs_sb := (fs_sb fs)\<lparr>orphaned_inode := m\<rparr>\<rparr>, inode_update_orphan_link pred succ t))
       (remove_orphan ino (orphaned_inode (fs_sb fs))))"

definition inode_drop :: "nat \<Rightarrow> nat \<Rightarrow> inode_map \<times> 'd fs \<Rightarrow> (inode_map \<times> 'd fs) result option" where
  "inode_drop fuel ino st = (case st of (im, fs) \<Rightarrow>
     obind (Some (unwrap (im ino))) (\<lambda>i.
     if i_links i = 0
     then obind (case obind (Some (open_cursor_mut i 0 fs)) (\<lambda>(c, fs).
                   obind (any_remove_after fuel (c, fs, open_transaction)) (\<lambda>(c, fs, t).
                   Some (rmap (\<lambda>_. (fs, t)) (close_cursor_mut c fs i)))) of
                 None \<Rightarrow> None | Some r \<Rightarrow> Some (unwrap_res r)) (\<lambda>w.
          Some (unwrap_res (rbind (ino_deallocate ino (i_ftype i) w) (\<lambda>w.
                rbind (sb_remove_orphan ino w) (\<lambda>(fs, t).
                rmap (\<lambda>fs. (im(ino := None), fs)) (tx_done t fs))))))
     else Some (Inr (im(ino := None), fs))))"


section \<open>A created inode\<close>

lemma mode_truncates:
  assumes "default_mode (de_from_file_type ft) = Inr dm" and "filetype_to_mode ft = Inr tm"
  shows "from_bits_truncate all_inode_modes (dm OR tm) = dm"
  using assms
  by (cases ft) (auto simp: default_mode_def de_from_file_type_def filetype_to_mode_def from_bits_truncate_def
      flag_union_def all_inode_modes_def)

lemma init_flags_truncate:
  "from_bits_truncate all_inode_flags (let flag = (if e then inode_flag_bits EXTENTS else 0)
      in if d then flag OR inode_flag_bits INDEX else flag) =
   (if e then inode_flag_bits EXTENTS else 0) OR (if d then inode_flag_bits INDEX else 0)"
  by (simp add: from_bits_truncate_def flag_union_def all_inode_flags_def)

lemma as_raw_Extent: "as_raw m = as_raw (Extent t) \<longleftrightarrow> m = Extent t"
  by (cases m) (auto simp: as_raw_def)

lemma as_raw_Legacy: "as_raw m = RawLegacy l \<longleftrightarrow> m = Legacy l"
  by (cases m) (auto simp: as_raw_def)

text \<open>C22: Without metadata checksums, what the transaction writes into the slot of a new inode is read back
  (\<open>Inode::from_bytes\<close>) as the object that was created in memory (\<open>Inode::new\<close>), but for the link count,
  which the object counts as one from the start and the disk only after the link has been logged.\<close>

theorem created_inode_reads_back:
  assumes "ft \<noteq> Unknown" and "ft \<noteq> Symlink" and "0x84 \<le> length d"
    and "\<not> contains_flag (features_readonly sb) METADATA_CSUM"
  shows "\<exists>d' i. inode_init sb ft d = Inr d' \<and> inode_from_bytes sb ino (Some ft) d' = Inr i \<and> i_links i = 0 \<and>
    inode_new sb ino ft = Inr (i\<lparr>i_links := 1\<rparr>)"
proof -
  from inode_init_ok [OF assms(1,3), of sb] obtain d' m dm tm where
    d': "inode_init sb ft d = Inr d'" "detect_type d' = Inr ft" "inode_size_get sb d' = Inr 0"
      "read_u16 d' 0x1A = Inr 0" "get_addressing_mode sb d' = Inr m"
      "as_raw m = (if uses_extents sb ft then as_raw (Extent extent_tree_default) else RawLegacy (replicate 15 0))"
      "read_u32 d' 0x20 = Inr (let flag = (if uses_extents sb ft then inode_flag_bits EXTENTS else 0)
        in if ft = Directory then flag OR inode_flag_bits INDEX else flag)"
      "read_u32 d' 0x64 = Inr 0" "default_mode (de_from_file_type ft) = Inr dm" "filetype_to_mode ft = Inr tm"
      "inode_mode_get sb d' = Inr (dm OR tm)" by blast
  have m: "m = (if uses_extents sb ft then Extent extent_tree_default else Legacy (replicate 15 0))"
    using d'(6) by (cases "uses_extents sb ft") (simp_all only: as_raw_Extent as_raw_Legacy if_True if_False)
  have "calculate_checksum sb ino d' = Inr None" using assms(4) by (simp add: calculate_checksum_def)
  then have "inode_from_bytes sb ino (Some ft) d' = Inr \<lparr>i_ino = ino, i_ftype = ft,
      i_flags = from_bits_truncate all_inode_flags (let flag = (if uses_extents sb ft then inode_flag_bits EXTENTS else 0)
        in if ft = Directory then flag OR inode_flag_bits INDEX else flag),
      i_generation = 0, i_mode = dm, i_size = 0, i_links = 0, i_addr = m, i_tcache = None\<rparr>"
    using d' mode_truncates [OF d'(9,10)] by (simp add: inode_from_bytes_def)
  then show ?thesis using d'(1,9) assms(2) unfolding init_flags_truncate
    by (simp add: inode_new_def m)
qed

lemma created_inode_reads_back_witness:
  "\<exists>d' i. inode_init (demo_sb\<lparr>features_readonly := 0\<rparr>) Directory (replicate 256 7) = Inr d' \<and>
    inode_from_bytes (demo_sb\<lparr>features_readonly := 0\<rparr>) 12 (Some Directory) d' = Inr i \<and> i_links i = 0 \<and>
    inode_new (demo_sb\<lparr>features_readonly := 0\<rparr>) 12 Directory = Inr (i\<lparr>i_links := 1\<rparr>)"
  by (rule created_inode_reads_back) (simp_all add: contains_flag_def METADATA_CSUM_def)

end
