(* ===== verification/File_Ops.thy ===== *)
theory File_Ops
  imports Inode_Core
begin

text \<open>
  Regular files (\<open>src/file.rs\<close>): visiting the disk blocks of a range of the file, reading and writing
  whole buffers with runs of adjacent blocks transferred together, and truncation. The file's data
  goes to the device directly, not through the cache of blocks.
\<close>

section \<open>Visiting blocks\<close>

fun cursor_take ::
  "nat \<Rightarrow> (addressing_output \<Rightarrow> 'd fs \<times> 's \<Rightarrow> ('d fs \<times> 's) result) \<Rightarrow> any_cursor \<Rightarrow> 'd fs \<times> 's \<Rightarrow>
   (any_cursor \<times> 'd fs \<times> 's) result" where
  "cursor_take 0 f c (fs, s) = Inr (c, fs, s)"
| "cursor_take (Suc k) f c (fs, s) =
     rbind (any_next (c, fs)) (\<lambda>(o', c, fs).
     case o' of
       None \<Rightarrow> Inr (c, fs, s)
     | Some a \<Rightarrow> rbind (f a (fs, s)) (cursor_take k f c))"

definition for_each_lba ::
  "nat \<Rightarrow> nat \<Rightarrow> (addressing_output \<Rightarrow> 'd fs \<times> 's \<Rightarrow> ('d fs \<times> 's) result) \<Rightarrow> inode \<times> 'd fs \<times> 's \<Rightarrow>
   (inode \<times> 'd fs \<times> 's) result" where
  "for_each_lba start len f st = (case st of (i, fs, s) \<Rightarrow>
     rbind (open_cursor i start fs) (\<lambda>(c, fs).
     rbind (cursor_take len f c (fs, s)) (\<lambda>(c, fs, s).
     rmap (\<lambda>i. (i, fs, s)) (close_cursor c fs i))))"

text \<open>The mutable visit; the cursor does not move after the last block.\<close>

fun visit_mut ::
  "nat \<Rightarrow> nat \<Rightarrow> (nat \<Rightarrow> 's \<Rightarrow> 's result) \<Rightarrow> (any_cursor \<times> 'd fs \<times> tx) \<times> 's \<Rightarrow>
   ((any_cursor \<times> 'd fs \<times> tx) \<times> 's) result option" where
  "visit_mut fuel 0 f st = Some (Inr st)"
| "visit_mut fuel (Suc k) f (ct, s) =
     obind (any_or_allocated fuel False ct) (\<lambda>(lba, c, fs, t).
     obind (Some (if k \<noteq> 0 then any_move_next (c, fs) else Inr (c, fs))) (\<lambda>(c, fs).
     obind (Some (f lba s)) (\<lambda>s.
     visit_mut fuel k f ((c, fs, t), s))))"

definition for_each_lba_mut ::
  "nat \<Rightarrow> nat \<Rightarrow> nat \<Rightarrow> (nat \<Rightarrow> 's \<Rightarrow> 's result) \<Rightarrow> (inode \<times> 'd fs \<times> tx) \<times> 's \<Rightarrow>
   ((inode \<times> 'd fs \<times> tx) \<times> 's) result option" where
  "for_each_lba_mut fuel start len f st = (case st of ((i, fs, t), s) \<Rightarrow>
     obind (Some (open_cursor_mut i start fs)) (\<lambda>(c, fs).
     obind (visit_mut fuel len f ((c, fs, t), s)) (\<lambda>((c, fs, t), s).
     Some (rmap (\<lambda>i. ((i, fs, t), s)) (close_cursor_mut c fs i)))))"

section \<open>Writing\<close>

text \<open>A run of adjacent blocks that is still to be transferred.\<close>

record run =
  run_start :: "nat option"
  run_cnt :: nat
  run_bufs :: "bytes list"

definition run_empty :: run where
  "run_empty = \<lparr>run_start = None, run_cnt = 0, run_bufs = []\<rparr>"

definition flush_write :: "run \<Rightarrow> 'd fs \<Rightarrow> 'd fs result" where
  "flush_write r fs =
     rbind (unwrap (run_start r)) (\<lambda>start.
     rbind (chk 64 (start * blk_size fs)) (\<lambda>ofs.
     rmap (\<lambda>d. fs\<lparr>disk := d\<rparr>) (as_io_error (write_vectored (conf_wr fs) ofs (run_bufs r) (disk fs)))))"

definition write_step :: "addressing_output \<Rightarrow> 'd fs \<times> run \<times> bytes list \<Rightarrow> ('d fs \<times> run \<times> bytes list) result" where
  "write_step addr st = (case st of (fs, r, slices) \<Rightarrow>
     case addr of
       Uninitialized \<Rightarrow> Inl Panic
     | Initialized lba \<Rightarrow>
        rbind (if slices = [] then Inl Panic else Inr (hd slices, tl slices)) (\<lambda>(slice, slices).
        let start = (case run_start r of Some s \<Rightarrow> s | None \<Rightarrow> lba); r = r\<lparr>run_start := Some start\<rparr>
        in rbind (chk 64 (start + run_cnt r)) (\<lambda>next.
           if next \<noteq> lba
           then rmap (\<lambda>fs. (fs, \<lparr>run_start = Some lba, run_cnt = 1, run_bufs = [slice]\<rparr>, slices)) (flush_write r fs)
           else Inr (fs, r\<lparr>run_cnt := run_cnt r + 1, run_bufs := run_bufs r @ [slice]\<rparr>, slices))))"

definition write_slices :: "nat \<Rightarrow> nat \<Rightarrow> bytes list \<Rightarrow> inode \<times> 'd fs \<times> tx \<Rightarrow> (inode \<times> 'd fs \<times> tx) result option" where
  "write_slices fuel ofs iovec st = (case st of (i, fs, t) \<Rightarrow>
     let fba = trunc 32 (ofs div blk_size fs); n = length iovec * (4096 div blk_size fs)
     in obind (Some (rbind (assertR (ofs mod 4096 = 0)) (\<lambda>_.
          if n < 2 ^ 32 then chk 32 (fba + n) else Inl (Fs FsFull)))) (\<lambda>upto.
        obind (prealloc fuel upto (i, fs, t)) (\<lambda>(i, fs, t).
        Some (rbind (for_each_lba fba n write_step (i, fs, run_empty, iovec)) (\<lambda>(i, fs, r, _).
              if run_bufs r = [] then Inr (i, fs, t)
              else rmap (\<lambda>fs. (i, fs, t)) (flush_write r fs))))))"

section \<open>Reading\<close>

text \<open>The buffers of the caller are 4096 bytes long whatever the block size is.\<close>

definition flush_read :: "nat \<Rightarrow> nat \<Rightarrow> 'd fs \<Rightarrow> bytes list \<Rightarrow> bytes list result" where
  "flush_read start cnt fs out =
     rbind (chk 64 (start * blk_size fs)) (\<lambda>ofs.
     rmap ((@) out) (as_io_error (read_vectored (conf_rd fs) (disk fs) 4096 ofs cnt)))"

definition read_step ::
  "addressing_output \<Rightarrow> 'd fs \<times> (nat option \<times> nat) \<times> bytes list \<Rightarrow> ('d fs \<times> (nat option \<times> nat) \<times> bytes list) result" where
  "read_step addr st = (case st of (fs, (start, cnt), out) \<Rightarrow>
     case addr of
       Uninitialized \<Rightarrow> Inr (fs, (start, cnt), out @ [replicate 4096 0])
     | Initialized lba \<Rightarrow>
        let s = (case start of Some s \<Rightarrow> s | None \<Rightarrow> lba)
        in rbind (chk 64 (s + cnt)) (\<lambda>next.
           if next \<noteq> lba
           then rmap (\<lambda>out. (fs, (Some lba, 1), out)) (flush_read s cnt fs out)
           else Inr (fs, (Some s, cnt + 1), out)))"

definition read_slices :: "nat \<Rightarrow> nat \<Rightarrow> bytes list \<Rightarrow> inode \<times> 'd fs \<Rightarrow> (bytes list \<times> inode \<times> 'd fs) result" where
  "read_slices ofs len out st = (case st of (i, fs) \<Rightarrow>
     rbind (assertR (ofs mod 4096 = 0)) (\<lambda>_.
     rbind (for_each_lba (trunc 32 (ofs div blk_size fs)) len read_step (i, fs, (None, 0), out)) (\<lambda>(i, fs, (start, cnt), out).
     if 0 < cnt
     then rbind (unwrap start) (\<lambda>s. rmap (\<lambda>out. (out, i, fs)) (flush_read s cnt fs out))
     else Inr (out, i, fs))))"

section \<open>Truncation\<close>

definition file_truncate :: "nat \<Rightarrow> nat \<Rightarrow> inode \<times> 'd fs \<Rightarrow> (nat \<times> inode \<times> 'd fs) result option" where
  "file_truncate fuel until st = (case st of (i, fs) \<Rightarrow>
     let target = until + blk_size fs - (until + blk_size fs) mod blk_size fs
     in obind (Some (open_cursor_mut i (trunc 32 target) fs)) (\<lambda>(c, fs).
        obind (any_remove_after fuel (c, fs, open_transaction)) (\<lambda>(c, fs, t).
        obind (Some (close_cursor_mut c fs i)) (\<lambda>i.
        let (i, t) = set_size until i t
        in Some (rmap (\<lambda>fs. (i_size i, i, fs)) (tx_done t fs))))))"


section \<open>Writing run by run is writing block by block\<close>

lemma as_io_error_rbind: "as_io_error (rbind m f) = rbind (as_io_error m) (\<lambda>x. as_io_error (f x))"
  by (cases m) (auto simp: as_io_error_def split: error.splits)

lemma as_io_error_Inr [simp]: "as_io_error (Inr x) = Inr x"
  by (simp add: as_io_error_def)

lemma write_vectored_append:
  "write_vectored wr ofs (bs @ cs) d =
   rbind (write_vectored wr ofs bs d) (write_vectored wr (ofs + sum_list (map length bs)) cs)"
proof (induction bs arbitrary: ofs d)
  case (Cons b bs)
  then show ?case by (cases "wr ofs b d") (simp_all add: add.assoc)
qed simp

text \<open>The bytes of block \<open>lba\<close> start at \<open>lba\<close> times the block size.\<close>

definition write_block :: "'d fs \<Rightarrow> nat \<times> bytes \<Rightarrow> 'd \<Rightarrow> 'd result" where
  "write_block fs ls = (case ls of (lba, s) \<Rightarrow> conf_wr fs (lba * blk_size fs) s)"

definition finish_write :: "'d fs \<times> run \<times> bytes list \<Rightarrow> 'd fs result" where
  "finish_write st = (case st of (fs, r, _) \<Rightarrow> if run_bufs r = [] then Inr fs else flush_write r fs)"

definition run_ok :: "nat \<Rightarrow> run \<Rightarrow> bool" where
  "run_ok n r \<longleftrightarrow> (\<exists>s. run_start r = Some s \<and> s * n < 2 ^ 64 \<and> s + run_cnt r < 2 ^ 64) \<and> run_cnt r = length (run_bufs r) \<and>
     run_bufs r \<noteq> [] \<and> (\<forall>b\<in>set (run_bufs r). length b = n)"

lemma flush_write_eq:
  assumes "run_ok (blk_size fs) r"
  shows "flush_write r fs = rmap (\<lambda>d. fs\<lparr>disk := d\<rparr>)
    (as_io_error (write_vectored (conf_wr fs) (the (run_start r) * blk_size fs) (run_bufs r) (disk fs)))"
  using assms by (auto simp: flush_write_def run_ok_def chk_def)

lemma sum_list_const: "(\<forall>b\<in>set bs. length b = n) \<Longrightarrow> sum_list (map length bs) = length bs * n"
  by (induction bs) auto

lemma write_steps_pending:
  assumes "run_ok (blk_size fs) r" and "length slices = length lbas" and "\<forall>s\<in>set slices. length s = blk_size fs"
    and "\<forall>l\<in>set lbas. l * blk_size fs < 2 ^ 64 \<and> l + 1 < 2 ^ 64"
  shows "rbind (for_each (map Initialized lbas) write_step (fs, r, slices)) finish_write =
    rmap (\<lambda>d. fs\<lparr>disk := d\<rparr>) (as_io_error
      (rbind (write_vectored (conf_wr fs) (the (run_start r) * blk_size fs) (run_bufs r) (disk fs))
        (for_each (zip lbas slices) (write_block fs))))"
  using assms
proof (induction lbas arbitrary: fs r slices)
  case Nil
  then have "for_each (zip [] slices) (write_block fs) = Inr" by (simp add: fun_eq_iff)
  then show ?case using Nil.prems(1)
    by (cases "write_vectored (conf_wr fs) (the (run_start r) * blk_size fs) (run_bufs r) (disk fs)")
      (auto simp: finish_write_def flush_write_eq run_ok_def)
next
  case (Cons lba lbas)
  then obtain s ss where sl: "slices = s # ss" by (cases slices) auto
  obtain st where st: "run_start r = Some st" "st * blk_size fs < 2 ^ 64" "st + run_cnt r < 2 ^ 64"
    using Cons.prems(1) by (auto simp: run_ok_def)
  let ?V = "write_vectored (conf_wr fs) (st * blk_size fs) (run_bufs r) (disk fs)"
  have len: "length ss = length lbas" "\<forall>s\<in>set ss. length s = blk_size fs" "length s = blk_size fs"
    "\<forall>l\<in>set lbas. l * blk_size fs < 2 ^ 64 \<and> l + 1 < 2 ^ 64"
    using Cons.prems sl by auto
  show ?case
  proof (cases "st + run_cnt r = lba")
    case True
    define r' where "r' = r\<lparr>run_cnt := run_cnt r + 1, run_bufs := run_bufs r @ [s]\<rparr>"
    have step: "write_step (Initialized lba) (fs, r, slices) = Inr (fs, r', ss)"
      using st True sl by (cases r) (simp add: write_step_def chk_def r'_def)
    have ok': "run_ok (blk_size fs) r'"
      using Cons.prems(1,4) st True len(3) by (auto simp: run_ok_def r'_def)
    have "st * blk_size fs + sum_list (map length (run_bufs r)) = lba * blk_size fs"
      using Cons.prems(1) sum_list_const [of "run_bufs r" "blk_size fs"]
      unfolding True [symmetric] by (auto simp: run_ok_def add_mult_distrib)
    then have V: "write_vectored (conf_wr fs) (st * blk_size fs) (run_bufs r') (disk fs) =
        rbind ?V (write_block fs (lba, s))"
      by (cases ?V) (auto simp: r'_def write_vectored_append write_block_def rbind_def split: sum.splits)
    have "run_start r' = Some st" using st by (simp add: r'_def)
    with step Cons.IH [OF ok' len(1,2,4)] st(1) V show ?thesis
      by (simp add: sl rbind_assoc)
  next
    case False
    define r' where "r' = \<lparr>run_start = Some lba, run_cnt = 1, run_bufs = [s]\<rparr>"
    have step: "write_step (Initialized lba) (fs, r, slices) = rmap (\<lambda>fs. (fs, r', ss)) (flush_write r fs)"
    proof -
      have rr: "r\<lparr>run_start := Some st\<rparr> = r" using st(1) by (cases r) simp
      from st False sl show ?thesis by (simp add: write_step_def chk_def r'_def Let_def rr)
    qed
    have fl: "flush_write r fs = rmap (\<lambda>d. fs\<lparr>disk := d\<rparr>) (as_io_error ?V)"
      using flush_write_eq [OF Cons.prems(1)] st(1) by simp
    show ?thesis
    proof (cases ?V)
      case (Inl e)
      then show ?thesis using step fl st(1) by (cases e) (simp_all add: as_io_error_def)
    next
      case (Inr d)
      let ?fs = "fs\<lparr>disk := d\<rparr>"
      have ok': "run_ok (blk_size ?fs) r'" using len(3) Cons.prems(4) by (auto simp: run_ok_def r'_def)
      have "\<forall>s\<in>set ss. length s = blk_size ?fs" "\<forall>l\<in>set lbas. l * blk_size ?fs < 2 ^ 64 \<and> l + 1 < 2 ^ 64"
        using len by simp_all
      from Cons.IH [OF ok' len(1) this] step fl Inr show ?thesis
        by (simp add: sl st(1) r'_def write_block_def rbind_assoc)
    qed
  qed
qed

lemma write_steps_all:
  assumes "length slices = length lbas" and "\<forall>s\<in>set slices. length s = blk_size fs"
    and "\<forall>l\<in>set lbas. l * blk_size fs < 2 ^ 64 \<and> l + 1 < 2 ^ 64"
  shows "rbind (for_each (map Initialized lbas) write_step (fs, run_empty, slices)) finish_write =
    rmap (\<lambda>d. fs\<lparr>disk := d\<rparr>) (as_io_error (for_each (zip lbas slices) (write_block fs) (disk fs)))"
proof (cases lbas)
  case Nil
  then show ?thesis by (simp add: finish_write_def run_empty_def)
next
  case (Cons lba ls)
  then obtain s ss where sl: "slices = s # ss" using assms(1) by (cases slices) auto
  define r where "r = \<lparr>run_start = Some lba, run_cnt = 1, run_bufs = [s]\<rparr>"
  have step: "write_step (Initialized lba) (fs, run_empty, slices) = Inr (fs, r, ss)"
    using assms(3) Cons sl by (simp add: write_step_def run_empty_def chk_def r_def)
  have ok: "run_ok (blk_size fs) r" using assms sl Cons by (auto simp: run_ok_def r_def)
  have "length ss = length ls" "\<forall>s\<in>set ss. length s = blk_size fs"
    "\<forall>l\<in>set ls. l * blk_size fs < 2 ^ 64 \<and> l + 1 < 2 ^ 64" using assms Cons sl by auto
  from write_steps_pending [OF ok this] step show ?thesis
    by (simp add: Cons sl r_def write_block_def rbind_assoc)
qed


text \<open>Writing a list of buffers to the blocks of a file transfers runs of adjacent blocks together
  (\<open>write_vectored\<close>); the device ends in the same state, or with the same I/O error, as when every
  buffer is written to its own block in turn.\<close>

theorem write_runs_is_write_blocks:
  assumes "length slices = length lbas" and "\<forall>s\<in>set slices. length s = blk_size fs"
    and "\<forall>l\<in>set lbas. l * blk_size fs < 2 ^ 64 \<and> l + 1 < 2 ^ 64"
  shows "rbind (for_each (map Initialized lbas) write_step (fs, run_empty, slices)) finish_write =
    rmap (\<lambda>d. fs\<lparr>disk := d\<rparr>) (as_io_error (for_each (zip lbas slices) (write_block fs) (disk fs)))"
  using assms by (rule write_steps_all)

section \<open>Reading run by run\<close>

definition finish_read :: "'d fs \<times> (nat option \<times> nat) \<times> bytes list \<Rightarrow> bytes list result" where
  "finish_read st = (case st of (fs, (start, cnt), out) \<Rightarrow>
     if 0 < cnt then rbind (unwrap start) (\<lambda>s. flush_read s cnt fs out) else Inr out)"

fun read_blocks :: "'d fs \<Rightarrow> nat list \<Rightarrow> bytes list result" where
  "read_blocks fs [] = Inr []"
| "read_blocks fs (lba # lbas) =
     rbind (conf_rd fs (disk fs) 4096 (lba * blk_size fs)) (\<lambda>b. rmap ((#) b) (read_blocks fs lbas))"

lemma read_vectored_append:
  "read_vectored rd d n ofs (j + k) =
   rbind (read_vectored rd d n ofs j) (\<lambda>a. rmap ((@) a) (read_vectored rd d n (ofs + n * j) k))"
proof (induction j arbitrary: ofs)
  case 0
  then show ?case by (cases "read_vectored rd d n ofs k") simp_all
next
  case (Suc j)
  then show ?case
    by (cases "rd d n ofs"; cases "read_vectored rd d n (ofs + n) j"; cases "read_vectored rd d n (ofs + n + n * j) k")
      (simp_all add: add.assoc)
qed

lemma read_steps_pending:
  assumes "0 < cnt" and "s + cnt < 2 ^ 64" and "s * blk_size fs < 2 ^ 64" and "blk_size fs = 4096"
    and "\<forall>l\<in>set lbas. l * blk_size fs < 2 ^ 64 \<and> l + 1 < 2 ^ 64"
  shows "rbind (for_each (map Initialized lbas) read_step (fs, (Some s, cnt), out)) finish_read =
    rmap ((@) out) (as_io_error (rbind (read_vectored (conf_rd fs) (disk fs) 4096 (s * 4096) cnt)
      (\<lambda>bs. rmap ((@) bs) (read_blocks fs lbas))))"
  using assms
proof (induction lbas arbitrary: s cnt out)
  case Nil
  then show ?case
    by (cases "read_vectored (conf_rd fs) (disk fs) 4096 (s * 4096) cnt") (simp_all add: finish_read_def flush_read_def chk_def)
next
  case (Cons lba lbas)
  let ?V = "read_vectored (conf_rd fs) (disk fs) 4096 (s * 4096) cnt"
  have l: "lba * blk_size fs < 2 ^ 64" "lba + 1 < 2 ^ 64" "\<forall>l\<in>set lbas. l * blk_size fs < 2 ^ 64 \<and> l + 1 < 2 ^ 64"
    using Cons.prems(5) by simp_all
  show ?case
  proof (cases "s + cnt = lba")
    case True
    then have step: "read_step (Initialized lba) (fs, (Some s, cnt), out) = Inr (fs, (Some s, cnt + 1), out)"
      using Cons.prems(2) by (simp add: read_step_def chk_def)
    have ofs: "s * 4096 + 4096 * cnt = lba * 4096" using True by simp
    have V: "read_vectored (conf_rd fs) (disk fs) 4096 (s * 4096) (cnt + 1) =
        rbind ?V (\<lambda>a. rmap (\<lambda>b. a @ [b]) (conf_rd fs (disk fs) 4096 (lba * 4096)))"
      unfolding read_vectored_append ofs by (cases "conf_rd fs (disk fs) 4096 (lba * 4096)") (simp_all add: rmap_def rbind_assoc)
    have "s + (cnt + 1) < 2 ^ 64" using True l(2) by simp
    from Cons.IH [OF _ this Cons.prems(3,4) l(3), of out] step V show ?thesis
      using Cons.prems(4)
      by (cases ?V; cases "conf_rd fs (disk fs) 4096 (lba * 4096)"; cases "read_blocks fs lbas") simp_all
  next
    case False
    then have step: "read_step (Initialized lba) (fs, (Some s, cnt), out) =
        rmap (\<lambda>bs. (fs, (Some lba, 1), out @ bs)) (as_io_error ?V)"
      using Cons.prems(2,3,4) by (cases ?V) (simp_all add: read_step_def chk_def flush_read_def as_io_error_def split: error.splits)
    have V: "read_vectored (conf_rd fs) (disk fs) 4096 (lba * 4096) 1 =
        rmap (\<lambda>b. [b]) (conf_rd fs (disk fs) 4096 (lba * 4096))"
      by (cases "conf_rd fs (disk fs) 4096 (lba * 4096)") simp_all
    have "rbind (for_each (map Initialized lbas) read_step (fs, (Some lba, 1), out')) finish_read =
        rmap ((@) out') (as_io_error (rbind (rmap (\<lambda>b. [b]) (conf_rd fs (disk fs) 4096 (lba * 4096)))
          (\<lambda>bs. rmap ((@) bs) (read_blocks fs lbas))))" for out'
      using Cons.IH [OF _ _ l(1) Cons.prems(4) l(3), of 1 out'] l(2) unfolding V by simp
    with step show ?thesis
      using Cons.prems(4)
      by (cases ?V; cases "conf_rd fs (disk fs) 4096 (lba * 4096)"; cases "read_blocks fs lbas")
        (simp_all add: as_io_error_def split: error.splits)
  qed
qed

lemma read_steps_all:
  assumes "blk_size fs = 4096" and "\<forall>l\<in>set lbas. l * blk_size fs < 2 ^ 64 \<and> l + 1 < 2 ^ 64"
  shows "rbind (for_each (map Initialized lbas) read_step (fs, (None, 0), [])) finish_read =
    as_io_error (read_blocks fs lbas)"
proof (cases lbas)
  case Nil
  then show ?thesis by (simp add: finish_read_def)
next
  case (Cons lba ls)
  then have step: "read_step (Initialized lba) (fs, (None, 0), []) = Inr (fs, (Some lba, 1), [])"
    using assms(2) by (simp add: read_step_def chk_def)
  have "rbind (for_each (map Initialized ls) read_step (fs, (Some lba, 1), [])) finish_read =
      rmap ((@) []) (as_io_error (rbind (read_vectored (conf_rd fs) (disk fs) 4096 (lba * 4096) 1)
        (\<lambda>bs. rmap ((@) bs) (read_blocks fs ls))))"
    by (rule read_steps_pending) (use assms Cons in simp_all)
  with step assms(1) show ?thesis
    by (cases "conf_rd fs (disk fs) 4096 (lba * 4096)"; cases "read_blocks fs ls") (simp_all add: Cons as_io_error_def split: error.splits)
qed

text \<open>C12: What is written to the blocks of a file is what is read from them afterwards, on every device
  that keeps what is written to it, when the blocks are distinct and a block is a buffer long.\<close>

theorem write_then_read:
  assumes dev: "device (conf_rd fs) (conf_wr fs)" and blk: "blk_size fs = 4096"
    and len: "length slices = length lbas" "\<forall>s\<in>set slices. length s = 4096" and "distinct lbas"
    and lim: "\<forall>l\<in>set lbas. l * 4096 < 2 ^ 64"
    and w: "rbind (for_each (map Initialized lbas) write_step (fs, run_empty, slices)) finish_write = Inr fs'"
  shows "rbind (for_each (map Initialized lbas) read_step (fs', (None, 0), [])) finish_read = Inr slices"
proof -
  have lim': "\<forall>l\<in>set lbas. l * blk_size f < 2 ^ 64 \<and> l + 1 < 2 ^ 64" if "blk_size f = 4096" for f :: "'a fs"
    using lim that by fastforce
  have ls: "\<forall>s\<in>set slices. length s = blk_size fs" using len(2) blk by simp
  from w write_steps_all [OF len(1) ls lim' [OF blk]] obtain d where
    d: "for_each (zip lbas slices) (write_block fs) (disk fs) = Inr d" "fs' = fs\<lparr>disk := d\<rparr>"
    by (cases "for_each (zip lbas slices) (write_block fs) (disk fs)") (auto simp: as_io_error_def split: error.splits)
  have bio: "write_bios (conf_wr fs) (map (\<lambda>(l, s). (l * 4096, s)) (zip lbas slices)) (disk fs) = Inr d"
  proof -
    have "for_each (map (\<lambda>(l, s). (l * 4096, s)) xs) (\<lambda>(ofs, b). conf_wr fs ofs b) e = for_each xs (write_block fs) e" for xs e
    proof (induction xs arbitrary: e)
      case (Cons x xs)
      obtain l s where x: "x = (l, s)" by (cases x)
      show ?case using Cons by (cases "conf_wr fs (l * 4096) s e") (simp_all add: x write_block_def blk)
    qed simp
    with d(1) show ?thesis by (simp add: write_bios_def)
  qed
  have rd: "conf_rd fs d 4096 (lbas ! i * 4096) = Inr (slices ! i)" if i: "i < length lbas" for i
  proof -
    let ?z = "map (\<lambda>(l, s). (l * 4096, s)) (zip lbas slices)"
    have z: "?z = take i ?z @ (lbas ! i * 4096, slices ! i) # drop (Suc i) ?z"
      using id_take_nth_drop [of i ?z] i len(1) by simp
    have si: "length (slices ! i) = 4096" using i len by simp
    have "lbas ! i * 4096 + length (slices ! i) \<le> p \<or> p + length c \<le> lbas ! i * 4096"
      if "(p, c) \<in> set (drop (Suc i) ?z)" for p c
    proof -
      from that obtain k where k: "k < length lbas - Suc i" "p = lbas ! (Suc i + k) * 4096" "c = slices ! (Suc i + k)"
        using len(1) by (auto simp: in_set_conv_nth)
      then have "lbas ! (Suc i + k) \<noteq> lbas ! i" using assms(5) i by (simp add: nth_eq_iff_index_eq)
      moreover have "length c = 4096" using k len by simp
      ultimately show ?thesis using k(2) si by (cases "lbas ! i < lbas ! (Suc i + k)") auto
    qed
    moreover have "write_bios (conf_wr fs) (take i ?z @ (lbas ! i * 4096, slices ! i) # drop (Suc i) ?z) (disk fs) = Inr d"
      by (simp only: z [symmetric] bio)
    ultimately show ?thesis using device.write_bios_rd [OF dev] si by metis
  qed
  have "read_blocks fs' lbas = Inr slices"
  proof -
    have "read_blocks fs' xs = Inr ys" if "length xs = length ys"
      "\<forall>i<length xs. conf_rd fs d 4096 (xs ! i * 4096) = Inr (ys ! i)" for xs ys
      using that
    proof (induction xs ys rule: list_induct2)
      case (Cons x xs y ys)
      then have "conf_rd fs d 4096 (x * 4096) = Inr y" "\<forall>i<length xs. conf_rd fs d 4096 (xs ! i * 4096) = Inr (ys ! i)"
        by auto
      with Cons show ?case by (simp add: d(2) blk)
    qed simp
    with rd len(1) show ?thesis by simp
  qed
  then show ?thesis using read_steps_all [OF _ lim', of fs'] blk by (simp add: d(2))
qed

text \<open>A hole is not read in its place: its zeroes are delivered at once while the initialised block
  before it is still waiting to be transferred, so the buffers come out in the wrong order.\<close>

theorem hole_overtakes_block:
  assumes "conf_rd fs (disk fs) 4096 (lba * blk_size fs) = Inr b" and "lba * blk_size fs < 2 ^ 64" and "lba + 1 < 2 ^ 64"
  shows "rbind (for_each [Initialized lba, Uninitialized] read_step (fs, (None, 0), [])) finish_read =
    Inr [replicate 4096 0, b]"
  using assms by (simp add: read_step_def finish_read_def flush_read_def chk_def)


text \<open>Truncation passes the new size, in bytes, as the number of the first block to remove: a file of
  fewer blocks than that keeps all its extents, also when it is truncated to nothing, and only the
  size is logged.\<close>

theorem truncate_keeps_extents:
  assumes "i_addr i = Extent tr" and "i_tcache i = None" and "tree_wf tr (fs_view fs)" and "et_depth tr = 0"
    and "et_ents tr \<noteq> []" and "target = until + blk_size fs - (until + blk_size fs) mod blk_size fs" and "target < 2 ^ 32"
    and "\<forall>l\<in>set (tree_leafs tr (fs_view fs)). lf_block l + lf_len l < target"
  shows "\<exists>i' t' fs'. file_truncate (Suc fuel) until (i, fs) = Some (rmap (\<lambda>fs. (until, i', fs)) (tx_done t' fs')) \<and>
    i_addr i' = Extent tr \<and> i_size i' = until \<and>
    tx_events t' = (if i_size i = until then [] else [InodeSetSize (i_ino i) (of_nat until) (as_raw (Extent tr))])"
proof -
  let ?m = "fs_view fs"
  have ok: "et_ok tr" using assms(3) by (simp add: tree_wf_def)
  have ne: "tree_leafs tr ?m \<noteq> []" using et_ents_leafs [OF assms(4), of ?m] assms(5) by auto
  define p0 where "p0 = path_empty (i_ino i) tr"
  have p0: "p_tree p0 = tr" "p_cache p0 = None" by (simp_all add: p0_def path_empty_def)
  have "hd (et_ents tr) = Leaf (hd (tree_leafs tr ?m))" "hd (tree_leafs tr ?m) \<in> set (tree_leafs tr ?m)"
    using et_ents_leafs [OF assms(4), of ?m] ne by (simp_all add: hd_map)
  then have "first_block (hd (et_ents tr)) \<le> target"
    using assms(8) by (fastforce simp: first_block_def)
  with path_load_find [of p0 fs target] assms(3,5) p0 obtain p1 fs1 where
    p1: "path_load target (p0, fs) = Inr (p1, fs1)" "p_tree p1 = tr" "fs_view fs1 = ?m" by auto
  have op: "open_cursor_mut i (trunc 32 target) fs = Inr (ExtCursor \<lparr>cu_fba = target, cu_path = p1\<rparr>, fs1)"
    using assms(1,2) p1(1) trunc_id [OF assms(7)]
    by (simp add: open_cursor_mut_def cursor_from_fba_mut_def p0_def)
  obtain p2 where p2: "load_path_to_last (p1, fs1) = Inr (p2, fs1)" "at_end p2" "p_tree p2 = tr"
    using load_path_to_last_at_end [of p1 fs1] ok assms(4) p1(2) by auto
  have g: "get_leaf p2 fs1 = Inr (Some (last (tree_leafs tr ?m)))"
    using get_leaf_at_end [OF p2(2), of fs1 ?m] ne p2(3) by simp
  have "last (tree_leafs tr ?m) \<in> set (tree_leafs tr ?m)" using ne by simp
  then have e: "lf_block (last (tree_leafs tr ?m)) + lf_len (last (tree_leafs tr ?m)) < target" using assms(8) by blast
  then have "lf_block (last (tree_leafs tr ?m)) + lf_len (last (tree_leafs tr ?m)) < 2 ^ 32" using assms(7) by linarith
  with e g p2(1) have "remove_after (Suc fuel) target (p1, fs1, open_transaction) = Some (Inr (p2, fs1, open_transaction))"
    by (simp add: remove_after_def chk_def)
  then have rm: "any_remove_after (Suc fuel) (ExtCursor \<lparr>cu_fba = target, cu_path = p1\<rparr>, fs1, open_transaction) =
      Some (Inr (ExtCursor \<lparr>cu_fba = target, cu_path = p2\<rparr>, fs1, open_transaction))"
    by (simp add: any_remove_after_def)
  define i1 where "i1 = i\<lparr>i_addr := Extent tr, i_tcache := Some (last (tree_leafs tr ?m))\<rparr>"
  have cl: "close_cursor_mut (ExtCursor \<lparr>cu_fba = target, cu_path = p2\<rparr>) fs1 i = Inr i1"
    using g p2(3) by (simp add: close_cursor_mut_def cursor_drop_def i1_def)
  obtain i' t' where st: "set_size until i1 open_transaction = (i', t')" by (cases "set_size until i1 open_transaction")
  then have i': "i_addr i' = Extent tr" "i_size i' = until"
    "tx_events t' = (if i_size i = until then [] else [InodeSetSize (i_ino i) (of_nat until) (as_raw (Extent tr))])"
    by (auto simp: set_size_def i1_def log_defs open_transaction_def push_event_def split: if_splits)
  have "until + blk_size fs - until mod blk_size fs = target" using assms(6) by simp
  with op rm cl st i'(2) have "file_truncate (Suc fuel) until (i, fs) = Some (rmap (\<lambda>fs. (until, i', fs)) (tx_done t' fs1))"
    by (simp add: file_truncate_def Let_def)
  with i' show ?thesis by blast
qed

section \<open>Concrete inputs\<close>

definition demo_4k_fs :: "bytes fs" where
  "demo_4k_fs = (demo_fs one_chunk)\<lparr>blk_size := 4096\<rparr>"

lemma write_runs_is_write_blocks_witness:
  "rbind (for_each (map Initialized [5, 6, 9]) write_step (demo_4k_fs, run_empty, replicate 3 (replicate 4096 1))) finish_write =
    rmap (\<lambda>d. demo_4k_fs\<lparr>disk := d\<rparr>)
      (as_io_error (for_each (zip [5, 6, 9] (replicate 3 (replicate 4096 1))) (write_block demo_4k_fs) (disk demo_4k_fs)))"
  by (rule write_runs_is_write_blocks) (auto simp: demo_4k_fs_def)

lemma file_writes_defined:
  "conf_wr fs = file_write_bytes \<Longrightarrow> \<exists>d'. for_each ls (write_block fs) d = Inr d'"
proof (induction ls arbitrary: d)
  case (Cons l ls)
  then show ?case by (cases l) (auto simp: write_block_def file_write_bytes_def)
qed simp

lemma write_then_read_witness:
  "\<exists>fs'. rbind (for_each (map Initialized [5, 6, 9]) write_step (demo_4k_fs, run_empty, replicate 3 (replicate 4096 1))) finish_write = Inr fs' \<and>
    rbind (for_each (map Initialized [5, 6, 9]) read_step (fs', (None, 0), [])) finish_read = Inr (replicate 3 (replicate 4096 1))"
proof -
  let ?s = "replicate 3 (replicate 4096 (1 :: byte))"
  have dev: "device (conf_rd demo_4k_fs) (conf_wr demo_4k_fs)"
    using file_device.device_axioms by (simp add: demo_4k_fs_def demo_fs_def)
  have wr: "conf_wr demo_4k_fs = file_write_bytes" by (simp add: demo_4k_fs_def demo_fs_def)
  obtain d where "for_each (zip [5, 6, 9] ?s) (write_block demo_4k_fs) (disk demo_4k_fs) = Inr d"
    using file_writes_defined [OF wr] by blast
  moreover have "rbind (for_each (map Initialized [5, 6, 9]) write_step (demo_4k_fs, run_empty, ?s)) finish_write =
      rmap (\<lambda>d. demo_4k_fs\<lparr>disk := d\<rparr>) (as_io_error (for_each (zip [5, 6, 9] ?s) (write_block demo_4k_fs) (disk demo_4k_fs)))"
    by (rule write_steps_all) (auto simp: demo_4k_fs_def)
  ultimately have w: "rbind (for_each (map Initialized [5, 6, 9]) write_step (demo_4k_fs, run_empty, ?s)) finish_write =
      Inr (demo_4k_fs\<lparr>disk := d\<rparr>)" by simp
  have "rbind (for_each (map Initialized [5, 6, 9]) read_step (demo_4k_fs\<lparr>disk := d\<rparr>, (None, 0), [])) finish_read = Inr ?s"
    by (rule write_then_read [OF dev _ _ _ _ _ w]) (auto simp: demo_4k_fs_def)
  with w show ?thesis by blast
qed

lemma hole_overtakes_block_witness:
  "rbind (for_each [Initialized 3, Uninitialized] read_step (demo_4k_fs\<lparr>disk := replicate 20000 7\<rparr>, (None, 0), [])) finish_read =
    Inr [replicate 4096 0, replicate 4096 7]"
  by (rule hole_overtakes_block) (simp_all add: demo_4k_fs_def demo_fs_def file_read_bytes_def min_def Let_def)

definition demo_inode :: inode where
  "demo_inode = \<lparr>i_ino = 12, i_ftype = RegularFile, i_flags = 0, i_generation = 0, i_mode = 0, i_size = 5000, i_links = 1,
     i_addr = Extent demo_inline, i_tcache = None\<rparr>"

lemma truncate_keeps_extents_witness:
  "\<exists>i' t' fs'. file_truncate 1 0 (demo_inode, demo_ext_fs) = Some (rmap (\<lambda>fs. (0, i', fs)) (tx_done t' fs')) \<and>
    i_addr i' = Extent demo_inline \<and> tx_events t' = [InodeSetSize 12 0 (as_raw (Extent demo_inline))]"
proof -
  have "et_ents demo_inline = [Leaf \<lparr>lf_block = 4, lf_start = 50, lf_len = 2, lf_init = True\<rparr>]"
    using et_ents_leafs [OF demo_inline_simps(2), of Map.empty] by (simp add: demo_inline_simps)
  then have wf: "tree_wf demo_inline (fs_view demo_ext_fs)" "et_ents demo_inline \<noteq> []"
    by (simp_all add: tree_wf_def demo_inline_simps first_block_def)
  have tg: "1024 = 0 + blk_size demo_ext_fs - (0 + blk_size demo_ext_fs) mod blk_size demo_ext_fs"
    by (simp add: demo_ext_fs_def)
  from truncate_keeps_extents [OF _ _ wf(1) demo_inline_simps(2) wf(2) tg, of demo_inode 0] show ?thesis
    by (simp add: demo_inode_def demo_inline_simps) blast
qed

end
