(* ===== verification/Htree.thy ===== *)
theory Htree
  imports Inode_Core Dir_Block Hasher
begin

text \<open>
  Hashed directories (\<open>src/directory/htree\<close>): the index block with its sorted table of hashes, the
  cursor over that table, lookup, insertion with splitting of a full block, and removal. An index
  has one level; deeper ones are \<open>todo!()\<close>. The entries of a split block are gathered in a
  \<open>BTreeMap\<close> keyed by hash: a list sorted by key here, in which a second name of the same hash
  replaces the first.
\<close>

section \<open>The index block\<close>

record dx_entry =
  dx_hash :: "32 word"
  dx_block :: nat

record dx_CLimit =
  cl_limit :: nat
  cl_count :: nat
  cl_block :: nat

record dx_dot_en =
  dot_inode :: nat
  dot_rec_len :: nat
  dot_name_len :: byte
  dot_file_type :: byte
  dot_name :: bytes

record dx_RootInfo =
  ri_info_length :: byte
  ri_indirect_levels :: byte

definition dot_at :: "nat \<Rightarrow> bytes \<Rightarrow> dx_dot_en result" where
  "dot_at p b =
     rbind (num32 b p) (\<lambda>ino.
     rbind (num16 b (p + 4)) (\<lambda>rlen.
     rbind (read_u8 b (p + 6)) (\<lambda>nlen.
     rbind (read_u8 b (p + 7)) (\<lambda>ft.
     rmap (\<lambda>name. \<lparr>dot_inode = ino, dot_rec_len = rlen, dot_name_len = nlen, dot_file_type = ft, dot_name = name\<rparr>)
       (read_all read_u8 b [p + 8, p + 9, p + 10, p + 11])))))"

definition dx_dot :: "bytes \<Rightarrow> dx_dot_en result" where
  "dx_dot = dot_at 0"

definition dx_dotdot :: "bytes \<Rightarrow> dx_dot_en result" where
  "dx_dotdot = dot_at 0xC"

definition dx_root_info :: "bytes \<Rightarrow> dx_RootInfo result" where
  "dx_root_info b =
     rbind (read_u8 b 0x1D) (\<lambda>n.
     rmap (\<lambda>l. \<lparr>ri_info_length = n, ri_indirect_levels = l\<rparr>) (read_u8 b 0x1E))"

definition dx_climit :: "bytes \<Rightarrow> dx_CLimit result" where
  "dx_climit b =
     rbind (num16 b 0x20) (\<lambda>l.
     rbind (num16 b 0x22) (\<lambda>c.
     rmap (\<lambda>k. \<lparr>cl_limit = l, cl_count = c, cl_block = k\<rparr>) (num32 b 0x24)))"

text \<open>The first entry has no hash; it shares its place with the limit and the count.\<close>

definition dx_entries :: "bytes \<Rightarrow> nat \<Rightarrow> dx_entry option result" where
  "dx_entries b index =
     rbind (dx_climit b) (\<lambda>cl.
     if index = 0 then Inr (Some \<lparr>dx_hash = 0, dx_block = cl_block cl\<rparr>)
     else if index < cl_count cl
     then rbind (read_u32 b (0x28 + 8 * index - 8)) (\<lambda>h.
          rmap (\<lambda>k. Some \<lparr>dx_hash = h, dx_block = k\<rparr>) (num32 b (0x2c + 8 * index - 8)))
     else Inr None)"

definition dx_verify :: "nat \<Rightarrow> bytes \<Rightarrow> unit result" where
  "dx_verify n_entries b =
     rbind (dx_dot b) (\<lambda>d. rbind (dx_dotdot b) (\<lambda>dd. rbind (dx_root_info b) (\<lambda>ri. rbind (dx_climit b) (\<lambda>cl.
     if dot_rec_len d = 12 \<and> dot_rec_len dd = trunc 16 (length b) - 12 \<and> ri_info_length ri = 8 \<and>
        ri_indirect_levels ri \<le> 1 \<and> cl_limit cl = n_entries + 1
     then Inr () else Inl (Fs (InvalidFs ''Invalid HTree root detected.''))))))"

definition sb_seed :: "superblock \<Rightarrow> md4_state result" where
  "sb_seed sb = (case hash_seed sb of [a, b, c, d] \<Rightarrow> Inr (a, b, c, d) | _ \<Rightarrow> Inl Panic)"

definition UNSIGNED_HASH :: "32 word" where "UNSIGNED_HASH = 0x2"

text \<open>An index block is the block it is stored in and the hasher its header names.\<close>

definition dx_from_raw :: "nat \<Rightarrow> superblock \<Rightarrow> bytes \<Rightarrow> ext4_hasher result" where
  "dx_from_raw n_entries sb b =
     rbind (read_u8 b 0x1C) (\<lambda>v.
     rbind (ok_or (hash_version_try_from v) (Unsupported ''Unsupported Hash'')) (\<lambda>hv.
     rbind (sb_seed sb) (\<lambda>seed.
     rmap (\<lambda>_. get_hasher hv seed (contains_flag (sb_flags sb) UNSIGNED_HASH)) (dx_verify n_entries b))))"

section \<open>The cursor\<close>

record dx_cursor =
  dc_pos :: nat
  dc_hash :: "32 word option"
  dc_check :: bool

definition dx_from_index :: "bytes \<Rightarrow> nat \<Rightarrow> dx_cursor option result" where
  "dx_from_index b index =
     rbind (dx_root_info b) (\<lambda>ri.
     rbind (assertR (ri_indirect_levels ri = 0)) (\<lambda>_.
     rmap (\<lambda>cl. if index < cl_count cl then Some \<lparr>dc_pos = index, dc_hash = None, dc_check = False\<rparr> else None)
       (dx_climit b)))"

function dx_search :: "bytes \<Rightarrow> 32 word \<Rightarrow> int \<Rightarrow> int \<Rightarrow> int result" where
  "dx_search b h l r =
     (if l \<le> r
      then let m = l + (r - l) div 2
           in rbind (rbind (dx_entries b (nat m)) (\<lambda>e. ok_or e (InvalidFs ''HashTree is corrupted.''))) (\<lambda>e.
              if h < dx_hash e then dx_search b h l (m - 1) else dx_search b h (m + 1) r)
      else Inr l)"
  by pat_completeness auto
termination
  by (relation "measure (\<lambda>(b, h, l, r). nat (r - l + 1))") auto

declare dx_search.simps [simp del]

definition dx_from_hash :: "bytes \<Rightarrow> 32 word \<Rightarrow> dx_cursor result" where
  "dx_from_hash b h =
     rbind (dx_root_info b) (\<lambda>ri.
     rbind (dx_climit b) (\<lambda>cl.
     rbind (dx_search b h 1 (int (cl_count cl) - 1)) (\<lambda>l.
     if ri_indirect_levels ri = 0
     then rmap (\<lambda>p. \<lparr>dc_pos = p, dc_hash = Some h, dc_check = False\<rparr>) (sub_nat (nat l) 1)
     else Inl Panic)))"

definition try_split :: "nat \<Rightarrow> bytes \<Rightarrow> unit result" where
  "try_split r_entries b = rbind (dx_climit b) (\<lambda>cl. assertR (cl_count cl \<noteq> r_entries))"

text \<open>Below an entry of the hash sought, the entries that continue its collision have its successor.\<close>

definition dx_next :: "bytes \<Rightarrow> dx_cursor \<Rightarrow> (dx_entry option \<times> dx_cursor) result" where
  "dx_next b c =
     rbind (dx_entries b (dc_pos c)) (\<lambda>e. case e of
       None \<Rightarrow> Inr (None, c)
     | Some n \<Rightarrow>
        (case dc_hash c of
           None \<Rightarrow> Inr (Some n, c\<lparr>dc_pos := dc_pos c + 1\<rparr>)
         | Some h \<Rightarrow>
            rbind (if dc_check c then rmap (\<lambda>h1. h1 \<noteq> dx_hash n) (add_chk h 1) else Inr False) (\<lambda>stop.
            if stop then Inr (None, c)
            else Inr (Some n, c\<lparr>dc_pos := dc_pos c + 1, dc_check := True\<rparr>))))"

lemma dx_entries_less: "dx_entries b i = Inr (Some e) \<Longrightarrow> i < 65536"
proof -
  assume "dx_entries b i = Inr (Some e)"
  then obtain cl where cl: "dx_climit b = Inr cl" "i = 0 \<or> i < cl_count cl"
    by (cases "i = 0") (auto simp: dx_entries_def rbind_Inr_iff split: if_splits)
  then obtain w :: "16 word" where "cl_count cl = unat w"
    by (auto simp: dx_climit_def num16_def rbind_Inr_iff rmap_Inr_iff)
  moreover have "unat w < 65536" using unsigned_less [of w] by simp
  ultimately show ?thesis using cl(2) by auto
qed

lemma dx_next_progress:
  "dx_next b c = Inr (Some e, c') \<Longrightarrow> dc_pos c < 65536 \<and> dc_pos c' = Suc (dc_pos c)"
proof -
  assume a: "dx_next b c = Inr (Some e, c')"
  then obtain n where n: "dx_entries b (dc_pos c) = Inr (Some n)"
    by (cases "dx_entries b (dc_pos c)") (auto simp: dx_next_def split: option.splits)
  have "dc_pos c' = Suc (dc_pos c)"
    using a n by (cases "dc_hash c") (auto simp: dx_next_def rbind_Inr_iff split: if_splits)
  with dx_entries_less [OF n] show ?thesis by simp
qed

text \<open>One entry of the table moves up by one place.\<close>

definition shift_step :: "nat \<Rightarrow> bytes \<Rightarrow> bytes result" where
  "shift_step i b =
     rbind (read_u32 b (0x28 + 8 * i - 8)) (\<lambda>h.
     rbind (write_u32 (0x28 + 8 * i) h b) (\<lambda>b.
     rbind (read_u32 b (0x2c + 8 * i - 8)) (\<lambda>k.
     write_u32 (0x2c + 8 * i) k b)))"

definition dx_insert_at :: "nat \<Rightarrow> dx_entry \<Rightarrow> bytes \<Rightarrow> (bool \<times> bytes) result" where
  "dx_insert_at at en b =
     rbind (dx_climit b) (\<lambda>cl.
     if at = 0 then Inl Panic
     else if cl_limit cl \<le> at then Inr (False, b)
     else rbind (for_each (rev [at..<cl_count cl]) shift_step b) (\<lambda>b.
          rbind (write_u32 (0x28 + 8 * at - 8) (dx_hash en) b) (\<lambda>b.
          rbind (write_u32 (0x2c + 8 * at - 8) (of_nat (dx_block en)) b) (\<lambda>b.
          rbind (chk 16 (cl_count cl + 1)) (\<lambda>n.
          rmap (Pair True) (write_u16 0x22 (of_nat n) b))))))"

text \<open>Making an empty index, with the block 1 as its only leaf.\<close>

definition dx_init_block :: "nat \<Rightarrow> bool \<Rightarrow> byte \<Rightarrow> bytes \<Rightarrow> bytes result" where
  "dx_init_block n_entries has_tail version b =
     rbind (write_u32 0 0 b) (\<lambda>b.
     rbind (write_u16 4 12 b) (\<lambda>b.
     rbind (write_u8 6 1 b) (\<lambda>b.
     rbind (write_u8 7 2 b) (\<lambda>b.
     rbind (for_each (zip [8, 9, 10, 11] [0x2e, 0, 0, 0]) (\<lambda>(p, v). write_u8 p v) b) (\<lambda>b.
     rbind (write_u32 0xC 0 b) (\<lambda>b.
     rbind (write_u16 0x10 (of_nat (length b) - 12) b) (\<lambda>b.
     rbind (write_u8 0x12 2 b) (\<lambda>b.
     rbind (write_u8 0x13 2 b) (\<lambda>b.
     rbind (for_each (zip [0x14, 0x15, 0x16, 0x17] [0x2e, 0x2e, 0, 0]) (\<lambda>(p, v). write_u8 p v) b) (\<lambda>b.
     rbind (write_u32 0x18 0 b) (\<lambda>b.
     rbind (write_u8 0x1C version b) (\<lambda>b.
     rbind (write_u8 0x1D 8 b) (\<lambda>b.
     rbind (write_u8 0x1E 0 b) (\<lambda>b.
     rbind (write_u8 0x1F 0 b) (\<lambda>b.
     rbind (write_u16 0x20 (of_nat n_entries + 1) b) (\<lambda>b.
     rbind (write_u16 0x22 1 b) (\<lambda>b.
     rbind (write_u32 0x24 1 b) (\<lambda>b.
     rbind (assertR (\<not> has_tail)) (\<lambda>_. Inr b)))))))))))))))))))"

section \<open>Splitting a block\<close>

text \<open>The entries in a block with \<open>for entry in dblk.iter()\<close>: the callback gets the item and the
  iterator's position after it and says whether to go on.\<close>

function dir_each ::
  "bool \<Rightarrow> bytes \<Rightarrow> (fs_error + dirent_ref \<Rightarrow> nat \<Rightarrow> 's \<Rightarrow> (bool \<times> 's) result) \<Rightarrow> nat \<Rightarrow> bool \<Rightarrow> 's \<Rightarrow>
   (bool \<times> 's \<times> nat \<times> bool) result" where
  "dir_each v2 b f pos stopped s =
     (case dir_next v2 b pos stopped of
        Inl e \<Rightarrow> Inl e
      | Inr (None, pos', st) \<Rightarrow> Inr (True, s, pos', st)
      | Inr (Some item, pos', st) \<Rightarrow>
          (case f item pos' s of
             Inl e \<Rightarrow> Inl e
           | Inr (go, s') \<Rightarrow> if go then dir_each v2 b f pos' st s' else Inr (False, s', pos', st)))"
  by pat_completeness auto

lemma dir_next_stopped: "dir_next v2 b pos True = Inr (None, pos, True)"
  by (simp add: dir_next.simps)

lemma dir_next_error_stops: "dir_next v2 b pos stopped = Inr (Some (Inl e), pos', st) \<Longrightarrow> \<not> stopped \<and> st"
proof (induction v2 b pos stopped rule: dir_next.induct)
  case (1 v2 b pos stopped)
  from 1(2) 1(1) show ?case
    by (auto simp: dir_next.simps [of v2 b pos stopped] split: sum.splits option.splits if_splits) fastforce+
qed

lemma dir_next_entry_goes_on: "dir_next v2 b pos stopped = Inr (Some (Inr en), pos', st) \<Longrightarrow> \<not> stopped \<and> \<not> st"
proof (induction v2 b pos stopped rule: dir_next.induct)
  case (1 v2 b pos stopped)
  from 1(2) 1(1) show ?case
    by (auto simp: dir_next.simps [of v2 b pos stopped] split: sum.splits option.splits if_splits) fastforce+
qed

termination dir_each
proof (relation "measure (\<lambda>(v2, b, f, pos, stopped, s). if stopped then 0 else Suc (length b - pos))", goal_cases)
  case (2 v2 b f pos stopped s r a item z pos' st x go s')
  then have n: "dir_next v2 b pos stopped = Inr (Some item', pos', st)" if "item' = the a" for item'
    using that by auto
  show ?case
  proof (cases "the a")
    case (Inl e)
    with n dir_next_error_stops [of v2 b pos stopped e pos' st] show ?thesis by simp
  next
    case (Inr en)
    with n dir_next_entry_goes_on [of v2 b pos stopped en pos' st] dir_next_progress [of v2 b pos stopped en pos' st]
    show ?thesis by (simp add: diff_less_mono2)
  qed
qed simp

declare dir_each.simps [simp del]

fun bt_insert :: "'k::linorder \<Rightarrow> 'v \<Rightarrow> ('k \<times> 'v) list \<Rightarrow> ('k \<times> 'v) list" where
  "bt_insert k v [] = [(k, v)]"
| "bt_insert k v ((k', v') # m) =
     (if k < k' then (k, v) # (k', v') # m
      else if k = k' then (k, v) # m
      else (k', v') # bt_insert k v m)"

text \<open>The function \<open>hf\<close> is \<open>hash_of\<close> of the directory's hasher.\<close>

type_synonym split_en = "32 word \<times> ext4_de option \<times> bytes"

definition gather_entries :: "(bytes \<Rightarrow> 32 word result) \<Rightarrow> bool \<Rightarrow> bytes \<Rightarrow> split_en \<Rightarrow> (32 word \<times> split_en) list result" where
  "gather_entries hf v2 b en =
     rbind (dir_each v2 b (\<lambda>item pos m.
         rbind (case item of Inl e \<Rightarrow> Inl (Fs e) | Inr en \<Rightarrow> Inr en) (\<lambda>en.
         rbind (get_inode_no en) (\<lambda>ino.
         rbind (get_file_type en) (\<lambda>ft.
         rbind (get_name en) (\<lambda>name.
         rmap (\<lambda>h. (True, bt_insert h (ino, ft, name) m)) (hf name)))))) 0 False []) (\<lambda>(_, m, _).
     rmap (\<lambda>h. bt_insert h en m) (hf (snd (snd en))))"

text \<open>The first entry at which more than half of a block is used, and the hash the index gets for it.\<close>

fun split_point ::
  "nat \<Rightarrow> nat \<Rightarrow> nat \<Rightarrow> 32 word \<Rightarrow> (32 word \<times> split_en) list \<Rightarrow> (32 word \<times> nat) result" where
  "split_point blk idx used phash [] = Inl Panic"
| "split_point blk idx used phash ((h, (ino, ty, name)) # es) =
     (let used = used + (length name + 8)
      in if blk div 2 < used
         then rmap (\<lambda>h. (h, idx)) (if phash = h then add_chk h 1 else Inr h)
         else split_point blk (idx + 1) used h es)"

text \<open>The entries are put into a cleared block; that one does not fit goes unnoticed.\<close>

definition put_entries :: "bool \<Rightarrow> split_en list \<Rightarrow> bytes \<Rightarrow> bytes result" where
  "put_entries v2 es b =
     rbind (dir_clear b) (for_each es (\<lambda>(ino, ty, name) b.
       rmap snd (insert_entry v2 name (map_option de_into_file_type ty) ino b)))"

section \<open>Lookup\<close>

text \<open>The disk block at a position of the directory, through a cursor that is dropped at once. A
  position past the end and a hole are different errors.\<close>

definition dir_current :: "nat \<Rightarrow> inode \<times> 'd fs \<Rightarrow> (addressing_output option \<times> inode \<times> 'd fs) result" where
  "dir_current fba st = (case st of (i, fs) \<Rightarrow>
     rbind (open_cursor i fba fs) (\<lambda>(c, fs).
     rbind (any_current c fs) (\<lambda>o'.
     rmap (\<lambda>i. (o', i, fs)) (close_cursor c fs i))))"

definition hole_error :: fs_error where
  "hole_error = InvalidFs ''Uninitialized data block in directory''"

definition dir_lba :: "fs_error \<Rightarrow> nat \<Rightarrow> inode \<times> 'd fs \<Rightarrow> (nat \<times> inode \<times> 'd fs) result" where
  "dir_lba missing fba st =
     rbind (dir_current fba st) (\<lambda>(o', st).
     rbind (ok_or o' missing) (\<lambda>a.
     rmap (\<lambda>lba. (lba, st)) (ok_or (get_initialized a) hole_error)))"

type_synonym found = "(32 word \<times> file_type option) option"

definition dir_find_at :: "bool \<Rightarrow> bytes \<Rightarrow> nat \<Rightarrow> inode \<times> 'd fs \<Rightarrow> (found \<times> inode \<times> 'd fs) result" where
  "dir_find_at v2 target fba st =
     rbind (dir_lba NoEntry fba st) (\<lambda>(lba, i, fs).
     rbind (fs_get_block lba fs) (\<lambda>(b, fs).
     rmap (\<lambda>r. (r, i, fs)) (dir_find v2 target b)))"

function dx_find_loop ::
  "bool \<Rightarrow> bytes \<Rightarrow> nat \<Rightarrow> dx_cursor \<Rightarrow> inode \<times> 'd fs \<Rightarrow> (found \<times> inode \<times> 'd fs) result" where
  "dx_find_loop v2 target root c st =
     (case rbind (held root (snd st)) (\<lambda>b. dx_next b c) of
        Inl e \<Rightarrow> Inl e
      | Inr (None, _) \<Rightarrow> Inr (None, st)
      | Inr (Some en, c') \<Rightarrow>
          (case dir_find_at v2 target (dx_block en) st of
             Inl e \<Rightarrow> Inl e
           | Inr (Some r, st') \<Rightarrow> Inr (Some r, st')
           | Inr (None, st') \<Rightarrow> dx_find_loop v2 target root c' st'))"
  by pat_completeness auto
termination
  by (relation "measure (\<lambda>(v2, target, root, c, st). 65536 - dc_pos c)")
    (auto simp: rbind_Inr_iff dest!: dx_next_progress)

declare dx_find_loop.simps [simp del]

definition dot_name_bytes :: bytes where "dot_name_bytes = [0x2e]"
definition dotdot_name_bytes :: bytes where "dotdot_name_bytes = [0x2e, 0x2e]"

definition dx_find ::
  "bool \<Rightarrow> bytes \<Rightarrow> nat \<Rightarrow> ext4_hasher \<Rightarrow> inode \<times> 'd fs \<Rightarrow> (found \<times> inode \<times> 'd fs) result" where
  "dx_find v2 target root hs st =
     rbind (if target = dot_name_bytes \<or> target = dotdot_name_bytes then dir_find_at v2 target 0 st
            else Inr (None, st)) (\<lambda>(r, st).
     if r \<noteq> None then Inr (r, st)
     else rbind (hash_of hs target) (\<lambda>h.
          rbind (rbind (held root (snd st)) (\<lambda>b. dx_from_hash b h)) (\<lambda>c.
          dx_find_loop v2 target root c st)))"

text \<open>The index block of a directory.\<close>

definition dx_root :: "nat \<Rightarrow> inode \<times> 'd fs \<Rightarrow> ((nat \<times> ext4_hasher) \<times> inode \<times> 'd fs) result" where
  "dx_root n_entries st =
     rbind (dir_lba NoEntry 0 st) (\<lambda>(root, i, fs).
     rbind (fs_get_block root fs) (\<lambda>(b, fs).
     rmap (\<lambda>hs. ((root, hs), i, fs)) (dx_from_raw n_entries (fs_sb fs) b)))"

definition htree_find_entry ::
  "nat \<Rightarrow> bytes \<Rightarrow> inode \<times> 'd fs \<Rightarrow> (found \<times> inode \<times> 'd fs) result" where
  "htree_find_entry n_entries target st =
     rbind (dx_root n_entries st) (\<lambda>((root, hs), i, fs).
     dx_find (is_dir_entry_version2 (fs_sb fs)) target root hs (i, fs))"

definition block_in_use :: "bool \<Rightarrow> bytes \<Rightarrow> bool result" where
  "block_in_use v2 b = rmap (\<lambda>(done, _). \<not> done)
     (dir_each v2 b (\<lambda>item pos s.
       rbind (case item of Inl e \<Rightarrow> Inl (Fs e) | Inr en \<Rightarrow> Inr en) (\<lambda>en.
       rmap (\<lambda>ino. (ino = 0, s)) (get_inode_no en))) 0 False ())"

function dx_child_loop :: "bool \<Rightarrow> nat \<Rightarrow> dx_cursor \<Rightarrow> inode \<times> 'd fs \<Rightarrow> (bool \<times> inode \<times> 'd fs) result" where
  "dx_child_loop v2 root c st =
     (case rbind (held root (snd st)) (\<lambda>b. dx_next b c) of
        Inl e \<Rightarrow> Inl e
      | Inr (None, _) \<Rightarrow> Inr (False, st)
      | Inr (Some en, c') \<Rightarrow>
          (case rbind (dir_current (dx_block en) st) (\<lambda>(o', i, fs).
                  case Option.bind o' get_initialized of
                    None \<Rightarrow> Inr (False, i, fs)
                  | Some lba \<Rightarrow> rbind (fs_get_block lba fs) (\<lambda>(b, fs).
                      rmap (\<lambda>r. (r, i, fs)) (block_in_use v2 b))) of
             Inl e \<Rightarrow> Inl e
           | Inr (True, st') \<Rightarrow> Inr (True, st')
           | Inr (False, st') \<Rightarrow> dx_child_loop v2 root c' st'))"
  by pat_completeness auto
termination
  by (relation "measure (\<lambda>(v2, root, c, st). 65536 - dc_pos c)")
    (auto simp: rbind_Inr_iff dest!: dx_next_progress)

declare dx_child_loop.simps [simp del]

definition htree_has_child :: "nat \<Rightarrow> inode \<times> 'd fs \<Rightarrow> (bool \<times> inode \<times> 'd fs) result" where
  "htree_has_child n_entries st =
     rbind (dx_root n_entries st) (\<lambda>((root, hs), i, fs).
     rbind (rbind (held root fs) (\<lambda>b. rbind (dx_from_index b 0) unwrap)) (\<lambda>c.
     dx_child_loop (is_dir_entry_version2 (fs_sb fs)) root c (i, fs)))"

section \<open>Listing\<close>

text \<open>The callback of a listing gets name, inode and type of an entry and the position to go on from;
  it refuses the entry by \<open>False\<close>.\<close>

type_synonym 's fillfn = "bytes \<times> nat \<times> file_type \<Rightarrow> nat \<Rightarrow> 's \<Rightarrow> bool \<times> 's"

definition listed :: "dirent_ref \<Rightarrow> (bytes \<times> nat \<times> file_type) result" where
  "listed en =
     rbind (get_name en) (\<lambda>name.
     rbind (get_inode_no en) (\<lambda>ino.
     rmap (\<lambda>ty. (name, unat ino, case ty of Some d \<Rightarrow> de_into_file_type d | None \<Rightarrow> Unknown)) (get_file_type en)))"

text \<open>The other entries, block after block. A position of the index whose block is not mapped is tried
  again and again.\<close>

fun htree_fill ::
  "nat \<Rightarrow> bool \<Rightarrow> nat \<Rightarrow> nat \<Rightarrow> nat \<Rightarrow> 's fillfn \<Rightarrow> (inode \<times> 'd fs) \<times> 's \<Rightarrow>
   (nat \<times> (inode \<times> 'd fs) \<times> 's) result option" where
  "htree_fill 0 v2 root index offset fill st = None"
| "htree_fill (Suc fuel) v2 root index offset fill ((i, fs), s) =
     obind (Some (rbind (held root fs) (\<lambda>b.
            rbind (sub_nat index 1) (\<lambda>k.
            rbind (dx_from_index b k) (\<lambda>c. case c of
              None \<Rightarrow> Inr None
            | Some c \<Rightarrow> rmap fst (dx_next b c)))))) (\<lambda>en.
     case en of
       None \<Rightarrow> Some (Inr (index * blk_size fs + offset, (i, fs), s))
     | Some en \<Rightarrow>
        obind (Some (dir_current (dx_block en) (i, fs))) (\<lambda>(o', i, fs).
        case o' of
          None \<Rightarrow> htree_fill fuel v2 root index offset fill ((i, fs), s)
        | Some a \<Rightarrow>
           obind (Some (ok_or (get_initialized a) hole_error)) (\<lambda>lba.
           obind (Some (fs_get_block lba fs)) (\<lambda>(b, fs).
           obind (Some (dir_each v2 b (\<lambda>item pos s.
              if pos < offset then Inr (True, s)
              else rbind (case item of Inl e \<Rightarrow> Inl (Fs e) | Inr en \<Rightarrow> Inr en) (\<lambda>en.
                   rmap (\<lambda>e. fill e (pos + index * blk_size fs) s) (listed en))) 0 False s)) (\<lambda>(all, s, pos, _).
           if all then htree_fill fuel v2 root (index + 1) 0 fill ((i, fs), s)
           else Some (Inr (pos + index * blk_size fs, (i, fs), s)))))))"

definition htree_fill_dir_from ::
  "nat \<Rightarrow> nat \<Rightarrow> nat \<Rightarrow> 's fillfn \<Rightarrow> (inode \<times> 'd fs) \<times> 's \<Rightarrow> (nat \<times> (inode \<times> 'd fs) \<times> 's) result option" where
  "htree_fill_dir_from fuel n_entries pos fill st = (case st of (w, s) \<Rightarrow>
     obind (Some (dx_root n_entries w)) (\<lambda>((root, hs), i, fs).
     obind (Some (rbind (held root fs) dx_dot)) (\<lambda>dot.
     obind (Some (rbind (held root fs) dx_dotdot)) (\<lambda>dotdot.
     let (go, s) = (if pos < 12 then fill (dot_name_bytes, dot_inode dot, Directory) 12 s else (True, s))
     in if \<not> go then Some (Inr (0, (i, fs), s))
        else let pos = max pos 12;
                 (go, s) = (if pos < blk_size fs
                   then fill (dotdot_name_bytes, dot_inode dotdot, Directory) (blk_size fs) s else (True, s))
             in if \<not> go then Some (Inr (12, (i, fs), s))
                else let pos = max pos (blk_size fs)
                     in htree_fill fuel (is_dir_entry_version2 (fs_sb fs)) root (pos div blk_size fs) (pos mod blk_size fs)
                          fill ((i, fs), s)))))"

end
