(* ===== verification/Htree_Update.thy ===== *)
theory Htree_Update
  imports Htree
begin

text \<open>
  Changing hashed directories (\<open>src/directory/htree\<close>): insertion into the leaf of the name's hash,
  splitting it when it is full, removal, and the creation of an empty index. The operations thread
  the inode, the file system and the transaction; those that allocate blocks take the fuel of the
  allocation.
\<close>

type_synonym 'd dst = "inode \<times> 'd fs \<times> tx"

section \<open>Splitting a full leaf\<close>

text \<open>The block appended to the directory: its position and its number. A failing allocation is unwrapped.\<close>

definition append_dir_block :: "nat \<Rightarrow> 'd dst \<Rightarrow> ((nat \<times> nat) \<times> 'd dst) result option" where
  "append_dir_block fuel st = (case st of (i, fs, t) \<Rightarrow>
     obind (Some (open_cursor_last_mut i fs)) (\<lambda>(c, fs).
     obind (case any_or_allocated fuel False (c, fs, t) of None \<Rightarrow> None | Some r \<Rightarrow> Some (unwrap_res r)) (\<lambda>(lba, c, fs, t).
     obind (Some (tx_modify_noload lba (\<lambda>b. Inr ((), b)) (fs, t))) (\<lambda>(_, fs, t).
     obind (Some (close_cursor_mut c fs i)) (\<lambda>i.
     let (i, t) = set_size (i_size i + blk_size fs) i t
     in Some (Inr ((any_fba c, lba), i, fs, t)))))))"

definition split_data ::
  "nat \<Rightarrow> nat \<Rightarrow> ext4_hasher \<Rightarrow> nat \<Rightarrow> split_en \<Rightarrow> dx_entry \<Rightarrow> 'd dst \<Rightarrow> 'd dst result option" where
  "split_data fuel root hs pos en dx_en st = (case st of (i, fs, t) \<Rightarrow>
     let v2 = is_dir_entry_version2 (fs_sb fs)
     in obind (Some (dir_current (dx_block dx_en) (i, fs))) (\<lambda>(o', i, fs).
        obind (Some (rbind (unwrap o') (\<lambda>a. unwrap (get_initialized a)))) (\<lambda>lba.
        obind (Some (fs_get_block lba fs)) (\<lambda>(b, fs).
        obind (Some (gather_entries (hash_of hs) v2 b en)) (\<lambda>es.
        obind (append_dir_block fuel (i, fs, t)) (\<lambda>((dx_fba, new_lba), i, fs, t).
        obind (Some (split_point (blk_size fs) 0 0 (- 1) es)) (\<lambda>(h, k).
        obind (Some (tx_modify root (dx_insert_at pos \<lparr>dx_hash = h, dx_block = dx_fba\<rparr>) (fs, t))) (\<lambda>(ok, fs, t).
        if \<not> ok then Some (Inl (Fs (InvalidFs ''Corrupted htree'')))
        else
        obind (Some (tx_modify lba (\<lambda>b. rmap (Pair ()) (put_entries v2 (map snd (take k es)) b)) (fs, t))) (\<lambda>(_, fs, t).
        obind (Some (tx_modify_noload new_lba (\<lambda>b. rmap (Pair ()) (put_entries v2 (map snd (drop k es)) b)) (fs, t)))
          (\<lambda>(_, fs, t).
        Some (Inr (i, fs, t))))))))))))"

section \<open>Insertion\<close>

text \<open>The leaves of the hash are tried one after the other: \<open>Inl\<close> is the state after the insertion,
  \<open>Inr\<close> the cursor and the last leaf when none has room.\<close>

function dx_insert_loop ::
  "bool \<Rightarrow> bytes \<Rightarrow> file_type \<Rightarrow> nat \<Rightarrow> nat \<Rightarrow> dx_cursor \<Rightarrow> dx_entry option \<Rightarrow> 'd dst \<Rightarrow>
   ((unit + dx_cursor \<times> dx_entry option) \<times> 'd dst) result" where
  "dx_insert_loop v2 entry de child root c prev st =
     (case rbind (held root (fst (snd st))) (\<lambda>b. dx_next b c) of
        Inl e \<Rightarrow> Inl e
      | Inr (None, c') \<Rightarrow> Inr (Inr (c', prev), st)
      | Inr (Some en, c') \<Rightarrow>
          (case (case st of (i, fs, t) \<Rightarrow>
                 rbind (dir_current (dx_block en) (i, fs)) (\<lambda>(o', i, fs).
                 rbind (rbind (unwrap o') (\<lambda>a. unwrap (get_initialized a))) (\<lambda>lba.
                 rmap (\<lambda>(ok, w). (ok, i, w)) (tx_modify lba (insert_entry v2 entry (Some de) (of_nat child)) (fs, t))))) of
             Inl e \<Rightarrow> Inl e
           | Inr (True, st') \<Rightarrow> Inr (Inl (), st')
           | Inr (False, st') \<Rightarrow> dx_insert_loop v2 entry de child root c' (Some en) st'))"
  by pat_completeness auto
termination
  by (relation "measure (\<lambda>(v2, entry, de, child, root, c, last, st). 65536 - dc_pos c)")
    (auto simp: rbind_Inr_iff dest!: dx_next_progress)

declare dx_insert_loop.simps [simp del]

definition dx_insert ::
  "nat \<Rightarrow> nat \<Rightarrow> nat \<Rightarrow> ext4_hasher \<Rightarrow> bytes \<Rightarrow> file_type \<Rightarrow> nat \<Rightarrow> 'd dst \<Rightarrow> 'd dst result option" where
  "dx_insert fuel r_entries root hs entry de child st = (case st of (i, w) \<Rightarrow>
     if entry = dot_name_bytes
     then Some (rmap (\<lambda>(_, w). (i, w)) (tx_modify root (\<lambda>b. rmap (Pair ()) (write_u32 0 (of_nat child) b)) w))
     else if entry = dotdot_name_bytes
     then Some (rmap (\<lambda>(_, w). (i, w)) (tx_modify root (\<lambda>b. rmap (Pair ()) (write_u32 0xC (of_nat child) b)) w))
     else
     obind (Some (rbind (hash_of hs entry) (\<lambda>h. rbind (held root (fst w)) (\<lambda>b.
                  rbind (dx_from_hash b h) (\<lambda>c. rmap (\<lambda>_. c) (try_split r_entries b)))))) (\<lambda>c.
     obind (Some (dx_insert_loop (is_dir_entry_version2 (fs_sb (fst w))) entry de child root c None st)) (\<lambda>(r, st).
     case r of
       Inl _ \<Rightarrow> Some (Inr st)
     | Inr (c, prev) \<Rightarrow>
         obind (Some (unwrap prev)) (\<lambda>dx_en.
         split_data fuel root hs (dc_pos c) (of_nat child, Some (de_from_file_type de), entry) dx_en st))))"

section \<open>Creation\<close>

definition dir_block_mut :: "nat \<Rightarrow> nat \<Rightarrow> 'd dst \<Rightarrow> (nat \<times> 'd dst) result option" where
  "dir_block_mut fuel fba st = (case st of (i, fs, t) \<Rightarrow>
     obind (Some (open_cursor_mut i fba fs)) (\<lambda>(c, fs).
     obind (any_or_allocated fuel True (c, fs, t)) (\<lambda>(lba, c, fs, t).
     Some (rmap (\<lambda>i. (lba, i, fs, t)) (close_cursor_mut c fs i)))))"

definition dx_init :: "nat \<Rightarrow> nat \<Rightarrow> bool \<Rightarrow> 'd dst \<Rightarrow> ((nat \<times> ext4_hasher) \<times> 'd dst) result option" where
  "dx_init fuel r_entries has_tail st =
     obind (dir_block_mut fuel 0 st) (\<lambda>(root, st).
     obind (dir_block_mut fuel 1 st) (\<lambda>(b1, i, fs, t).
     obind (Some (tx_modify b1 (\<lambda>b. rmap (Pair ()) (dir_clear b)) (fs, t))) (\<lambda>(_, fs, t).
     let (i, t) = set_size (blk_size fs * 2) i t
     in obind (Some (tx_modify_noload root
                (\<lambda>b. rmap (Pair ()) (dx_init_block r_entries has_tail (default_hash_version (fs_sb fs)) b)) (fs, t))) (\<lambda>(_, fs, t).
        Some (rbind (held root fs) (\<lambda>b. rmap (\<lambda>hs. ((root, hs), i, fs, t)) (dx_from_raw r_entries (fs_sb fs) b)))))))"

definition htree_add_entry ::
  "nat \<Rightarrow> nat \<Rightarrow> bool \<Rightarrow> bytes \<Rightarrow> file_type \<Rightarrow> nat \<Rightarrow> 'd dst \<Rightarrow> 'd dst result option" where
  "htree_add_entry fuel r_entries has_tail entry de child st = (case st of (i, fs, t) \<Rightarrow>
     obind (Some (dir_current 0 (i, fs))) (\<lambda>(o', i, fs).
     obind (case o' of
         Some a \<Rightarrow> Some (rbind (ok_or (get_initialized a) hole_error) (\<lambda>root.
           rbind (fs_get_block root fs) (\<lambda>(b, fs).
           rmap (\<lambda>hs. ((root, hs), i, fs, t)) (dx_from_raw r_entries (fs_sb fs) b))))
       | None \<Rightarrow> dx_init fuel r_entries has_tail (i, fs, t)) (\<lambda>((root, hs), st).
     dx_insert fuel r_entries root hs entry de child st)))"

section \<open>Removal\<close>

text \<open>Every block that is searched is written back.\<close>

definition dir_remove_at :: "bool \<Rightarrow> bytes \<Rightarrow> nat \<Rightarrow> 'd dst \<Rightarrow> (32 word option \<times> 'd dst) result" where
  "dir_remove_at v2 target fba st = (case st of (i, fs, t) \<Rightarrow>
     rbind (dir_lba (InvalidFs ''Fail to index the logical block number during find_mut_then'') fba (i, fs)) (\<lambda>(lba, i, fs).
     rmap (\<lambda>(r, w). (r, i, w)) (tx_modify lba (\<lambda>b.
       rmap (\<lambda>r. case r of Some (ino, b') \<Rightarrow> (Some ino, b') | None \<Rightarrow> (None, b)) (dir_remove v2 target b)) (fs, t))))"

function dx_remove_loop ::
  "bool \<Rightarrow> bytes \<Rightarrow> nat \<Rightarrow> dx_cursor \<Rightarrow> 'd dst \<Rightarrow> (32 word option \<times> 'd dst) result" where
  "dx_remove_loop v2 target root c st =
     (case rbind (held root (fst (snd st))) (\<lambda>b. dx_next b c) of
        Inl e \<Rightarrow> Inl e
      | Inr (None, _) \<Rightarrow> Inr (None, st)
      | Inr (Some en, c') \<Rightarrow>
          (case dir_remove_at v2 target (dx_block en) st of
             Inl e \<Rightarrow> Inl e
           | Inr (Some r, st') \<Rightarrow> Inr (Some r, st')
           | Inr (None, st') \<Rightarrow> dx_remove_loop v2 target root c' st'))"
  by pat_completeness auto
termination
  by (relation "measure (\<lambda>(v2, target, root, c, st). 65536 - dc_pos c)")
    (auto simp: rbind_Inr_iff dest!: dx_next_progress)

declare dx_remove_loop.simps [simp del]

text \<open>\<open>find_mut_then\<close> with the removal: the entries for the directory itself are in the first block.\<close>

definition dx_remove :: "bytes \<Rightarrow> nat \<Rightarrow> (byte list \<Rightarrow> 32 word result) \<Rightarrow> 'd dst \<Rightarrow> (32 word option \<times> 'd dst) result" where
  "dx_remove target root hf st = (case st of (i, fs, t) \<Rightarrow>
     let v2 = is_dir_entry_version2 (fs_sb fs)
     in rbind (if target = dot_name_bytes \<or> target = dotdot_name_bytes then dir_remove_at v2 target 0 (i, fs, t)
               else Inr (None, i, fs, t)) (\<lambda>(r, i, fs, t).
        if r \<noteq> None then Inr (r, i, fs, t)
        else rbind (hf target) (\<lambda>h.
             rbind (rbind (held root fs) (\<lambda>b. dx_from_hash b h)) (\<lambda>c.
             dx_remove_loop v2 target root c (i, fs, t)))))"

text \<open>\<open>None\<close> is the \<open>Err(FsError::NoEntry)\<close> of a name that is not there.\<close>

definition htree_remove_entry :: "nat \<Rightarrow> bytes \<Rightarrow> 'd dst \<Rightarrow> (32 word option \<times> 'd dst) result" where
  "htree_remove_entry n_entries target st = (case st of (i, fs, t) \<Rightarrow>
     rbind (dx_root n_entries (i, fs)) (\<lambda>((root, hs), i, fs).
     dx_remove target root (hash_of hs) (i, fs, t)))"

end
