(* ===== verification/Directory.thy ===== *)
theory Directory
  imports Htree_Update
begin

text \<open>
  Directories (\<open>src/directory/mod.rs\<close>, \<open>src/directory/linear.rs\<close>): the linear scheme, which searches the
  blocks one after the other, the choice between it and the hashed one, and the operations on a
  directory: lookup, listing, creation of an entry with its inode, removal and renaming. A directory
  is named by its inode number; its inode is in the map of inodes in memory.
\<close>

section \<open>The linear scheme\<close>

definition any_move_next_ro :: "any_cursor \<times> 'd fs \<Rightarrow> (any_cursor \<times> 'd fs) result" where
  "any_move_next_ro st = (case st of
     (ExtCursor cu, fs) \<Rightarrow> rmap (\<lambda>(cu, fs). (ExtCursor cu, fs)) (cur_move_next (cu, fs))
   | (LegCursor l fba, fs) \<Rightarrow> rmap (\<lambda>fba. (LegCursor l fba, fs)) (legacy_move_next fba))"

text \<open>\<open>None\<close> in the results below is the \<open>Err(FsError::NoEntry)\<close> of a name that is not there.\<close>

fun linear_find_loop ::
  "nat \<Rightarrow> bool \<Rightarrow> bytes \<Rightarrow> any_cursor \<times> 'd fs \<Rightarrow> (found \<times> any_cursor \<times> 'd fs) result option" where
  "linear_find_loop 0 v2 target st = None"
| "linear_find_loop (Suc fuel) v2 target (c, fs) =
     obind (Some (any_current c fs)) (\<lambda>o'.
     case o' of
       None \<Rightarrow> Some (Inr (None, c, fs))
     | Some a \<Rightarrow>
        obind (Some (ok_or (get_initialized a) hole_error)) (\<lambda>lba.
        obind (Some (fs_get_block lba fs)) (\<lambda>(b, fs).
        obind (Some (dir_find v2 target b)) (\<lambda>r.
        if r \<noteq> None then Some (Inr (r, c, fs))
        else obind (Some (any_move_next_ro (c, fs))) (linear_find_loop fuel v2 target)))))"

definition linear_find_entry :: "nat \<Rightarrow> bytes \<Rightarrow> inode \<times> 'd fs \<Rightarrow> (found \<times> inode \<times> 'd fs) result option" where
  "linear_find_entry fuel target st = (case st of (i, fs) \<Rightarrow>
     let v2 = is_dir_entry_version2 (fs_sb fs)
     in obind (Some (open_cursor i 0 fs)) (\<lambda>(c, fs).
        obind (linear_find_loop fuel v2 target (c, fs)) (\<lambda>(r, c, fs).
        Some (rmap (\<lambda>i. (r, i, fs)) (close_cursor c fs i)))))"

text \<open>
  The listing looks for the last entry that starts at the offset or before it. The entry after that
  one is taken from the iterator before the search stops.
\<close>

definition en_of :: "fs_error + dirent_ref \<Rightarrow> dirent_ref result" where
  "en_of item = (case item of Inl e \<Rightarrow> Inl (Fs e) | Inr en \<Rightarrow> Inr en)"

definition seek_entry :: "bool \<Rightarrow> bytes \<Rightarrow> nat \<Rightarrow> ((nat \<times> dirent_ref option) \<times> nat \<times> bool) result" where
  "seek_entry v2 b offset =
     rmap snd (dir_each v2 b (\<lambda>item pos (en_pos, pen).
       if en_pos \<le> offset
       then rbind (en_of item) (\<lambda>en. rmap (\<lambda>l. (True, en_pos + l, Some en)) (get_entry_len en))
       else Inr (False, en_pos, pen)) 0 False (0, None))"

definition fill_step :: "nat \<Rightarrow> 's fillfn \<Rightarrow> dirent_ref \<Rightarrow> nat \<times> 's \<Rightarrow> (bool \<times> nat \<times> 's) result" where
  "fill_step base fill en st = (case st of (en_pos, s) \<Rightarrow>
     rbind (listed en) (\<lambda>d.
     rmap (\<lambda>l. let (go, s) = fill d (en_pos + base + l) s in (go, if go then en_pos + l else en_pos, s))
       (get_entry_len en)))"

text \<open>One block: whether to go on with the next, and the position in the block.\<close>

definition linear_fill_block ::
  "bool \<Rightarrow> bytes \<Rightarrow> nat \<Rightarrow> nat \<Rightarrow> 's fillfn \<Rightarrow> 's \<Rightarrow> (bool \<times> nat \<times> 's) result" where
  "linear_fill_block v2 b base offset fill s =
     rbind (seek_entry v2 b offset) (\<lambda>((en_pos, pen), pos, stopped).
     case pen of
       None \<Rightarrow> Inr (False, en_pos, s)
     | Some en \<Rightarrow>
        rbind (fill_step base fill en (en_pos, s)) (\<lambda>(go, en_pos, s).
        if \<not> go then Inr (False, en_pos, s)
        else rmap (\<lambda>(all, (en_pos, s), _). (all, en_pos, s))
          (dir_each v2 b (\<lambda>item pos st. rbind (en_of item) (\<lambda>en. fill_step base fill en st)) pos stopped (en_pos, s))))"

fun linear_fill ::
  "nat \<Rightarrow> nat \<Rightarrow> nat \<Rightarrow> 's fillfn \<Rightarrow> (inode \<times> 'd fs) \<times> 's \<Rightarrow> (nat \<times> (inode \<times> 'd fs) \<times> 's) result option" where
  "linear_fill 0 index offset fill st = None"
| "linear_fill (Suc fuel) index offset fill (w, s) =
     obind (Some (dir_current (trunc 32 index) w)) (\<lambda>(o', i, fs).
     case o' of
       None \<Rightarrow> Some (Inr (index * blk_size fs + offset, (i, fs), s))
     | Some a \<Rightarrow>
        obind (Some (ok_or (get_initialized a) hole_error)) (\<lambda>lba.
        obind (Some (fs_get_block lba fs)) (\<lambda>(b, fs).
        obind (Some (linear_fill_block (is_dir_entry_version2 (fs_sb fs)) b (index * blk_size fs) offset fill s)) (\<lambda>(go, p, s).
        if go then linear_fill fuel (index + 1) 0 fill ((i, fs), s)
        else Some (Inr (p + index * blk_size fs, (i, fs), s))))))"

definition linear_fill_dir_from ::
  "nat \<Rightarrow> nat \<Rightarrow> 's fillfn \<Rightarrow> (inode \<times> 'd fs) \<times> 's \<Rightarrow> (nat \<times> (inode \<times> 'd fs) \<times> 's) result option" where
  "linear_fill_dir_from fuel pos fill st = (case st of ((i, fs), s) \<Rightarrow>
     linear_fill fuel (pos div blk_size fs) (pos mod blk_size fs) fill ((i, fs), s))"

text \<open>The flag of the result: the entry is in a block that was appended.\<close>

fun linear_add_loop ::
  "nat \<Rightarrow> bool \<Rightarrow> bytes \<Rightarrow> file_type \<Rightarrow> nat \<Rightarrow> any_cursor \<times> 'd fs \<times> tx \<Rightarrow>
   (bool \<times> any_cursor \<times> 'd fs \<times> tx) result option" where
  "linear_add_loop 0 v2 entry de child st = None"
| "linear_add_loop (Suc fuel) v2 entry de child (c, fs, t) =
     obind (Some (rmap (\<lambda>o'. o' = None) (any_current c fs))) (\<lambda>grown.
     obind (any_or_allocated (Suc fuel) True (c, fs, t)) (\<lambda>(lba, c, fs, t).
     obind (Some (tx_modify lba (\<lambda>b. rbind (if grown then dir_clear b else Inr b)
              (insert_entry v2 entry (Some de) (of_nat child))) (fs, t))) (\<lambda>(ok, fs, t).
     if ok then Some (Inr (grown, c, fs, t))
     else obind (Some (any_move_next (c, fs))) (\<lambda>(c, fs). linear_add_loop fuel v2 entry de child (c, fs, t)))))"

definition linear_add_entry :: "nat \<Rightarrow> bytes \<Rightarrow> file_type \<Rightarrow> nat \<Rightarrow> 'd dst \<Rightarrow> 'd dst result option" where
  "linear_add_entry fuel entry de child st = (case st of (i, fs, t) \<Rightarrow>
     let v2 = is_dir_entry_version2 (fs_sb fs)
     in obind (Some (open_cursor_mut i 0 fs)) (\<lambda>(c, fs).
     obind (linear_add_loop fuel v2 entry de child (c, fs, t)) (\<lambda>(grown, c, fs, t).
     obind (Some (close_cursor_mut c fs i)) (\<lambda>i.
     let (i, t) = (if grown then set_size (i_size i + blk_size fs) i t else (i, t))
     in Some (Inr (i, fs, t))))))"

fun linear_remove_loop ::
  "nat \<Rightarrow> bool \<Rightarrow> bytes \<Rightarrow> any_cursor \<times> 'd fs \<times> tx \<Rightarrow> (32 word option \<times> any_cursor \<times> 'd fs \<times> tx) result option" where
  "linear_remove_loop 0 v2 target st = None"
| "linear_remove_loop (Suc fuel) v2 target (c, fs, t) =
     obind (Some (any_current c fs)) (\<lambda>o'.
     case o' of
       None \<Rightarrow> Some (Inr (None, c, fs, t))
     | Some a \<Rightarrow>
        obind (Some (ok_or (get_initialized a) hole_error)) (\<lambda>lba.
        obind (Some (tx_modify lba (\<lambda>b.
          rmap (\<lambda>r. case r of Some (ino, b') \<Rightarrow> (Some ino, b') | None \<Rightarrow> (None, b)) (dir_remove v2 target b)) (fs, t)))
          (\<lambda>(r, fs, t).
        if r \<noteq> None then Some (Inr (r, c, fs, t))
        else obind (Some (any_move_next_ro (c, fs))) (\<lambda>(c, fs). linear_remove_loop fuel v2 target (c, fs, t)))))"

definition linear_remove_entry :: "nat \<Rightarrow> bytes \<Rightarrow> 'd dst \<Rightarrow> (32 word option \<times> 'd dst) result option" where
  "linear_remove_entry fuel target st = (case st of (i, fs, t) \<Rightarrow>
     let v2 = is_dir_entry_version2 (fs_sb fs)
     in obind (Some (open_cursor i 0 fs)) (\<lambda>(c, fs).
     obind (linear_remove_loop fuel v2 target (c, fs, t)) (\<lambda>(r, c, fs, t).
     Some (rmap (\<lambda>i. (r, i, fs, t)) (close_cursor c fs i)))))"

section \<open>The choice of the scheme\<close>

datatype scheme = Linear | HTree (r_entries: nat) (n_entries: nat) (has_tail: bool)

definition DIR_INDEX :: "32 word" where "DIR_INDEX = 0x20"

definition get_scheme :: "inode \<times> 'd fs \<Rightarrow> scheme result" where
  "get_scheme st = (case st of (i, fs) \<Rightarrow>
     let use_htree = (contains_flag (features_compatible (fs_sb fs)) DIR_INDEX \<and>
           contains_flag (i_flags i) (inode_flag_bits INDEX));
         meta = contains_flag (features_readonly (fs_sb fs)) METADATA_CSUM
     in if blk_size fs = 1024 \<and> use_htree then Inr (if meta then HTree 122 125 True else HTree 123 126 False)
        else if blk_size fs = 2048 \<and> use_htree then Inr (if meta then HTree 250 253 True else HTree 251 254 False)
        else if blk_size fs = 4096 \<and> use_htree then Inr (if meta then HTree 506 509 True else HTree 507 510 False)
        else if blk_size fs \<in> {1024, 2048, 4096} then Inr Linear
        else Inl Panic)"

definition find_entry :: "nat \<Rightarrow> bytes \<Rightarrow> inode \<times> 'd fs \<Rightarrow> (found \<times> inode \<times> 'd fs) result option" where
  "find_entry fuel target st =
     obind (Some (get_scheme st)) (\<lambda>s. case s of
       Linear \<Rightarrow> linear_find_entry fuel target st
     | HTree r n ht \<Rightarrow> Some (htree_find_entry r target st))"

definition add_entry :: "nat \<Rightarrow> bytes \<Rightarrow> file_type \<Rightarrow> nat \<Rightarrow> 'd dst \<Rightarrow> 'd dst result option" where
  "add_entry fuel entry de child st =
     obind (Some (get_scheme (fst st, fst (snd st)))) (\<lambda>s. case s of
       Linear \<Rightarrow> linear_add_entry fuel entry de child st
     | HTree r n ht \<Rightarrow> htree_add_entry fuel r ht entry de child st)"

definition scheme_remove_entry :: "nat \<Rightarrow> bytes \<Rightarrow> 'd dst \<Rightarrow> (32 word option \<times> 'd dst) result option" where
  "scheme_remove_entry fuel target st =
     obind (Some (get_scheme (fst st, fst (snd st)))) (\<lambda>s. case s of
       Linear \<Rightarrow> linear_remove_entry fuel target st
     | HTree r n ht \<Rightarrow> Some (htree_remove_entry r target st))"

definition dir_has_child :: "inode \<times> 'd fs \<Rightarrow> (bool \<times> inode \<times> 'd fs) result" where
  "dir_has_child st =
     rbind (get_scheme st) (\<lambda>s. case s of
       Linear \<Rightarrow> Inl Panic
     | HTree r n ht \<Rightarrow> htree_has_child r st)"

definition fill_dir_from ::
  "nat \<Rightarrow> nat \<Rightarrow> 's fillfn \<Rightarrow> (inode \<times> 'd fs) \<times> 's \<Rightarrow> (nat \<times> (inode \<times> 'd fs) \<times> 's) result option" where
  "fill_dir_from fuel pos fill st =
     obind (Some (get_scheme (fst st))) (\<lambda>s. case s of
       Linear \<Rightarrow> linear_fill_dir_from fuel pos fill st
     | HTree r n ht \<Rightarrow> htree_fill_dir_from fuel r pos fill st)"

section \<open>Directories\<close>

type_synonym 'd world = "inode_map \<times> 'd fs \<times> tx"

text \<open>An operation on the inode of a directory that is in memory.\<close>

definition on_dir :: "nat \<Rightarrow> ('d dst \<Rightarrow> ('a \<times> 'd dst) result option) \<Rightarrow> 'd world \<Rightarrow> ('a \<times> 'd world) result option" where
  "on_dir dir f st = (case st of (im, w) \<Rightarrow>
     obind (Some (unwrap (im dir))) (\<lambda>i.
     obind (f (i, w)) (\<lambda>(a, i, w).
     Some (Inr (a, im(dir \<mapsto> i), w)))))"

definition with_unit :: "'d dst result option \<Rightarrow> (unit \<times> 'd dst) result option" where
  "with_unit m = map_option (rmap (Pair ())) m"

definition lookup_entry :: "nat \<Rightarrow> nat \<Rightarrow> bytes \<Rightarrow> 'd world \<Rightarrow> (found \<times> 'd world) result option" where
  "lookup_entry fuel dir target =
     on_dir dir (\<lambda>(i, fs, t). obind (find_entry fuel target (i, fs)) (\<lambda>(r, i, fs). Some (Inr (r, i, fs, t))))"

definition get_inode_as_fs_object ::
  "nat \<Rightarrow> file_type option \<Rightarrow> 'd world \<Rightarrow> (fs_object \<times> 'd world) result" where
  "get_inode_as_fs_object ino hint st = (case st of (im, fs, t) \<Rightarrow>
     rbind (mgr_get ino hint (im, fs)) (\<lambda>(i, im, fs).
     rmap (\<lambda>ob. (ob, im, fs, t)) (into_fs_object i)))"

definition allocate_inode_as_fs_object :: "file_type \<Rightarrow> 'd world \<Rightarrow> ((nat \<times> fs_object) \<times> 'd world) result" where
  "allocate_inode_as_fs_object ft st =
     rbind (mgr_allocate ft st) (\<lambda>(ino, im, w).
     rbind (unwrap (im ino)) (\<lambda>i.
     rmap (\<lambda>ob. ((ino, ob), im, w)) (into_fs_object i)))"

definition open_entry :: "nat \<Rightarrow> nat \<Rightarrow> bytes \<Rightarrow> 'd world \<Rightarrow> (fs_object \<times> 'd world) result option" where
  "open_entry fuel dir entry st =
     obind (lookup_entry fuel dir entry st) (\<lambda>(r, st).
     obind (Some (ok_or r NoEntry)) (\<lambda>(ino, ty).
     Some (get_inode_as_fs_object (unat ino) ty st)))"

definition add_to :: "nat \<Rightarrow> nat \<Rightarrow> bytes \<Rightarrow> file_type \<Rightarrow> nat \<Rightarrow> 'd world \<Rightarrow> (unit \<times> 'd world) result option" where
  "add_to fuel dir entry de child = on_dir dir (\<lambda>st. with_unit (add_entry fuel entry de child st))"

definition log_link :: "nat \<Rightarrow> 'd world \<Rightarrow> 'd world" where
  "log_link ino st = (case st of (im, fs, t) \<Rightarrow> (im, fs, inode_add_link ino t))"

definition log_unlink :: "nat \<Rightarrow> 'd world \<Rightarrow> 'd world" where
  "log_unlink ino st = (case st of (im, fs, t) \<Rightarrow> (im, fs, inode_rm_link ino t))"

text \<open>The entries of a new directory.\<close>

definition init_dir :: "nat \<Rightarrow> nat \<Rightarrow> nat \<Rightarrow> 'd world \<Rightarrow> 'd world result option" where
  "init_dir fuel dir ino st =
     obind (add_to fuel ino dot_name_bytes Directory ino st) (\<lambda>(_, st).
     obind (add_to fuel ino dotdot_name_bytes Directory dir st) (\<lambda>(_, im, w).
     obind (Some (unwrap (im ino))) (\<lambda>i.
     obind (Some (chk 16 (i_links i + 1))) (\<lambda>n.
     Some (Inr (log_link dir (log_link ino (im(ino \<mapsto> i\<lparr>i_links := n\<rparr>), w))))))))"

text \<open>A lookup that fails, for whatever reason, lets the creation go on; the caches are then as they
  were before it.\<close>

definition create_entry :: "nat \<Rightarrow> nat \<Rightarrow> bytes \<Rightarrow> file_type \<Rightarrow> 'd world \<Rightarrow> (fs_object \<times> 'd world) result option" where
  "create_entry fuel dir entry ft st =
     obind (Some (unwrap (fst st dir))) (\<lambda>i.
     if i_links i = 0 then Some (Inl (Fs PendingRemoval))
     else obind (case lookup_entry fuel dir entry st of
             Some (Inr (Some _, _)) \<Rightarrow> Some (Inl (Fs Exist))
           | Some (Inr (None, st')) \<Rightarrow> Some (Inr st')
           | Some (Inl (Fs _)) \<Rightarrow> Some (Inr st)
           | Some (Inl Panic) \<Rightarrow> Some (Inl Panic)
           | None \<Rightarrow> None) (\<lambda>st.
          obind (Some (allocate_inode_as_fs_object ft st)) (\<lambda>((ino, ob), st).
          obind (if ft = Directory then init_dir fuel dir ino st else Some (Inr st)) (\<lambda>st.
          obind (add_to fuel dir entry ft ino st) (\<lambda>(_, st).
          Some (Inr (ob, log_link ino st)))))))"

text \<open>Removing an entry drops a link of its inode, and the link to itself of a directory.\<close>

definition drop_link :: "nat \<Rightarrow> nat \<Rightarrow> inode \<Rightarrow> 'd world \<Rightarrow> 'd world result" where
  "drop_link dir ino i st = (case st of (im, w) \<Rightarrow>
     if i_links i = 1 \<and> i_ftype i = RegularFile
     then Inr (log_unlink ino (im(ino \<mapsto> i\<lparr>i_links := 0\<rparr>), w))
     else if i_links i = 2 \<and> i_ftype i = Directory
     then Inr (log_unlink ino (log_unlink dir (log_unlink ino (im(ino \<mapsto> i\<lparr>i_links := 0\<rparr>), w))))
     else if i_links i = 0 \<or> i_ftype i = Directory
     then Inl (Fs (InvalidFs ''Invalid inode.links_count''))
     else Inr (log_unlink ino (im(ino \<mapsto> i\<lparr>i_links := i_links i - 1\<rparr>), w)))"

definition remove_from :: "nat \<Rightarrow> nat \<Rightarrow> bytes \<Rightarrow> 'd world \<Rightarrow> (nat option \<times> 'd world) result option" where
  "remove_from fuel dir entry st =
     obind (on_dir dir (scheme_remove_entry fuel entry) st) (\<lambda>(r, st). Some (Inr (map_option unat r, st)))"

definition do_remove_entry :: "nat \<Rightarrow> nat \<Rightarrow> bytes \<Rightarrow> 'd world \<Rightarrow> (nat option \<times> 'd world) result option" where
  "do_remove_entry fuel dir entry st =
     obind (remove_from fuel dir entry st) (\<lambda>(r, im, fs, t).
     case r of
       None \<Rightarrow> Some (Inr (None, im, fs, t))
     | Some ino \<Rightarrow>
        obind (Some (mgr_get ino None (im, fs))) (\<lambda>(i, im, fs).
        Some (rmap (Pair (Some ino)) (drop_link dir ino i (im, fs, t)))))"

definition remove_entry :: "nat \<Rightarrow> nat \<Rightarrow> bytes \<Rightarrow> 'd world \<Rightarrow> (nat \<times> 'd world) result option" where
  "remove_entry fuel dir entry st =
     obind (do_remove_entry fuel dir entry st) (\<lambda>(r, st). Some (rmap (\<lambda>ino. (ino, st)) (ok_or r NoEntry)))"

text \<open>\<open>held_elsewhere\<close> says of the inode of a replaced entry whether someone else still refers to it.\<close>

definition rename_entry ::
  "nat \<Rightarrow> (nat \<Rightarrow> bool) \<Rightarrow> nat \<Rightarrow> bytes \<Rightarrow> nat \<Rightarrow> bytes \<Rightarrow> 'd world \<Rightarrow> (inode_map \<times> 'd fs) result option" where
  "rename_entry fuel held_elsewhere dir entry new_dir new_entry st =
     obind (remove_from fuel dir entry st) (\<lambda>(r, st).
     obind (Some (ok_or r NoEntry)) (\<lambda>ino.
     obind (case do_remove_entry fuel dir new_entry st of
              Some (Inl (Fs NoEntry)) \<Rightarrow> Some (Inr (None, st))
            | m \<Rightarrow> m) (\<lambda>(old, im, fs, t).
     obind (Some (mgr_get ino None (im, fs))) (\<lambda>(i, im, fs).
     obind (add_to fuel new_dir new_entry (i_ftype i) ino (im, fs, t)) (\<lambda>(_, im, fs, t).
     obind (Some (tx_done t fs)) (\<lambda>fs.
     case old of
       Some o' \<Rightarrow> if held_elsewhere o' then Some (Inr (im, fs)) else inode_drop fuel o' (im, fs)
     | None \<Rightarrow> Some (Inr (im, fs))))))))"

end
