(* ===== verification/Htree_Split.thy ===== *)
theory Htree_Split
  imports Htree_Update "HOL-Library.Multiset"
begin

text \<open>
  What splitting a full leaf of a hashed directory does: the entries of the block are gathered by
  hash, divided at half a block, and written to two cleared blocks. Nothing is lost when the hashes
  are distinct and a block has 2048 bytes or more.
\<close>

section \<open>Walking a well-formed block\<close>

fun each_slot ::
  "(bytes \<Rightarrow> nat \<Rightarrow> 's \<Rightarrow> (bool \<times> 's) result) \<Rightarrow> nat \<Rightarrow> bytes list \<Rightarrow> 's \<Rightarrow> (bool \<times> 's \<times> nat \<times> bool) result" where
  "each_slot g p [] s = Inr (True, s, p, False)"
| "each_slot g p (c # cs) s =
     (if c_ino c = 0 then each_slot g (p + length c) cs s
      else case g c (p + length c) s of
        Inl e \<Rightarrow> Inl e
      | Inr (go, s') \<Rightarrow> if go then each_slot g (p + length c) cs s' else Inr (False, s', p + length c, False))"

lemma dir_each_end: "dir_each v2 x f (length x) False s = Inr (True, s, length x, False)"
  by (simp add: dir_each.simps dir_next.simps)

lemma dir_each_slots:
  assumes "list_all (slot_ok v2) cs"
    and "\<And>c r p s. c \<in> set cs \<Longrightarrow> c_ino c \<noteq> 0 \<Longrightarrow> f (Inr (de_new v2 (c @ r))) p s = g c p s"
  shows "dir_each v2 (x @ concat cs) f (length x) False s = each_slot g (length x) cs s"
  using assms
proof (induction cs arbitrary: x s)
  case Nil
  then show ?case by (simp add: dir_each_end)
next
  case (Cons c cs)
  then have ok: "slot_ok v2 c" by simp
  note step = dir_next_slot [OF ok, of x "concat cs"]
  have IH: "dir_each v2 (x @ c @ concat cs) f (length x + length c) False s = each_slot g (length x + length c) cs s" for s
    using Cons.IH [of "x @ c" s] Cons.prems by simp
  show ?case
  proof (cases "c_ino c = 0")
    case True
    then have "dir_each v2 (x @ c @ concat cs) f (length x) False s =
        dir_each v2 (x @ c @ concat cs) f (length x + length c) False s"
      using step by (simp add: dir_each.simps [of _ _ _ "length x"] dir_each.simps [of _ _ _ "length x + length c"])
    with IH True show ?thesis by simp
  next
    case False
    then have "f (Inr (de_new v2 (c @ concat cs))) (length x + length c) s = g c (length x + length c) s"
      using Cons.prems(2) by simp
    with step False IH show ?thesis
      by (simp add: dir_each.simps [of _ _ _ "length x"] split: sum.splits)
  qed
qed

section \<open>Gathering by hash\<close>

definition gathered :: "(bytes \<Rightarrow> 32 word) \<Rightarrow> split_en list \<Rightarrow> (32 word \<times> split_en) list" where
  "gathered H es = fold (\<lambda>e. bt_insert (H (snd (snd e))) e) es []"

lemma bt_insert_sorted:
  "sorted_wrt (<) (map fst m) \<Longrightarrow>
    sorted_wrt (<) (map fst (bt_insert k v m)) \<and> set (map fst (bt_insert k v m)) = insert k (set (map fst m))"
  by (induction k v m rule: bt_insert.induct) auto

lemma bt_insert_map_of: "sorted_wrt (<) (map fst m) \<Longrightarrow> map_of (bt_insert k v m) = (map_of m)(k \<mapsto> v)"
proof (induction k v m rule: bt_insert.induct)
  case (2 k v k' v' m)
  then show ?case by (cases k k' rule: linorder_cases) (auto simp: fun_eq_iff)
qed auto

lemma gathered_fold:
  assumes "sorted_wrt (<) (map fst m)"
  shows "sorted_wrt (<) (map fst (fold (\<lambda>e. bt_insert (H (snd (snd e))) e) es m))"
    "map_of (fold (\<lambda>e. bt_insert (H (snd (snd e))) e) es m) = map_of m ++ map_of (rev (map (\<lambda>e. (H (snd (snd e)), e)) es))"
  using assms
proof (induction es arbitrary: m)
  case (Cons e es)
  { case 1
    then show ?case using Cons.IH(1) [of "bt_insert (H (snd (snd e))) e m"] bt_insert_sorted [OF 1, of "H (snd (snd e))" e] by simp }
  { case 2
    then show ?case
      using Cons.IH(2) [of "bt_insert (H (snd (snd e))) e m"] bt_insert_sorted [OF 2, of "H (snd (snd e))" e] bt_insert_map_of [OF 2, of "H (snd (snd e))" e]
      by (simp add: map_add_def fun_eq_iff split: option.splits) }
qed auto

lemma gathered_sorted: "sorted_wrt (<) (map fst (gathered H es))"
  unfolding gathered_def by (rule gathered_fold(1)) simp

lemma gathered_map_of: "map_of (gathered H es) = map_of (rev (map (\<lambda>e. (H (snd (snd e)), e)) es))"
  using gathered_fold(2) [of "[]" H es] by (simp add: gathered_def)

lemma each_slot_gather:
  assumes "list_all (slot_ok v2) cs" and "\<forall>e\<in>set (live_entries v2 cs). utf8_valid (snd (snd e)) \<and> hf (snd (snd e)) = Inr (H (snd (snd e)))"
  shows "\<exists>p. each_slot (\<lambda>c p m. if utf8_valid (c_name v2 c)
        then rmap (\<lambda>h. (True, bt_insert h (c_ino c, c_type v2 c, c_name v2 c) m)) (hf (c_name v2 c)) else Inl Panic) q cs m =
      Inr (True, fold (\<lambda>e. bt_insert (H (snd (snd e))) e) (live_entries v2 cs) m, p, False)"
  using assms
proof (induction cs arbitrary: q m)
  case (Cons c cs)
  show ?case
  proof (cases "c_ino c = 0")
    case True
    with Cons show ?thesis by simp
  next
    case False
    with Cons.prems have "utf8_valid (c_name v2 c)" "hf (c_name v2 c) = Inr (H (c_name v2 c))" by simp_all
    with False Cons.prems Cons.IH [of "q + length c" "bt_insert (H (c_name v2 c)) (c_ino c, c_type v2 c, c_name v2 c) m"]
    show ?thesis by simp
  qed
qed simp

lemma gather_entries_ok:
  assumes "slots_of v2 cs b"
    and "\<forall>e\<in>set (live_entries v2 cs @ [en]). utf8_valid (snd (snd e)) \<and> hf (snd (snd e)) = Inr (H (snd (snd e)))"
  shows "gather_entries hf v2 b en = Inr (gathered H (live_entries v2 cs @ [en]))"
proof -
  have b: "b = [] @ concat cs" "list_all (slot_ok v2) cs" using assms(1) by (simp_all add: slots_of_def)
  let ?f = "\<lambda>item pos m. rbind (case item of Inl e \<Rightarrow> Inl (Fs e) | Inr en \<Rightarrow> Inr en) (\<lambda>en.
         rbind (get_inode_no en) (\<lambda>ino.
         rbind (get_file_type en) (\<lambda>ft.
         rbind (get_name en) (\<lambda>name.
         rmap (\<lambda>h. (True, bt_insert h (ino, ft, name) m)) (hf name)))))"
  let ?g = "\<lambda>c p m. if utf8_valid (c_name v2 c)
        then rmap (\<lambda>h. (True, bt_insert h (c_ino c, c_type v2 c, c_name v2 c) m)) (hf (c_name v2 c)) else Inl Panic"
  have "?f (Inr (de_new v2 (c @ r))) p s = ?g c p s" if "c \<in> set cs" "c_ino c \<noteq> 0" for c r p s
    using that(1) b(2) by (auto simp: list_all_iff slot_reads)
  from dir_each_slots [where f = ?f and g = ?g, OF b(2) this, of "[]" "[]"] each_slot_gather [OF b(2), of hf H 0 "[]"] assms(2)
  obtain p where "dir_each v2 b ?f 0 False [] = Inr (True, fold (\<lambda>e. bt_insert (H (snd (snd e))) e) (live_entries v2 cs) [], p, False)"
    by (auto simp: b(1))
  then show ?thesis using assms(2) by (simp add: gather_entries_def gathered_def)
qed

lemma last_key_wins:
  "map_of (rev (map (\<lambda>e. (key e, e)) (a @ y # d))) (key y) \<in> Some ` insert y (set d)"
  by (induction d rule: rev_induct) auto

lemma overwritten:
  assumes "xs = a @ y # d" and "key x = key y" and "distinct xs" and "x \<in> set a"
  shows "map_of (rev (map (\<lambda>e. (key e, e)) xs)) (key x) \<noteq> Some x"
proof
  assume "map_of (rev (map (\<lambda>e. (key e, e)) xs)) (key x) = Some x"
  then have "Some x \<in> Some ` insert y (set d)" using last_key_wins [of key a y d] by (simp only: assms(1,2))
  with assms(1,3,4) show False by auto
qed

text \<open>C36: Gathering the entries of a leaf for a split keeps of all the names with the same hash only the
  one that comes last, the new name after all in the block: the others are gone from the directory.\<close>

theorem gather_keeps_last_of_hash:
  assumes "slots_of v2 cs b"
    and "\<forall>e\<in>set (live_entries v2 cs @ [en]). utf8_valid (snd (snd e)) \<and> hf (snd (snd e)) = Inr (H (snd (snd e)))"
    and "es = live_entries v2 cs @ [en]" and "i < length es" and "j < length es" and "i < j"
    and "H (snd (snd (es ! i))) = H (snd (snd (es ! j)))" and "distinct es"
  shows "\<exists>m. gather_entries hf v2 b en = Inr m \<and> es ! i \<notin> snd ` set m"
proof -
  have m: "gather_entries hf v2 b en = Inr (gathered H es)" using gather_entries_ok [OF assms(1,2)] assms(3) by simp
  let ?key = "\<lambda>e :: split_en. H (snd (snd e))"
  have "es ! i \<notin> snd ` set (gathered H es)"
  proof
    assume "es ! i \<in> snd ` set (gathered H es)"
    then obtain h where h: "(h, es ! i) \<in> set (gathered H es)" by auto
    have "distinct (map fst (gathered H es))"
      using gathered_sorted [of H es] by (simp add: strict_sorted_iff)
    from map_of_is_SomeI [OF this h] have mo: "map_of (rev (map (\<lambda>e. (?key e, e)) es)) h = Some (es ! i)"
      by (simp only: gathered_map_of)
    then have "(h, es ! i) \<in> set (rev (map (\<lambda>e. (?key e, e)) es))" by (rule map_of_SomeD)
    then have "h = ?key (es ! i)" by auto
    moreover have "es ! i \<in> set (take j es)" using assms(4-6) by (auto simp: in_set_conv_nth)
    moreover have "es = take j es @ es ! j # drop (Suc j) es" using assms(5) by (simp add: id_take_nth_drop)
    ultimately show False using overwritten [of es "take j es" "es ! j" "drop (Suc j) es" ?key "es ! i"] assms(7,8) mo by blast
  qed
  with m show ?thesis by blast
qed

section \<open>Dividing the entries\<close>

abbreviation en_bytes :: "32 word \<times> split_en \<Rightarrow> nat" where
  "en_bytes e \<equiv> length (snd (snd (snd e))) + 8"

lemma split_point_Inr:
  assumes "split_point blk idx used ph es = Inr (h, k)" and "used \<le> blk div 2" and "distinct (map fst es)"
    and "ph \<notin> fst ` set es \<or> ph = - 1"
  shows "\<exists>j<length es. k = idx + j \<and> h = fst (es ! j) \<and> used + sum_list (map en_bytes (take j es)) \<le> blk div 2 \<and>
    blk div 2 < used + sum_list (map en_bytes (take (Suc j) es))"
  using assms
proof (induction es arbitrary: idx used ph)
  case (Cons e es)
  obtain h0 ino ty name where e: "e = (h0, ino, ty, name)" by (cases e)
  have max: "unat (- 1 :: 32 word) = 4294967295" by (simp add: unsigned_minus_1_eq_mask mask_eq_exp_minus_1)
  show ?case
  proof (cases "blk div 2 < used + (length name + 8)")
    case True
    then have "h = h0" "k = idx"
      using Cons.prems(1,4) by (auto simp: e rmap_Inr_iff add_chk_Inr_iff max split: if_splits)
    with True Cons.prems(2) show ?thesis by (intro exI [of _ 0]) (simp add: e)
  next
    case False
    with Cons.prems(1) have "split_point blk (idx + 1) (used + (length name + 8)) h0 es = Inr (h, k)" by (simp add: e)
    from Cons.IH [OF this] False Cons.prems(3) obtain j where
      "j < length es" "k = idx + 1 + j" "h = fst (es ! j)"
      "used + (length name + 8) + sum_list (map en_bytes (take j es)) \<le> blk div 2"
      "blk div 2 < used + (length name + 8) + sum_list (map en_bytes (take (Suc j) es))" by (auto simp: e)
    then show ?thesis by (intro exI [of _ "Suc j"]) (simp add: e)
  qed
qed simp

lemma bt_insert_mset: "k \<notin> fst ` set m \<Longrightarrow> mset (bt_insert k v m) = add_mset (k, v) (mset m)"
  by (induction k v m rule: bt_insert.induct) auto

lemma bt_insert_keys: "fst ` set (bt_insert k v m) = insert k (fst ` set m)"
  by (induction k v m rule: bt_insert.induct) auto

lemma gathered_mset:
  assumes "distinct (map (\<lambda>e. H (snd (snd e))) es)"
  shows "mset (gathered H es) = mset (map (\<lambda>e. (H (snd (snd e)), e)) es)"
proof -
  have "mset (fold (\<lambda>e. bt_insert (H (snd (snd e))) e) es m) = mset (map (\<lambda>e. (H (snd (snd e)), e)) es) + mset m"
    if "fst ` set m \<inter> (\<lambda>e. H (snd (snd e))) ` set es = {}" for m
    using assms that
  proof (induction es arbitrary: m)
    case (Cons e es)
    have "fst ` set (bt_insert (H (snd (snd e))) e m) \<inter> (\<lambda>e. H (snd (snd e))) ` set es = {}"
      using Cons.prems by (auto simp: bt_insert_keys)
    from Cons.IH [OF _ this] Cons.prems show ?case by (auto simp: bt_insert_mset)
  qed simp
  from this [of "[]"] show ?thesis by (simp add: gathered_def)
qed

section \<open>Filling a cleared block\<close>

definition stored_en :: "bool \<Rightarrow> split_en \<Rightarrow> split_en" where
  "stored_en v2 e = (case e of (ino, ty, name) \<Rightarrow> (ino, if v2 then ty else None, name))"

definition en_valid :: "bool \<Rightarrow> split_en \<Rightarrow> bool" where
  "en_valid v2 e \<longleftrightarrow> (case e of (ino, ty, name) \<Rightarrow> ino \<noteq> 0 \<and> name_fits v2 ty name \<and> ty \<noteq> Some DeCheckSum)"

lemma de_from_into: "ty \<noteq> Some DeCheckSum \<Longrightarrow> map_option de_from_file_type (map_option de_into_file_type ty) = ty"
  by (cases ty) (auto simp: de_from_file_type_def de_into_file_type_def split: ext4_de.splits)

lemma c_nlen_name: "slot_ok v2 c \<Longrightarrow> c_nlen v2 c = length (c_name v2 c)"
  by (auto simp: slot_ok_def c_name_def min_def)

lemma insert_slots_skip:
  "\<forall>x\<in>set xs. \<not> has_free_room v2 (length entry) x \<and> \<not> has_spare_room v2 (length entry) x \<Longrightarrow>
    insert_slots v2 entry de child (xs @ cs) = map_option ((@) xs) (insert_slots v2 entry de child cs)"
  by (induction xs; cases "insert_slots v2 entry de child cs") auto

definition tight :: "bool \<Rightarrow> bytes \<Rightarrow> bool" where
  "tight v2 c \<longleftrightarrow> c_ino c \<noteq> 0 \<and> length c = entry_size (c_nlen v2 c)"

lemma insert_entry_slots:
  assumes "list_all (slot_ok v2) cs" and "name_fits v2 ty name" and "ty \<noteq> Some DeCheckSum"
  shows "insert_entry v2 name (map_option de_into_file_type ty) ino (concat cs) = Inr
    (case insert_slots v2 name ty ino cs of None \<Rightarrow> (False, concat cs) | Some cs' \<Rightarrow> (True, concat cs'))"
  using insert_loop_slots [OF assms(1,2), of ino "[]" None]
  by (simp add: insert_entry_def de_from_into [OF assms(3)] cong: option.case_cong)

lemma put_loop_stores:
  assumes "list_all (slot_ok v2) (xs @ [c])" and "\<forall>x\<in>set xs. tight v2 x" and "c_ino c \<noteq> 0"
    and "entry_size (c_nlen v2 c) + sum_list (map (\<lambda>e. entry_size (length (snd (snd e)))) es) \<le> length c"
    and "list_all (en_valid v2) es"
  shows "\<exists>cs. for_each es (\<lambda>(ino, ty, name) b. rmap snd (insert_entry v2 name (map_option de_into_file_type ty) ino b)) (concat (xs @ [c])) =
      Inr (concat cs) \<and> list_all (slot_ok v2) cs \<and> length (concat cs) = length (concat (xs @ [c])) \<and>
    live_entries v2 cs = live_entries v2 (xs @ [c]) @ map (stored_en v2) es"
  using assms
proof (induction es arbitrary: xs c)
  case Nil
  then show ?case by (intro exI [of _ "xs @ [c]"]) simp
next
  case (Cons e es)
  obtain ino ty name where e: "e = (ino, ty, name)" by (cases e)
  have v: "ino \<noteq> 0" "name_fits v2 ty name" "ty \<noteq> Some DeCheckSum" using Cons.prems(5) by (auto simp: e en_valid_def)
  have ok: "slot_ok v2 c" using Cons.prems(1) by simp
  have room: "has_spare_room v2 (length name) c" "\<not> has_free_room v2 (length name) c"
    using Cons.prems(3,4) by (simp_all add: has_spare_room_def has_free_room_def e)
  note sp = spare_room [OF ok room(1)]
  note S = shortened_slot [OF ok sp(1)] and R = remainder_length [OF ok sp(1)]
  note F = filled_slot [OF sp(2) v(2) R(2), of ino]
  have "0 < entry_size n" for n using entry_size_bounds(1) [of n] by linarith
  then have "\<forall>x\<in>set xs. \<not> has_free_room v2 (length name) x \<and> \<not> has_spare_room v2 (length name) x"
    using Cons.prems(2) by (auto simp: tight_def has_free_room_def has_spare_room_def)
  from insert_slots_skip [OF this, of ty ino "[c]"] room
  have ins: "insert_slots v2 name ty ino (xs @ [c]) = Some ((xs @ [shortened v2 c]) @ [filled v2 name ty ino (remainder v2 c)])"
    by simp
  let ?xs = "xs @ [shortened v2 c]" and ?c = "filled v2 name ty ino (remainder v2 c)"
  have oks: "list_all (slot_ok v2) (?xs @ [?c])" using Cons.prems(1) S(1) F(1) by simp
  have nl: "c_nlen v2 (shortened v2 c) = c_nlen v2 c" "c_nlen v2 ?c = length name"
    using c_nlen_name [OF S(1)] c_nlen_name [OF ok] c_nlen_name [OF F(1)] S(4) F(4) by simp_all
  have t: "\<forall>x\<in>set ?xs. tight v2 x" using Cons.prems(2,3) S nl(1) by (auto simp: tight_def)
  have "entry_size (c_nlen v2 ?c) + sum_list (map (\<lambda>e. entry_size (length (snd (snd e)))) es) \<le> length ?c"
    unfolding nl(2) F(2) R(1) using Cons.prems(4) by (simp add: e)
  from Cons.IH [OF oks t _ this] F(3) v(1) Cons.prems(5) obtain cs where
    cs: "for_each es (\<lambda>(ino, ty, name) b. rmap snd (insert_entry v2 name (map_option de_into_file_type ty) ino b)) (concat (?xs @ [?c])) =
      Inr (concat cs)" "list_all (slot_ok v2) cs" "length (concat cs) = length (concat (?xs @ [?c]))"
      "live_entries v2 cs = live_entries v2 (?xs @ [?c]) @ map (stored_en v2) es" by auto
  have "insert_entry v2 name (map_option de_into_file_type ty) ino (concat (xs @ [c])) = Inr (True, concat (?xs @ [?c]))"
    using insert_entry_slots [OF Cons.prems(1) v(2,3), of ino] ins by simp
  then have "for_each (e # es) (\<lambda>(ino, ty, name) b. rmap snd (insert_entry v2 name (map_option de_into_file_type ty) ino b)) (concat (xs @ [c])) =
      Inr (concat cs)" using cs(1) by (simp add: e)
  moreover have "length (concat cs) = length (concat (xs @ [c]))"
    unfolding cs(3) using S(2) F(2) R(1) sp(1) by simp
  moreover have "live_entries v2 cs = live_entries v2 (xs @ [c]) @ map (stored_en v2) (e # es)"
    unfolding cs(4) using S(3,4,5) F(3,4,5) Cons.prems(3) v(1) by (simp add: e stored_en_def)
  ultimately show ?case using cs(2) by blast
qed

lemma dir_clear_slot:
  assumes "8 \<le> length b" and "length b < 65536" and "c_nlen v2 b + 8 \<le> length b"
  shows "\<exists>c. dir_clear b = Inr c \<and> slot_ok v2 c \<and> length c = length b \<and> c_ino c = 0 \<and> c_type v2 c = c_type v2 b"
proof -
  obtain b0 b1 b2 b3 b4 b5 b6 b7 t where b: "b = b0 # b1 # b2 # b3 # b4 # b5 # b6 # b7 # t"
    using assms(1) by (rule list8_cases)
  let ?c = "[0, 0, 0, 0] @ to_le16 (of_nat (length b)) @ [b6, b7] @ t"
  have "dir_clear b = Inr ?c"
    by (simp add: dir_clear_def write_u32_def write_u16_def splice_def to_le32_def to_le16_def b)
  moreover have "c_len ?c = length b" using le16_of_nat [OF assms(2)] by (simp add: c_len_def to_le16_def)
  moreover have "c_nlen v2 ?c = c_nlen v2 b" "c_type v2 ?c = c_type v2 b"
    by (simp_all add: c_nlen_def c_type_def to_le16_def b)
  moreover have "length ?c = length b" "c_ino ?c = 0" by (simp_all add: b c_ino_def le32_def)
  ultimately show ?thesis using assms(1,3) by (intro exI [of _ ?c]) (simp add: slot_ok_def)
qed

lemma put_entries_stores:
  assumes "8 \<le> length b" and "length b < 65536" and "c_nlen v2 b + 8 \<le> length b" and "c_type v2 b \<noteq> Some DeCheckSum"
    and "list_all (en_valid v2) es" and "sum_list (map (\<lambda>e. entry_size (length (snd (snd e)))) es) \<le> length b"
  shows "\<exists>cs b'. put_entries v2 es b = Inr b' \<and> slots_of v2 cs b' \<and> length b' = length b \<and>
    live_entries v2 cs = map (stored_en v2) es"
proof -
  obtain c where c: "dir_clear b = Inr c" "slot_ok v2 c" "length c = length b" "c_ino c = 0" "c_type v2 c = c_type v2 b"
    using dir_clear_slot [OF assms(1-3)] by blast
  show ?thesis
  proof (cases es)
    case Nil
    then show ?thesis using c by (intro exI [of _ "[c]"] exI [of _ c]) (simp add: put_entries_def slots_of_def)
  next
    case (Cons e es')
    obtain ino ty name where e: "e = (ino, ty, name)" by (cases e)
    have v: "ino \<noteq> 0" "name_fits v2 ty name" "ty \<noteq> Some DeCheckSum" using assms(5) by (auto simp: Cons e en_valid_def)
    have "entry_size (length name) \<le> length c" using assms(6) c(3) by (simp add: Cons e)
    with c(4,5) assms(4) have free: "has_free_room v2 (length name) c" by (simp add: has_free_room_def)
    have "8 + length name \<le> length c" using entry_size_bounds(1) [of "length name"] \<open>entry_size _ \<le> _\<close> by simp
    note F = filled_slot [OF this v(2), of ino] c(2)
    have cl: "c_len c = length c" using c(2) by (simp add: slot_ok_def)
    let ?c = "filled v2 name ty ino c"
    have nl: "c_nlen v2 ?c = length name" using c_nlen_name [OF F(1) [OF cl]] F(4) [OF cl] by simp
    have "entry_size (c_nlen v2 ?c) + sum_list (map (\<lambda>e. entry_size (length (snd (snd e)))) es') \<le> length ?c"
      unfolding nl using F(2) [OF cl] assms(6) c(3) by (simp add: Cons e)
    from put_loop_stores [of v2 "[]" ?c es', OF _ _ _ this] F(1,3) [OF cl] v(1) assms(5) obtain cs where
      cs: "for_each es' (\<lambda>(ino, ty, name) b. rmap snd (insert_entry v2 name (map_option de_into_file_type ty) ino b)) ?c =
        Inr (concat cs)" "list_all (slot_ok v2) cs" "length (concat cs) = length ?c"
        "live_entries v2 cs = live_entries v2 [?c] @ map (stored_en v2) es'" by (auto simp: Cons)
    have "insert_entry v2 name (map_option de_into_file_type ty) ino c = Inr (True, ?c)"
      using insert_entry_slots [of v2 "[c]", OF _ v(2,3), of ino] c(2) free by simp
    then have "put_entries v2 es b = Inr (concat cs)" using c(1) cs(1) by (simp add: put_entries_def Cons e)
    moreover have "live_entries v2 cs = map (stored_en v2) es"
      using cs(4) F(3-5) [OF cl] v(1) by (simp add: Cons e stored_en_def)
    moreover have "length (concat cs) = length b" using cs(3) F(2) [OF cl] c(3) by simp
    ultimately show ?thesis using cs(2) by (intro exI [of _ cs] exI [of _ "concat cs"]) (simp add: slots_of_def)
  qed
qed

section \<open>A split loses nothing\<close>

lemma entry_size_used: "0 < n \<Longrightarrow> 3 * entry_size n \<le> 4 * (n + 8)"
  using entry_size_bounds(2) [of n] by simp

lemma live_entries_size:
  assumes "list_all (slot_ok v2) cs" and "list_all (\<lambda>c. 4 dvd length c) cs"
  shows "sum_list (map (\<lambda>e. entry_size (length (snd (snd e)))) (live_entries v2 cs)) \<le> length (concat cs)"
  using assms
proof (induction cs)
  case (Cons c cs)
  have ok: "slot_ok v2 c" "4 dvd length c" using Cons.prems by simp_all
  have "entry_size (length (c_name v2 c)) \<le> length c"
    using ok(2) ok(1) c_nlen_name [OF ok(1)] by (auto simp: slot_ok_def entry_size_def elim!: dvdE)
  with Cons show ?case by auto
qed simp

text \<open>What a split works on: the entries of the leaf and the new one, each with its hash, in the
  order of the hashes.\<close>

definition gathered_ok :: "(bytes \<Rightarrow> 32 word) \<Rightarrow> bool \<Rightarrow> split_en list \<Rightarrow> (32 word \<times> split_en) list \<Rightarrow> bool" where
  "gathered_ok H v2 xs es \<longleftrightarrow> sorted_wrt (<) (map fst es) \<and> mset (map snd es) = mset xs \<and>
     (\<forall>e\<in>set es. en_valid v2 (snd e) \<and> 0 < length (snd (snd (snd e))) \<and> length (snd (snd (snd e))) \<le> 255 \<and>
        fst e = H (snd (snd (snd e))))"

abbreviation en_size :: "split_en \<Rightarrow> nat" where
  "en_size e \<equiv> entry_size (length (snd (snd e)))"

lemma gathered_entries:
  assumes "\<forall>e\<in>set xs. en_valid v2 e \<and> 0 < length (snd (snd e)) \<and> length (snd (snd e)) \<le> 255"
    and "distinct (map (\<lambda>e. H (snd (snd e))) xs)"
  shows "gathered_ok H v2 xs (gathered H xs)"
proof -
  let ?es = "gathered H xs"
  have ms: "mset ?es = mset (map (\<lambda>e. (H (snd (snd e)), e)) xs)" by (rule gathered_mset [OF assms(2)])
  then have st: "set ?es = (\<lambda>e. (H (snd (snd e)), e)) ` set xs"
    using mset_eq_setD [OF ms] by (simp only: list.set_map)
  have "mset (map snd ?es) = mset xs"
    using arg_cong [OF ms, of "image_mset snd"] by (simp only: mset_map [symmetric] map_map comp_def snd_conv list.map_ident)
  moreover have "en_valid v2 (snd e) \<and> 0 < length (snd (snd (snd e))) \<and> length (snd (snd (snd e))) \<le> 255 \<and> fst e = H (snd (snd (snd e)))"
    if "e \<in> set ?es" for e
  proof -
    from that st obtain x where x: "x \<in> set xs" "e = (H (snd (snd x)), x)" by blast
    from bspec [OF assms(1) x(1)] show ?thesis by (simp add: x(2))
  qed
  ultimately show ?thesis using gathered_sorted [of H xs] by (simp add: gathered_ok_def)
qed

lemma en_bytes_sizes:
  assumes "\<forall>e\<in>set es. 0 < length (snd (snd (snd e)))"
  shows "sum_list (map en_bytes es) \<le> sum_list (map en_size (map snd es))"
    and "3 * sum_list (map en_size (map snd es)) \<le> 4 * sum_list (map en_bytes es)"
proof -
  have "en_bytes e \<le> en_size (snd e)" for e by (simp add: entry_size_bounds)
  then show "sum_list (map en_bytes es) \<le> sum_list (map en_size (map snd es))"
    by (simp add: sum_list_mono comp_def)
  show "3 * sum_list (map en_size (map snd es)) \<le> 4 * sum_list (map en_bytes es)"
    using assms
  proof (induction es)
    case (Cons e es)
    with entry_size_used [of "length (snd (snd (snd e)))"] show ?case by simp
  qed simp
qed

text \<open>Both halves fit a block: the first stops before half of the block is used, and the second is at
  most what a full leaf and one more entry leave.\<close>

lemma split_halves_fit:
  assumes "gathered_ok H v2 xs es" and "sum_list (map en_size xs) \<le> n + 264" and "2048 \<le> n" and "k < length es"
    and "sum_list (map en_bytes (take k es)) \<le> n div 2" and "n div 2 < sum_list (map en_bytes (take (Suc k) es))"
  shows "sum_list (map en_size (map snd (take k es))) \<le> n" and "sum_list (map en_size (map snd (drop k es))) \<le> n"
proof -
  have val: "0 < length (snd (snd (snd e))) \<and> length (snd (snd (snd e))) \<le> 255" if "e \<in> set es" for e
    using assms(1) that by (auto simp: gathered_ok_def)
  have "\<forall>e\<in>set (take k es). 0 < length (snd (snd (snd e)))" using val by (blast dest: in_set_takeD)
  note sz = en_bytes_sizes [OF this]
  show "sum_list (map en_size (map snd (take k es))) \<le> n" using sz(2) assms(5) by simp
  have "mset (map snd es) = mset xs" using assms(1) by (simp add: gathered_ok_def)
  from arg_cong [OF this, of "\<lambda>m. sum_mset (image_mset en_size m)"]
  have "sum_list (map en_size (map snd es)) = sum_list (map en_size xs)"
    by (simp only: mset_map [symmetric] sum_mset_sum_list)
  moreover have "sum_list (map en_size (map snd es)) =
      sum_list (map en_size (map snd (take k es))) + sum_list (map en_size (map snd (drop k es)))"
    by (simp only: map_append [symmetric] sum_list_append [symmetric] append_take_drop_id)
  moreover have "sum_list (map en_bytes (take (Suc k) es)) = sum_list (map en_bytes (take k es)) + en_bytes (es ! k)"
    using assms(4) by (simp add: take_Suc_conv_app_nth)
  moreover have "en_bytes (es ! k) \<le> 263" using val [of "es ! k"] assms(4) by simp
  ultimately show "sum_list (map en_size (map snd (drop k es))) \<le> n" using assms(2,3,6) sz(1) by linarith
qed

lemma gathered_size:
  assumes "list_all (slot_ok v2) cs" and "list_all (\<lambda>c. 4 dvd length c) cs" and "length (snd (snd en)) \<le> 255"
  shows "sum_list (map en_size (live_entries v2 cs @ [en])) \<le> length (concat cs) + 264"
proof -
  have "en_size en \<le> 264" using assms(3) div_le_mono [of "11 + length (snd (snd en))" 266 4] by (simp add: entry_size_def)
  with live_entries_size [OF assms(1,2)] show ?thesis by simp
qed

lemma gathered_sides:
  assumes "gathered_ok H v2 xs es" and "k < length es"
  shows "\<forall>e\<in>set (take k es). H (snd (snd (snd e))) < fst (es ! k)" and "\<forall>e\<in>set (drop k es). fst (es ! k) \<le> H (snd (snd (snd e)))"
proof -
  have H: "H (snd (snd (snd e))) = fst e" if "e \<in> set es" for e using assms(1) that by (simp add: gathered_ok_def)
  have "sorted_wrt (<) (map fst es)" using assms(1) by (simp add: gathered_ok_def)
  then have srt: "fst (es ! i) < fst (es ! j)" if "i < j" "j < length es" for i j
    using that by (simp add: sorted_wrt_iff_nth_less)
  have "fst e < fst (es ! k)" if "e \<in> set (take k es)" for e
    using that srt assms(2) by (auto simp: in_set_conv_nth)
  then show "\<forall>e\<in>set (take k es). H (snd (snd (snd e))) < fst (es ! k)" using H by (metis in_set_takeD)
  have "fst (es ! k) \<le> fst (es ! (k + i))" if "k + i < length es" for i
    using srt [of k "k + i"] that by (cases i) (auto intro: less_imp_le)
  then have "fst (es ! k) \<le> fst e" if "e \<in> set (drop k es)" for e
    using that assms(2) by (auto simp: in_set_conv_nth)
  then show "\<forall>e\<in>set (drop k es). fst (es ! k) \<le> H (snd (snd (snd e)))" using H by (metis in_set_dropD)
qed

lemma slots_first_fits:
  assumes "slots_of v2 cs b" and "8 \<le> length b"
  shows "c_nlen v2 b + 8 \<le> length b"
proof (cases cs)
  case (Cons c ds)
  then have c: "slot_ok v2 c" "8 \<le> length c" using assms(1) by (simp_all add: slots_of_def slot_ok_def)
  then have "c_nlen v2 b = c_nlen v2 c" using assms(1) by (simp add: slots_of_def Cons c_nlen_def nth_append)
  with c(1) assms(1) show ?thesis by (simp add: slots_of_def Cons slot_ok_def)
qed (use assms in \<open>simp add: slots_of_def\<close>)

lemma put_entries_fresh:
  assumes "8 \<le> n" and "n < 65536" and "list_all (en_valid v2) es" and "sum_list (map en_size es) \<le> n"
  shows "\<exists>cs b'. put_entries v2 es (replicate n 0) = Inr b' \<and> slots_of v2 cs b' \<and>
    live_entries v2 cs = map (stored_en v2) es"
proof -
  let ?b = "replicate n (0 :: byte)"
  have "c_nlen v2 ?b + 8 \<le> length ?b" "c_type v2 ?b \<noteq> Some DeCheckSum"
    using assms(1) by (auto simp: c_nlen_def c_type_def le16_def ext4_de_try_from_def)
  from put_entries_stores [OF _ _ this assms(3)] assms(1,2,4) show ?thesis by auto
qed

text \<open>C28: Splitting a full leaf loses nothing: when the names of the leaf and the new one have different
  hashes and a block has 2048 bytes or more, the two blocks written hold exactly the entries that were
  in the leaf and the new one, and the hash entered into the index separates the names of the one block
  from those of the other.\<close>

theorem split_keeps_entries:
  assumes "slots_of v2 cs b" and "list_all (\<lambda>c. 4 dvd length c) cs" and "2048 \<le> length b" and "length b < 65536"
    and "c_type v2 b \<noteq> Some DeCheckSum"
    and "\<forall>e\<in>set (live_entries v2 cs @ [en]). utf8_valid (snd (snd e)) \<and> hf (snd (snd e)) = Inr (H (snd (snd e))) \<and>
      en_valid v2 e \<and> 0 < length (snd (snd e)) \<and> length (snd (snd e)) \<le> 255"
    and "distinct (map (\<lambda>e. H (snd (snd e))) (live_entries v2 cs @ [en]))"
    and "gather_entries hf v2 b en = Inr es" and "split_point (length b) 0 0 (- 1) es = Inr (h, k)"
  shows "\<exists>cs1 cs2 b1 b2. put_entries v2 (map snd (take k es)) b = Inr b1 \<and> slots_of v2 cs1 b1 \<and>
    put_entries v2 (map snd (drop k es)) (replicate (length b) 0) = Inr b2 \<and> slots_of v2 cs2 b2 \<and>
    mset (live_entries v2 cs1) + mset (live_entries v2 cs2) = mset (map (stored_en v2) (live_entries v2 cs @ [en])) \<and>
    (\<forall>e\<in>set (live_entries v2 cs1). H (snd (snd e)) < h) \<and> (\<forall>e\<in>set (live_entries v2 cs2). h \<le> H (snd (snd e)))"
proof -
  let ?xs = "live_entries v2 cs @ [en]"
  have b: "b = concat cs" "list_all (slot_ok v2) cs" using assms(1) by (simp_all add: slots_of_def)
  have es: "es = gathered H ?xs" using gather_entries_ok [OF assms(1), of en hf H] assms(6,8) by auto
  have g: "gathered_ok H v2 ?xs es" unfolding es by (rule gathered_entries [OF _ assms(7)]) (use assms(6) in blast)
  then have "distinct (map fst es)" "list_all (en_valid v2) (map snd es)"
    by (auto simp: gathered_ok_def strict_sorted_iff list_all_iff)
  note es_ok = this
  obtain k: "k < length es" "h = fst (es ! k)" and used: "sum_list (map en_bytes (take k es)) \<le> length b div 2"
    "length b div 2 < sum_list (map en_bytes (take (Suc k) es))"
    using split_point_Inr [OF assms(9) _ es_ok(1)] by auto
  have "length (snd (snd en)) \<le> 255" using assms(6) by simp
  from split_halves_fit [OF g gathered_size [OF b(2) assms(2) this, folded b(1)] assms(3) k(1) used]
  have fit: "sum_list (map en_size (map snd (take k es))) \<le> length b" "sum_list (map en_size (map snd (drop k es))) \<le> length b" .
  have v: "list_all (en_valid v2) (map snd (take k es))" "list_all (en_valid v2) (map snd (drop k es))"
    using es_ok(2) by (auto simp: list_all_iff dest: in_set_takeD in_set_dropD)
  have l: "8 \<le> length b" using assms(3) by simp
  obtain cs1 b1 where p1: "put_entries v2 (map snd (take k es)) b = Inr b1" "slots_of v2 cs1 b1"
      "live_entries v2 cs1 = map (stored_en v2) (map snd (take k es))"
    using put_entries_stores [OF l assms(4) slots_first_fits [OF assms(1) l] assms(5) v(1) fit(1)] by blast
  obtain cs2 b2 where p2: "put_entries v2 (map snd (drop k es)) (replicate (length b) 0) = Inr b2" "slots_of v2 cs2 b2"
      "live_entries v2 cs2 = map (stored_en v2) (map snd (drop k es))"
    using put_entries_fresh [OF l assms(4) v(2) fit(2)] by blast
  have "mset (live_entries v2 cs1) + mset (live_entries v2 cs2) = mset (map (stored_en v2) (map snd (take k es @ drop k es)))"
    by (simp only: p1(3) p2(3) map_append mset_append)
  also have "\<dots> = image_mset (stored_en v2) (mset (map snd es))" by (simp only: append_take_drop_id mset_map)
  also have "\<dots> = mset (map (stored_en v2) ?xs)" using g by (simp only: gathered_ok_def mset_map)
  finally have m: "mset (live_entries v2 cs1) + mset (live_entries v2 cs2) = mset (map (stored_en v2) ?xs)" .
  have nm: "snd (snd (stored_en v2 e)) = snd (snd e)" for e by (simp add: stored_en_def split: prod.splits)
  have "\<forall>e\<in>set (live_entries v2 cs1). H (snd (snd e)) < h" "\<forall>e\<in>set (live_entries v2 cs2). h \<le> H (snd (snd e))"
    using gathered_sides [OF g k(1)] by (auto simp: p1(3) p2(3) nm k(2))
  with p1(1,2) p2(1,2) m show ?thesis by blast
qed

section \<open>Concrete inputs\<close>

definition demo_en :: "byte \<Rightarrow> nat \<Rightarrow> bytes" where
  "demo_en ch n = [1, 0, 0, 0, 0, 1, of_nat n, 1] @ replicate n ch @ replicate (248 - n) 0"

lemma demo_en_slot:
  assumes "n \<le> 248"
  shows "slot_ok True (demo_en ch n)" "length (demo_en ch n) = 256" "c_ino (demo_en ch n) = 1"
    "c_type True (demo_en ch n) = Some (de_from_file_type RegularFile)" "c_name True (demo_en ch n) = replicate n ch"
proof -
  have n: "unat (of_nat n :: byte) = n" using assms by (simp add: unat_of_nat take_bit_nat_eq_self)
  have nl: "c_nlen True (demo_en ch n) = n" using n by (simp add: c_nlen_def demo_en_def)
  show l: "length (demo_en ch n) = 256" using assms by (simp add: demo_en_def)
  show "slot_ok True (demo_en ch n)"
    unfolding slot_ok_def nl l using assms by (simp add: c_len_def demo_en_def le16_def)
  show "c_ino (demo_en ch n) = 1" by (simp add: c_ino_def demo_en_def le32_def)
  show "c_type True (demo_en ch n) = Some (de_from_file_type RegularFile)"
    by (simp add: c_type_def demo_en_def ext4_de_try_from_def de_from_file_type_def)
  show "c_name True (demo_en ch n) = replicate n ch" unfolding c_name_def nl by (simp add: demo_en_def)
qed

text \<open>A hash by length.\<close>

definition len_hash :: "bytes \<Rightarrow> 32 word" where "len_hash n = of_nat (length n)"

definition demo_name :: "byte \<Rightarrow> nat \<Rightarrow> split_en" where
  "demo_name ch n = (1, Some (de_from_file_type RegularFile), replicate n ch)"

lemma demo_en_live: "\<forall>(ch, n)\<in>set ns. n \<le> 248 \<Longrightarrow>
    slots_of True (map (\<lambda>(ch, n). demo_en ch n) ns) (concat (map (\<lambda>(ch, n). demo_en ch n) ns)) \<and>
    live_entries True (map (\<lambda>(ch, n). demo_en ch n) ns) = map (\<lambda>(ch, n). demo_name ch n) ns \<and>
    length (concat (map (\<lambda>(ch, n). demo_en ch n) ns)) = 256 * length ns"
  by (induction ns) (auto simp: slots_of_def demo_en_slot demo_name_def)

lemma gather_keeps_last_of_hash_witness:
  "\<exists>m. gather_entries (\<lambda>n. Inr (len_hash n)) True (demo_en 97 240 @ demo_en 98 240) (demo_name 99 240) = Inr m \<and>
    demo_name 97 240 \<notin> snd ` set m"
proof -
  let ?ns = "[(97, 240), (98, 240)]"
  have "slots_of True (map (\<lambda>(ch, n). demo_en ch n) ?ns) (concat (map (\<lambda>(ch, n). demo_en ch n) ?ns)) \<and>
    live_entries True (map (\<lambda>(ch, n). demo_en ch n) ?ns) = map (\<lambda>(ch, n). demo_name ch n) ?ns"
    using demo_en_live [of ?ns] by simp
  then have d: "slots_of True (map (\<lambda>(ch, n). demo_en ch n) ?ns) (demo_en 97 240 @ demo_en 98 240)"
    "live_entries True (map (\<lambda>(ch, n). demo_en ch n) ?ns) = [demo_name 97 240, demo_name 98 240]" by simp_all
  have "\<forall>e\<in>set ([demo_name 97 240, demo_name 98 240] @ [demo_name 99 240]).
      utf8_valid (snd (snd e)) \<and> Inr (len_hash (snd (snd e))) = Inr (len_hash (snd (snd e)))"
    by (simp add: demo_name_def utf8_valid_ascii)
  from gather_keeps_last_of_hash [OF d(1), unfolded d(2), OF this refl, of 0 1] show ?thesis
    by (simp add: demo_name_def len_hash_def)
qed

lemma split_keeps_entries_witness:
  "\<exists>es h k cs1 cs2 b1 b2.
    gather_entries (\<lambda>n. Inr (len_hash n)) True (concat (map (demo_en 97) [240..<248])) (demo_name 97 20) = Inr es \<and>
    split_point 2048 0 0 (- 1) es = Inr (h, k) \<and>
    put_entries True (map snd (take k es)) (concat (map (demo_en 97) [240..<248])) = Inr b1 \<and> slots_of True cs1 b1 \<and>
    put_entries True (map snd (drop k es)) (replicate 2048 0) = Inr b2 \<and> slots_of True cs2 b2 \<and>
    mset (live_entries True cs1) + mset (live_entries True cs2) = mset (map (demo_name 97) ([240..<248] @ [20]))"
proof -
  let ?ls = "[240..<248]"
  let ?b = "concat (map (demo_en 97) ?ls)"
  have "slots_of True (map (demo_en 97) ?ls) ?b \<and> live_entries True (map (demo_en 97) ?ls) = map (demo_name 97) ?ls \<and>
      length ?b = 256 * length ?ls"
    using demo_en_live [of "map (Pair 97) ?ls"] by (simp add: comp_def)
  then have d: "slots_of True (map (demo_en 97) ?ls) ?b" "live_entries True (map (demo_en 97) ?ls) = map (demo_name 97) ?ls"
    "length ?b = 2048" by simp_all
  have al: "list_all (\<lambda>c. 4 dvd length c) (map (demo_en 97) ?ls)" by (auto simp: list_all_iff demo_en_slot)
  have ct: "c_type True ?b \<noteq> Some DeCheckSum"
    by (simp add: upt_conv_Cons c_type_def demo_en_def ext4_de_try_from_def)
  let ?xs = "map (demo_name 97) ?ls @ [demo_name 97 20]"
  have v: "\<forall>e\<in>set ?xs. utf8_valid (snd (snd e)) \<and> Inr (len_hash (snd (snd e))) = Inr (len_hash (snd (snd e))) \<and>
      en_valid True e \<and> 0 < length (snd (snd e)) \<and> length (snd (snd e)) \<le> 255"
    by (auto simp: demo_name_def utf8_valid_ascii en_valid_def name_fits_def)
  have dist: "distinct (map (\<lambda>e. len_hash (snd (snd e))) ?xs)"
    by (simp add: upt_conv_Cons demo_name_def len_hash_def)
  have g: "gather_entries (\<lambda>n. Inr (len_hash n)) True ?b (demo_name 97 20) = Inr (gathered len_hash ?xs)"
    using gather_entries_ok [OF d(1), of "demo_name 97 20" "\<lambda>n. Inr (len_hash n)" len_hash] v unfolding d(2) by blast
  have "gathered len_hash ?xs = map (\<lambda>n. (of_nat n, demo_name 97 n)) (20 # ?ls)"
    by (simp add: upt_conv_Cons gathered_def demo_name_def len_hash_def)
  then have "split_point 2048 0 0 (- 1) (gathered len_hash ?xs) = Inr (243, 4)"
    by (simp add: upt_conv_Cons demo_name_def)
  from split_keeps_entries [OF d(1) al _ _ ct, unfolded d(2,3), OF _ _ v dist g this] g this show ?thesis
    by (simp add: stored_en_def demo_name_def comp_def) blast
qed

end
