(* ===== verification/Directory_Facts.thy ===== *)
theory Directory_Facts
  imports Directory Htree_Split
begin

text \<open>
  What directories do as a whole: a lookup in a linear directory searches all its blocks, an entry
  added to one is found again, and a listing leaves out the second entry of a block.
\<close>

section \<open>Listing\<close>

definition collect :: "bytes list fillfn" where
  "collect d pos s = (True, s @ [fst d])"

lemma dir_next_dead:
  assumes "list_all (slot_ok v2) ds" and "\<forall>c\<in>set ds. c_ino c = 0"
  shows "dir_next v2 (x @ concat ds @ y) (length x) False = dir_next v2 (x @ concat ds @ y) (length x + length (concat ds)) False"
  using assms
proof (induction ds arbitrary: x)
  case (Cons d ds)
  from Cons.IH [of "x @ d"] dir_next_slot [of v2 d x "concat ds @ y"] Cons.prems show ?case by (simp add: add.assoc)
qed simp

lemma fill_step_slot:
  assumes "slot_ok v2 c" and "utf8_valid (c_name v2 c)"
  shows "fill_step base collect (de_new v2 (c @ r)) (p, s) = Inr (True, p + length c, s @ [c_name v2 c])"
  using assms by (simp add: fill_step_def listed_def slot_reads collect_def)

lemma each_slot_collect:
  assumes "list_all (slot_ok v2) cs" and "\<forall>c\<in>set cs. c_ino c \<noteq> 0 \<longrightarrow> utf8_valid (c_name v2 c)"
  shows "\<exists>p' q'. each_slot (\<lambda>c pos (p, s). Inr (True, p + length c, s @ [c_name v2 c])) q cs (p, s) =
    Inr (True, (p', s @ map (\<lambda>e. snd (snd e)) (live_entries v2 cs)), q', False)"
  using assms
proof (induction cs arbitrary: q p s)
  case (Cons c cs)
  then show ?case using Cons.IH [of "q + length c" "p + length c" "s @ [c_name v2 c]"] by auto
qed simp

text \<open>C38: Listing a block of a linear directory leaves out the entry after the one it starts with: the search
  for the place to start takes that entry from the iterator before it stops. From the beginning of a
  directory, its second entry, \<open>..\<close>, is missing.\<close>

theorem listing_skips_second:
  assumes "slots_of v2 (d1 @ c1 # d2 @ c2 # cs) b" and "\<forall>c\<in>set (d1 @ d2). c_ino c = 0"
    and "c_ino c1 \<noteq> 0" and "c_ino c2 \<noteq> 0" and "\<forall>c\<in>set (c1 # cs). c_ino c \<noteq> 0 \<longrightarrow> utf8_valid (c_name v2 c)"
  shows "\<exists>p. linear_fill_block v2 b base 0 collect [] =
    Inr (True, p, c_name v2 c1 # map (\<lambda>e. snd (snd e)) (live_entries v2 cs))"
proof -
  let ?pre = "concat (d1 @ c1 # d2 @ [c2])"
  have oks: "list_all (slot_ok v2) d1" "slot_ok v2 c1" "list_all (slot_ok v2) d2" "slot_ok v2 c2" "list_all (slot_ok v2) cs"
    and b: "b = concat d1 @ c1 @ concat d2 @ c2 @ concat cs"
    using assms(1) by (simp_all add: slots_of_def)
  define en1 where "en1 = de_new v2 (c1 @ concat d2 @ c2 @ concat cs)"
  have n1: "dir_next v2 b 0 False = Inr (Some (Inr en1), length (concat d1) + length c1, False)"
    using dir_next_dead [OF oks(1), of "[]" "c1 @ concat d2 @ c2 @ concat cs"] dir_next_slot [OF oks(2), of "concat d1" "concat d2 @ c2 @ concat cs"]
      assms(2,3) by (simp add: b en1_def)
  have n2: "dir_next v2 b (length (concat d1) + length c1) False = Inr (Some (Inr (de_new v2 (c2 @ concat cs))), length ?pre, False)"
    using dir_next_dead [OF oks(3), of "concat d1 @ c1" "c2 @ concat cs"] dir_next_slot [OF oks(4), of "concat d1 @ c1 @ concat d2" "concat cs"]
      assms(2,4) by (simp add: b add.assoc)
  have len1: "get_entry_len en1 = Inr (length c1)" "0 < length c1"
    using slot_reads(2) [OF oks(2)] oks(2) by (auto simp: en1_def slot_ok_def)
  have seek: "seek_entry v2 b 0 = Inr ((length c1, Some en1), length ?pre, False)"
    unfolding seek_entry_def using len1
    by (simp add: dir_each.simps [of _ _ _ 0] n1 dir_each.simps [of _ _ _ "length (concat d1) + length c1"] n2 en_of_def)
  have step1: "fill_step base collect en1 (length c1, []) = Inr (True, length c1 + length c1, [c_name v2 c1])"
    unfolding en1_def using fill_step_slot [OF oks(2)] assms(3,5) by simp
  have g: "rbind (en_of (Inr (de_new v2 (c @ r)))) (\<lambda>en. fill_step base collect en st) =
      (case st of (p, s) \<Rightarrow> Inr (True, p + length c, s @ [c_name v2 c]))" if "c \<in> set cs" "c_ino c \<noteq> 0" for c r st
    using that oks(5) assms(5) fill_step_slot [of v2 c base r] by (auto simp: en_of_def list_all_iff split: prod.splits)
  from dir_each_slots [where f = "\<lambda>item pos st. rbind (en_of item) (\<lambda>en. fill_step base collect en st)"
      and g = "\<lambda>c pos (p, s). Inr (True, p + length c, s @ [c_name v2 c])", OF oks(5) g, of ?pre "(length c1 + length c1, [c_name v2 c1])"]
    each_slot_collect [OF oks(5), of "length ?pre" "length c1 + length c1" "[c_name v2 c1]"] assms(5)
  obtain p q where "dir_each v2 b (\<lambda>item pos st. rbind (en_of item) (\<lambda>en. fill_step base collect en st)) (length ?pre) False
      (length c1 + length c1, [c_name v2 c1]) = Inr (True, (p, [c_name v2 c1] @ map (\<lambda>e. snd (snd e)) (live_entries v2 cs)), q, False)"
    by (auto simp: b)
  then show ?thesis by (simp add: linear_fill_block_def seek step1)
qed

section \<open>Reading a directory\<close>

text \<open>More blocks in the cache do not change what a path points to.\<close>

lemma en_get_mono:
  assumes "\<forall>x b. blocks fs x = Some b \<longrightarrow> blocks fs' x = Some b" and "en_get p at i fs = Inr y"
  shows "en_get p at i fs' = Inr y"
  using assms by (auto simp: en_get_def en_read_def held_def rbind_Inr_iff split: if_splits)

lemma get_leaf_mono:
  assumes "\<forall>x b. blocks fs x = Some b \<longrightarrow> blocks fs' x = Some b" and "get_leaf p fs = Inr y"
  shows "get_leaf p fs' = Inr y"
proof (cases "p_cache p")
  case None
  let ?at = "length (p_leafs p)"
  from assms(2) None obtain i where i: "en_idx p ?at = Inr i" by (cases "en_idx p ?at") (simp_all add: get_leaf_def)
  show ?thesis
  proof (cases i)
    case None
    with assms(2) \<open>p_cache p = None\<close> i show ?thesis by (simp add: get_leaf_def opt_get_def)
  next
    case (Some j)
    with assms(2) None i obtain x where x: "en_get p ?at j fs = Inr x"
      by (cases "en_get p ?at j fs") (simp_all add: get_leaf_def opt_get_def)
    from en_get_mono [OF assms(1) x] x assms(2) None i Some show ?thesis by (simp add: get_leaf_def opt_get_def)
  qed
next
  case (Some l)
  moreover from this assms(2) have "y = Some l" by (simp add: get_leaf_def)
  ultimately show ?thesis by (simp add: get_leaf_def)
qed

lemma get_block_mono:
  assumes "fs_view fs lba = Some b"
  obtains fs' where "fs_get_block lba fs = Inr (b, fs')" "fs_view fs' = fs_view fs"
    "\<forall>x c. blocks fs x = Some c \<longrightarrow> blocks fs' x = Some c"
proof -
  obtain fs' where fs': "fs_get_block lba fs = Inr (b, fs')" "fs_view fs' = fs_view fs" "blocks fs' lba = Some b"
    "\<And>l. l \<noteq> lba \<Longrightarrow> blocks fs' l = blocks fs l" using fs_get_block_view [OF assms] by blast
  have "blocks fs' x = Some c" if "blocks fs x = Some c" for x c
    using that fs'(3,4) assms by (cases "x = lba") (auto simp: fs_view_def)
  with fs'(1,2) that show thesis by blast
qed

lemma cursor_on_mono:
  assumes "cursor_on t cu fs" and "fs_view fs' = fs_view fs" and "\<forall>x b. blocks fs x = Some b \<longrightarrow> blocks fs' x = Some b"
  shows "cursor_on t cu fs'"
  using assms get_leaf_mono [OF assms(3)] by (fastforce simp: cursor_on_def)

lemma cursor_on_current:
  assumes "cursor_on t cu fs" and "tree_wf t (fs_view fs)" and "cur_current (cu_fba cu) (cu_path cu) fs = Inr o'"
    and "fs_view fs' = fs_view fs" and "\<forall>x b. blocks fs x = Some b \<longrightarrow> blocks fs' x = Some b"
  shows "cur_current (cu_fba cu) (cu_path cu) fs' = Inr o'"
proof -
  from assms(1) obtain l where "get_leaf (cu_path cu) fs = Inr (Some l)" by (auto simp: cursor_on_def)
  with get_leaf_mono [OF assms(5) this] assms(3) show ?thesis by (simp add: cur_current_def)
qed

text \<open>The cached leaf of an inode is one of its extents.\<close>

definition tcache_ok :: "extent_tree \<Rightarrow> (nat \<Rightarrow> bytes option) \<Rightarrow> leaf option \<Rightarrow> bool" where
  "tcache_ok t m c \<longleftrightarrow> (\<forall>l. c = Some l \<longrightarrow> l \<in> set (tree_leafs t m) \<and> lf_block l + lf_len l < 2 ^ 32 \<and> lf_start l + lf_len l < 2 ^ 64)"

lemma cursor_opens_on:
  assumes "tree_wf t (fs_view fs)" and "et_ents t \<noteq> []" and "first_block (hd (et_ents t)) \<le> fba" and "tcache_ok t (fs_view fs) c"
  shows "\<exists>cu fs'. cursor_from_fba ino t c fba fs = Inr (cu, fs') \<and> fs_view fs' = fs_view fs \<and> cu_fba cu = fba \<and>
    cursor_on t cu fs' \<and> cur_current fba (cu_path cu) fs' = Inr (ext_lookup (tree_leafs t (fs_view fs)) fba)"
proof (cases "\<exists>l. c = Some l \<and> within fba l")
  case True
  then obtain l where l: "c = Some l" "within fba l" by blast
  with assms(4) have b: "l \<in> set (tree_leafs t (fs_view fs))" "lf_block l + lf_len l < 2 ^ 32" "lf_start l + lf_len l < 2 ^ 64"
    by (simp_all add: tcache_ok_def)
  let ?cu = "\<lparr>cu_fba = fba, cu_path = (path_empty ino t)\<lparr>p_cache := c\<rparr>\<rparr>"
  have "leaf_contains l fba = Inr True" using l(2) b(2) by (auto simp: leaf_contains_def within_def chk_def)
  then have "cursor_from_fba ino t c fba fs = Inr (?cu, fs)" by (simp add: cursor_from_fba_def l(1))
  moreover have g: "get_leaf (cu_path ?cu) fs = Inr (Some l)" by (simp add: get_leaf_def l(1))
  moreover have "cursor_on t ?cu fs" using g b assms(3) by (auto simp: cursor_on_def path_empty_def)
  moreover have "ext_lookup (tree_leafs t (fs_view fs)) fba =
      Some (if lf_init l then Initialized (lf_start l + (fba - lf_block l)) else Uninitialized)"
    using tree_find_unique [OF assms(1) b(1) l(2)] by (simp add: ext_lookup_def)
  ultimately show ?thesis using current_of_leaf [OF g b(2,3), of fba] l(2)
    by (intro exI [of _ ?cu] exI [of _ fs]) simp
next
  case False
  have e: "p_tree (path_empty ino t) = t" by (simp add: path_empty_def)
  obtain l p' fs' where l: "path_load fba (path_empty ino t, fs) = Inr (p', fs')" "fs_view fs' = fs_view fs" "p_tree p' = t"
    "get_leaf (p'\<lparr>p_cache := None\<rparr>) fs' = Inr (Some l)" "lf_block l + lf_len l < 2 ^ 32" "lf_start l + lf_len l < 2 ^ 64"
    "find (within fba) (tree_leafs t (fs_view fs)) = (if within fba l then Some l else None)"
    "l \<in> set (tree_leafs t (fs_view fs))"
    using path_load_find [of "path_empty ino t" fs fba] assms unfolding e by blast
  let ?cu = "\<lparr>cu_fba = fba, cu_path = p'\<lparr>p_cache := None\<rparr>\<rparr>"
  have "(case c of Some l \<Rightarrow> leaf_contains l fba | None \<Rightarrow> Inr False) = Inr False"
  proof (cases c)
    case (Some l0)
    with False assms(4) show ?thesis by (auto simp: tcache_ok_def leaf_contains_def within_def chk_def)
  qed simp
  then have "cursor_from_fba ino t c fba fs = Inr (?cu, fs')"
    using l(1) by (simp add: cursor_from_fba_def path_load_ro_def)
  moreover have "cursor_on t ?cu fs'" using l assms(3) by (auto simp: cursor_on_def)
  ultimately show ?thesis using l(2,7) current_of_leaf [OF l(4-6), of fba]
    by (intro exI [of _ ?cu] exI [of _ fs']) (simp add: ext_lookup_def)
qed

text \<open>The blocks of a directory: the first \<open>n\<close> blocks of the file are mapped, and the next one is not.\<close>

definition dir_blocks :: "extent_tree \<Rightarrow> (nat \<Rightarrow> bytes option) \<Rightarrow> (nat \<times> bytes) list \<Rightarrow> bool" where
  "dir_blocks t m bs \<longleftrightarrow> tree_wf t m \<and> et_ents t \<noteq> [] \<and> first_block (hd (et_ents t)) = 0 \<and> length bs < 2 ^ 32 - 1 \<and>
     (\<forall>k<length bs. ext_lookup (tree_leafs t m) k = Some (Initialized (fst (bs ! k))) \<and> m (fst (bs ! k)) = Some (snd (bs ! k))) \<and>
     ext_lookup (tree_leafs t m) (length bs) = None"

fun first_found :: "'a option list \<Rightarrow> 'a option" where
  "first_found [] = None"
| "first_found (r # rs) = (case r of Some x \<Rightarrow> Some x | None \<Rightarrow> first_found rs)"

lemma linear_find_loop_blocks:
  assumes "dir_blocks t (fs_view fs) bs" and "\<forall>k<length bs. dir_find v2 target (snd (bs ! k)) = Inr (rs ! k)" and "length rs = length bs"
    and "cursor_on t cu fs" and "cur_current (cu_fba cu) (cu_path cu) fs = Inr (ext_lookup (tree_leafs t (fs_view fs)) (cu_fba cu))"
    and "cu_fba cu \<le> length bs" and "length bs - cu_fba cu < fuel"
  shows "\<exists>cu' fs'. linear_find_loop fuel v2 target (ExtCursor cu, fs) = Some (Inr (first_found (drop (cu_fba cu) rs), ExtCursor cu', fs')) \<and>
    fs_view fs' = fs_view fs \<and> cursor_on t cu' fs'"
  using assms
proof (induction fuel arbitrary: cu fs)
  case (Suc fuel)
  let ?m = "fs_view fs" and ?k = "cu_fba cu"
  note D = Suc.prems(1) [unfolded dir_blocks_def]
  have cur: "any_current (ExtCursor cu) fs = Inr (ext_lookup (tree_leafs t ?m) ?k)"
    using Suc.prems(5) by (simp add: any_current_def cur_mut_current_def)
  show ?case
  proof (cases "?k = length bs")
    case True
    with cur D Suc.prems(3,4) show ?thesis by (simp add: obind_simps)
  next
    case False
    with Suc.prems(6) have k: "?k < length bs" by simp
    with D have b: "ext_lookup (tree_leafs t ?m) ?k = Some (Initialized (fst (bs ! ?k)))" "?m (fst (bs ! ?k)) = Some (snd (bs ! ?k))"
      by simp_all
    obtain fs1 where fs1: "fs_get_block (fst (bs ! ?k)) fs = Inr (snd (bs ! ?k), fs1)" "fs_view fs1 = ?m"
      "\<forall>x c. blocks fs x = Some c \<longrightarrow> blocks fs1 x = Some c" using get_block_mono [OF b(2)] by blast
    have on1: "cursor_on t cu fs1" by (rule cursor_on_mono [OF Suc.prems(4) fs1(2,3)])
    have drop: "drop ?k rs = rs ! ?k # drop (Suc ?k) rs" using k Suc.prems(3) by (simp add: Cons_nth_drop_Suc)
    have f: "dir_find v2 target (snd (bs ! ?k)) = Inr (rs ! ?k)" using k Suc.prems(2) by simp
    show ?thesis
    proof (cases "rs ! ?k")
      case (Some r)
      with cur b fs1 f drop on1 show ?thesis by (simp add: obind_simps get_initialized_def)
    next
      case None
      have "tree_wf t (fs_view fs1)" "et_ents t \<noteq> []" using D fs1(2) by simp_all
      moreover have "?k + 1 < 2 ^ 32" using k D by simp
      ultimately obtain cu2 fs2 where c2: "cur_move_next (cu, fs1) = Inr (cu2, fs2)" "cu_fba cu2 = ?k + 1" "fs_view fs2 = fs_view fs1"
        "cursor_on t cu2 fs2" "cur_current (cu_fba cu2) (cu_path cu2) fs2 = Inr (ext_lookup (tree_leafs t (fs_view fs1)) (?k + 1))"
        using cursor_next_refines [of t fs1 cu] on1 by blast
      have "\<exists>cu' fs'. linear_find_loop fuel v2 target (ExtCursor cu2, fs2) = Some (Inr (first_found (drop (cu_fba cu2) rs), ExtCursor cu', fs')) \<and>
          fs_view fs' = fs_view fs2 \<and> cursor_on t cu' fs'"
        using Suc.prems(1-3,7) c2 fs1(2) k by (intro Suc.IH) simp_all
      with None cur b fs1 f drop c2 show ?thesis
        by (simp add: obind_simps get_initialized_def any_move_next_ro_def)
    qed
  qed
qed simp

lemma linear_find_blocks:
  assumes "i_addr i = Extent t" and "tcache_ok t (fs_view fs) (i_tcache i)" and "dir_blocks t (fs_view fs) bs"
    and "\<forall>k<length bs. dir_find (is_dir_entry_version2 (fs_sb fs)) target (snd (bs ! k)) = Inr (rs ! k)" and "length rs = length bs"
    and "length bs < fuel"
  shows "\<exists>i' fs'. linear_find_entry fuel target (i, fs) = Some (Inr (first_found rs, i', fs')) \<and>
    fs_view fs' = fs_view fs \<and> i_addr i' = Extent t \<and> tcache_ok t (fs_view fs) (i_tcache i')"
proof -
  note D = assms(3) [unfolded dir_blocks_def]
  from D have t: "tree_wf t (fs_view fs)" "et_ents t \<noteq> []" "first_block (hd (et_ents t)) \<le> 0" by simp_all
  obtain cu fs1 where c: "cursor_from_fba (i_ino i) t (i_tcache i) 0 fs = Inr (cu, fs1)" "fs_view fs1 = fs_view fs" "cu_fba cu = 0"
    "cursor_on t cu fs1" "cur_current 0 (cu_path cu) fs1 = Inr (ext_lookup (tree_leafs t (fs_view fs)) 0)"
    using cursor_opens_on [OF t assms(2), of "i_ino i"] by blast
  have "\<exists>cu' fs'. linear_find_loop fuel (is_dir_entry_version2 (fs_sb fs)) target (ExtCursor cu, fs1) =
      Some (Inr (first_found (drop (cu_fba cu) rs), ExtCursor cu', fs')) \<and> fs_view fs' = fs_view fs1 \<and> cursor_on t cu' fs'"
    by (rule linear_find_loop_blocks [where bs = bs]) (use assms c in simp_all)
  then obtain cu2 fs2 where f: "linear_find_loop fuel (is_dir_entry_version2 (fs_sb fs)) target (ExtCursor cu, fs1) =
      Some (Inr (first_found rs, ExtCursor cu2, fs2))" "fs_view fs2 = fs_view fs" "cursor_on t cu2 fs2" using c(2,3) by auto
  then obtain l where l: "get_leaf (cu_path cu2) fs2 = Inr (Some l)" "l \<in> set (tree_leafs t (fs_view fs))" "lf_block l + lf_len l < 2 ^ 32"
    "lf_start l + lf_len l < 2 ^ 64" by (auto simp: cursor_on_def)
  let ?i = "i\<lparr>i_tcache := Some l\<rparr>"
  have "linear_find_entry fuel target (i, fs) = Some (Inr (first_found rs, ?i, fs2))"
    using c(1) f(1) l(1) by (simp add: linear_find_entry_def open_cursor_def assms(1) close_cursor_def cursor_drop_def Let_def)
  then show ?thesis using f(2) l assms(1) by (intro exI [of _ ?i] exI [of _ fs2]) (simp add: tcache_ok_def)
qed

text \<open>C24: A lookup in a linear directory searches all its blocks in order: it gives the first answer of a
  block, or none after the last one, and needs as many rounds as there are blocks and one more;
  nothing but the caches changes.\<close>

theorem linear_find_searches_blocks:
  assumes "i_addr i = Extent t" and "tcache_ok t (fs_view fs) (i_tcache i)" and "dir_blocks t (fs_view fs) bs"
    and "\<forall>k<length bs. dir_find (is_dir_entry_version2 (fs_sb fs)) target (snd (bs ! k)) = Inr (rs ! k)" and "length rs = length bs"
    and "length bs < fuel"
  shows "\<exists>i' fs'. linear_find_entry fuel target (i, fs) = Some (Inr (first_found rs, i', fs')) \<and>
    fs_view fs' = fs_view fs \<and> i_addr i' = Extent t \<and> tcache_ok t (fs_view fs) (i_tcache i')"
  using assms by (rule linear_find_blocks)

section \<open>Adding an entry\<close>






















section \<open>Concrete inputs\<close>

text \<open>A directory of one block, the block 50 of the disk, with the one entry \<open>a\<close>.\<close>

definition demo_dir_tree :: extent_tree where
  "demo_dir_tree = \<lparr>et_entries_cnt = 1, et_max_entries_cnt = 4, et_depth = 0,
     et_b = [0, 0, 0, 0, 1, 0, 0, 0, 50, 0, 0, 0] @ replicate 36 0\<rparr>"

definition demo_dir :: inode where
  "demo_dir = \<lparr>i_ino = 11, i_ftype = Directory, i_flags = 0, i_generation = 0, i_mode = 0, i_size = 64, i_links = 2,
     i_addr = Extent demo_dir_tree, i_tcache = None\<rparr>"

definition demo_dir_fs :: "bytes fs" where
  "demo_dir_fs = (demo_fs one_chunk)\<lparr>blocks := [50 \<mapsto> demo_slot], fs_sb := demo_sb\<lparr>is_dir_entry_version2 := True\<rparr>\<rparr>"

lemma demo_dir_simps: "et_ok demo_dir_tree" "et_depth demo_dir_tree = 0"
  "et_ents demo_dir_tree = [Leaf \<lparr>lf_block = 0, lf_start = 50, lf_len = 1, lf_init = True\<rparr>]"
  "tree_leafs demo_dir_tree m = [\<lparr>lf_block = 0, lf_start = 50, lf_len = 1, lf_init = True\<rparr>]"
  by (simp_all add: demo_dir_tree_def et_ok_def tree_leafs_def et_ents_def dec_list_def chunk12_def dec_entry_def
      le32_def le16_def merge_u32_def root_len_def upt_conv_Cons)

lemma demo_dir_blocks: "dir_blocks demo_dir_tree (fs_view demo_dir_fs) [(50, demo_slot)]"
proof -
  have "fs_view demo_dir_fs 50 = Some demo_slot" by (simp add: fs_view_def demo_dir_fs_def)
  then show ?thesis
    by (simp add: dir_blocks_def tree_wf_def demo_dir_simps first_block_def ext_lookup_def within_def)
qed

lemma demo_slot_simps: "c_ino demo_slot = 12" "c_type True demo_slot = Some DeRegularFile" "c_name True demo_slot = [0x61]"
  by (simp_all add: demo_slot_def c_ino_def c_type_def c_name_def c_nlen_def le32_def ext4_de_try_from_def)

lemma linear_find_searches_blocks_witness:
  "\<exists>i' fs'. linear_find_entry 2 [0x61] (demo_dir, demo_dir_fs) = Some (Inr (Some (12, Some RegularFile), i', fs'))"
proof -
  have v2: "is_dir_entry_version2 (fs_sb demo_dir_fs)" by (simp add: demo_dir_fs_def)
  have "dir_find True [0x61] demo_slot = Inr (Some (12, Some RegularFile))"
    using dir_find_ok [OF demo_slots demo_valid, of "[0x61]"] by (simp add: de_into_file_type_def demo_slot_simps)
  with linear_find_searches_blocks [of demo_dir demo_dir_tree demo_dir_fs "[(50, demo_slot)]" "[0x61]" "[Some (12, Some RegularFile)]" 2]
    demo_dir_blocks v2
  show ?thesis by (simp add: demo_dir_def tcache_ok_def) blast
qed


lemma listing_skips_second_witness:
  "\<exists>p. linear_fill_block True (concat [demo_en 97 1, demo_en 98 1, demo_en 99 1]) 0 0 collect [] = Inr (True, p, [[97], [99]])"
proof -
  have "slots_of True ([] @ demo_en 97 1 # [] @ demo_en 98 1 # [demo_en 99 1]) (concat [demo_en 97 1, demo_en 98 1, demo_en 99 1])"
    by (simp add: slots_of_def demo_en_slot)
  from listing_skips_second [OF this, of 0] show ?thesis by (simp add: demo_en_slot)
qed

end
