(* ===== verification/Locks.thy ===== *)
theory Locks
  imports Byte_Rw
begin

text \<open>
  The locks of \<open>lib/synchronizations\<close>: the simple lock, the ticket lock and the reader-writer lock.
  Each is a word that clients change by atomic operations; a step of a client is one such operation,
  the steps of \<open>N\<close> clients interleave in any order, and a client is a request for a guard or a guard.
  The hooks of the \<open>Dreamer\<close> change neither the word nor who holds the lock. What a lock promises is
  the locale \<open>exclusive_lock\<close>.
\<close>

section \<open>What a lock promises\<close>

text \<open>A lock is a step relation with an invariant under which no two clients hold the lock.\<close>

locale exclusive_lock =
  fixes init :: "'s \<Rightarrow> bool" and step :: "'s \<Rightarrow> 's \<Rightarrow> bool" and holds :: "'s \<Rightarrow> nat \<Rightarrow> bool" and inv :: "'s \<Rightarrow> bool"
  assumes init_inv: "init s \<Longrightarrow> inv s"
    and step_inv: "inv s \<Longrightarrow> step s s' \<Longrightarrow> inv s'"
    and inv_excl: "inv s \<Longrightarrow> holds s t \<Longrightarrow> holds s u \<Longrightarrow> t = u"
begin

lemma reach_inv: "init s \<Longrightarrow> step\<^sup>*\<^sup>* s s' \<Longrightarrow> inv s'"
  by (rotate_tac, induction rule: rtranclp_induct) (auto intro: init_inv step_inv)

lemma exclusion: "init s \<Longrightarrow> step\<^sup>*\<^sup>* s s' \<Longrightarrow> holds s' t \<Longrightarrow> holds s' u \<Longrightarrow> t = u"
  using reach_inv inv_excl by blast

end

section \<open>The simple lock\<close>

datatype sl_pc = SlIdle | SlSpin | SlHold

record simple_lock =
  sl_locked :: bool
  sl_pc :: "nat \<Rightarrow> sl_pc"

definition sl_new :: simple_lock where
  "sl_new = \<lparr>sl_locked = False, sl_pc = (\<lambda>_. SlIdle)\<rparr>"

text \<open>\<open>compare_exchange(false, true)\<close>: whether it succeeded, and the new value.\<close>

definition sl_cas :: "bool \<Rightarrow> bool \<times> bool" where
  "sl_cas locked = (\<not> locked, True)"

inductive sl_step :: "nat \<Rightarrow> simple_lock \<Rightarrow> simple_lock \<Rightarrow> bool" for N where
  sl_acquire: "t < N \<Longrightarrow> sl_pc s t \<noteq> SlHold \<Longrightarrow> sl_cas (sl_locked s) = (True, v) \<Longrightarrow>
     sl_step N s (s\<lparr>sl_locked := v, sl_pc := (sl_pc s)(t := SlHold)\<rparr>)"
| sl_wait: "t < N \<Longrightarrow> sl_pc s t \<noteq> SlHold \<Longrightarrow> sl_cas (sl_locked s) = (False, v) \<Longrightarrow>
     sl_step N s (s\<lparr>sl_locked := v, sl_pc := (sl_pc s)(t := SlSpin)\<rparr>)"
| sl_would_block: "t < N \<Longrightarrow> sl_pc s t = SlIdle \<Longrightarrow> sl_cas (sl_locked s) = (False, v) \<Longrightarrow>
     sl_step N s (s\<lparr>sl_locked := v\<rparr>)"
| sl_release: "t < N \<Longrightarrow> sl_pc s t = SlHold \<Longrightarrow>
     sl_step N s (s\<lparr>sl_locked := False, sl_pc := (sl_pc s)(t := SlIdle)\<rparr>)"

inductive_cases sl_stepE: "sl_step N s s'"

definition sl_holds :: "simple_lock \<Rightarrow> nat \<Rightarrow> bool" where
  "sl_holds s t \<longleftrightarrow> sl_pc s t = SlHold"

text \<open>The flag says whether there is a holder, and there is at most one.\<close>

definition sl_inv :: "simple_lock \<Rightarrow> bool" where
  "sl_inv s \<longleftrightarrow> (if sl_locked s then \<exists>t. \<forall>u. sl_holds s u \<longleftrightarrow> u = t else \<forall>u. \<not> sl_holds s u)"

lemma sl_step_inv: "sl_inv s \<Longrightarrow> sl_step N s s' \<Longrightarrow> sl_inv s'"
  by (elim sl_stepE) (auto simp: sl_inv_def sl_holds_def sl_cas_def split: if_splits)

interpretation sl: exclusive_lock "\<lambda>s. s = sl_new" "sl_step N" sl_holds sl_inv for N
proof unfold_locales
  show "sl_inv s" if "s = sl_new" for s using that by (simp add: sl_inv_def sl_holds_def sl_new_def)
  show "sl_inv s'" if "sl_inv s" "sl_step N s s'" for s s' using that by (rule sl_step_inv)
  show "t = u" if "sl_inv s" "sl_holds s t" "sl_holds s u" for s t u
    using that by (auto simp: sl_inv_def split: if_splits)
qed

text \<open>Two clients never hold the simple lock, however their operations interleave.\<close>

theorem simple_lock_exclusion:
  assumes "(sl_step N)\<^sup>*\<^sup>* sl_new s" and "sl_holds s t" and "sl_holds s u"
  shows "t = u"
  using sl.exclusion [OF refl assms(1)] assms(2,3) by blast

lemma simple_lock_exclusion_witness:
  "sl_holds \<lparr>sl_locked = True, sl_pc = (\<lambda>_. SlIdle)(1 := SlHold)\<rparr> 1 \<and> (2::nat) \<noteq> 1 \<and>
   \<not> sl_holds \<lparr>sl_locked = True, sl_pc = (\<lambda>_. SlIdle)(1 := SlHold)\<rparr> 2"
proof -
  have "sl_step 3 sl_new (sl_new\<lparr>sl_locked := True, sl_pc := (sl_pc sl_new)(1 := SlHold)\<rparr>)"
    by (rule sl_acquire) (simp_all add: sl_new_def sl_cas_def)
  then have r: "(sl_step 3)\<^sup>*\<^sup>* sl_new \<lparr>sl_locked = True, sl_pc = (\<lambda>_. SlIdle)(1 := SlHold)\<rparr>"
    by (simp add: sl_new_def)
  have h: "sl_holds \<lparr>sl_locked = True, sl_pc = (\<lambda>_. SlIdle)(1 := SlHold)\<rparr> 1" by (simp add: sl_holds_def)
  from simple_lock_exclusion [OF r h] h show ?thesis by fastforce
qed

section \<open>The ticket lock\<close>

text \<open>The padding of the two halves is not used: both are whole 32-bit words, which wrap around.\<close>

datatype tl_pc = TlIdle | TlWait "32 word" | TlTry "32 word" | TlHold "32 word"

record ticket_lock =
  tl_owner :: "32 word"
  tl_next :: "32 word"
  tl_pc :: "nat \<Rightarrow> tl_pc"

definition tl_new :: ticket_lock where
  "tl_new = \<lparr>tl_owner = 0, tl_next = 0, tl_pc = (\<lambda>_. TlIdle)\<rparr>"

text \<open>\<open>try_lock\<close> compares and exchanges both words at once.\<close>

definition tl_both :: "32 word \<Rightarrow> 32 word \<Rightarrow> 64 word" where
  "tl_both nxt owner = merge_u32 nxt owner"

definition tl_cas :: "32 word \<Rightarrow> 32 word \<times> 32 word \<Rightarrow> bool \<times> 64 word" where
  "tl_cas prev w = (case w of (nxt, owner) \<Rightarrow>
     let cmp = push_bit 32 (ucast prev) OR ucast prev;
         new = push_bit 32 (ucast prev + 1) OR ucast prev
     in if tl_both nxt owner = cmp then (True, new) else (False, tl_both nxt owner))"

inductive tl_step :: "nat \<Rightarrow> ticket_lock \<Rightarrow> ticket_lock \<Rightarrow> bool" for N where
  tl_take: "t < N \<Longrightarrow> tl_pc s t = TlIdle \<Longrightarrow>
     tl_step N s (s\<lparr>tl_next := tl_next s + 1, tl_pc := (tl_pc s)(t := TlWait (tl_next s))\<rparr>)"
| tl_acquire: "t < N \<Longrightarrow> tl_pc s t = TlWait n \<Longrightarrow> tl_owner s = n \<Longrightarrow>
     tl_step N s (s\<lparr>tl_pc := (tl_pc s)(t := TlHold n)\<rparr>)"
| tl_spin: "t < N \<Longrightarrow> tl_pc s t = TlWait n \<Longrightarrow> tl_owner s \<noteq> n \<Longrightarrow> tl_step N s s"
| tl_try: "t < N \<Longrightarrow> tl_pc s t = TlIdle \<Longrightarrow>
     tl_step N s (s\<lparr>tl_pc := (tl_pc s)(t := TlTry (tl_owner s))\<rparr>)"
| tl_try_ok: "t < N \<Longrightarrow> tl_pc s t = TlTry p \<Longrightarrow> tl_cas p (tl_next s, tl_owner s) = (True, w) \<Longrightarrow>
     tl_step N s (s\<lparr>tl_next := ucast (drop_bit 32 w), tl_owner := ucast w, tl_pc := (tl_pc s)(t := TlHold p)\<rparr>)"
| tl_try_fail: "t < N \<Longrightarrow> tl_pc s t = TlTry p \<Longrightarrow> tl_cas p (tl_next s, tl_owner s) = (False, w) \<Longrightarrow>
     tl_step N s (s\<lparr>tl_pc := (tl_pc s)(t := TlIdle)\<rparr>)"
| tl_release: "t < N \<Longrightarrow> tl_pc s t = TlHold n \<Longrightarrow>
     tl_step N s (s\<lparr>tl_owner := tl_owner s + 1, tl_pc := (tl_pc s)(t := TlIdle)\<rparr>)"

inductive_cases tl_stepE: "tl_step N s s'"

definition tl_holds :: "ticket_lock \<Rightarrow> nat \<Rightarrow> bool" where
  "tl_holds s t \<longleftrightarrow> (\<exists>n. tl_pc s t = TlHold n)"

fun tl_ticket :: "tl_pc \<Rightarrow> 32 word option" where
  "tl_ticket (TlWait n) = Some n"
| "tl_ticket (TlHold n) = Some n"
| "tl_ticket _ = None"

lemma tl_both_halves: "ucast (drop_bit 32 (tl_both nxt owner)) = nxt" "ucast (tl_both nxt owner) = owner"
  using split_merge_u32 [of nxt owner] by (simp_all add: tl_both_def split_u64_def)

lemma tl_both_eq: "tl_both a b = tl_both c d \<longleftrightarrow> a = c \<and> b = d"
  using tl_both_halves [of a b] tl_both_halves [of c d] by metis

lemma take_32_succ: "take_bit 32 (ucast p + 1 :: 64 word) = ucast (p + 1 :: 32 word)"
  by transfer (simp add: take_bit_eq_mod mod_simps)

lemma push_32_succ: "push_bit 32 (ucast p + 1 :: 64 word) = push_bit 32 (ucast (p + 1 :: 32 word))"
proof (rule bit_word_eqI)
  fix i assume "i < LENGTH(64)"
  then have "i - 32 < 32" by simp
  moreover have "bit (take_bit 32 (ucast p + 1 :: 64 word)) (i - 32) = bit (ucast (p + 1 :: 32 word) :: 64 word) (i - 32)"
    by (simp only: take_32_succ)
  ultimately show "bit (push_bit 32 (ucast p + 1 :: 64 word)) i = bit (push_bit 32 (ucast (p + 1 :: 32 word) :: 64 word)) i"
    by (simp add: bit_push_bit_iff bit_take_bit_iff)
qed

lemma tl_cas_eq: "tl_cas p (nxt, owner) = (if nxt = p \<and> owner = p then (True, tl_both (p + 1) p) else (False, tl_both nxt owner))"
proof -
  have "push_bit 32 (ucast p) OR ucast p = tl_both p p" "push_bit 32 (ucast p + 1) OR ucast p = tl_both (p + 1) p"
    by (simp_all add: tl_both_def merge_u32_def push_32_succ)
  then show ?thesis by (simp add: tl_cas_def Let_def tl_both_eq)
qed

text \<open>What the ticket lock implements: a queue of clients whose head is granted the lock.\<close>

inductive fq_step :: "nat list \<times> bool \<Rightarrow> nat list \<times> bool \<Rightarrow> bool" where
  fq_enqueue: "t \<notin> set q \<Longrightarrow> fq_step (q, g) (q @ [t], g)"
| fq_grant: "fq_step (t # q, False) (t # q, True)"
| fq_release: "fq_step (t # q, True) (q, False)"
| fq_try: "fq_step ([], False) ([t], True)"
| fq_skip: "fq_step a a"

definition tl_queue :: "nat \<Rightarrow> ticket_lock \<Rightarrow> nat list \<Rightarrow> bool" where
  "tl_queue N s q \<longleftrightarrow> distinct q \<and> set q \<subseteq> {..<N} \<and> (\<forall>t. t \<in> set q \<longleftrightarrow> tl_ticket (tl_pc s t) \<noteq> None) \<and>
     (\<forall>i<length q. tl_ticket (tl_pc s (q ! i)) = Some (tl_owner s + of_nat i)) \<and>
     tl_next s = tl_owner s + of_nat (length q) \<and> (\<forall>i<length q. tl_holds s (q ! i) \<longrightarrow> i = 0)"

definition tl_abs :: "nat \<Rightarrow> ticket_lock \<Rightarrow> nat list \<times> bool \<Rightarrow> bool" where
  "tl_abs N s a \<longleftrightarrow> tl_queue N s (fst a) \<and> snd a = (fst a \<noteq> [] \<and> tl_holds s (hd (fst a)))"

lemma tl_queue_length: "tl_queue N s q \<Longrightarrow> length q \<le> N"
  using card_mono [of "{..<N}" "set q"] by (simp add: tl_queue_def distinct_card)

lemma of_nat_32_eq_0: "i < 2 ^ 32 \<Longrightarrow> (of_nat i :: 32 word) = 0 \<longleftrightarrow> i = 0"
proof -
  assume "i < 2 ^ 32"
  then have "unat (of_nat i :: 32 word) = i" by (simp add: unat_of_nat take_bit_nat_eq_self)
  then have "(of_nat i :: 32 word) = 0 \<Longrightarrow> i = 0" by (simp only: unat_0)
  then show ?thesis by auto
qed

lemma tl_holds_ticket: "tl_holds s t \<Longrightarrow> tl_ticket (tl_pc s t) \<noteq> None"
  by (auto simp: tl_holds_def)

lemma tl_abs_step:
  assumes "N < 2 ^ 32" and "tl_abs N s a" and "tl_step N s s'"
  shows "\<exists>a'. fq_step a a' \<and> tl_abs N s' a'"
proof -
  obtain q g where a: "a = (q, g)" by (cases a)
  have Q: "distinct q" "set q \<subseteq> {..<N}" "\<And>t. t \<in> set q \<longleftrightarrow> tl_ticket (tl_pc s t) \<noteq> None"
    "\<And>i. i < length q \<Longrightarrow> tl_ticket (tl_pc s (q ! i)) = Some (tl_owner s + of_nat i)" "tl_next s = tl_owner s + of_nat (length q)"
    "\<And>i. i < length q \<Longrightarrow> tl_holds s (q ! i) \<Longrightarrow> i = 0" and g: "g \<longleftrightarrow> q \<noteq> [] \<and> tl_holds s (hd q)" and len: "length q < 2 ^ 32"
    using assms(1,2) tl_queue_length [of N s q] by (auto simp: a tl_abs_def tl_queue_def)
  from assms(3) show ?thesis
  proof (cases rule: tl_step.cases)
    case (tl_take t)
    have t: "t \<notin> set q" using Q(3) [of t] tl_take(3) by simp
    have ne: "q ! i \<noteq> t" if "i < length q" for i using t that by auto
    have "tl_abs N s' (q @ [t], g)"
      using Q g tl_take t ne by (auto simp: tl_abs_def tl_queue_def tl_holds_def nth_append hd_append less_Suc_eq)
    with fq_enqueue [OF t, of g] show ?thesis by (auto simp: a)
  next
    case (tl_acquire t n)
    then have "t \<in> set q" using Q(3) [of t] by simp
    then obtain i where i: "i < length q" "q ! i = t" by (auto simp: in_set_conv_nth)
    with Q(4) [OF i(1)] tl_acquire have "(of_nat i :: 32 word) = 0" by simp
    then have "i = 0" using of_nat_32_eq_0 [of i] i(1) len by simp
    with i obtain q' where q: "q = t # q'" by (cases q) auto
    have ng: "\<not> g" using g tl_acquire(3) by (simp add: q tl_holds_def)
    have same: "tl_ticket (tl_pc s' u) = tl_ticket (tl_pc s u)" "tl_owner s' = tl_owner s" "tl_next s' = tl_next s" for u
      using tl_acquire by simp_all
    have "i = 0" if "i < length q" "tl_holds s' (q ! i)" for i
    proof (rule ccontr)
      assume "i \<noteq> 0"
      with Q(1) that(1) have "q ! i \<noteq> t" by (cases i) (auto simp: q)
      with that tl_acquire(1) have "tl_holds s (q ! i)" by (simp add: tl_holds_def)
      with Q(6) that(1) \<open>i \<noteq> 0\<close> show False by blast
    qed
    then have "tl_queue N s' q" unfolding tl_queue_def same using Q(1-5) by blast
    moreover have "tl_holds s' t" using tl_acquire(1) by (simp add: tl_holds_def)
    ultimately have "tl_abs N s' (q, True)" by (simp add: tl_abs_def q)
    with fq_grant [of t q'] ng show ?thesis by (auto simp: a q)
  next
    case (tl_spin t n)
    with assms(2) fq_skip show ?thesis by blast
  next
    case (tl_try t)
    have t: "t \<notin> set q" using Q(3) [of t] tl_try(3) by simp
    have ne: "q ! i \<noteq> t" if "i < length q" for i using t that by auto
    have "tl_abs N s' a"
      using Q g tl_try t ne by (auto simp: a tl_abs_def tl_queue_def tl_holds_def hd_conv_nth)
    with fq_skip show ?thesis by blast
  next
    case (tl_try_ok t p w)
    have t: "t \<notin> set q" using Q(3) [of t] tl_try_ok(3) by simp
    from tl_try_ok(4) have p: "tl_next s = p" "tl_owner s = p" "w = tl_both (p + 1) p"
      by (auto simp: tl_cas_eq split: if_splits)
    with Q(5) of_nat_32_eq_0 [OF len] have q: "q = []" by simp
    have "tl_abs N s' ([t], True)"
      using Q(3) tl_try_ok p by (auto simp: tl_abs_def tl_queue_def tl_holds_def q tl_both_halves)
    with fq_try [of t] g show ?thesis by (auto simp: a q)
  next
    case (tl_try_fail t p w)
    have t: "t \<notin> set q" using Q(3) [of t] tl_try_fail(3) by simp
    have ne: "q ! i \<noteq> t" if "i < length q" for i using t that by auto
    have "tl_abs N s' a"
      using Q g tl_try_fail t ne by (auto simp: a tl_abs_def tl_queue_def tl_holds_def hd_conv_nth)
    with fq_skip show ?thesis by blast
  next
    case (tl_release t n)
    then have h: "tl_holds s t" by (auto simp: tl_holds_def)
    then have "t \<in> set q" using Q(3) [of t] tl_holds_ticket by blast
    then obtain i where i: "i < length q" "q ! i = t" by (auto simp: in_set_conv_nth)
    with Q(6) h have "i = 0" by blast
    with i obtain q' where q: "q = t # q'" by (cases q) auto
    have ne: "q' ! i \<noteq> t" if "i < length q'" for i using Q(1) that by (auto simp: q)
    have tk: "tl_ticket (tl_pc s (q' ! i)) = Some (tl_owner s + 1 + of_nat i)" if "i < length q'" for i
      using Q(4) [of "Suc i"] that by (simp add: q add.assoc)
    have nh: "\<not> tl_holds s (q' ! i)" if "i < length q'" for i using Q(6) [of "Suc i"] that by (auto simp: q)
    have "tl_abs N s' (q', False)"
      using Q(1-3,5) tl_release ne tk nh by (auto simp: tl_abs_def tl_queue_def tl_holds_def q hd_conv_nth add.assoc)
    with fq_release [of t q'] g h show ?thesis by (auto simp: a q)
  qed
qed

lemma tl_abs_new: "tl_abs N tl_new ([], False)"
  by (simp add: tl_abs_def tl_queue_def tl_new_def)

lemma tl_abs_reach:
  assumes "N < 2 ^ 32" and "(tl_step N)\<^sup>*\<^sup>* tl_new s"
  shows "\<exists>a. fq_step\<^sup>*\<^sup>* ([], False) a \<and> tl_abs N s a"
  using assms(2)
proof (induction rule: rtranclp_induct)
  case base
  show ?case using tl_abs_new by blast
next
  case (step s s')
  then obtain a a' where "fq_step\<^sup>*\<^sup>* ([], False) a" "fq_step a a'" "tl_abs N s' a'"
    using tl_abs_step [OF assms(1)] by blast
  then show ?case by (meson rtranclp.rtrancl_into_rtrancl)
qed

lemma tl_abs_holder: "tl_abs N s a \<Longrightarrow> tl_holds s t \<Longrightarrow> fst a \<noteq> [] \<and> t = hd (fst a)"
proof -
  assume a: "tl_abs N s a" and h: "tl_holds s t"
  then have "t \<in> set (fst a)" using tl_holds_ticket by (simp add: tl_abs_def tl_queue_def)
  then obtain i where i: "i < length (fst a)" "fst a ! i = t" by (auto simp: in_set_conv_nth)
  with a h have "i = 0" by (auto simp: tl_abs_def tl_queue_def)
  with i show ?thesis by (cases "fst a") auto
qed

interpretation tl: exclusive_lock "\<lambda>s. s = tl_new" "tl_step (N mod 2 ^ 32)" tl_holds "\<lambda>s. \<exists>a. tl_abs (N mod 2 ^ 32) s a" for N
proof unfold_locales
  show "\<exists>a. tl_abs (N mod 2 ^ 32) s a" if "s = tl_new" for s using that tl_abs_new by blast
  show "\<exists>a. tl_abs (N mod 2 ^ 32) s' a" if "\<exists>a. tl_abs (N mod 2 ^ 32) s a" "tl_step (N mod 2 ^ 32) s s'" for s s'
    using that tl_abs_step [of "N mod 2 ^ 32"] by (meson mod_less_divisor zero_less_numeral zero_less_power)
  show "t = u" if "\<exists>a. tl_abs (N mod 2 ^ 32) s a" "tl_holds s t" "tl_holds s u" for s t u
    using that tl_abs_holder by metis
qed

text \<open>C10: The ticket lock refines a FIFO queue: each operation enqueues its client, grants the lock to
  the head, removes the head or changes nothing, as long as there are fewer than \<open>2^32\<close> clients.\<close>

theorem ticket_lock_refines_queue:
  assumes "N < 2 ^ 32" and "(tl_step N)\<^sup>*\<^sup>* tl_new s" and "tl_step N s s'"
  shows "\<exists>a a'. fq_step\<^sup>*\<^sup>* ([], False) a \<and> tl_abs N s a \<and> fq_step a a' \<and> tl_abs N s' a'"
  using tl_abs_reach [OF assms(1,2)] tl_abs_step [OF assms(1) _ assms(3)] by blast

definition tl_taken :: "nat \<Rightarrow> ticket_lock" where
  "tl_taken t = tl_new\<lparr>tl_next := 1, tl_pc := (\<lambda>_. TlIdle)(t := TlWait 0)\<rparr>"

lemma tl_taken_step: "t < N \<Longrightarrow> tl_step N tl_new (tl_taken t)"
  using tl_take [of t N tl_new] by (simp add: tl_taken_def tl_new_def)

lemma ticket_lock_refines_queue_witness:
  "\<exists>a a'. fq_step\<^sup>*\<^sup>* ([], False) a \<and> tl_abs 2 tl_new a \<and> fq_step a a' \<and> tl_abs 2 (tl_taken 1) a'"
  by (rule ticket_lock_refines_queue [OF _ rtranclp.rtrancl_refl tl_taken_step]) simp_all

text \<open>C27: A client that waits for the ticket lock has fewer than \<open>N\<close> clients before it; no step puts one
  more before it, each release takes one away, and some client holds the lock or can take it.\<close>

theorem ticket_wait_bounded:
  assumes "N < 2 ^ 32" and "(tl_step N)\<^sup>*\<^sup>* tl_new s" and "tl_step N s s'"
    and "tl_pc s t = TlWait n" and "tl_pc s' t = TlWait n"
  shows "unat (n - tl_owner s) < N \<and>
    unat (n - tl_owner s) = unat (n - tl_owner s') + (if tl_owner s' = tl_owner s then 0 else 1) \<and>
    (\<exists>u<N. tl_holds s u \<or> tl_pc s u = TlWait (tl_owner s))"
proof (intro conjI)
  obtain a where a: "tl_abs N s a" using tl_abs_reach [OF assms(1,2)] by blast
  define q where "q = fst a"
  have Q: "distinct q" "set q \<subseteq> {..<N}" "\<And>u. u \<in> set q \<longleftrightarrow> tl_ticket (tl_pc s u) \<noteq> None"
    "\<And>i. i < length q \<Longrightarrow> tl_ticket (tl_pc s (q ! i)) = Some (tl_owner s + of_nat i)"
    using a by (auto simp: tl_abs_def tl_queue_def q_def)
  have len: "length q \<le> N" using a tl_queue_length by (auto simp: tl_abs_def q_def)
  have "t \<in> set q" using Q(3) assms(4) by simp
  then obtain i where i: "i < length q" "q ! i = t" by (auto simp: in_set_conv_nth)
  with Q(4) [OF i(1)] assms(4) have n: "n - tl_owner s = of_nat i" by simp
  have u: "unat (n - tl_owner s) = i"
    using i len assms(1) unfolding n by (simp add: unat_of_nat take_bit_nat_eq_self)
  show "unat (n - tl_owner s) < N" using u i len by simp
  show "unat (n - tl_owner s) = unat (n - tl_owner s') + (if tl_owner s' = tl_owner s then 0 else 1)"
    using assms(3)
  proof (cases rule: tl_step.cases)
    case (tl_release v m)
    then have "v = q ! 0" "q \<noteq> []" using tl_abs_holder [OF a, of v] by (auto simp: tl_holds_def q_def hd_conv_nth)
    moreover have "v \<noteq> t" using tl_release(3) assms(4) by auto
    ultimately have "i \<noteq> 0" using i(2) by (intro notI) simp
    then have "n - tl_owner s \<noteq> 0" using u by auto
    then show ?thesis using tl_release unat_minus_one [of "n - tl_owner s"] u \<open>i \<noteq> 0\<close> by (simp add: diff_diff_eq)
  qed (auto simp: tl_cas_eq tl_both_halves split: if_splits)
  have "q \<noteq> []" using i by (cases q) auto
  then have "q ! 0 < N" "tl_ticket (tl_pc s (q ! 0)) = Some (tl_owner s)"
    using subsetD [OF Q(2) nth_mem [of 0 q]] Q(4) [of 0] by simp_all
  then show "\<exists>u<N. tl_holds s u \<or> tl_pc s u = TlWait (tl_owner s)"
    by (auto simp: tl_holds_def elim!: tl_ticket.elims)
qed

lemma ticket_wait_bounded_witness:
  "unat (0 - tl_owner (tl_taken 1)) < 3 \<and> (\<exists>u<3. tl_holds (tl_taken 1) u \<or> tl_pc (tl_taken 1) u = TlWait (tl_owner (tl_taken 1)))"
proof -
  have r: "(tl_step 3)\<^sup>*\<^sup>* tl_new (tl_taken 1)" using tl_taken_step [of 1 3] by simp
  have st: "tl_step 3 (tl_taken 1) ((tl_taken 1)\<lparr>tl_next := tl_next (tl_taken 1) + 1,
      tl_pc := (tl_pc (tl_taken 1))(2 := TlWait (tl_next (tl_taken 1)))\<rparr>)"
    by (rule tl_take) (simp_all add: tl_taken_def)
  show ?thesis
    using ticket_wait_bounded [OF _ r st, of 1 0] by (simp add: tl_taken_def)
qed

end
