(* ===== verification/Rw_Lock.thy ===== *)
theory Rw_Lock
  imports Locks
begin

text \<open>
  The reader-writer lock of \<open>lib/synchronizations/src/rwlock.rs\<close>: a word that counts the readers or
  has bit 62 set for the writer. A step is one atomic operation of one of \<open>N\<close> clients; \<open>read\<close> and
  \<open>write\<close> are the steps of \<open>try_read\<close> and \<open>try_write\<close> repeated until they succeed. \<open>RwPanic\<close> is a
  client whose assertion failed.
\<close>

section \<open>The word\<close>

definition STATE_MASK :: "64 word" where
  "STATE_MASK = push_bit 62 1"

definition STATE_WRITER_LOCKED :: "64 word" where
  "STATE_WRITER_LOCKED = push_bit 62 1"

definition is_write_locked :: "64 word \<Rightarrow> bool" where
  "is_write_locked b \<longleftrightarrow> b AND STATE_MASK = STATE_WRITER_LOCKED"

definition is_read_locked :: "64 word \<Rightarrow> bool" where
  "is_read_locked b \<longleftrightarrow> b > 0 \<and> \<not> is_write_locked b"

text \<open>\<open>compare_exchange\<close>: whether it succeeded, and the new value.\<close>

definition rw_cas :: "64 word \<Rightarrow> 64 word \<Rightarrow> 64 word \<Rightarrow> bool \<times> 64 word" where
  "rw_cas cur new w = (if w = cur then (True, new) else (False, w))"

section \<open>The steps\<close>

datatype rw_pc = RwIdle | RwRead "64 word" | RwReader | RwUpgrade | RwReadDrop
  | RwWrite "64 word" | RwWriter | RwWriteDrop | RwPanic

record rw_lock =
  rw_state :: "64 word"
  rw_pc :: "nat \<Rightarrow> rw_pc"

definition rw_new :: rw_lock where
  "rw_new = \<lparr>rw_state = 0, rw_pc = (\<lambda>_. RwIdle)\<rparr>"

definition rw_go :: "rw_lock \<Rightarrow> nat \<Rightarrow> rw_pc \<Rightarrow> rw_lock" where
  "rw_go s t c = s\<lparr>rw_pc := (rw_pc s)(t := c)\<rparr>"

text \<open>\<open>try_read\<close> and \<open>read_lock\<close>: load the word, and if no writer has it exchange it for its successor.\<close>

definition rw_read_load :: "rw_lock \<Rightarrow> nat \<Rightarrow> rw_lock" where
  "rw_read_load s t = rw_go s t (if is_write_locked (rw_state s) then RwIdle else RwRead (rw_state s))"

definition rw_read_cas :: "rw_lock \<Rightarrow> nat \<Rightarrow> 64 word \<Rightarrow> rw_lock" where
  "rw_read_cas s t prev = (if prev = - 1 then rw_go s t RwPanic
     else case rw_cas prev (prev + 1) (rw_state s) of (ok, w) \<Rightarrow>
       rw_go (s\<lparr>rw_state := w\<rparr>) t (if ok then RwReader else RwIdle))"

text \<open>\<open>try_write\<close> (\<open>rw_write_cas\<close>) and \<open>write_lock\<close> (\<open>rw_write_lock_cas\<close>).\<close>

definition rw_write_load :: "rw_lock \<Rightarrow> nat \<Rightarrow> rw_lock" where
  "rw_write_load s t = rw_go s t (if rw_state s > 0 then RwIdle else RwWrite (rw_state s))"

definition rw_write_cas :: "rw_lock \<Rightarrow> nat \<Rightarrow> 64 word \<Rightarrow> rw_lock" where
  "rw_write_cas s t prev = (case rw_cas prev (prev OR STATE_WRITER_LOCKED) (rw_state s) of (ok, w) \<Rightarrow>
     rw_go (s\<lparr>rw_state := w\<rparr>) t (if ok then RwWriter else RwIdle))"

definition rw_write_lock_cas :: "rw_lock \<Rightarrow> nat \<Rightarrow> rw_lock" where
  "rw_write_lock_cas s t = (case rw_cas 0 STATE_WRITER_LOCKED (rw_state s) of (ok, w) \<Rightarrow>
     rw_go (s\<lparr>rw_state := w\<rparr>) t (if ok then RwWriter else RwIdle))"

text \<open>\<open>upgrade\<close> tries until its client is the only reader; \<open>downgrade\<close> asserts that it is the writer.\<close>

definition rw_upgrade_cas :: "rw_lock \<Rightarrow> nat \<Rightarrow> rw_lock" where
  "rw_upgrade_cas s t = (case rw_cas 1 STATE_WRITER_LOCKED (rw_state s) of (ok, w) \<Rightarrow>
     rw_go (s\<lparr>rw_state := w\<rparr>) t (if ok then RwWriter else RwUpgrade))"

definition rw_downgrade :: "rw_lock \<Rightarrow> nat \<Rightarrow> rw_lock" where
  "rw_downgrade s t = (case rw_cas STATE_WRITER_LOCKED 1 (rw_state s) of (ok, w) \<Rightarrow>
     rw_go (s\<lparr>rw_state := w\<rparr>) t (if ok then RwReader else RwPanic))"

text \<open>Dropping a guard: the debug assertion, then the change of the word.\<close>

definition rw_read_check :: "rw_lock \<Rightarrow> nat \<Rightarrow> rw_lock" where
  "rw_read_check s t = rw_go s t (if rw_state s AND STATE_MASK = 0 then RwReadDrop else RwPanic)"

definition rw_read_drop :: "rw_lock \<Rightarrow> nat \<Rightarrow> rw_lock" where
  "rw_read_drop s t = rw_go (s\<lparr>rw_state := rw_state s - 1\<rparr>) t RwIdle"

definition rw_write_check :: "rw_lock \<Rightarrow> nat \<Rightarrow> rw_lock" where
  "rw_write_check s t =
     rw_go s t (if rw_state s AND STATE_MASK = STATE_WRITER_LOCKED then RwWriteDrop else RwPanic)"

definition rw_write_drop :: "rw_lock \<Rightarrow> nat \<Rightarrow> rw_lock" where
  "rw_write_drop s t = rw_go (s\<lparr>rw_state := rw_state s AND NOT STATE_WRITER_LOCKED\<rparr>) t RwIdle"

inductive rw_step :: "nat \<Rightarrow> rw_lock \<Rightarrow> rw_lock \<Rightarrow> bool" for N where
  rw_read_loads: "t < N \<Longrightarrow> rw_pc s t = RwIdle \<Longrightarrow> rw_step N s (rw_read_load s t)"
| rw_read_cass: "t < N \<Longrightarrow> rw_pc s t = RwRead p \<Longrightarrow> rw_step N s (rw_read_cas s t p)"
| rw_write_loads: "t < N \<Longrightarrow> rw_pc s t = RwIdle \<Longrightarrow> rw_step N s (rw_write_load s t)"
| rw_write_cass: "t < N \<Longrightarrow> rw_pc s t = RwWrite p \<Longrightarrow> rw_step N s (rw_write_cas s t p)"
| rw_write_lock_cass: "t < N \<Longrightarrow> rw_pc s t = RwWrite p \<Longrightarrow> rw_step N s (rw_write_lock_cas s t)"
| rw_upgrades: "t < N \<Longrightarrow> rw_pc s t = RwReader \<Longrightarrow> rw_step N s (rw_go s t RwUpgrade)"
| rw_upgrade_cass: "t < N \<Longrightarrow> rw_pc s t = RwUpgrade \<Longrightarrow> rw_step N s (rw_upgrade_cas s t)"
| rw_downgrades: "t < N \<Longrightarrow> rw_pc s t = RwWriter \<Longrightarrow> rw_step N s (rw_downgrade s t)"
| rw_read_checks: "t < N \<Longrightarrow> rw_pc s t = RwReader \<Longrightarrow> rw_step N s (rw_read_check s t)"
| rw_read_drops: "t < N \<Longrightarrow> rw_pc s t = RwReadDrop \<Longrightarrow> rw_step N s (rw_read_drop s t)"
| rw_write_checks: "t < N \<Longrightarrow> rw_pc s t = RwWriter \<Longrightarrow> rw_step N s (rw_write_check s t)"
| rw_write_drops: "t < N \<Longrightarrow> rw_pc s t = RwWriteDrop \<Longrightarrow> rw_step N s (rw_write_drop s t)"

inductive_cases rw_stepE: "rw_step N s s'"

section \<open>Who holds the lock\<close>

text \<open>A reader that upgrades, or whose guard is being dropped, still counts.\<close>

definition rw_reads :: "rw_pc \<Rightarrow> bool" where
  "rw_reads c \<longleftrightarrow> c \<in> {RwReader, RwUpgrade, RwReadDrop}"

definition rw_writes :: "rw_pc \<Rightarrow> bool" where
  "rw_writes c \<longleftrightarrow> c \<in> {RwWriter, RwWriteDrop}"

lemma rw_kinds [simp]:
  "rw_reads RwReader" "rw_reads RwUpgrade" "rw_reads RwReadDrop" "rw_writes RwWriter" "rw_writes RwWriteDrop"
  "\<not> rw_reads RwIdle" "\<not> rw_reads RwPanic" "\<not> rw_reads (RwRead p)" "\<not> rw_reads (RwWrite p)"
  "\<not> rw_writes RwIdle" "\<not> rw_writes RwPanic" "\<not> rw_writes (RwRead p)" "\<not> rw_writes (RwWrite p)"
  "\<not> rw_reads RwWriter" "\<not> rw_reads RwWriteDrop" "\<not> rw_writes RwReader" "\<not> rw_writes RwUpgrade" "\<not> rw_writes RwReadDrop"
  by (simp_all add: rw_reads_def rw_writes_def)

definition rw_readers :: "rw_lock \<Rightarrow> nat set" where
  "rw_readers s = {t. rw_reads (rw_pc s t)}"

definition rw_writers :: "rw_lock \<Rightarrow> nat set" where
  "rw_writers s = {t. rw_writes (rw_pc s t)}"

definition rw_pc_ok :: "rw_pc \<Rightarrow> bool" where
  "rw_pc_ok c \<longleftrightarrow> c \<noteq> RwPanic \<and> (\<forall>p. c = RwWrite p \<longrightarrow> p = 0) \<and> (\<forall>p. c = RwRead p \<longrightarrow> p < STATE_WRITER_LOCKED)"

definition rw_pcs_ok :: "nat \<Rightarrow> rw_lock \<Rightarrow> bool" where
  "rw_pcs_ok N s \<longleftrightarrow> (\<forall>t. rw_pc_ok (rw_pc s t)) \<and> (\<forall>t\<ge>N. rw_pc s t = RwIdle)"

definition rw_inv :: "nat \<Rightarrow> rw_lock \<Rightarrow> bool" where
  "rw_inv N s \<longleftrightarrow> rw_pcs_ok N s \<and>
     (if rw_writers s = {} then rw_state s = of_nat (card (rw_readers s))
      else rw_state s = STATE_WRITER_LOCKED \<and> rw_readers s = {} \<and> (\<exists>t. rw_writers s = {t}))"

lemma rw_go_sets:
  "rw_readers (rw_go s t c) = (if rw_reads c then insert t (rw_readers s) else rw_readers s - {t})"
  "rw_writers (rw_go s t c) = (if rw_writes c then insert t (rw_writers s) else rw_writers s - {t})"
  "rw_readers (s\<lparr>rw_state := w\<rparr>) = rw_readers s" "rw_writers (s\<lparr>rw_state := w\<rparr>) = rw_writers s"
  "rw_state (rw_go s t c) = rw_state s"
  by (auto simp: rw_readers_def rw_writers_def rw_go_def)

lemma rw_mem_sets: "t \<in> rw_readers s \<longleftrightarrow> rw_reads (rw_pc s t)" "t \<in> rw_writers s \<longleftrightarrow> rw_writes (rw_pc s t)"
  by (simp_all add: rw_readers_def rw_writers_def)

lemma rw_go_pcs: "rw_pcs_ok N s \<Longrightarrow> t < N \<Longrightarrow> rw_pc_ok c \<Longrightarrow> rw_pcs_ok N (rw_go (s\<lparr>rw_state := w\<rparr>) t c)"
  by (simp add: rw_pcs_ok_def rw_go_def)

lemma rw_readers_card:
  assumes "rw_pcs_ok N s"
  shows "finite (rw_readers s)" "card (rw_readers s) \<le> N"
proof -
  have "t < N" if "t \<in> rw_readers s" for t
    using assms that by (cases "t < N") (auto simp: rw_readers_def rw_pcs_ok_def)
  then have "rw_readers s \<subseteq> {..<N}" by blast
  then show "finite (rw_readers s)" "card (rw_readers s) \<le> N"
    using finite_subset card_mono [of "{..<N}"] by auto
qed

text \<open>A count of readers below \<open>2^62\<close> does not touch the writer's bit.\<close>

lemma writer_val: "STATE_WRITER_LOCKED = 4611686018427387904" "STATE_MASK = 4611686018427387904"
  by (simp_all add: STATE_WRITER_LOCKED_def STATE_MASK_def push_bit_eq_mult)

lemma mask_bit: "bit STATE_MASK i \<longleftrightarrow> i = 62"
  unfolding STATE_MASK_def bit_push_bit_iff bit_1_iff by auto

lemma rw_count:
  assumes "n < 2 ^ 62"
  shows "of_nat n AND STATE_MASK = 0" "of_nat n < STATE_WRITER_LOCKED" "(of_nat n :: 64 word) = 0 \<longleftrightarrow> n = 0"
    "(of_nat n :: 64 word) = 1 \<longleftrightarrow> n = 1" "of_nat n \<noteq> (- 1 :: 64 word)"
proof -
  have u: "unat (of_nat n :: 64 word) = n" using assms by (simp add: unat_of_nat take_bit_nat_eq_self)
  have "\<not> bit (of_nat n :: 64 word) 62"
    using assms by (simp only: bit_of_nat_iff) (simp add: bit_iff_odd)
  then show "of_nat n AND STATE_MASK = 0"
    by (intro bit_eqI) (auto simp: bit_and_iff mask_bit)
  show "of_nat n < STATE_WRITER_LOCKED" using assms u by (simp add: word_less_nat_alt writer_val)
  show "(of_nat n :: 64 word) = 0 \<longleftrightarrow> n = 0" by (simp only: word_unat_eq_iff u unat_0)
  show "(of_nat n :: 64 word) = 1 \<longleftrightarrow> n = 1" by (simp only: word_unat_eq_iff u unat_1)
  show "of_nat n \<noteq> (- 1 :: 64 word)"
  proof
    assume "of_nat n = (- 1 :: 64 word)"
    with u have "n = unat (- 1 :: 64 word)" by simp
    with assms show False by (simp add: unsigned_minus_1_eq_mask mask_eq_exp_minus_1)
  qed
qed


text \<open>The changes of the word and of who holds the lock that keep the invariant.\<close>

lemma rw_inv_go:
  assumes "rw_inv N s" and "t < N" and "rw_pc_ok c"
    and "rw_writers s = {} \<Longrightarrow> rw_state s = of_nat (card (rw_readers s)) \<Longrightarrow> 
      (if rw_writes c then rw_readers s - {t} = {} \<and> w = STATE_WRITER_LOCKED
       else w = of_nat (card (if rw_reads c then insert t (rw_readers s) else rw_readers s - {t})))"
    and "\<And>u. rw_writers s = {u} \<Longrightarrow> rw_readers s = {} \<Longrightarrow> rw_state s = STATE_WRITER_LOCKED \<Longrightarrow>
      (if t = u \<and> \<not> rw_writes c then w = (if rw_reads c then 1 else 0)
       else w = STATE_WRITER_LOCKED \<and> \<not> rw_reads c \<and> (t = u \<or> \<not> rw_writes c))"
  shows "rw_inv N (rw_go (s\<lparr>rw_state := w\<rparr>) t c)"
proof -
  have p: "rw_pcs_ok N (rw_go (s\<lparr>rw_state := w\<rparr>) t c)" using assms(1-3) by (simp add: rw_inv_def rw_go_pcs)
  have nb: "\<not> (rw_reads c \<and> rw_writes c)" by (cases c) simp_all
  show ?thesis
  proof (cases "rw_writers s = {}")
    case True
    with assms(1) have "rw_state s = of_nat (card (rw_readers s))" by (simp add: rw_inv_def)
    from assms(4) [OF True this] nb p True show ?thesis by (simp add: rw_inv_def rw_go_sets split: if_splits)
  next
    case False
    with assms(1) obtain u where u: "rw_writers s = {u}" "rw_readers s = {}" "rw_state s = STATE_WRITER_LOCKED"
      by (auto simp: rw_inv_def)
    from assms(5) [OF u] nb p u show ?thesis by (auto simp: rw_inv_def rw_go_sets split: if_splits)
  qed
qed

lemma rw_inv_same:
  assumes "rw_inv N s" and "t < N" and "rw_pc_ok c"
    and "rw_reads c = rw_reads (rw_pc s t)" and "rw_writes c = rw_writes (rw_pc s t)"
  shows "rw_inv N (rw_go s t c)"
proof -
  have "rw_readers (rw_go s t c) = rw_readers s" "rw_writers (rw_go s t c) = rw_writers s"
    using assms(4,5) by (auto simp: rw_go_sets rw_mem_sets)
  moreover have "rw_pcs_ok N (rw_go s t c)" using assms(1-3) rw_go_pcs [of N s t c "rw_state s"] by (simp add: rw_inv_def)
  ultimately show ?thesis using assms(1) by (simp add: rw_inv_def rw_go_sets)
qed

lemma rw_inv_cases:
  assumes "N < 2 ^ 62" and "rw_inv N s"
  obtains (count) "rw_writers s = {}" "rw_state s = of_nat (card (rw_readers s))" "finite (rw_readers s)"
      "card (rw_readers s) < 2 ^ 62" "rw_state s < STATE_WRITER_LOCKED" "rw_state s AND STATE_MASK = 0"
  | (writer) u where "rw_writers s = {u}" "rw_readers s = {}" "rw_state s = STATE_WRITER_LOCKED"
proof (cases "rw_writers s = {}")
  case True
  have P: "rw_pcs_ok N s" using assms(2) by (simp add: rw_inv_def)
  then have "card (rw_readers s) < 2 ^ 62" using rw_readers_card [OF P] assms(1) by linarith
  moreover have "rw_state s = of_nat (card (rw_readers s))" using True assms(2) by (simp add: rw_inv_def)
  ultimately show ?thesis using count [OF True] rw_readers_card [OF P] rw_count by simp
next
  case False
  then show ?thesis using writer assms(2) by (auto simp: rw_inv_def)
qed

lemma writer_bit: "STATE_WRITER_LOCKED AND STATE_MASK = STATE_WRITER_LOCKED" "STATE_WRITER_LOCKED \<noteq> 0"
  "STATE_WRITER_LOCKED \<noteq> 1" "STATE_WRITER_LOCKED AND NOT STATE_WRITER_LOCKED = 0" "0 OR STATE_WRITER_LOCKED = STATE_WRITER_LOCKED"
  by (simp_all add: writer_val)

text \<open>Each operation keeps the invariant: the loads and the assertions change nothing that counts, and an
  assertion holds where the invariant does.\<close>

lemma rw_loads_inv:
  assumes "N < 2 ^ 62" and "rw_inv N s" and "t < N"
  shows "rw_pc s t = RwIdle \<Longrightarrow> rw_inv N (rw_read_load s t)" and "rw_pc s t = RwIdle \<Longrightarrow> rw_inv N (rw_write_load s t)"
    and "rw_pc s t = RwReader \<Longrightarrow> rw_inv N (rw_go s t RwUpgrade)"
proof -
  note same = rw_inv_same [OF assms(2,3)]
  show "rw_inv N (rw_read_load s t)" if "rw_pc s t = RwIdle"
    using assms(1,2) that unfolding rw_read_load_def
    by (cases rule: rw_inv_cases) (auto simp: rw_pc_ok_def is_write_locked_def writer_bit intro!: same)
  show "rw_inv N (rw_write_load s t)" if "rw_pc s t = RwIdle"
    using that unfolding rw_write_load_def by (auto simp: rw_pc_ok_def word_gt_0 intro!: same)
  show "rw_inv N (rw_go s t RwUpgrade)" if "rw_pc s t = RwReader"
    using that by (auto simp: rw_pc_ok_def intro!: same)
qed

lemma rw_checks_inv:
  assumes "N < 2 ^ 62" and "rw_inv N s" and "t < N"
  shows "rw_pc s t = RwReader \<Longrightarrow> rw_inv N (rw_read_check s t)" and "rw_pc s t = RwWriter \<Longrightarrow> rw_inv N (rw_write_check s t)"
proof -
  note same = rw_inv_same [OF assms(2,3)]
  show "rw_inv N (rw_read_check s t)" if "rw_pc s t = RwReader"
    using assms(1,2) that rw_mem_sets(1) [of t s] unfolding rw_read_check_def
    by (cases rule: rw_inv_cases) (auto simp: rw_pc_ok_def intro!: same)
  show "rw_inv N (rw_write_check s t)" if "rw_pc s t = RwWriter"
    using assms(1,2) that rw_mem_sets(2) [of t s] unfolding rw_write_check_def
    by (cases rule: rw_inv_cases) (auto simp: rw_pc_ok_def writer_bit intro!: same)
qed

lemma rw_idle_sets:
  assumes "rw_inv N s" and "rw_pc s t = RwRead p \<or> rw_pc s t = RwWrite p"
  shows "t \<notin> rw_readers s" and "t \<notin> rw_writers s"
  using assms(2) by (auto simp: rw_mem_sets)

lemma rw_read_cas_inv:
  assumes "N < 2 ^ 62" and I: "rw_inv N s" and t: "t < N" and pc: "rw_pc s t = RwRead p"
  shows "rw_inv N (rw_read_cas s t p)"
proof -
  have "rw_pc_ok (rw_pc s t)" using I by (simp add: rw_inv_def rw_pcs_ok_def)
  then have p: "p < STATE_WRITER_LOCKED" "p \<noteq> - 1" using pc by (auto simp: rw_pc_ok_def writer_val)
  show ?thesis
  proof (cases "rw_state s = p")
    case True
    with p have s': "rw_read_cas s t p = rw_go (s\<lparr>rw_state := p + 1\<rparr>) t RwReader" by (simp add: rw_read_cas_def rw_cas_def)
    from assms(1) I show ?thesis unfolding s'
      by (cases rule: rw_inv_cases)
        (rule rw_inv_go [OF I t], use rw_idle_sets [OF I disjI1 [OF pc]] True p in \<open>auto simp: rw_pc_ok_def\<close>)+
  next
    case False
    with p pc show ?thesis by (auto simp: rw_read_cas_def rw_cas_def rw_pc_ok_def intro: rw_inv_same [OF I t])
  qed
qed

text \<open>The two ways to take the write lock are the same compare and swap, because a writer only tries it
  when it has seen a word of 0.\<close>

lemma rw_write_cas_same: "rw_write_cas s t 0 = rw_write_lock_cas s t"
  by (simp add: rw_write_cas_def rw_write_lock_cas_def)

lemma rw_write_cas_inv:
  assumes "N < 2 ^ 62" and I: "rw_inv N s" and t: "t < N" and pc: "rw_pc s t = RwWrite p"
  shows "rw_inv N (rw_write_lock_cas s t)" and "p = 0"
proof -
  have "rw_pc_ok (rw_pc s t)" using I by (simp add: rw_inv_def rw_pcs_ok_def)
  then show "p = 0" using pc by (simp add: rw_pc_ok_def)
  show "rw_inv N (rw_write_lock_cas s t)"
  proof (cases "rw_state s = 0")
    case True
    then have s': "rw_write_lock_cas s t = rw_go (s\<lparr>rw_state := STATE_WRITER_LOCKED\<rparr>) t RwWriter"
      by (simp add: rw_write_lock_cas_def rw_cas_def)
    from assms(1) I show ?thesis unfolding s'
      by (cases rule: rw_inv_cases)
        (rule rw_inv_go [OF I t], use rw_idle_sets [OF I disjI2 [OF pc]] True rw_count(3) writer_bit in \<open>auto simp: rw_pc_ok_def\<close>)+
  next
    case False
    with pc show ?thesis by (auto simp: rw_write_lock_cas_def rw_cas_def rw_pc_ok_def intro: rw_inv_same [OF I t])
  qed
qed

lemma rw_upgrade_cas_inv:
  assumes "N < 2 ^ 62" and I: "rw_inv N s" and t: "t < N" and pc: "rw_pc s t = RwUpgrade"
  shows "rw_inv N (rw_upgrade_cas s t)"
proof (cases "rw_state s = 1")
  case True
  have r: "t \<in> rw_readers s" using pc by (simp add: rw_mem_sets)
  from True have s': "rw_upgrade_cas s t = rw_go (s\<lparr>rw_state := STATE_WRITER_LOCKED\<rparr>) t RwWriter"
    by (simp add: rw_upgrade_cas_def rw_cas_def)
  from assms(1) I show ?thesis unfolding s'
  proof (cases rule: rw_inv_cases)
    case count
    with True rw_count(4) have "card (rw_readers s) = 1" by metis
    with r have "rw_readers s - {t} = {}" by (auto simp: card_1_singleton_iff)
    with count r show "rw_inv N (rw_go (s\<lparr>rw_state := STATE_WRITER_LOCKED\<rparr>) t RwWriter)"
      by (intro rw_inv_go [OF I t]) (auto simp: rw_pc_ok_def)
  qed (use r in auto)
next
  case False
  with pc show ?thesis by (auto simp: rw_upgrade_cas_def rw_cas_def rw_pc_ok_def intro: rw_inv_same [OF I t])
qed

lemma rw_downgrade_inv:
  assumes "N < 2 ^ 62" and I: "rw_inv N s" and t: "t < N" and pc: "rw_pc s t = RwWriter"
  shows "rw_inv N (rw_downgrade s t)"
proof -
  have w: "t \<in> rw_writers s" using pc by (simp add: rw_mem_sets)
  from assms(1) I show ?thesis
  proof (cases rule: rw_inv_cases)
    case (writer u)
    then have s': "rw_downgrade s t = rw_go (s\<lparr>rw_state := 1\<rparr>) t RwReader" by (simp add: rw_downgrade_def rw_cas_def)
    show ?thesis unfolding s' by (rule rw_inv_go [OF I t]) (use w writer pc in \<open>auto simp: rw_pc_ok_def\<close>)
  qed (use w in auto)
qed

lemma rw_drops_inv:
  assumes "N < 2 ^ 62" and I: "rw_inv N s" and t: "t < N"
  shows "rw_pc s t = RwReadDrop \<Longrightarrow> rw_inv N (rw_read_drop s t)" and "rw_pc s t = RwWriteDrop \<Longrightarrow> rw_inv N (rw_write_drop s t)"
proof -
  show "rw_inv N (rw_read_drop s t)" if pc: "rw_pc s t = RwReadDrop"
  proof -
    have r: "t \<in> rw_readers s" using pc by (simp add: rw_mem_sets)
    from assms(1) I show ?thesis
    proof (cases rule: rw_inv_cases)
      case count
      then have "rw_state s - 1 = of_nat (card (rw_readers s - {t}))"
        using card_Suc_Diff1 [OF count(3) r] by (metis add_diff_cancel_left' of_nat_Suc)
      then show ?thesis unfolding rw_read_drop_def
        by (intro rw_inv_go [OF I t]) (use r count pc in \<open>auto simp: rw_pc_ok_def\<close>)
    qed (use r in auto)
  qed
  show "rw_inv N (rw_write_drop s t)" if pc: "rw_pc s t = RwWriteDrop"
  proof -
    have w: "t \<in> rw_writers s" using pc by (simp add: rw_mem_sets)
    from assms(1) I show ?thesis
    proof (cases rule: rw_inv_cases)
      case (writer u)
      then show ?thesis unfolding rw_write_drop_def
        by (intro rw_inv_go [OF I t]) (use w writer writer_bit pc in \<open>auto simp: rw_pc_ok_def\<close>)
    qed (use w in auto)
  qed
qed

lemma rw_step_inv:
  assumes "N < 2 ^ 62" and "rw_inv N s" and "rw_step N s s'"
  shows "rw_inv N s'"
  using assms(3)
proof (cases rule: rw_step.cases)
  case (rw_write_cass t p)
  with rw_write_cas_inv [OF assms(1,2)] show ?thesis by (metis rw_write_cas_same)
qed (auto intro: rw_loads_inv [OF assms(1,2)] rw_checks_inv [OF assms(1,2)] rw_read_cas_inv [OF assms(1,2)]
  rw_write_cas_inv(1) [OF assms(1,2)] rw_upgrade_cas_inv [OF assms(1,2)] rw_downgrade_inv [OF assms(1,2)] rw_drops_inv [OF assms(1,2)])

section \<open>Exclusion\<close>

text \<open>A lock that can also be shared: while a client holds it no client reads.\<close>

locale shared_lock = exclusive_lock +
  fixes reads :: "'a \<Rightarrow> nat \<Rightarrow> bool"
  assumes inv_no_reader: "inv s \<Longrightarrow> holds s t \<Longrightarrow> \<not> reads s u"
begin

lemma no_reader: "init s \<Longrightarrow> step\<^sup>*\<^sup>* s s' \<Longrightarrow> holds s' t \<Longrightarrow> \<not> reads s' u"
  using reach_inv inv_no_reader by blast

end

lemma rw_inv_new: "rw_inv N rw_new"
  by (simp add: rw_inv_def rw_pcs_ok_def rw_pc_ok_def rw_new_def rw_readers_def rw_writers_def)

definition rw_holds :: "rw_lock \<Rightarrow> nat \<Rightarrow> bool" where
  "rw_holds s t \<longleftrightarrow> rw_writes (rw_pc s t)"

definition rw_shares :: "rw_lock \<Rightarrow> nat \<Rightarrow> bool" where
  "rw_shares s t \<longleftrightarrow> rw_reads (rw_pc s t)"

lemma rw_inv_holds: "rw_inv N s \<Longrightarrow> rw_holds s t \<Longrightarrow> rw_writers s = {t} \<and> rw_readers s = {}"
  by (auto simp: rw_inv_def rw_holds_def simp flip: rw_mem_sets split: if_splits)

interpretation rw: shared_lock "\<lambda>s. s = rw_new" "rw_step (N mod 2 ^ 62)" rw_holds "rw_inv (N mod 2 ^ 62)" rw_shares for N
proof unfold_locales
  show "rw_inv (N mod 2 ^ 62) s" if "s = rw_new" for s using that rw_inv_new by simp
  show "rw_inv (N mod 2 ^ 62) s'" if "rw_inv (N mod 2 ^ 62) s" "rw_step (N mod 2 ^ 62) s s'" for s s'
    by (rule rw_step_inv [OF _ that]) simp
  show "t = u" if "rw_inv (N mod 2 ^ 62) s" "rw_holds s t" "rw_holds s u" for s t u
    using rw_inv_holds [OF that(1,2)] rw_inv_holds [OF that(1,3)] by simp
  show "\<not> rw_shares s u" if "rw_inv (N mod 2 ^ 62) s" "rw_holds s t" for s t u
    using rw_inv_holds [OF that] rw_mem_sets(1) [of u s] by (simp add: rw_shares_def)
qed

lemma rw_inv_reach: "N < 2 ^ 62 \<Longrightarrow> (rw_step N)\<^sup>*\<^sup>* rw_new s \<Longrightarrow> rw_inv N s"
  using rw.reach_inv [OF refl, of N s] by simp

text \<open>C11: With fewer than \<open>2^62\<close> clients, a client that holds the reader-writer lock for writing holds it
  alone, the word counts the readers while there is no writer, and no assertion of the lock fails.\<close>

theorem rw_lock_exclusion:
  assumes "N < 2 ^ 62" and "(rw_step N)\<^sup>*\<^sup>* rw_new s"
  shows "(\<forall>t u. rw_holds s t \<longrightarrow> (rw_holds s u \<longrightarrow> t = u) \<and> \<not> rw_shares s u) \<and>
    ((\<forall>t. \<not> rw_holds s t) \<longrightarrow> unat (rw_state s) = card {t. rw_shares s t}) \<and> (\<forall>t. rw_pc s t \<noteq> RwPanic)"
proof (intro conjI allI impI)
  fix t u
  note r = rw.exclusion [OF refl, of N s t u] rw.no_reader [OF refl, of N s t u]
  show "t = u" if "rw_holds s t" "rw_holds s u" using r assms that by simp
  show "\<not> rw_shares s u" if "rw_holds s t" using r assms that by simp
next
  note I = rw_inv_reach [OF assms]
  show "rw_pc s t \<noteq> RwPanic" for t using I by (auto simp: rw_inv_def rw_pcs_ok_def rw_pc_ok_def)
  assume "\<forall>t. \<not> rw_holds s t"
  then have "rw_writers s = {}" by (auto simp: rw_writers_def rw_holds_def)
  then show "unat (rw_state s) = card {t. rw_shares s t}"
    by (cases rule: rw_inv_cases [OF assms(1) I])
      (simp_all add: unat_of_nat take_bit_nat_eq_self rw_shares_def flip: rw_readers_def)
qed

text \<open>Two upgrades at once: each waits for the other to give up its share.\<close>

lemma upgrades_stay:
  assumes "N < 2 ^ 62" and "rw_inv N s" and "rw_step N s s'" and "t \<noteq> u"
    and "rw_pc s t = RwUpgrade" and "rw_pc s u = RwUpgrade"
  shows "rw_pc s' t = RwUpgrade" and "rw_pc s' u = RwUpgrade"
proof -
  have two: "{t, u} \<subseteq> rw_readers s" using assms(5,6) by (simp add: rw_mem_sets)
  have "rw_state s \<noteq> 1"
    using assms(1,2)
  proof (cases rule: rw_inv_cases)
    case count
    have "2 \<le> card (rw_readers s)" using card_mono [OF count(3) two] assms(4) by simp
    with count rw_count(4) [OF count(4)] show ?thesis by simp
  qed (use two in auto)
  then show "rw_pc s' t = RwUpgrade" "rw_pc s' u = RwUpgrade"
    using assms(3,5,6)
    by (auto elim!: rw_stepE simp: rw_go_def rw_cas_def rw_read_load_def rw_read_cas_def rw_write_load_def
        rw_write_cas_def rw_write_lock_cas_def rw_upgrade_cas_def rw_downgrade_def rw_read_check_def rw_read_drop_def
        rw_write_check_def rw_write_drop_def split: if_splits)
qed

lemma upgrades_stay_reach:
  assumes "(rw_step N)\<^sup>*\<^sup>* s s'" and "N < 2 ^ 62" and "rw_inv N s" and "t \<noteq> u"
    and "rw_pc s t = RwUpgrade" and "rw_pc s u = RwUpgrade"
  shows "rw_inv N s' \<and> rw_pc s' t = RwUpgrade \<and> rw_pc s' u = RwUpgrade"
  using assms(1)
proof (induction rule: rtranclp_induct)
  case (step s' s'')
  then show ?case
    using rw_step_inv [OF assms(2) _ step.hyps(2)] upgrades_stay [OF assms(2) _ step.hyps(2) assms(4)] by blast
qed (use assms in simp)

text \<open>C34: When two readers upgrade at the same time, both wait forever and no client writes again.\<close>

theorem upgrades_deadlock:
  assumes "N < 2 ^ 62" and "(rw_step N)\<^sup>*\<^sup>* rw_new s" and "t \<noteq> u"
    and "rw_pc s t = RwUpgrade" and "rw_pc s u = RwUpgrade" and "(rw_step N)\<^sup>*\<^sup>* s s'"
  shows "rw_pc s' t = RwUpgrade \<and> rw_pc s' u = RwUpgrade \<and> (\<forall>v. \<not> rw_holds s' v)"
proof -
  have k: "rw_inv N s' \<and> rw_pc s' t = RwUpgrade \<and> rw_pc s' u = RwUpgrade"
    using upgrades_stay_reach [OF assms(6,1) rw_inv_reach [OF assms(1,2)] assms(3-5)] .
  then show ?thesis using rw_inv_holds [of N s'] rw_mem_sets(1) [of t s'] by auto
qed

text \<open>Two clients read and both upgrade.\<close>

definition rw_two :: "rw_pc \<Rightarrow> rw_pc \<Rightarrow> 64 word \<Rightarrow> rw_lock" where
  "rw_two a b w = \<lparr>rw_state = w, rw_pc = (\<lambda>_. RwIdle)(0 := a, 1 := b)\<rparr>"

lemma rw_two_simps: "rw_pc (rw_two a b w) 0 = a" "rw_pc (rw_two a b w) (Suc 0) = b" "rw_state (rw_two a b w) = w"
  "rw_go (rw_two a b w) 0 c = rw_two c b w" "rw_go (rw_two a b w) (Suc 0) c = rw_two a c w"
  "(rw_two a b w)\<lparr>rw_state := w'\<rparr> = rw_two a b w'"
  by (auto simp: rw_two_def rw_go_def fun_eq_iff)

lemma rw_two_reach: "(rw_step 2)\<^sup>*\<^sup>* rw_new (rw_two RwUpgrade RwUpgrade 2)"
proof -
  note w = rw_two_simps rw_read_load_def rw_read_cas_def rw_cas_def is_write_locked_def writer_val
  have n: "rw_new = rw_two RwIdle RwIdle 0" by (auto simp: rw_new_def rw_two_def)
  have s1: "rw_step 2 (rw_two RwIdle RwIdle 0) (rw_two (RwRead 0) RwIdle 0)"
    using rw_read_loads [of 0 2 "rw_two RwIdle RwIdle 0"] by (simp add: w)
  have s2: "rw_step 2 (rw_two (RwRead 0) RwIdle 0) (rw_two RwReader RwIdle 1)"
    using rw_read_cass [of 0 2 "rw_two (RwRead 0) RwIdle 0"] by (simp add: w)
  have s3: "rw_step 2 (rw_two RwReader RwIdle 1) (rw_two RwReader (RwRead 1) 1)"
    using rw_read_loads [of 1 2 "rw_two RwReader RwIdle 1"] by (simp add: w)
  have s4: "rw_step 2 (rw_two RwReader (RwRead 1) 1) (rw_two RwReader RwReader 2)"
    using rw_read_cass [of 1 2 "rw_two RwReader (RwRead 1) 1"] by (simp add: w)
  have s5: "rw_step 2 (rw_two RwReader RwReader 2) (rw_two RwUpgrade RwReader 2)"
    using rw_upgrades [of 0 2 "rw_two RwReader RwReader 2"] by (simp add: w)
  have s6: "rw_step 2 (rw_two RwUpgrade RwReader 2) (rw_two RwUpgrade RwUpgrade 2)"
    using rw_upgrades [of 1 2 "rw_two RwUpgrade RwReader 2"] by (simp add: w)
  note k = rtranclp.rtrancl_into_rtrancl
  show ?thesis unfolding n by (rule k [OF k [OF k [OF k [OF k [OF r_into_rtranclp [of "rw_step 2", OF s1] s2] s3] s4] s5] s6])
qed

lemma rw_lock_exclusion_witness:
  "unat (rw_state (rw_two RwUpgrade RwUpgrade 2)) = card {t. rw_shares (rw_two RwUpgrade RwUpgrade 2) t}"
proof -
  have "\<forall>t. \<not> rw_holds (rw_two RwUpgrade RwUpgrade 2) t" by (auto simp: rw_holds_def rw_two_def)
  with rw_lock_exclusion [OF _ rw_two_reach] show ?thesis by simp
qed

lemma upgrades_deadlock_witness: "\<not> rw_holds (rw_two RwUpgrade RwUpgrade 2) 5"
  using upgrades_deadlock [OF _ rw_two_reach _ _ _ rtranclp.rtrancl_refl, of 0 1] by (simp add: rw_two_simps)

end
