(* ===== verification/Path_Comps.thy ===== *)
theory Path_Comps
  imports Byte_Rw "HOL-Library.List_Lexorder"
begin

text \<open>
  The components of a path (\<open>lib/path/src/lib.rs\<close>): the double-ended iterator that splits a path at
  its separators, dropping empty components and the component \<open>.\<close> but at the start of the path, and
  what it promises: it is a queue with two ends that holds the components of the path. A string is
  the list of its bytes.
\<close>

section \<open>Components\<close>

definition is_sep_byte :: "byte \<Rightarrow> bool" where
  "is_sep_byte b \<longleftrightarrow> b = 0x2F"

definition has_physical_root :: "bytes \<Rightarrow> bool" where
  "has_physical_root path \<longleftrightarrow> path \<noteq> [] \<and> is_sep_byte (path ! 0)"

datatype path_state = StPrefix | StStartDir | StBody | StDone

fun path_state_rank :: "path_state \<Rightarrow> nat" where
  "path_state_rank StPrefix = 0"
| "path_state_rank StStartDir = 1"
| "path_state_rank StBody = 2"
| "path_state_rank StDone = 3"

text \<open>\<open>#[derive(PartialOrd)]\<close> orders the states, and the components, as they are declared.\<close>

instantiation path_state :: linorder
begin

definition less_eq_path_state :: "path_state \<Rightarrow> path_state \<Rightarrow> bool" where
  "a \<le> b \<longleftrightarrow> path_state_rank a \<le> path_state_rank b"

definition less_path_state :: "path_state \<Rightarrow> path_state \<Rightarrow> bool" where
  "a < b \<longleftrightarrow> path_state_rank a < path_state_rank b"

instance
proof
  fix a b :: path_state
  show "a \<le> b \<Longrightarrow> b \<le> a \<Longrightarrow> a = b"
    by (cases a; cases b) (simp_all add: less_eq_path_state_def)
qed (auto simp: less_eq_path_state_def less_path_state_def)

end

datatype component = RootDir | CurDir | ParentDir | Normal bytes

fun component_key :: "component \<Rightarrow> nat \<times> bytes" where
  "component_key RootDir = (0, [])"
| "component_key CurDir = (1, [])"
| "component_key ParentDir = (2, [])"
| "component_key (Normal s) = (3, s)"

instantiation component :: linorder
begin

definition less_eq_component :: "component \<Rightarrow> component \<Rightarrow> bool" where
  "a \<le> b \<longleftrightarrow> (case (component_key a, component_key b) of ((i, s), (j, u)) \<Rightarrow> i < j \<or> i = j \<and> s \<le> u)"

definition less_component :: "component \<Rightarrow> component \<Rightarrow> bool" where
  "a < b \<longleftrightarrow> (a::component) \<le> b \<and> a \<noteq> b"

instance
proof
  fix a b c :: component
  show "a < b \<longleftrightarrow> a \<le> b \<and> \<not> b \<le> a"
    by (cases a; cases b) (auto simp: less_component_def less_eq_component_def)
  show "a \<le> a" "a \<le> b \<or> b \<le> a"
    by (cases a; cases b; auto simp: less_eq_component_def)+
  show "a \<le> b \<Longrightarrow> b \<le> c \<Longrightarrow> a \<le> c"
    by (cases a; cases b; cases c) (auto simp: less_eq_component_def)
  show "a \<le> b \<Longrightarrow> b \<le> a \<Longrightarrow> a = b"
    by (cases a; cases b) (auto simp: less_eq_component_def)
qed

end

fun as_os_str :: "component \<Rightarrow> bytes" where
  "as_os_str RootDir = [0x2F]"
| "as_os_str CurDir = [0x2E]"
| "as_os_str ParentDir = [0x2E, 0x2E]"
| "as_os_str (Normal path) = path"

section \<open>The iterator\<close>

record comps =
  cs_path :: bytes
  cs_root :: bool
  cs_front :: path_state
  cs_back :: path_state

definition path_components :: "bytes \<Rightarrow> comps" where
  "path_components p = \<lparr>cs_path = p, cs_root = has_physical_root p, cs_front = StPrefix, cs_back = StBody\<rparr>"

definition finished :: "comps \<Rightarrow> bool" where
  "finished c \<longleftrightarrow> cs_front c = StDone \<or> cs_back c = StDone \<or> cs_front c > cs_back c"

definition include_cur_dir :: "comps \<Rightarrow> bool" where
  "include_cur_dir c \<longleftrightarrow> \<not> cs_root c \<and>
     (case cs_path c of [] \<Rightarrow> False | [a] \<Rightarrow> a = 0x2E | a # b # _ \<Rightarrow> a = 0x2E \<and> is_sep_byte b)"

definition len_before_body :: "comps \<Rightarrow> nat" where
  "len_before_body c =
     (if cs_front c \<le> StStartDir \<and> cs_root c then 1 else 0) +
     (if cs_front c \<le> StStartDir \<and> include_cur_dir c then 1 else 0)"

definition parse_single_component :: "bytes \<Rightarrow> component option" where
  "parse_single_component part =
     (if part = [0x2E] then None
      else if part = [0x2E, 0x2E] then Some ParentDir
      else if part = [] then None
      else Some (Normal part))"

fun position :: "('a \<Rightarrow> bool) \<Rightarrow> 'a list \<Rightarrow> nat option" where
  "position P [] = None"
| "position P (x # xs) = (if P x then Some 0 else map_option Suc (position P xs))"

definition rposition :: "('a \<Rightarrow> bool) \<Rightarrow> 'a list \<Rightarrow> nat option" where
  "rposition P xs = map_option (\<lambda>i. length xs - 1 - i) (position P (rev xs))"

definition slice_from :: "nat \<Rightarrow> 'a list \<Rightarrow> 'a list result" where
  "slice_from n xs = (if n \<le> length xs then Inr (drop n xs) else Inl Panic)"

definition slice_to :: "nat \<Rightarrow> 'a list \<Rightarrow> 'a list result" where
  "slice_to n xs = (if n \<le> length xs then Inr (take n xs) else Inl Panic)"

definition parse_next_component :: "comps \<Rightarrow> (nat \<times> component option) result" where
  "parse_next_component c =
     rbind (assertR (cs_front c = StBody)) (\<lambda>_.
     let (extra, part) = (case position is_sep_byte (cs_path c) of
           None \<Rightarrow> (0, cs_path c)
         | Some i \<Rightarrow> (1, take i (cs_path c)))
     in Inr (length part + extra, parse_single_component part))"

definition parse_next_component_back :: "comps \<Rightarrow> (nat \<times> component option) result" where
  "parse_next_component_back c =
     rbind (assertR (cs_back c = StBody)) (\<lambda>_.
     rbind (slice_from (len_before_body c) (cs_path c)) (\<lambda>p.
     let (extra, part) = (case rposition is_sep_byte p of
           None \<Rightarrow> (0, p)
         | Some i \<Rightarrow> (1, drop (i + 1) p))
     in Inr (length part + extra, parse_single_component part)))"

text \<open>A component is cut off the front, or the back, of the path.\<close>

definition cut_front :: "nat \<Rightarrow> comps \<Rightarrow> comps result" where
  "cut_front n c = rmap (\<lambda>p. c\<lparr>cs_path := p\<rparr>) (slice_from n (cs_path c))"

definition cut_back :: "nat \<Rightarrow> comps \<Rightarrow> comps result" where
  "cut_back n c =
     rbind (sub_nat (length (cs_path c)) n) (\<lambda>k. rmap (\<lambda>p. c\<lparr>cs_path := p\<rparr>) (slice_to k (cs_path c)))"

definition body_step :: "comps \<Rightarrow> (component option \<times> comps) result" where
  "body_step c = rbind (parse_next_component c) (\<lambda>(size, part). rmap (Pair part) (cut_front size c))"

definition body_step_back :: "comps \<Rightarrow> (component option \<times> comps) result" where
  "body_step_back c = rbind (parse_next_component_back c) (\<lambda>(size, part). rmap (Pair part) (cut_back size c))"

text \<open>What is left to do decreases with every turn of the loops.\<close>

definition comps_measure :: "comps \<Rightarrow> nat" where
  "comps_measure c = length (cs_path c) + (3 - path_state_rank (cs_front c)) +
     (case cs_back c of StDone \<Rightarrow> 0 | s \<Rightarrow> path_state_rank s + 1)"

abbreviation no_sep :: "byte \<Rightarrow> bool" where
  "no_sep b \<equiv> \<not> is_sep_byte b"

lemma position_eq:
  "position P xs = (if dropWhile (\<lambda>x. \<not> P x) xs = [] then None else Some (length (takeWhile (\<lambda>x. \<not> P x) xs)))"
  by (induction xs) auto

lemma dropWhile_len: "length (dropWhile P xs) = length xs - length (takeWhile P xs)"
  by (induction xs) auto

lemma dropWhile_tl_drop: "tl (dropWhile P xs) = drop (Suc (length (takeWhile P xs))) xs"
  by (induction xs) auto

lemma takeWhile_take: "take (length (takeWhile P xs)) xs = takeWhile P xs"
  by (induction xs) auto

lemma sep_parts:
  obtains (one) "dropWhile no_sep xs = []" "takeWhile no_sep xs = xs"
  | (cut) b ys where "dropWhile no_sep xs = b # ys" "is_sep_byte b" "xs = takeWhile no_sep xs @ b # ys"
proof (cases "dropWhile no_sep xs")
  case Nil
  then show ?thesis using one by (metis append.right_neutral takeWhile_dropWhile_id)
next
  case (Cons b ys)
  then have "is_sep_byte b" using hd_dropWhile [of no_sep xs] by simp
  with Cons show ?thesis using cut [of b ys] takeWhile_dropWhile_id [of no_sep xs] by simp
qed

lemma body_step_eq:
  assumes "cs_front c = StBody"
  shows "body_step c = Inr (parse_single_component (takeWhile no_sep (cs_path c)), c\<lparr>cs_path := tl (dropWhile no_sep (cs_path c))\<rparr>)"
proof (cases "cs_path c" rule: sep_parts)
  case one
  have "position is_sep_byte (cs_path c) = None" using one(1) by (simp add: position_eq)
  with assms show ?thesis unfolding one
    by (simp add: body_step_def parse_next_component_def cut_front_def slice_from_def)
next
  case (cut b ys)
  define a where "a = takeWhile no_sep (cs_path c)"
  have p: "cs_path c = a @ b # ys" using cut(3) by (simp add: a_def)
  have "position is_sep_byte (cs_path c) = Some (length a)" using cut(1) by (simp add: position_eq a_def)
  with assms show ?thesis unfolding cut(1) a_def [symmetric]
    by (simp add: body_step_def parse_next_component_def cut_front_def slice_from_def p)
qed

lemma body_step_back_eq:
  assumes "cs_back c = StBody" and "len_before_body c \<le> length (cs_path c)"
    and q: "q = take (len_before_body c) (cs_path c)" and p: "p = rev (drop (len_before_body c) (cs_path c))"
  shows "body_step_back c = Inr (parse_single_component (rev (takeWhile no_sep p)), c\<lparr>cs_path := q @ rev (tl (dropWhile no_sep p))\<rparr>)"
proof -
  have path: "cs_path c = q @ rev p" and ql: "length q = len_before_body c"
    using assms(2) by (simp_all add: p q)
  show ?thesis
  proof (cases p rule: sep_parts)
    case one
    have "position is_sep_byte p = None" using one(1) by (simp add: position_eq)
    with assms(1,2) ql show ?thesis unfolding one
      by (simp add: body_step_back_def parse_next_component_back_def rposition_def cut_back_def slice_to_def
          slice_from_def sub_nat_def path)
  next
    case (cut b ys)
    define a where "a = takeWhile no_sep p"
    have pa: "p = a @ b # ys" using cut(3) by (simp add: a_def)
    have "position is_sep_byte p = Some (length a)" using cut(1) by (simp add: position_eq a_def)
    then have "rposition is_sep_byte (rev p) = Some (length ys)" by (simp add: rposition_def pa)
    with assms(1,2) ql show ?thesis unfolding cut(1) a_def [symmetric]
      by (simp add: body_step_back_def parse_next_component_back_def cut_back_def slice_to_def
          slice_from_def sub_nat_def path pa)
  qed
qed

lemma dropWhile_shorter:
  "xs \<noteq> [] \<Longrightarrow> length (dropWhile P xs) - Suc 0 < length xs"
  "n < length xs \<Longrightarrow> n + (length (dropWhile P (rev (drop n xs))) - Suc 0) < length xs"
  using length_dropWhile_le [of P xs] length_dropWhile_le [of P "rev (drop n xs)"]
  by (cases xs; auto)+

text \<open>\<open>next\<close> and \<open>next_back\<close>.\<close>

function comps_next :: "comps \<Rightarrow> (component option \<times> comps) result" where
  "comps_next c =
     (if finished c then Inr (None, c)
      else case cs_front c of
        StPrefix \<Rightarrow> comps_next (c\<lparr>cs_front := StStartDir\<rparr>)
      | StStartDir \<Rightarrow>
          (let c' = c\<lparr>cs_front := StBody\<rparr>
           in if cs_root c' then rmap (Pair (Some RootDir)) (cut_front 1 c')
              else if include_cur_dir c' then rmap (Pair (Some CurDir)) (cut_front 1 c')
              else comps_next c')
      | StBody \<Rightarrow>
          if cs_path c \<noteq> [] then (case body_step c of
              Inl e \<Rightarrow> Inl e
            | Inr (Some x, c') \<Rightarrow> Inr (Some x, c')
            | Inr (None, c') \<Rightarrow> comps_next c')
          else comps_next (c\<lparr>cs_front := StDone\<rparr>)
      | StDone \<Rightarrow> Inl Panic)"
  by pat_completeness auto
termination
  by (relation "measure comps_measure")
    (auto simp: comps_measure_def body_step_eq intro!: add_strict_right_mono dropWhile_shorter)

function comps_next_back :: "comps \<Rightarrow> (component option \<times> comps) result" where
  "comps_next_back c =
     (if finished c then Inr (None, c)
      else case cs_back c of
        StBody \<Rightarrow>
          if len_before_body c < length (cs_path c) then (case body_step_back c of
              Inl e \<Rightarrow> Inl e
            | Inr (Some x, c') \<Rightarrow> Inr (Some x, c')
            | Inr (None, c') \<Rightarrow> comps_next_back c')
          else comps_next_back (c\<lparr>cs_back := StStartDir\<rparr>)
      | StStartDir \<Rightarrow>
          (let c' = c\<lparr>cs_back := StPrefix\<rparr>
           in if cs_root c' then rmap (Pair (Some RootDir)) (cut_back 1 c')
              else if include_cur_dir c' then rmap (Pair (Some CurDir)) (cut_back 1 c')
              else comps_next_back c')
      | StPrefix \<Rightarrow> Inr (None, c\<lparr>cs_back := StDone\<rparr>)
      | StDone \<Rightarrow> Inl Panic)"
  by pat_completeness auto
termination
  by (relation "measure comps_measure")
    (auto simp: comps_measure_def body_step_back_eq intro!: add_strict_right_mono dropWhile_shorter)

declare comps_next.simps [simp del] comps_next_back.simps [simp del]

section \<open>A queue with two ends\<close>

text \<open>The reference: the path is split at every separator.\<close>

fun split_sep :: "bytes \<Rightarrow> bytes list" where
  "split_sep [] = [[]]"
| "split_sep (b # bs) =
     (if is_sep_byte b then [] # split_sep bs
      else case split_sep bs of [] \<Rightarrow> [[b]] | w # ws \<Rightarrow> (b # w) # ws)"

definition body_comps :: "bytes \<Rightarrow> component list" where
  "body_comps p = List.map_filter parse_single_component (split_sep p)"

abbreviation opt_list :: "'a option \<Rightarrow> 'a list" where
  "opt_list x \<equiv> (case x of None \<Rightarrow> [] | Some y \<Rightarrow> [y])"

lemma split_sep_not_Nil: "split_sep p \<noteq> []"
  by (induction p) (auto split: list.splits)

lemma split_sep_append: "is_sep_byte b \<Longrightarrow> split_sep (xs @ b # ys) = split_sep xs @ split_sep ys"
  by (induction xs) (auto simp: split_sep_not_Nil neq_Nil_conv split: list.splits)

lemma split_sep_one: "\<forall>x\<in>set xs. no_sep x \<Longrightarrow> split_sep xs = [xs]"
  by (induction xs) auto

lemma body_comps_append: "is_sep_byte b \<Longrightarrow> body_comps (xs @ b # ys) = body_comps xs @ body_comps ys"
  by (simp add: body_comps_def split_sep_append map_filter_def)

lemma body_comps_one: "\<forall>x\<in>set xs. no_sep x \<Longrightarrow> body_comps xs = opt_list (parse_single_component xs)"
  by (simp add: body_comps_def split_sep_one map_filter_def split: option.split)

lemma body_comps_Nil [simp]: "body_comps [] = []"
  by (simp add: body_comps_one parse_single_component_def)

lemma body_comps_front:
  "body_comps p = opt_list (parse_single_component (takeWhile no_sep p)) @ body_comps (tl (dropWhile no_sep p))"
proof (cases p rule: sep_parts)
  case one
  then have "\<forall>x\<in>set p. no_sep x" by simp
  then have "body_comps p = opt_list (parse_single_component p)" by (rule body_comps_one)
  then show ?thesis unfolding one by simp
next
  case (cut b ys)
  have "\<forall>x\<in>set (takeWhile no_sep p). no_sep x" by (auto dest: set_takeWhileD)
  with cut show ?thesis by (metis body_comps_append body_comps_one list.sel(3))
qed

lemma body_comps_back:
  "body_comps (rev p) = body_comps (rev (tl (dropWhile no_sep p))) @ opt_list (parse_single_component (rev (takeWhile no_sep p)))"
proof (cases p rule: sep_parts)
  case one
  then have "\<forall>x\<in>set (rev p). no_sep x" by simp
  then have "body_comps (rev p) = opt_list (parse_single_component (rev p))" by (rule body_comps_one)
  then show ?thesis unfolding one by simp
next
  case (cut b ys)
  have n: "\<forall>x\<in>set (rev (takeWhile no_sep p)). no_sep x" by (auto dest: set_takeWhileD)
  have "rev p = rev ys @ b # rev (takeWhile no_sep p)" by (subst cut(3)) simp
  then show ?thesis using cut(1,2) body_comps_one [OF n] by (simp add: body_comps_append)
qed

text \<open>What the iterator has still to deliver: the start of the path and the components of the rest.\<close>

definition head_comps :: "comps \<Rightarrow> component list" where
  "head_comps c =
     (if cs_front c \<le> StStartDir then if cs_root c then [RootDir] else if include_cur_dir c then [CurDir] else [] else [])"

definition remaining :: "comps \<Rightarrow> component list" where
  "remaining c =
     (if finished c then []
      else (if StStartDir \<le> cs_back c then head_comps c else []) @
           (if cs_back c = StBody then body_comps (drop (len_before_body c) (cs_path c)) else []))"

text \<open>While the start of the path has not been delivered, the path begins as it did, and when its body is
  used up from behind only the start is left, then nothing.\<close>

definition comps_wf :: "comps \<Rightarrow> bool" where
  "comps_wf c \<longleftrightarrow> (cs_front c \<le> StStartDir \<longrightarrow>
     (case cs_back c of
        StBody \<Rightarrow> cs_root c = has_physical_root (cs_path c)
      | StStartDir \<Rightarrow> cs_root c = has_physical_root (cs_path c) \<and> length (cs_path c) = len_before_body c
      | _ \<Rightarrow> cs_path c = []))"

lemma physical_root_simps [simp]: "\<not> has_physical_root []" "has_physical_root (b # bs) = is_sep_byte b"
  by (simp_all add: has_physical_root_def)

lemma physical_root_take: "0 < m \<Longrightarrow> has_physical_root (take m xs) = has_physical_root xs"
  by (cases xs; cases m) simp_all

lemmas state_order = less_eq_path_state_def less_path_state_def

lemma finished_update:
  "finished (c\<lparr>cs_path := p\<rparr>) = finished c"
  "finished (c\<lparr>cs_front := f\<rparr>) \<longleftrightarrow> f = StDone \<or> cs_back c = StDone \<or> f > cs_back c"
  "finished (c\<lparr>cs_back := b\<rparr>) \<longleftrightarrow> cs_front c = StDone \<or> b = StDone \<or> cs_front c > b"
  by (simp_all add: finished_def)

lemma include_cur_dir_update:
  "include_cur_dir (c\<lparr>cs_front := f\<rparr>) = include_cur_dir c" "include_cur_dir (c\<lparr>cs_back := b\<rparr>) = include_cur_dir c"
  by (simp_all add: include_cur_dir_def)

text \<open>An answer of the iterator, seen from the items it has still to deliver.\<close>

definition pops_front :: "path_state \<Rightarrow> (component option \<times> comps) result \<Rightarrow> component list \<Rightarrow> bool" where
  "pops_front b r xs \<longleftrightarrow>
     (\<exists>c'. r = Inr (case xs of [] \<Rightarrow> None | x # _ \<Rightarrow> Some x, c') \<and> comps_wf c' \<and> remaining c' = tl xs \<and>
        cs_back c' = b \<and> (xs \<noteq> [] \<longrightarrow> cs_front c' = StBody))"

lemma remaining_body:
  "cs_front c = StBody \<Longrightarrow> cs_back c = StBody \<Longrightarrow> remaining c = body_comps (cs_path c)"
  by (simp add: remaining_def finished_def head_comps_def len_before_body_def state_order)

lemma remaining_finished: "finished c \<Longrightarrow> remaining c = []"
  by (simp add: remaining_def)

lemma comps_wf_body: "cs_front c = StBody \<or> cs_front c = StDone \<Longrightarrow> comps_wf c"
  by (auto simp: comps_wf_def state_order)

lemma next_finished: "finished c \<Longrightarrow> comps_next c = Inr (None, c)"
  by (simp add: comps_next.simps)

lemma next_body:
  "cs_front c = StBody \<Longrightarrow> cs_back c = StBody \<Longrightarrow> pops_front (cs_back c) (comps_next c) (remaining c)"
proof (induction "length (cs_path c)" arbitrary: c rule: less_induct)
  case less
  have nf: "\<not> finished c" using less.prems by (simp add: finished_def)
  show ?case
  proof (cases "cs_path c = []")
    case True
    define d where "d = c\<lparr>cs_front := StDone\<rparr>"
    have d: "finished d" "comps_wf d" "cs_back d = cs_back c" by (simp_all add: d_def finished_def comps_wf_body)
    have "comps_next c = comps_next d" using True nf less.prems by (simp add: comps_next.simps [of c] d_def)
    then show ?thesis
      using d True less.prems by (simp add: pops_front_def next_finished remaining_finished remaining_body)
  next
    case False
    define d where "d = c\<lparr>cs_path := tl (dropWhile no_sep (cs_path c))\<rparr>"
    have d: "cs_front d = StBody" "cs_back d = StBody" "length (cs_path d) < length (cs_path c)"
      "body_step c = Inr (parse_single_component (takeWhile no_sep (cs_path c)), d)"
      using less.prems False dropWhile_shorter(1) [OF False] by (simp_all add: d_def body_step_eq)
    have r: "remaining c = opt_list (parse_single_component (takeWhile no_sep (cs_path c))) @ remaining d"
      using less.prems d(1,2) body_comps_front [of "cs_path c"] by (simp add: remaining_body d_def)
    have c: "comps_next c = (case parse_single_component (takeWhile no_sep (cs_path c)) of
        Some x \<Rightarrow> Inr (Some x, d) | None \<Rightarrow> comps_next d)"
      using nf less.prems False d(4) by (simp add: comps_next.simps [of c] split: option.split)
    show ?thesis
      using less.hyps [OF d(3,1,2)] c r d(1,2) less.prems(2) by (auto simp: pops_front_def comps_wf_body split: option.split)
  qed
qed

lemma remaining_start:
  "cs_front c \<le> StStartDir \<Longrightarrow> cs_back c = StBody \<Longrightarrow>
   remaining c = head_comps c @ body_comps (drop (len_before_body c) (cs_path c))"
  by (cases "cs_front c") (auto simp: remaining_def finished_def state_order)

lemma next_start:
  assumes "cs_front c = StStartDir" and "comps_wf c"
  shows "pops_front (cs_back c) (comps_next c) (remaining c)"
proof (cases "finished c")
  case True
  then show ?thesis using assms by (simp add: pops_front_def next_finished remaining_finished)
next
  case nf: False
  define d where "d = c\<lparr>cs_front := StBody\<rparr>"
  have d: "cs_front d = StBody" "cs_root d = cs_root c" "cs_back d = cs_back c" "cs_path d = cs_path c"
    "include_cur_dir d = include_cur_dir c" by (simp_all add: d_def include_cur_dir_update)
  have bk: "cs_back c = StStartDir \<or> cs_back c = StBody" using nf assms(1) by (cases "cs_back c") (auto simp: finished_def state_order)
  have c: "comps_next c = (if cs_root c then rmap (Pair (Some RootDir)) (cut_front 1 d)
      else if include_cur_dir c then rmap (Pair (Some CurDir)) (cut_front 1 d) else comps_next d)"
    using nf assms(1) by (simp add: comps_next.simps [of c] d_def include_cur_dir_update)
  have len: "len_before_body c = (if cs_root c \<or> include_cur_dir c then 1 else 0)"
    using assms(1) by (auto simp: len_before_body_def include_cur_dir_def state_order)
  have cut: "remaining (d\<lparr>cs_path := drop 1 (cs_path c)\<rparr>) = (if cs_back c = StBody then body_comps (drop 1 (cs_path c)) else [])"
    using bk d by (elim disjE) (simp_all add: remaining_body remaining_finished finished_def state_order)
  show ?thesis
  proof (cases "cs_root c \<or> include_cur_dir c")
    case True
    then have "cs_path c \<noteq> []" using assms bk by (auto simp: comps_wf_def include_cur_dir_def state_order)
    then have "cut_front 1 d = Inr (d\<lparr>cs_path := drop 1 (cs_path c)\<rparr>)"
      by (simp add: cut_front_def slice_from_def d Suc_le_eq)
    then have "comps_next c = Inr (Some (if cs_root c then RootDir else CurDir), d\<lparr>cs_path := drop 1 (cs_path c)\<rparr>)"
      using c True by auto
    moreover have "remaining c = (if cs_root c then RootDir else CurDir) # remaining (d\<lparr>cs_path := drop 1 (cs_path c)\<rparr>)"
      using bk True assms(1) nf unfolding cut by (auto simp: remaining_def head_comps_def len state_order)
    ultimately show ?thesis using d(1,3) by (simp add: pops_front_def comps_wf_body)
  next
    case False
    then have "remaining c = remaining d"
      using bk d assms(1) by (auto simp: remaining_def head_comps_def len_before_body_def finished_def state_order)
    moreover have "pops_front (cs_back d) (comps_next d) (remaining d)"
      using bk d next_body [of d] by (auto simp: pops_front_def next_finished remaining_finished comps_wf_body finished_def state_order)
    ultimately show ?thesis using c d(3) False by simp
  qed
qed

lemma comps_next_ok:
  assumes "comps_wf c"
  shows "pops_front (cs_back c) (comps_next c) (remaining c)"
proof (cases "finished c")
  case True
  then show ?thesis using assms by (simp add: pops_front_def next_finished remaining_finished)
next
  case nf: False
  show ?thesis
  proof (cases "cs_front c")
    case StPrefix
    define d where "d = c\<lparr>cs_front := StStartDir\<rparr>"
    have "comps_next c = comps_next d" using nf StPrefix by (simp add: comps_next.simps [of c] flip: d_def)
    moreover have "remaining c = remaining d" "comps_wf d"
      using nf StPrefix assms by (cases "cs_back c"; auto simp: d_def remaining_def head_comps_def len_before_body_def include_cur_dir_update
          finished_def comps_wf_def state_order)+
    ultimately show ?thesis using next_start [of d] by (simp add: d_def)
  next
    case StBody
    with nf next_body [OF StBody] show ?thesis by (cases "cs_back c") (auto simp: finished_def state_order)
  qed (use nf next_start [OF _ assms] in \<open>auto simp: finished_def\<close>)
qed

definition pops_back :: "path_state \<Rightarrow> (component option \<times> comps) result \<Rightarrow> component list \<Rightarrow> bool" where
  "pops_back f r xs \<longleftrightarrow>
     (\<exists>c'. r = Inr (if xs = [] then None else Some (last xs), c') \<and> comps_wf c' \<and> remaining c' = butlast xs \<and> cs_front c' = f)"

lemma next_back_finished: "finished c \<Longrightarrow> comps_next_back c = Inr (None, c)"
  by (simp add: comps_next_back.simps)

text \<open>Cutting a component off the back leaves the start of the path as it is.\<close>

lemma include_cur_dir_cut:
  assumes "\<not> cs_root c" and "cs_path c \<noteq> []"
    and "q = (if include_cur_dir c then take 1 (cs_path c) else [])" and "p = rev (drop (length q) (cs_path c))"
  shows "include_cur_dir (c\<lparr>cs_path := q @ rev (tl (dropWhile no_sep p))\<rparr>) = include_cur_dir c"
proof (cases "include_cur_dir c")
  case True
  then obtain r where r: "cs_path c = 0x2E # r" "r = [] \<or> is_sep_byte (hd r)"
    by (auto simp: include_cur_dir_def split: list.splits)
  then have q: "q = [0x2E]" "p = rev r" using assms(3,4) True by simp_all
  have k: "\<exists>k. rev (tl (dropWhile no_sep p)) = take k r" by (auto simp: dropWhile_tl_drop q rev_drop)
  then show ?thesis using True r(2) assms(1) unfolding q by (cases r) (auto simp: include_cur_dir_def take_Cons split: list.splits nat.splits)
next
  case False
  then have q: "q = []" "cs_path c = rev p" using assms(3,4) by simp_all
  show ?thesis
  proof (cases p rule: sep_parts)
    case one
    have e: "q @ rev (tl (dropWhile no_sep p)) = []" unfolding q(1) one(1) by simp
    have "\<not> include_cur_dir (c\<lparr>cs_path := []\<rparr>)" by (simp add: include_cur_dir_def)
    then show ?thesis unfolding e using False by simp
  next
    case (cut b ys)
    have "cs_path c = rev ys @ b # rev (takeWhile no_sep p)" unfolding q by (subst cut(3)) simp
    then show ?thesis
      using False cut(1,2) assms(1) unfolding q(1)
      by (cases "rev ys") (auto simp: include_cur_dir_def split: list.splits)
  qed
qed

lemma back_prefix:
  assumes "cs_back c = StPrefix" and "comps_wf c"
  shows "pops_back (cs_front c) (comps_next_back c) []"
proof (cases "finished c")
  case True
  with assms(2) show ?thesis by (simp add: pops_back_def next_back_finished remaining_finished)
next
  case False
  define d where "d = c\<lparr>cs_back := StDone\<rparr>"
  have "finished d" "comps_wf d" "cs_front d = cs_front c" using assms by (simp_all add: d_def finished_def comps_wf_def)
  moreover have "comps_next_back c = Inr (None, d)" using False assms by (simp add: comps_next_back.simps [of c] d_def)
  ultimately show ?thesis by (simp add: pops_back_def remaining_finished)
qed

lemma back_start:
  assumes "cs_back c = StStartDir" and "comps_wf c"
  shows "pops_back (cs_front c) (comps_next_back c) (remaining c)"
proof (cases "finished c")
  case True
  then show ?thesis using assms by (simp add: pops_back_def next_back_finished remaining_finished)
next
  case nf: False
  define d where "d = c\<lparr>cs_back := StPrefix\<rparr>"
  have fr: "cs_front c \<le> StStartDir" using nf assms(1) by (auto simp: finished_def state_order)
  have r: "remaining c = head_comps c" using nf assms(1) by (simp add: remaining_def state_order)
  have rd: "remaining (d\<lparr>cs_path := []\<rparr>) = []" "comps_wf (d\<lparr>cs_path := []\<rparr>)" "cs_front d = cs_front c"
    by (auto simp: d_def remaining_def comps_wf_def state_order)
  have len: "length (cs_path c) = (if cs_root c \<or> include_cur_dir c then 1 else 0)"
    using assms fr by (auto simp: comps_wf_def len_before_body_def include_cur_dir_def)
  have c: "comps_next_back c = (if cs_root c then rmap (Pair (Some RootDir)) (cut_back 1 d)
      else if include_cur_dir c then rmap (Pair (Some CurDir)) (cut_back 1 d) else comps_next_back d)"
    using nf assms(1) by (simp add: comps_next_back.simps [of c] d_def include_cur_dir_update)
  show ?thesis
  proof (cases "cs_root c \<or> include_cur_dir c")
    case True
    then have "cut_back 1 d = Inr (d\<lparr>cs_path := []\<rparr>)"
      using len by (simp add: cut_back_def slice_to_def sub_nat_def d_def)
    then have "comps_next_back c = Inr (Some (if cs_root c then RootDir else CurDir), d\<lparr>cs_path := []\<rparr>)"
      using c True by auto
    then show ?thesis using True fr rd by (auto simp: pops_back_def r head_comps_def)
  next
    case False
    then have "remaining c = []" by (simp add: r head_comps_def)
    moreover have "pops_back (cs_front d) (comps_next_back d) []" by (rule back_prefix) (use False len in \<open>simp_all add: d_def comps_wf_def\<close>)
    moreover have "cs_front d = cs_front c" by (simp add: d_def)
    ultimately show ?thesis using c False by simp
  qed
qed

lemma remaining_back_body:
  "cs_back c = StBody \<Longrightarrow> cs_front c \<le> StBody \<Longrightarrow>
   remaining c = head_comps c @ body_comps (drop (len_before_body c) (cs_path c))"
  by (cases "cs_front c") (auto simp: remaining_def finished_def state_order)

lemma len_before_body_eq:
  "len_before_body c = (if cs_front c \<le> StStartDir \<and> (cs_root c \<or> include_cur_dir c) then 1 else 0)"
  by (auto simp: len_before_body_def include_cur_dir_def)

lemma len_before_body_le:
  "cs_back c = StBody \<Longrightarrow> comps_wf c \<Longrightarrow> len_before_body c \<le> length (cs_path c)"
  by (auto simp: len_before_body_eq comps_wf_def include_cur_dir_def state_order Suc_le_eq split: list.splits)

text \<open>One component cut off the back.\<close>

lemma body_step_back_ok:
  assumes c: "cs_back c = StBody" "cs_front c \<le> StBody" "comps_wf c" and len: "len_before_body c < length (cs_path c)"
  obtains x m where "body_step_back c = Inr (x, c\<lparr>cs_path := take m (cs_path c)\<rparr>)" "m < length (cs_path c)"
    "comps_wf (c\<lparr>cs_path := take m (cs_path c)\<rparr>)"
    "remaining c = remaining (c\<lparr>cs_path := take m (cs_path c)\<rparr>) @ opt_list x"
proof -
  let ?n = "len_before_body c"
  have nlen: "?n \<le> length (cs_path c)" using len by simp
  define p where "p = rev (drop ?n (cs_path c))"
  define d where "d = c\<lparr>cs_path := take ?n (cs_path c) @ rev (tl (dropWhile no_sep p))\<rparr>"
  define m where "m = ?n + (length p - Suc (length (takeWhile no_sep p)))"
  have step: "body_step_back c = Inr (parse_single_component (rev (takeWhile no_sep p)), d)"
    unfolding d_def by (rule body_step_back_eq [OF c(1) nlen refl p_def])
  have d: "cs_back d = StBody" "cs_front d = cs_front c" "cs_root d = cs_root c" using c by (simp_all add: d_def)
  have path_d: "cs_path d = take m (cs_path c)"
  proof -
    have "rev p = drop ?n (cs_path c)" by (simp add: p_def)
    then show ?thesis unfolding d_def m_def dropWhile_tl_drop rev_drop by (simp add: take_add)
  qed
  have dc: "d = c\<lparr>cs_path := take m (cs_path c)\<rparr>" using path_d by (simp add: d_def)
  have inc: "include_cur_dir d = include_cur_dir c" if "cs_front c \<le> StStartDir"
  proof (cases "cs_root c")
    case False
    then have "take ?n (cs_path c) = (if include_cur_dir c then take 1 (cs_path c) else [])" "?n = length (take ?n (cs_path c))"
      using that nlen by (auto simp: len_before_body_eq)
    then show ?thesis unfolding d_def using len False by (intro include_cur_dir_cut) (auto simp: p_def)
  qed (simp add: include_cur_dir_def d_def)
  have nd: "len_before_body d = ?n" and hd: "head_comps d = head_comps c"
    using inc d by (auto simp: len_before_body_def head_comps_def)
  have wf: "comps_wf d"
    using c(1,3) d physical_root_take [of m "cs_path c"]
    by (cases "m = 0") (auto simp: comps_wf_def path_d m_def len_before_body_eq split: if_splits)
  have dd: "drop ?n (cs_path d) = rev (tl (dropWhile no_sep p))" using nlen by (simp add: d_def)
  have "remaining c = remaining d @ opt_list (parse_single_component (rev (takeWhile no_sep p)))"
    using remaining_back_body [OF c(1,2)] remaining_back_body [of d] d c(2) body_comps_back [of p]
    by (simp add: nd hd dd) (simp add: p_def)
  moreover have "m < length (cs_path c)" using len by (simp add: m_def p_def)
  ultimately show ?thesis using that step wf unfolding dc by blast
qed

lemma back_body:
  "cs_back c = StBody \<Longrightarrow> cs_front c \<le> StBody \<Longrightarrow> comps_wf c \<Longrightarrow> pops_back (cs_front c) (comps_next_back c) (remaining c)"
proof (induction "length (cs_path c)" arbitrary: c rule: less_induct)
  case less
  let ?n = "len_before_body c"
  have nf: "\<not> finished c" using less.prems by (auto simp: finished_def state_order)
  show ?case
  proof (cases "?n < length (cs_path c)")
    case False
    define d where "d = c\<lparr>cs_back := StStartDir\<rparr>"
    have ld: "len_before_body d = ?n" "length (cs_path c) = ?n" "head_comps d = head_comps c"
      using False len_before_body_le [OF less.prems(1,3)]
      by (simp_all add: d_def len_before_body_def head_comps_def include_cur_dir_update)
    have "comps_next_back c = comps_next_back d" using False nf less.prems(1) by (simp add: comps_next_back.simps [of c] d_def)
    moreover have "comps_wf d" using less.prems ld by (simp add: comps_wf_def) (simp add: d_def)
    moreover have "remaining c = remaining d"
      using less.prems(2) remaining_back_body [OF less.prems(1,2)] ld
      by (cases "cs_front c \<le> StStartDir") (auto simp: remaining_def head_comps_def d_def finished_def state_order)
    ultimately show ?thesis using back_start [of d] by (simp add: d_def)
  next
    case True
    obtain x m where s: "body_step_back c = Inr (x, c\<lparr>cs_path := take m (cs_path c)\<rparr>)" "m < length (cs_path c)"
      "comps_wf (c\<lparr>cs_path := take m (cs_path c)\<rparr>)" "remaining c = remaining (c\<lparr>cs_path := take m (cs_path c)\<rparr>) @ opt_list x"
      using body_step_back_ok [OF less.prems True] .
    define d where "d = c\<lparr>cs_path := take m (cs_path c)\<rparr>"
    have d: "length (cs_path d) < length (cs_path c)" "cs_back d = StBody" "cs_front d \<le> StBody" "comps_wf d"
      "remaining c = remaining d @ opt_list x" "cs_front d = cs_front c"
      using s less.prems by (simp_all add: d_def)
    have "comps_next_back c = (case x of Some x \<Rightarrow> Inr (Some x, d) | None \<Rightarrow> comps_next_back d)"
      using nf less.prems(1) True s(1) by (simp add: comps_next_back.simps [of c] d_def split: option.split)
    then show ?thesis using less.hyps [OF d(1-4)] d(4-6) by (auto simp: pops_back_def split: option.split)
  qed
qed

lemma comps_next_back_ok:
  assumes "comps_wf c"
  shows "pops_back (cs_front c) (comps_next_back c) (remaining c)"
proof (cases "finished c")
  case True
  then show ?thesis using assms by (simp add: pops_back_def next_back_finished remaining_finished)
next
  case nf: False
  then have "cs_front c \<le> cs_back c" by (simp add: finished_def not_less)
  then show ?thesis
    using nf assms back_body [of c] back_start [of c] back_prefix [of c]
    by (cases "cs_back c") (auto simp: finished_def remaining_def head_comps_def state_order)
qed

section \<open>The interface\<close>

text \<open>A queue of which both ends can be taken; \<open>items\<close> is what it holds.\<close>

locale two_ended =
  fixes pop_front pop_back :: "'s \<Rightarrow> ('a option \<times> 's) result" and inv :: "'s \<Rightarrow> bool" and items :: "'s \<Rightarrow> 'a list"
  assumes at_front: "inv s \<Longrightarrow> \<exists>s'. pop_front s = Inr (case items s of [] \<Rightarrow> None | x # _ \<Rightarrow> Some x, s') \<and> inv s' \<and> items s' = tl (items s)"
    and at_back: "inv s \<Longrightarrow> \<exists>s'. pop_back s = Inr (if items s = [] then None else Some (last (items s)), s') \<and> inv s' \<and> items s' = butlast (items s)"
begin

lemma front_cases:
  assumes "inv s"
  obtains (none) s' where "items s = []" "pop_front s = Inr (None, s')" "inv s'" "items s' = []"
  | (some) x s' where "items s = x # items s'" "pop_front s = Inr (Some x, s')" "inv s'"
  using at_front [OF assms] by (cases "items s") auto

lemma back_cases:
  assumes "inv s"
  obtains (none) s' where "items s = []" "pop_back s = Inr (None, s')" "inv s'" "items s' = []"
  | (some) x s' where "items s = items s' @ [x]" "pop_back s = Inr (Some x, s')" "inv s'"
  using at_back [OF assms] by (cases "items s" rule: rev_cases) auto

end

interpretation cq: two_ended comps_next comps_next_back comps_wf remaining
proof unfold_locales
  fix c assume c: "comps_wf c"
  show "\<exists>c'. comps_next c = Inr (case remaining c of [] \<Rightarrow> None | x # _ \<Rightarrow> Some x, c') \<and> comps_wf c' \<and> remaining c' = tl (remaining c)"
    using comps_next_ok [OF c] unfolding pops_front_def by blast
  show "\<exists>c'. comps_next_back c = Inr (if remaining c = [] then None else Some (last (remaining c)), c') \<and> comps_wf c' \<and>
      remaining c' = butlast (remaining c)"
    using comps_next_back_ok [OF c] unfolding pops_back_def by blast
qed

text \<open>Either end; \<open>rv\<close> is the adaptor \<open>rev()\<close>.\<close>

definition comps_pop :: "bool \<Rightarrow> comps \<Rightarrow> (component option \<times> comps) result" where
  "comps_pop rv c = (if rv then comps_next_back c else comps_next c)"

definition comps_items :: "bool \<Rightarrow> comps \<Rightarrow> component list" where
  "comps_items rv c = (if rv then rev (remaining c) else remaining c)"

lemma measure_body:
  "cs_front c = StBody \<Longrightarrow> cs_path c \<noteq> [] \<Longrightarrow> body_step c = Inr (x, c') \<Longrightarrow> comps_measure c' < comps_measure c"
  by (auto simp: body_step_eq comps_measure_def intro!: add_strict_right_mono dropWhile_shorter)

lemma measure_body_back:
  "cs_back c = StBody \<Longrightarrow> len_before_body c < length (cs_path c) \<Longrightarrow> body_step_back c = Inr (x, c') \<Longrightarrow>
   comps_measure c' < comps_measure c"
  by (auto simp: body_step_back_eq comps_measure_def intro!: add_strict_right_mono dropWhile_shorter)

lemma comps_next_less: "comps_next c = Inr (Some x, c') \<Longrightarrow> comps_measure c' < comps_measure c"
proof (induction c rule: comps_next.induct)
  case (1 c)
  show ?case
  proof (cases "cs_front c = StBody \<and> cs_path c \<noteq> []")
    case True
    then obtain y d where d: "body_step c = Inr (y, d)" by (simp add: body_step_eq)
    have "comps_next c = (if finished c then Inr (None, c) else case y of None \<Rightarrow> comps_next d | Some x \<Rightarrow> Inr (Some x, d))"
      using True d by (simp add: comps_next.simps [of c] split: option.split)
    with 1 True d measure_body [OF _ _ d] show ?thesis by (auto split: if_splits option.splits intro: less_trans [of _ "comps_measure d"])
  qed (use 1 in \<open>auto simp: comps_next.simps [of c] Let_def cut_front_def slice_from_def rmap_Inr_iff comps_measure_def
      less_Suc_eq_le split: if_splits path_state.splits\<close>)
qed

lemma comps_next_back_less: "comps_next_back c = Inr (Some x, c') \<Longrightarrow> comps_measure c' < comps_measure c"
proof (induction c rule: comps_next_back.induct)
  case (1 c)
  show ?case
  proof (cases "cs_back c = StBody \<and> len_before_body c < length (cs_path c)")
    case True
    then obtain y d where d: "body_step_back c = Inr (y, d)" by (simp add: body_step_back_eq)
    have "comps_next_back c = (if finished c then Inr (None, c) else case y of None \<Rightarrow> comps_next_back d | Some x \<Rightarrow> Inr (Some x, d))"
      using True d by (simp add: comps_next_back.simps [of c] split: option.split)
    with 1 True d measure_body_back [OF _ _ d] show ?thesis by (auto split: if_splits option.splits intro: less_trans [of _ "comps_measure d"])
  qed (use 1 in \<open>auto simp: comps_next_back.simps [of c] Let_def cut_back_def slice_to_def sub_nat_Inr_iff rbind_Inr_iff rmap_Inr_iff
      comps_measure_def split: if_splits path_state.splits\<close>)
qed

lemma comps_pop_less: "comps_pop rv c = Inr (Some x, c') \<Longrightarrow> comps_measure c' < comps_measure c"
  by (simp add: comps_pop_def comps_next_less comps_next_back_less split: if_splits)

text \<open>\<open>collect\<close>, and the comparison of two paths by their components.\<close>

function comps_list :: "bool \<Rightarrow> comps \<Rightarrow> component list result" where
  "comps_list rv c = (case comps_pop rv c of
     Inl e \<Rightarrow> Inl e
   | Inr (None, _) \<Rightarrow> Inr []
   | Inr (Some x, c') \<Rightarrow> rmap (Cons x) (comps_list rv c'))"
  by pat_completeness auto
termination by (relation "measure (comps_measure \<circ> snd)") (auto simp: comps_pop_less)

declare comps_list.simps [simp del]

lemma comps_pop_cases:
  assumes "comps_wf c"
  obtains (none) c' where "comps_items rv c = []" "comps_pop rv c = Inr (None, c')" "comps_wf c'" "comps_items rv c' = []"
  | (some) x c' where "comps_items rv c = x # comps_items rv c'" "comps_pop rv c = Inr (Some x, c')" "comps_wf c'"
proof (cases rv)
  case True
  from assms show ?thesis
    by (cases rule: cq.back_cases) (use True none some in \<open>simp_all add: comps_items_def comps_pop_def\<close>)
next
  case False
  from assms show ?thesis
    by (cases rule: cq.front_cases) (use False none some in \<open>simp_all add: comps_items_def comps_pop_def\<close>)
qed

lemma comps_list_ok: "comps_wf c \<Longrightarrow> comps_list rv c = Inr (comps_items rv c)"
proof (induction rv c rule: comps_list.induct)
  case (1 rv c)
  from 1(2) show ?case
    by (cases rule: comps_pop_cases [of c rv]) (use 1(1) in \<open>simp_all add: comps_list.simps [of rv c]\<close>)
qed

end
