(* ===== verification/Path_Lib.thy ===== *)
theory Path_Lib
  imports Path_Comps "HOL-Library.Sublist"
begin

text \<open>
  Paths (\<open>lib/path/src/lib.rs\<close>, the types \<open>Path\<close> and \<open>PathBuf\<close>): parent, file name, prefixes, joining,
  file names and extensions, comparison. Owned and borrowed paths are both the bytes of the string.
  The lemmas show the operations on strings to be the operations on the list of components.
\<close>

section \<open>The rest of an iteration as a path\<close>

lemma body_step_Inr: "body_step c = Inr r \<Longrightarrow> cs_front c = StBody" "body_step_back c = Inr r \<Longrightarrow> cs_back c = StBody"
  by (auto simp: body_step_def body_step_back_def parse_next_component_def parse_next_component_back_def rbind_Inr_iff assertR_Inr_iff)

function trim_left :: "comps \<Rightarrow> comps result" where
  "trim_left c =
     (if cs_path c = [] then Inr c
      else case body_step c of
        Inl e \<Rightarrow> Inl e
      | Inr (Some _, _) \<Rightarrow> Inr c
      | Inr (None, c') \<Rightarrow> trim_left c')"
  by pat_completeness auto
termination
  by (relation "measure comps_measure") (auto simp: eq_sym_conv [of "Inr _"] dest: body_step_Inr intro: measure_body)

function trim_right :: "comps \<Rightarrow> comps result" where
  "trim_right c =
     (if length (cs_path c) \<le> len_before_body c then Inr c
      else case body_step_back c of
        Inl e \<Rightarrow> Inl e
      | Inr (Some _, _) \<Rightarrow> Inr c
      | Inr (None, c') \<Rightarrow> trim_right c')"
  by pat_completeness auto
termination
  by (relation "measure comps_measure") (auto simp: not_le eq_sym_conv [of "Inr _"] dest: body_step_Inr intro: measure_body_back)

declare trim_left.simps [simp del] trim_right.simps [simp del]

definition as_path :: "comps \<Rightarrow> bytes result" where
  "as_path c =
     rbind (if cs_front c = StBody then trim_left c else Inr c) (\<lambda>c.
     rmap cs_path (if cs_back c = StBody then trim_right c else Inr c))"

section \<open>Paths\<close>

definition path_has_root :: "bytes \<Rightarrow> bool" where
  "path_has_root p = cs_root (path_components p)"

definition is_absolute :: "bytes \<Rightarrow> bool" where
  "is_absolute p = path_has_root p"

definition is_relative :: "bytes \<Rightarrow> bool" where
  "is_relative p = (\<not> is_absolute p)"

definition parent :: "bytes \<Rightarrow> bytes option result" where
  "parent p =
     rbind (comps_next_back (path_components p)) (\<lambda>(x, c).
     case x of
       Some (Normal _) \<Rightarrow> rmap Some (as_path c)
     | Some CurDir \<Rightarrow> rmap Some (as_path c)
     | Some ParentDir \<Rightarrow> rmap Some (as_path c)
     | _ \<Rightarrow> Inr None)"

definition file_name :: "bytes \<Rightarrow> bytes option result" where
  "file_name p =
     rmap (\<lambda>(x, c). case x of Some (Normal n) \<Rightarrow> Some n | _ \<Rightarrow> None) (comps_next_back (path_components p))"

text \<open>\<open>rsplitn(2, '.')\<close> gives what follows the last dot, or everything, and then what precedes it.\<close>

definition split_file_at_dot :: "bytes \<Rightarrow> bytes option \<times> bytes option" where
  "split_file_at_dot file =
     (if file = [0x2E, 0x2E] then (Some file, None)
      else let (after, before) = (case rposition (\<lambda>b. b = 0x2E) file of
             None \<Rightarrow> (Some file, None)
           | Some i \<Rightarrow> (Some (drop (i + 1) file), Some (take i file)))
         in if before = Some [] then (Some file, None) else (before, after))"

definition file_stem :: "bytes \<Rightarrow> bytes option result" where
  "file_stem p = rmap (\<lambda>n. Option.bind n (\<lambda>f. case split_file_at_dot f of
     (before, after) \<Rightarrow> if before \<noteq> None then before else after)) (file_name p)"

definition extension :: "bytes \<Rightarrow> bytes option result" where
  "extension p = rmap (\<lambda>n. Option.bind n (\<lambda>f. case split_file_at_dot f of
     (before, after) \<Rightarrow> if before \<noteq> None then after else None)) (file_name p)"

text \<open>What is left of one iteration after another one that it starts with, from either end.\<close>

function iter_after :: "bool \<Rightarrow> comps \<Rightarrow> comps \<Rightarrow> comps option result" where
  "iter_after rv it pre =
     (case comps_pop rv it of
        Inl e \<Rightarrow> Inl e
      | Inr (x, it') \<Rightarrow>
          (case comps_pop rv pre of
             Inl e \<Rightarrow> Inl e
           | Inr (y, pre') \<Rightarrow>
               (case (x, y) of
                  (Some a, Some b) \<Rightarrow> if a = b then iter_after rv it' pre' else Inr None
                | (Some _, None) \<Rightarrow> Inr (Some it)
                | (None, None) \<Rightarrow> Inr (Some it)
                | (None, Some _) \<Rightarrow> Inr None)))"
  by pat_completeness auto
termination by (relation "measure (comps_measure \<circ> fst \<circ> snd)") (auto simp: comps_pop_less)

declare iter_after.simps [simp del]

definition strip_prefix :: "bytes \<Rightarrow> bytes \<Rightarrow> bytes option result" where
  "strip_prefix p base =
     rbind (iter_after False (path_components p) (path_components base)) (\<lambda>r. case r of
       None \<Rightarrow> Inr None
     | Some c \<Rightarrow> rmap Some (as_path c))"

definition starts_with :: "bytes \<Rightarrow> bytes \<Rightarrow> bool result" where
  "starts_with p base = rmap (\<lambda>r. r \<noteq> None) (iter_after False (path_components p) (path_components base))"

definition ends_with :: "bytes \<Rightarrow> bytes \<Rightarrow> bool result" where
  "ends_with p child = rmap (\<lambda>r. r \<noteq> None) (iter_after True (path_components p) (path_components child))"

definition path_push :: "bytes \<Rightarrow> bytes \<Rightarrow> bytes" where
  "path_push self path =
     (let need_sep = self \<noteq> [] \<and> \<not> is_sep_byte (last self)
      in (if path_has_root path then [] else if need_sep then self @ [0x2F] else self) @ path)"

definition join :: "bytes \<Rightarrow> bytes \<Rightarrow> bytes" where
  "join self path = path_push self path"

definition path_pop :: "bytes \<Rightarrow> (bool \<times> bytes) result" where
  "path_pop self = rmap (\<lambda>q. case q of Some q \<Rightarrow> (True, take (length q) self) | None \<Rightarrow> (False, self)) (parent self)"

definition set_file_name :: "bytes \<Rightarrow> bytes \<Rightarrow> bytes result" where
  "set_file_name name self =
     rbind (file_name self) (\<lambda>n.
     rmap (\<lambda>s. path_push s name)
       (if n \<noteq> None then rbind (path_pop self) (\<lambda>(popped, s). rmap (\<lambda>_. s) (assertR popped)) else Inr self))"

text \<open>The file name is a slice of the path: \<open>set_extension\<close> takes the address of its stem's end.\<close>

definition file_name_start :: "bytes \<Rightarrow> nat result" where
  "file_name_start p = rmap (\<lambda>(x, c). let i = length (cs_path c) in
     if i < length p \<and> is_sep_byte (p ! i) then i + 1 else i) (comps_next_back (path_components p))"

definition set_extension :: "bytes \<Rightarrow> bytes \<Rightarrow> (bool \<times> bytes) result" where
  "set_extension ext self =
     rbind (file_stem self) (\<lambda>s. case s of
       None \<Rightarrow> Inr (False, self)
     | Some stem \<Rightarrow> rmap (\<lambda>i. (True, take (i + length stem) self @ (if ext \<noteq> [] then 0x2E # ext else [])))
         (file_name_start self))"

definition with_file_name :: "bytes \<Rightarrow> bytes \<Rightarrow> bytes result" where
  "with_file_name name self = set_file_name name self"

definition with_extension :: "bytes \<Rightarrow> bytes \<Rightarrow> bytes result" where
  "with_extension ext self = rmap snd (set_extension ext self)"

definition path_iter :: "bytes \<Rightarrow> bytes list result" where
  "path_iter p = rmap (map as_os_str) (comps_list False (path_components p))"

text \<open>\<open>==\<close> and \<open>cmp\<close> compare the components.\<close>

definition path_eq :: "bytes \<Rightarrow> bytes \<Rightarrow> bool result" where
  "path_eq p q = rbind (comps_list False (path_components p)) (\<lambda>xs.
     rmap (\<lambda>ys. xs = ys) (comps_list False (path_components q)))"

definition path_less :: "bytes \<Rightarrow> bytes \<Rightarrow> bool result" where
  "path_less p q = rbind (comps_list False (path_components p)) (\<lambda>xs.
     rmap (\<lambda>ys. xs < ys) (comps_list False (path_components q)))"

definition ancestors_next :: "bytes option \<Rightarrow> (bytes option \<times> bytes option) result" where
  "ancestors_next cur = rmap (Pair cur) (case cur of None \<Rightarrow> Inr None | Some p \<Rightarrow> parent p)"

section \<open>The components of a path\<close>

definition cur_dir_at :: "bytes \<Rightarrow> bool" where
  "cur_dir_at p \<longleftrightarrow> p \<noteq> [] \<and> hd p = 0x2E \<and> (tl p = [] \<or> is_sep_byte (hd (tl p)))"

definition path_ref :: "bytes \<Rightarrow> component list" where
  "path_ref p =
     (if has_physical_root p then RootDir # body_comps (tl p)
      else if cur_dir_at p then CurDir # body_comps (tl p)
      else body_comps p)"

lemma path_ref_Nil [simp]: "path_ref [] = []"
  by (simp add: path_ref_def cur_dir_at_def)

lemma include_cur_dir_at: "include_cur_dir c \<longleftrightarrow> \<not> cs_root c \<and> cur_dir_at (cs_path c)"
  by (auto simp: include_cur_dir_def cur_dir_at_def split: list.splits)

lemma path_ref_start:
  assumes "cs_front c \<le> StStartDir" and "cs_root c = has_physical_root (cs_path c)"
  shows "head_comps c @ body_comps (drop (len_before_body c) (cs_path c)) = path_ref (cs_path c)"
  using assms by (auto simp: head_comps_def len_before_body_def path_ref_def include_cur_dir_at drop_Suc)

lemma components_fresh:
  "comps_wf (path_components p)" "remaining (path_components p) = path_ref p" "cs_front (path_components p) = StPrefix"
  "cs_path (path_components p) = p"
  using path_ref_start [of "path_components p"]
  by (simp_all add: comps_wf_def path_components_def remaining_start state_order)

lemma trim_right_ok:
  "comps_wf c \<Longrightarrow> cs_back c = StBody \<Longrightarrow> cs_front c \<le> StBody \<Longrightarrow>
   \<exists>m. trim_right c = Inr (c\<lparr>cs_path := take m (cs_path c)\<rparr>) \<and> comps_wf (c\<lparr>cs_path := take m (cs_path c)\<rparr>) \<and>
     remaining (c\<lparr>cs_path := take m (cs_path c)\<rparr>) = remaining c"
proof (induction "length (cs_path c)" arbitrary: c rule: less_induct)
  case less
  show ?case
  proof (cases "len_before_body c < length (cs_path c)")
    case False
    then have "trim_right c = Inr (c\<lparr>cs_path := take (length (cs_path c)) (cs_path c)\<rparr>)" by (simp add: trim_right.simps [of c])
    then show ?thesis using less.prems(1) by (intro exI [of _ "length (cs_path c)"]) simp
  next
    case True
    obtain x m where s: "body_step_back c = Inr (x, c\<lparr>cs_path := take m (cs_path c)\<rparr>)" "m < length (cs_path c)"
      "comps_wf (c\<lparr>cs_path := take m (cs_path c)\<rparr>)" "remaining c = remaining (c\<lparr>cs_path := take m (cs_path c)\<rparr>) @ opt_list x"
      using body_step_back_ok [OF less.prems(2,3,1) True] .
    show ?thesis
    proof (cases x)
      case None
      define d where "d = c\<lparr>cs_path := take m (cs_path c)\<rparr>"
      have t: "trim_right c = trim_right d" using True s(1) None by (simp add: trim_right.simps [of c] d_def)
      have d: "length (cs_path d) < length (cs_path c)" "comps_wf d" "cs_back d = StBody" "cs_front d \<le> StBody" "remaining d = remaining c"
        using s less.prems None by (simp_all add: d_def)
      from less.hyps [OF d(1-4)] obtain k where
        "trim_right d = Inr (d\<lparr>cs_path := take k (cs_path d)\<rparr>)" "comps_wf (d\<lparr>cs_path := take k (cs_path d)\<rparr>)"
        "remaining (d\<lparr>cs_path := take k (cs_path d)\<rparr>) = remaining d" by blast
      then show ?thesis using t d(5) by (intro exI [of _ "min k m"]) (simp add: d_def)
    next
      case (Some y)
      then have "trim_right c = Inr (c\<lparr>cs_path := take (length (cs_path c)) (cs_path c)\<rparr>)"
        using True s(1) by (simp add: trim_right.simps [of c])
      then show ?thesis using less.prems(1) by (intro exI [of _ "length (cs_path c)"]) simp
    qed
  qed
qed

text \<open>After \<open>trim_left\<close> the path starts with a component, or is empty.\<close>

lemma trim_left_ok:
  "cs_front c = StBody \<Longrightarrow>
   \<exists>q. trim_left c = Inr (c\<lparr>cs_path := q\<rparr>) \<and> body_comps q = body_comps (cs_path c) \<and>
     (q = [] \<or> parse_single_component (takeWhile no_sep q) \<noteq> None)"
proof (induction "length (cs_path c)" arbitrary: c rule: less_induct)
  case less
  show ?case
  proof (cases "cs_path c = []")
    case True
    then have "trim_left c = Inr (c\<lparr>cs_path := []\<rparr>)" by (simp add: trim_left.simps [of c])
    then show ?thesis using True by (intro exI [of _ "[]"]) simp
  next
    case False
    show ?thesis
    proof (cases "parse_single_component (takeWhile no_sep (cs_path c))")
      case None
      define d where "d = c\<lparr>cs_path := tl (dropWhile no_sep (cs_path c))\<rparr>"
      have "trim_left c = trim_left d" "body_comps (cs_path d) = body_comps (cs_path c)" "cs_front d = StBody"
        "length (cs_path d) < length (cs_path c)"
        using False None less.prems body_comps_front [of "cs_path c"] dropWhile_shorter(1) [OF False]
        by (simp_all add: trim_left.simps [of c] body_step_eq d_def)
      then show ?thesis using less.hyps [of d] by (auto simp: d_def)
    next
      case (Some y)
      then have "trim_left c = Inr (c\<lparr>cs_path := cs_path c\<rparr>)"
        using False less.prems by (simp add: trim_left.simps [of c] body_step_eq)
      then show ?thesis using Some by (intro exI [of _ "cs_path c"]) simp
    qed
  qed
qed

lemma path_ref_body:
  assumes "q = take m p" and "p = [] \<or> parse_single_component (takeWhile no_sep p) \<noteq> None" and "body_comps q = body_comps p"
  shows "path_ref q = body_comps q"
proof (cases "q = []")
  case True
  then show ?thesis by (simp add: path_ref_def cur_dir_at_def)
next
  case False
  with assms(1) have p: "p \<noteq> []" "m \<noteq> 0" by auto
  with assms(2) have c: "parse_single_component (takeWhile no_sep p) \<noteq> None" by simp
  then have "\<not> has_physical_root p" using p by (cases p) (auto simp: parse_single_component_def)
  then have "\<not> has_physical_root q" using assms(1) p by (simp add: physical_root_take)
  moreover have "\<not> cur_dir_at q"
  proof
    assume "cur_dir_at q"
    then obtain r where q: "q = 0x2E # r" "r = [] \<or> is_sep_byte (hd r)" by (cases q) (auto simp: cur_dir_at_def)
    show False
    proof (cases r)
      case Nil
      with q have "body_comps q = []" by (simp add: body_comps_one is_sep_byte_def parse_single_component_def)
      then show False using assms(3) c body_comps_front [of p] by auto
    next
      case (Cons b r')
      with q assms(1) have b: "take m p = 0x2E # b # r'" "is_sep_byte b" by simp_all
      then obtain p' where "p = 0x2E # b # p'" by (cases p; cases m; cases "tl p"; cases "m - 1") auto
      with b(2) have "takeWhile no_sep p = [0x2E]" by (simp add: is_sep_byte_def)
      with c show False by (simp add: parse_single_component_def)
    qed
  qed
  ultimately show ?thesis by (simp add: path_ref_def)
qed

lemma as_path_ok:
  assumes "comps_wf c" and "cs_front c = StPrefix \<or> cs_front c = StBody \<and> cs_back c = StBody"
  shows "\<exists>q. as_path c = Inr q \<and> path_ref q = remaining c"
proof (cases "cs_front c = StBody")
  case True
  then have bk: "cs_back c = StBody" using assms(2) by auto
  obtain q where q: "trim_left c = Inr (c\<lparr>cs_path := q\<rparr>)" "body_comps q = body_comps (cs_path c)"
    "q = [] \<or> parse_single_component (takeWhile no_sep q) \<noteq> None" using trim_left_ok [OF True] by blast
  define d where "d = c\<lparr>cs_path := q\<rparr>"
  have d: "comps_wf d" "cs_back d = StBody" "cs_front d \<le> StBody" "cs_front d = StBody"
    using True bk by (simp_all add: d_def comps_wf_body)
  obtain m where m: "trim_right d = Inr (d\<lparr>cs_path := take m q\<rparr>)" "remaining (d\<lparr>cs_path := take m q\<rparr>) = remaining d"
    using trim_right_ok [OF d(1-3)] by (auto simp: d_def)
  have "body_comps (take m q) = body_comps q" using m(2) True bk by (simp add: remaining_body d_def)
  then have "path_ref (take m q) = remaining c"
    using path_ref_body [OF refl q(3), of m] q(2) True bk by (simp add: remaining_body)
  moreover have "as_path c = Inr (take m q)" using True bk q(1) m(1) by (simp add: as_path_def d_def)
  ultimately show ?thesis by blast
next
  case False
  then have fr: "cs_front c = StPrefix" using assms(2) by simp
  show ?thesis
  proof (cases "cs_back c = StBody")
    case True
    then obtain m where m: "trim_right c = Inr (c\<lparr>cs_path := take m (cs_path c)\<rparr>)"
      "comps_wf (c\<lparr>cs_path := take m (cs_path c)\<rparr>)" "remaining (c\<lparr>cs_path := take m (cs_path c)\<rparr>) = remaining c"
      using trim_right_ok [of c] assms(1) fr by (auto simp: state_order)
    define d where "d = c\<lparr>cs_path := take m (cs_path c)\<rparr>"
    have "remaining d = path_ref (cs_path d)"
      using m(2) True fr path_ref_start [of d] by (simp add: remaining_start comps_wf_def d_def state_order)
    then show ?thesis using m True False by (simp add: as_path_def d_def)
  next
    case bk: False
    have p: "as_path c = Inr (cs_path c)" using bk False by (simp add: as_path_def)
    show ?thesis
    proof (cases "cs_back c = StStartDir")
      case True
      with assms(1) fr have "cs_root c = has_physical_root (cs_path c)" "length (cs_path c) = len_before_body c"
        by (simp_all add: comps_wf_def state_order)
      then show ?thesis
        using path_ref_start [of c] fr p True by (simp add: remaining_def finished_def state_order)
    next
      case False
      then have "cs_back c = StPrefix \<or> cs_back c = StDone" using bk by (cases "cs_back c") simp_all
      moreover from this have "cs_path c = []" using assms(1) fr by (auto simp: comps_wf_def less_eq_path_state_def)
      ultimately have "cs_path c = []" "remaining c = []" by (auto simp: remaining_def finished_def less_eq_path_state_def)
      then show ?thesis using p by (simp add: path_ref_def cur_dir_at_def)
    qed
  qed
qed

text \<open>What \<open>next_back\<close> does to a fresh iterator.\<close>

lemma last_component:
  obtains c where "comps_next_back (path_components p) = Inr (if path_ref p = [] then None else Some (last (path_ref p)), c)"
    "comps_wf c" "remaining c = butlast (path_ref p)" "cs_front c = StPrefix"
  using comps_next_back_ok [OF components_fresh(1), of p]
  by (auto simp: pops_back_def components_fresh)

lemma parent_ok:
  "\<exists>q. parent p = Inr q \<and> (case q of
     None \<Rightarrow> path_ref p = [] \<or> last (path_ref p) = RootDir
   | Some q \<Rightarrow> path_ref p \<noteq> [] \<and> last (path_ref p) \<noteq> RootDir \<and> path_ref q = butlast (path_ref p))"
proof -
  obtain c where c: "comps_next_back (path_components p) = Inr (if path_ref p = [] then None else Some (last (path_ref p)), c)"
    "comps_wf c" "remaining c = butlast (path_ref p)" "cs_front c = StPrefix" by (rule last_component)
  obtain q where "as_path c = Inr q" "path_ref q = butlast (path_ref p)" using as_path_ok [OF c(2)] c(3,4) by auto
  then show ?thesis using c(1) by (cases "last (path_ref p)") (auto simp: parent_def)
qed

lemma file_name_ok:
  "file_name p = Inr (if path_ref p = [] then None else case last (path_ref p) of Normal n \<Rightarrow> Some n | _ \<Rightarrow> None)"
  by (rule last_component [of p]) (simp add: file_name_def split: component.split)

section \<open>Prefixes\<close>

lemma iter_after_ok:
  "comps_wf it \<Longrightarrow> comps_wf pre \<Longrightarrow>
   if prefix (comps_items rv pre) (comps_items rv it)
   then \<exists>it'. iter_after rv it pre = Inr (Some it') \<and> comps_wf it' \<and> comps_items rv it = comps_items rv pre @ comps_items rv it' \<and>
     (\<not> rv \<longrightarrow> cs_back it' = cs_back it \<and> (cs_front it' = cs_front it \<or> cs_front it' = StBody))
   else iter_after rv it pre = Inr None"
proof (induction rv it pre rule: iter_after.induct)
  case (1 rv it pre)
  from 1(2) show ?case
  proof (cases rule: comps_pop_cases [of it rv])
    case (none it')
    from 1(3) show ?thesis
      by (cases rule: comps_pop_cases [of pre rv])
        (use none 1(2) in \<open>auto simp: iter_after.simps [of rv it pre]\<close>)
  next
    case it: (some x it')
    from 1(3) show ?thesis
    proof (cases rule: comps_pop_cases [of pre rv])
      case (none pre')
      with it 1(2) show ?thesis by (auto simp: iter_after.simps [of rv it pre])
    next
      case (some y pre')
      have f: "cs_back it' = cs_back it \<and> cs_front it' = StBody" if "\<not> rv"
        using comps_next_ok [OF 1(2)] it that by (auto simp: pops_front_def comps_pop_def comps_items_def)
      show ?thesis
      proof (cases "x = y")
        case True
        then have "iter_after rv it pre = iter_after rv it' pre'" using it some by (simp add: iter_after.simps [of rv it pre])
        moreover note 1(1) [OF it(2) refl some(2) refl refl refl refl True it(3) some(3)]
        ultimately show ?thesis using it some True f by (auto split: if_splits)
      next
        case False
        then show ?thesis using it some by (auto simp: iter_after.simps [of rv it pre])
      qed
    qed
  qed
qed

section \<open>Joining\<close>

lemma path_ref_join_sep:
  assumes "is_sep_byte b"
  shows "path_ref (a @ b # q) = path_ref (a @ [b]) @ body_comps q"
proof -
  have c: "body_comps (r @ b # q) = body_comps (r @ [b]) @ body_comps q" for r
    using body_comps_append [OF assms, of r] by simp
  have n: "body_comps (b # q) = body_comps q" using body_comps_append [OF assms, of "[]" q] by simp
  show ?thesis
    using assms c [of "tl a"] c [of a] by (cases a) (auto simp: path_ref_def cur_dir_at_def hd_append)
qed

lemma path_ref_trailing_sep:
  assumes "is_sep_byte b" and "a \<noteq> []"
  shows "path_ref (a @ [b]) = path_ref a"
proof -
  have c: "body_comps (r @ [b]) = body_comps r" for r using body_comps_append [OF assms(1), of r "[]"] by simp
  show ?thesis using assms c [of "tl a"] c [of a] by (cases a) (auto simp: path_ref_def cur_dir_at_def hd_append)
qed

lemma path_push_ok:
  "path_ref (path_push p q) =
     (if has_physical_root q \<or> p = [] then path_ref q else path_ref p @ body_comps q)"
proof (cases "has_physical_root q \<or> p = []")
  case True
  then show ?thesis by (auto simp: path_push_def path_has_root_def path_components_def)
next
  case False
  then have r: "\<not> path_has_root q" "p \<noteq> []" by (simp_all add: path_has_root_def path_components_def)
  have s: "is_sep_byte 0x2F" by (simp add: is_sep_byte_def)
  show ?thesis
  proof (cases "is_sep_byte (last p)")
    case True
    have p: "p = butlast p @ [last p]" using r(2) by simp
    have "path_push p q = butlast p @ last p # q" using r True by (simp add: path_push_def)
    then show ?thesis using path_ref_join_sep [OF True, of "butlast p" q] p False by simp
  next
    case nosep: False
    then have "path_push p q = p @ 0x2F # q" using r by (simp add: path_push_def)
    then show ?thesis using path_ref_join_sep [OF s, of p q] path_ref_trailing_sep [OF s r(2)] False by simp
  qed
qed

section \<open>What the operations mean\<close>

lemma comps_list_fresh: "comps_list rv (path_components p) = Inr (if rv then rev (path_ref p) else path_ref p)"
  using comps_list_ok [OF components_fresh(1)] by (simp add: comps_items_def components_fresh)

text \<open>C16: The iterator over the components of a path is a queue with two ends: a fresh one holds the
  components of the path, and from every state it can reach \<open>next\<close> takes the first of what is left and
  \<open>next_back\<close> the last, in any interleaving, until both say that there is nothing more. It never panics.\<close>

theorem components_two_ended:
  "comps_wf (path_components p) \<and> remaining (path_components p) = path_ref p \<and>
   (\<forall>c. comps_wf c \<longrightarrow> pops_front (cs_back c) (comps_next c) (remaining c) \<and> pops_back (cs_front c) (comps_next_back c) (remaining c))"
  using components_fresh comps_next_ok comps_next_back_ok by blast

lemma components_two_ended_witness:
  "pops_front StBody (comps_next (path_components [0x2F, 0x61])) [RootDir, Normal [0x61]]"
proof -
  have "path_ref [0x2F, 0x61] = [RootDir, Normal [0x61]]"
    by (simp add: path_ref_def is_sep_byte_def body_comps_one parse_single_component_def)
  moreover have "cs_back (path_components [0x2F, 0x61]) = StBody" by (simp add: path_components_def)
  ultimately show ?thesis using components_two_ended [of "[0x2F, 0x61]"] by metis
qed

definition plain_name :: "bytes \<Rightarrow> bool" where
  "plain_name n \<longleftrightarrow> n \<noteq> [] \<and> n \<noteq> [0x2E] \<and> n \<noteq> [0x2E, 0x2E] \<and> (\<forall>b\<in>set n. no_sep b)"

lemma plain_name_comps:
  assumes "plain_name n"
  shows "body_comps n = [Normal n]" "path_ref n = [Normal n]" "\<not> has_physical_root n"
proof -
  show b: "body_comps n = [Normal n]"
    using assms by (simp add: plain_name_def body_comps_one parse_single_component_def)
  show r: "\<not> has_physical_root n" using assms by (cases n) (auto simp: plain_name_def)
  have "\<not> cur_dir_at n" using assms by (cases n; cases "tl n") (auto simp: plain_name_def cur_dir_at_def)
  then show "path_ref n = [Normal n]" using b r by (simp add: path_ref_def)
qed

text \<open>C17: A name joined to a path is the file name of the result, and the parent of the result is a path
  equal to the one the name was joined to.\<close>

theorem join_then_parent:
  assumes "plain_name n"
  shows "file_name (join p n) = Inr (Some n) \<and> (\<exists>q. parent (join p n) = Inr (Some q) \<and> path_eq q p = Inr True)"
proof -
  have r: "path_ref (join p n) = path_ref p @ [Normal n]"
    using plain_name_comps [OF assms] by (cases "p = []") (simp_all add: join_def path_push_ok path_ref_Nil)
  obtain q where "parent (join p n) = Inr (Some q)" "path_ref q = path_ref p"
    using parent_ok [of "join p n"] r by (auto split: option.splits)
  then show ?thesis using r by (simp add: file_name_ok path_eq_def comps_list_fresh)
qed

lemma join_then_parent_witness:
  "file_name (join [0x61] [0x62, 0x63]) = Inr (Some [0x62, 0x63])"
  using join_then_parent [of "[0x62, 0x63]" "[0x61]"] by (simp add: plain_name_def is_sep_byte_def)

text \<open>Stripping a prefix succeeds exactly when the components of the one path begin with those of the
  other, and gives a path with the remaining components; \<open>starts_with\<close> and \<open>ends_with\<close> compare whole
  components.\<close>

theorem strip_prefix_components:
  "(\<exists>r. strip_prefix p base = Inr r \<and> (case r of
      None \<Rightarrow> \<not> prefix (path_ref base) (path_ref p) | Some q \<Rightarrow> path_ref p = path_ref base @ path_ref q)) \<and>
   starts_with p base = Inr (prefix (path_ref base) (path_ref p)) \<and>
   ends_with p base = Inr (suffix (path_ref base) (path_ref p))"
proof (intro conjI)
  note f = iter_after_ok [of "path_components p" "path_components base" False, OF components_fresh(1) components_fresh(1)]
  note b = iter_after_ok [of "path_components p" "path_components base" True, OF components_fresh(1) components_fresh(1)]
  show "starts_with p base = Inr (prefix (path_ref base) (path_ref p))"
    using f by (auto simp: starts_with_def comps_items_def components_fresh split: if_splits)
  show "ends_with p base = Inr (suffix (path_ref base) (path_ref p))"
    using b by (auto simp: ends_with_def comps_items_def components_fresh suffix_to_prefix split: if_splits)
  show "\<exists>r. strip_prefix p base = Inr r \<and> (case r of
      None \<Rightarrow> \<not> prefix (path_ref base) (path_ref p) | Some q \<Rightarrow> path_ref p = path_ref base @ path_ref q)"
  proof (cases "prefix (path_ref base) (path_ref p)")
    case True
    with f obtain c where c: "iter_after False (path_components p) (path_components base) = Inr (Some c)" "comps_wf c"
      "path_ref p = path_ref base @ remaining c" "cs_back c = StBody" "cs_front c = StPrefix \<or> cs_front c = StBody"
      by (auto simp: comps_items_def components_fresh) (auto simp: path_components_def)
    then obtain q where "as_path c = Inr q" "path_ref q = remaining c" using as_path_ok [OF c(2)] by auto
    then show ?thesis using c by (simp add: strip_prefix_def)
  next
    case False
    then show ?thesis using f by (simp add: strip_prefix_def comps_items_def components_fresh)
  qed
qed

section \<open>Facts for the callers\<close>

lemma path_iter_ref: "path_iter p = Inr (map as_os_str (path_ref p))"
  by (simp add: path_iter_def comps_list_fresh)

lemma path_ref_join: "plain_name n \<Longrightarrow> path_ref (join p n) = path_ref p @ [Normal n]"
  using plain_name_comps [of n] by (cases "p = []") (simp_all add: join_def path_push_ok path_ref_Nil)

lemma parent_join:
  assumes "plain_name n"
  obtains q where "parent (join p n) = Inr (Some q)" "path_ref q = path_ref p"
  using parent_ok [of "join p n"] path_ref_join [OF assms, of p] that by (auto split: option.splits)

lemma comps_next_back_prefix: "comps_next_back c = Inr (x, c') \<Longrightarrow> prefix (cs_path c') (cs_path c)"
proof (induction c arbitrary: x c' rule: comps_next_back.induct)
  case (1 c)
  have b: "prefix (cs_path d) (cs_path c)" if "body_step_back c = Inr (y, d)" for y d
    using that by (auto simp: body_step_back_def cut_back_def rbind_Inr_iff rmap_Inr_iff slice_to_def take_is_prefix split: if_splits)
  have k: "prefix (cs_path d) (cs_path c)" if "cut_back 1 (c\<lparr>cs_back := StPrefix\<rparr>) = Inr d" for d
    using that by (auto simp: cut_back_def rbind_Inr_iff rmap_Inr_iff slice_to_def take_is_prefix split: if_splits)
  show ?case
  proof (cases "finished c")
    case True
    then show ?thesis using 1(4) by (simp add: comps_next_back.simps [of c])
  next
    case f: False
    show ?thesis
    proof (cases "cs_back c")
      case StBody
      show ?thesis
      proof (cases "len_before_body c < length (cs_path c)")
        case True
        with 1(4) f StBody obtain y d where d: "body_step_back c = Inr (y, d)"
          by (cases "body_step_back c") (auto simp: comps_next_back.simps [of c])
        show ?thesis
        proof (cases y)
          case None
          with 1(4) f StBody True d have "comps_next_back d = Inr (x, c')" by (simp add: comps_next_back.simps [of c])
          from 1(2) [OF f StBody True d refl None this] b [OF d] show ?thesis by (rule prefix_order.trans)
        next
          case (Some z)
          with 1(4) f StBody True d b [OF d] show ?thesis by (simp add: comps_next_back.simps [of c])
        qed
      next
        case False
        with 1(4) f StBody have "comps_next_back (c\<lparr>cs_back := StStartDir\<rparr>) = Inr (x, c')" by (simp add: comps_next_back.simps [of c])
        from 1(3) [OF f StBody False this] show ?thesis by simp
      qed
    next
      case StStartDir
      let ?d = "c\<lparr>cs_back := StPrefix\<rparr>"
      show ?thesis
      proof (cases "cs_root ?d \<or> include_cur_dir ?d")
        case True
        with 1(4) f StStartDir k show ?thesis by (auto simp: comps_next_back.simps [of c] Let_def rmap_Inr_iff split: if_splits)
      next
        case False
        with 1(4) f StStartDir have "comps_next_back ?d = Inr (x, c')" by (simp add: comps_next_back.simps [of c] Let_def)
        from 1(1) [OF f StStartDir refl _ _ this] False show ?thesis by simp
      qed
    qed (use 1(4) f in \<open>auto simp: comps_next_back.simps [of c]\<close>)
  qed
qed

lemma trim_right_prefix: "trim_right c = Inr c' \<Longrightarrow> prefix (cs_path c') (cs_path c)"
proof (induction c arbitrary: c' rule: trim_right.induct)
  case (1 c)
  have b: "prefix (cs_path d) (cs_path c)" if "body_step_back c = Inr (y, d)" for y d
    using that by (auto simp: body_step_back_def cut_back_def rbind_Inr_iff rmap_Inr_iff slice_to_def take_is_prefix split: if_splits)
  show ?case
  proof (cases "length (cs_path c) \<le> len_before_body c")
    case False
    with 1(2) obtain y d where d: "body_step_back c = Inr (y, d)"
      by (cases "body_step_back c") (auto simp: trim_right.simps [of c])
    show ?thesis
    proof (cases y)
      case None
      with 1(2) False d have "trim_right d = Inr c'" by (simp add: trim_right.simps [of c])
      from 1(1) [OF False d refl None this] b [OF d] show ?thesis by (rule prefix_order.trans)
    next
      case (Some z)
      with 1(2) False d show ?thesis by (simp add: trim_right.simps [of c])
    qed
  qed (use 1(2) in \<open>simp add: trim_right.simps [of c]\<close>)
qed

lemma parent_prefix:
  assumes "parent p = Inr (Some q)"
  shows "prefix q p"
proof -
  obtain c where c: "comps_next_back (path_components p) = Inr (if path_ref p = [] then None else Some (last (path_ref p)), c)"
    "cs_front c = StPrefix" using last_component [of p] by metis
  then have a: "as_path c = Inr q"
    using assms by (cases "last (path_ref p)") (auto simp: parent_def rmap_Inr_iff split: if_splits)
  have "prefix (cs_path c) p" using comps_next_back_prefix [OF c(1)] by (simp add: path_components_def)
  moreover have "prefix q (cs_path c)"
    using a c(2) trim_right_prefix by (auto simp: as_path_def rmap_Inr_iff split: if_splits)
  ultimately show ?thesis by (rule prefix_order.trans [rotated])
qed

lemma path_pop_ok:
  "\<exists>b q. path_pop p = Inr (b, q) \<and>
     (if path_ref p = [] \<or> last (path_ref p) = RootDir then \<not> b \<and> q = p else b \<and> path_ref q = butlast (path_ref p))"
proof -
  obtain r where r: "parent p = Inr r" "case r of
     None \<Rightarrow> path_ref p = [] \<or> last (path_ref p) = RootDir
   | Some q \<Rightarrow> path_ref p \<noteq> [] \<and> last (path_ref p) \<noteq> RootDir \<and> path_ref q = butlast (path_ref p)"
    using parent_ok [of p] by blast
  show ?thesis
  proof (cases r)
    case (Some q)
    have "take (length q) p = q" using parent_prefix [of p q] r(1) Some by (auto simp: prefix_def)
    then show ?thesis using r Some by (intro exI [of _ True] exI [of _ q]) (simp add: path_pop_def)
  qed (use r in \<open>auto simp: path_pop_def\<close>)
qed

lemma split_sep_no_sep: "w \<in> set (split_sep p) \<Longrightarrow> \<forall>b\<in>set w. no_sep b"
  by (induction p arbitrary: w) (fastforce split: if_splits list.splits)+

lemma body_comps_plain: "x \<in> set (body_comps p) \<Longrightarrow> x = ParentDir \<or> (\<exists>n. x = Normal n \<and> plain_name n)"
  using split_sep_no_sep
  by (fastforce simp: body_comps_def List.map_filter_def parse_single_component_def plain_name_def split: if_splits)

lemma path_ref_plain: "Normal n \<in> set (path_ref p) \<Longrightarrow> plain_name n"
  using body_comps_plain by (fastforce simp: path_ref_def split: if_splits)

end
