(* ===== verification/Driver.thy ===== *)
theory Driver
  imports Directory File_Ops Path_Lib
begin

text \<open>
  The driver for Linux (\<open>linux_driver/src/lib.rs\<close>): operations on whole paths over directories and
  files, and the targets of symbolic links. Its paths are those of the standard library, whose interface and meaning \<open>lib/path\<close> copies
  (\<open>Path_Lib\<close>). Objects that go out of scope are dropped by \<open>inode_drop\<close> where the count of
  links can be zero; other references only keep an inode in memory.
\<close>

section \<open>Opening a path\<close>

definition slash :: bytes where "slash = [0x2F]"

text \<open>\<open>fs.root().unwrap()\<close>.\<close>

definition driver_root :: "'d world \<Rightarrow> (nat \<times> 'd world) result" where
  "driver_root st = (case st of (im, fs, t) \<Rightarrow>
     rmap (\<lambda>(d, im, fs). (d, im, fs, t)) (unwrap_res (fs_root (im, fs))))"

fun open_names :: "nat \<Rightarrow> bytes list \<Rightarrow> nat \<Rightarrow> 'd world \<Rightarrow> (fs_object \<times> 'd world) result option" where
  "open_names fuel [] dir st = Some (Inr (ObjDirectory dir, st))"
| "open_names fuel (entry # es) dir st =
     obind (open_entry fuel dir entry st) (\<lambda>(ob, st).
     case ob of
       ObjDirectory ndir \<Rightarrow> open_names fuel es ndir st
     | _ \<Rightarrow> if es = [] then Some (Inr (ob, st)) else Some (Inl (Fs NotDirectory)))"

text \<open>The start of a walk: the root for an absolute path, which is then without its first component.\<close>

definition walk_from :: "nat \<Rightarrow> bytes \<Rightarrow> 'd world \<Rightarrow> ((nat \<times> bytes list) \<times> 'd world) result" where
  "walk_from dir pathname st =
     rbind (path_iter pathname) (\<lambda>es.
     case es of
       e # es' \<Rightarrow> if e = slash then rmap (\<lambda>(root, st). ((root, es'), st)) (driver_root st) else Inr ((dir, es), st)
     | [] \<Rightarrow> Inr ((dir, es), st))"

definition openat :: "nat \<Rightarrow> nat \<Rightarrow> bytes \<Rightarrow> 'd world \<Rightarrow> (fs_object \<times> 'd world) result option" where
  "openat fuel dir pathname st =
     obind (Some (walk_from dir pathname st)) (\<lambda>((dir, es), st). open_names fuel es dir st)"

definition open_directory :: "nat \<Rightarrow> nat \<Rightarrow> bytes \<Rightarrow> 'd world \<Rightarrow> (nat \<times> 'd world) result option" where
  "open_directory fuel dir pathname st =
     obind (openat fuel dir pathname st) (\<lambda>(ob, st).
     Some (rmap (\<lambda>d. (d, st)) (ok_or (get_directory ob) NotDirectory)))"

section \<open>Creating and removing\<close>

definition done_with :: "'d world \<Rightarrow> (inode_map \<times> 'd fs) result" where
  "done_with st = (case st of (im, fs, t) \<Rightarrow> rmap (Pair im) (tx_done t fs))"

definition do_create :: "nat \<Rightarrow> nat \<Rightarrow> bytes \<Rightarrow> file_type \<Rightarrow> inode_map \<times> 'd fs \<Rightarrow> (inode_map \<times> 'd fs) result option" where
  "do_create fuel dir pathname ft st = (case st of (im, fs) \<Rightarrow>
     obind (Some (rbind (file_name pathname) (\<lambda>n. ok_or n NoEntry))) (\<lambda>name.
     obind (Some (parent pathname)) (\<lambda>p.
     obind (case p of
              Some n \<Rightarrow> obind (open_directory fuel dir n (im, fs, open_transaction)) (\<lambda>(d, st). create_entry fuel d name ft st)
            | None \<Rightarrow> create_entry fuel dir name ft (im, fs, open_transaction)) (\<lambda>(_, st).
     Some (done_with st)))))"

definition createat :: "nat \<Rightarrow> nat \<Rightarrow> bytes \<Rightarrow> inode_map \<times> 'd fs \<Rightarrow> (inode_map \<times> 'd fs) result option" where
  "createat fuel dir pathname = do_create fuel dir pathname RegularFile"

definition mkdirat :: "nat \<Rightarrow> nat \<Rightarrow> bytes \<Rightarrow> inode_map \<times> 'd fs \<Rightarrow> (inode_map \<times> 'd fs) result option" where
  "mkdirat fuel dir pathname = do_create fuel dir pathname Directory"

text \<open>\<open>has_child\<close> of the directory \<open>d\<close>; \<open>on_dir\<close> needs the state of a transaction.\<close>

definition check_no_child :: "nat \<Rightarrow> 'd world \<Rightarrow> (unit \<times> 'd world) result option" where
  "check_no_child d st =
     obind (on_dir d (\<lambda>(i, fs, t). Some (rmap (\<lambda>(b, i, fs). (b, i, fs, t)) (dir_has_child (i, fs)))) st) (\<lambda>(b, st).
     Some (if b then Inl (Fs NotEmpty) else Inr ((), st)))"

text \<open>The inode removed lives until the transaction is done, and is dropped then unless
  \<open>held_elsewhere\<close>.\<close>

definition unlinkat ::
  "nat \<Rightarrow> (nat \<Rightarrow> bool) \<Rightarrow> nat \<Rightarrow> bytes \<Rightarrow> inode_map \<times> 'd fs \<Rightarrow> (inode_map \<times> 'd fs) result option" where
  "unlinkat fuel held_elsewhere dir pathname st = (case st of (im, fs) \<Rightarrow>
     obind (Some (rbind (file_name pathname) (\<lambda>n. ok_or n Busy))) (\<lambda>name.
     obind (Some (parent pathname)) (\<lambda>p.
     obind (case p of
              Some n \<Rightarrow>
                obind (open_directory fuel dir n (im, fs, open_transaction)) (\<lambda>(parent, st).
                obind (openat fuel parent name st) (\<lambda>(entry, st).
                obind (case get_directory entry of
                         Some d \<Rightarrow> check_no_child d st
                       | None \<Rightarrow> Some (Inr ((), st))) (\<lambda>(_, st).
                remove_entry fuel parent name st)))
            | None \<Rightarrow> remove_entry fuel dir name (im, fs, open_transaction)) (\<lambda>(ino, st).
     obind (Some (done_with st)) (\<lambda>st.
     if held_elsewhere ino then Some (Inr st) else inode_drop fuel ino st)))))"

section \<open>Reading and writing whole files\<close>

definition round_page :: "nat \<Rightarrow> nat" where
  "round_page n = (n + 4095) - (n + 4095) mod 4096"

text \<open>The number of bytes is passed where \<open>read_slices\<close> takes a number of blocks.\<close>

definition driver_read :: "inode \<times> 'd fs \<Rightarrow> (bytes \<times> inode \<times> 'd fs) result" where
  "driver_read st =
     rmap (\<lambda>(out, st). (concat out, st)) (read_slices 0 (round_page (i_size (fst st))) [] st)"

fun chunks :: "nat \<Rightarrow> 'a list \<Rightarrow> 'a list list" where
  "chunks n xs = (if n = 0 \<or> xs = [] then [] else take n xs # chunks n (drop n xs))"

declare chunks.simps [simp del]

definition driver_write :: "nat \<Rightarrow> bytes \<Rightarrow> inode \<times> 'd fs \<Rightarrow> (inode \<times> 'd fs) result option" where
  "driver_write fuel buf st = (case st of (i, fs) \<Rightarrow>
     let iov = chunks (blk_size fs) (buf @ replicate (round_page (length buf) - length buf) 0)
     in obind (if \<forall>b\<in>set iov. length b = blk_size fs then Some (Inr ()) else Some (Inl Panic)) (\<lambda>_.
        obind (write_slices fuel 0 iov (i, fs, open_transaction)) (\<lambda>(i, fs, t).
        case set_size (length buf) i t of (i, t) \<Rightarrow>
          Some (rmap (Pair i) (tx_done t fs)))))"

section \<open>Symbolic links\<close>

text \<open>\<open>readlink\<close> (\<open>src/symlink.rs\<close>): the target is kept in the inode; longer ones are \<open>todo!()\<close>.\<close>

definition readlink :: "inode \<Rightarrow> bytes result" where
  "readlink i =
     (if i_size i \<le> 60
      then rbind (to_inline_data (i_addr i)) (\<lambda>b.
           rbind (slice_of 0 (i_size i) b) (\<lambda>s.
           rmap (\<lambda>_. s) (assertR (utf8_valid s))))
      else Inl Panic)"

section \<open>Walking a joined path\<close>

lemma open_names_append:
  "open_names fuel (es @ fs) dir st =
     (if fs = [] then open_names fuel es dir st
      else obind (open_names fuel es dir st) (\<lambda>(ob, st). case ob of
        ObjDirectory d \<Rightarrow> open_names fuel fs d st | _ \<Rightarrow> Some (Inl (Fs NotDirectory))))"
proof (induction es arbitrary: dir st)
  case (Cons e es)
  show ?case
  proof (cases "open_entry fuel dir e st")
    case (Some r)
    then show ?thesis using Cons by (cases r) (auto simp: obind_def split: fs_object.split)
  qed (simp add: obind_def)
qed (simp add: obind_def)

lemma openat_ref_cong: "path_ref p = path_ref q \<Longrightarrow> openat fuel dir p st = openat fuel dir q st"
  by (simp add: openat_def walk_from_def path_iter_ref)

lemma plain_not_slash: "plain_name n \<Longrightarrow> n \<noteq> slash"
  by (auto simp: plain_name_def slash_def is_sep_byte_def)

lemma walk_from_join:
  assumes "plain_name n"
  shows "walk_from dir (join p n) st = rmap (\<lambda>((d, es), st). ((d, es @ [n]), st)) (walk_from dir p st)"
  using assms plain_not_slash
  by (cases "path_ref p"; cases "driver_root st") (auto simp: walk_from_def path_iter_ref path_ref_join)

lemma openat_name:
  assumes "plain_name n"
  shows "openat fuel d n st = open_names fuel [n] d st"
  using plain_name_comps(2) [OF assms] plain_not_slash [OF assms] by (simp add: openat_def walk_from_def path_iter_ref obind_def)

text \<open>C19: Opening a name joined to a path is opening the path, which must be a directory, and then the
  name in it; every error of the walk is the error of the first step that fails.\<close>

theorem openat_join:
  assumes "plain_name n"
  shows "openat fuel dir (join p n) st =
    obind (openat fuel dir p st) (\<lambda>(ob, st). case ob of
      ObjDirectory d \<Rightarrow> openat fuel d n st | _ \<Rightarrow> Some (Inl (Fs NotDirectory)))"
  using assms
  by (cases "walk_from dir p st")
    (auto simp: openat_def [of fuel dir] walk_from_join openat_name open_names_append obind_def
      split: option.splits sum.splits fs_object.splits)

lemma openat_join_witness:
  "openat 5 2 (join [] [0x61]) (Map.empty, demo_4k_fs, open_transaction) =
    openat 5 2 [0x61] (Map.empty, demo_4k_fs, open_transaction)"
  by (subst openat_join) (simp_all add: plain_name_def is_sep_byte_def openat_def walk_from_def path_iter_ref obind_def)

text \<open>Creating a file or a directory at a name joined to a path is opening the path, creating the
  entry in it and committing the one transaction that both share.\<close>

theorem do_create_join:
  assumes "plain_name n"
  shows "do_create fuel dir (join p n) ft (im, fs) =
    obind (open_directory fuel dir p (im, fs, open_transaction)) (\<lambda>(d, st).
    obind (create_entry fuel d n ft st) (\<lambda>(_, st). Some (done_with st)))"
proof -
  obtain q where q: "parent (join p n) = Inr (Some q)" "path_ref q = path_ref p" by (rule parent_join [OF assms])
  have o: "open_directory fuel dir q st = open_directory fuel dir p st" for st :: "'d world"
    by (simp add: open_directory_def openat_ref_cong [OF q(2)])
  have f: "file_name (join p n) = Inr (Some n)" using path_ref_join [OF assms, of p] by (simp add: file_name_ok)
  show ?thesis
    by (cases "open_directory fuel dir p (im, fs, open_transaction)")
      (auto simp: do_create_def q(1) f o obind_def split: sum.splits)
qed

lemma do_create_join_witness:
  "do_create 5 2 (join [] [0x61]) RegularFile (Map.empty, demo_4k_fs) = Some (Inl Panic)"
  by (subst do_create_join)
    (simp_all add: plain_name_def is_sep_byte_def open_directory_def openat_def walk_from_def path_iter_ref obind_def
      get_directory_def create_entry_def)

end
