(* ===== verification/Shell.thy ===== *)
theory Shell
  imports Driver Directory_Facts
begin

text \<open>
  The interactive shell (\<open>linux_cli/src/shell.rs\<close>): absolute paths, the walk to the par of a
  target, and the commands that change the file system. What a command prints is a list of messages,
  each the format string and its arguments; the terminal itself is not part of the model.
\<close>

section \<open>The shell's state\<close>

datatype shell_arg = Name bytes | Reason string

record 'd shell =
  sh_cwd :: nat
  sh_cwd_path :: bytes
  sh_inodes :: inode_map
  sh_fs :: "'d fs"
  sh_out :: "(string \<times> shell_arg list) list"

definition say :: "string \<Rightarrow> shell_arg list \<Rightarrow> 'd shell \<Rightarrow> 'd shell" where
  "say msg args sh = sh\<lparr>sh_out := sh_out sh @ [(msg, args)]\<rparr>"

text \<open>The errors that have no text end in \<open>todo!()\<close>.\<close>

fun display_error :: "fs_error \<Rightarrow> string result" where
  "display_error Busy = Inr ''File system is busy.''"
| "display_error FsFull = Inr ''File system is full''"
| "display_error NotFile = Inr ''Not a file''"
| "display_error NotDirectory = Inr ''Not a directory''"
| "display_error NoEntry = Inr ''No such file or directory''"
| "display_error Exist = Inr ''File exists''"
| "display_error _ = Inl Panic"

definition complain :: "string \<Rightarrow> shell_arg list \<Rightarrow> fs_error \<Rightarrow> 'd shell \<Rightarrow> 'd shell result" where
  "complain msg args e sh = rmap (\<lambda>r. say msg (args @ [Reason r]) sh) (display_error e)"

text \<open>\<open>match r { Ok(x) => .., Err(e) => .. }\<close>: a panic, and a loop that has not finished, go through.\<close>

definition attempt :: "'a result option \<Rightarrow> ('a \<Rightarrow> 'b result option) \<Rightarrow> (fs_error \<Rightarrow> 'b result option) \<Rightarrow> 'b result option" where
  "attempt m f g = (case m of
     None \<Rightarrow> None
   | Some (Inr x) \<Rightarrow> f x
   | Some (Inl (Fs e)) \<Rightarrow> g e
   | Some (Inl Panic) \<Rightarrow> Some (Inl Panic))"

definition expect :: "'a result option \<Rightarrow> 'a result option" where
  "expect m = map_option unwrap_res m"

definition sh_world :: "'d shell \<Rightarrow> tx \<Rightarrow> 'd world" where
  "sh_world sh t = (sh_inodes sh, sh_fs sh, t)"

definition sh_put :: "inode_map \<times> 'd fs \<Rightarrow> 'd shell \<Rightarrow> 'd shell" where
  "sh_put w sh = (case w of (im, fs) \<Rightarrow> sh\<lparr>sh_inodes := im, sh_fs := fs\<rparr>)"

definition dot :: bytes where "dot = [0x2E]"
definition dotdot :: bytes where "dotdot = [0x2E, 0x2E]"

section \<open>Paths\<close>

definition abspath_step :: "bytes \<Rightarrow> bytes \<Rightarrow> bytes result" where
  "abspath_step e ret =
     (if e = dot then Inr ret else if e = dotdot then rmap snd (path_pop ret) else Inr (path_push ret e))"

definition abspath :: "bytes \<Rightarrow> bytes \<Rightarrow> bytes result" where
  "abspath cwd_path path =
     rbind (path_iter (path_push cwd_path path)) (\<lambda>es. for_each es abspath_step slash)"

fun parent_names :: "nat \<Rightarrow> bytes list \<Rightarrow> nat \<Rightarrow> 'd world \<Rightarrow> ((bytes option \<times> nat) \<times> 'd world) result option" where
  "parent_names fuel [] dir st = Some (Inr ((None, dir), st))"
| "parent_names fuel [entry] dir st = Some (Inr ((Some entry, dir), st))"
| "parent_names fuel (entry # e # es) dir st =
     obind (open_entry fuel dir entry st) (\<lambda>(ob, st).
     case ob of
       ObjDirectory ndir \<Rightarrow> parent_names fuel (e # es) ndir st
     | ObjFile _ \<Rightarrow> Some (Inl (Fs NotDirectory))
     | ObjSymlink _ \<Rightarrow> Some (Inl Panic))"

definition open_parent :: "nat \<Rightarrow> nat \<Rightarrow> bytes \<Rightarrow> 'd world \<Rightarrow> ((bytes option \<times> nat) \<times> 'd world) result option" where
  "open_parent fuel cwd target st =
     obind (Some (walk_from cwd target st)) (\<lambda>((dir, es), st). parent_names fuel es dir st)"

text \<open>The callback stops at the first entry whose name is not both \<open>.\<close> and \<open>..\<close>; what is returned is
  \<open>is_not_empty\<close>.\<close>

definition is_directory_empty :: "nat \<Rightarrow> nat \<Rightarrow> 'd world \<Rightarrow> (bool \<times> 'd world) result option" where
  "is_directory_empty fuel d st =
     on_dir d (\<lambda>(i, fs, t). obind (expect (fill_dir_from fuel 0
         (\<lambda>(path, _, _) _ is_not_empty. if path \<noteq> dot \<or> path \<noteq> dotdot then (False, True) else (True, is_not_empty))
         ((i, fs), False))) (\<lambda>(_, (i, fs), is_not_empty). Some (Inr (is_not_empty, i, fs, t)))) st"

text \<open>The reference that a statement held is dropped at its end.\<close>

definition release :: "nat \<Rightarrow> (nat \<Rightarrow> bool) \<Rightarrow> nat \<Rightarrow> 'd world \<Rightarrow> 'd world result option" where
  "release fuel kept ino st = (case st of (im, fs, t) \<Rightarrow>
     if kept ino then Some (Inr st)
     else obind (inode_drop fuel ino (im, fs)) (\<lambda>(im, fs). Some (Inr (im, fs, t))))"

section \<open>Commands\<close>

fun each_arg :: "bytes list \<Rightarrow> (bytes \<Rightarrow> 's \<Rightarrow> 's result option) \<Rightarrow> 's \<Rightarrow> 's result option" where
  "each_arg [] f s = Some (Inr s)"
| "each_arg (a # as) f s = obind (f a s) (each_arg as f)"

definition sh_cd :: "nat \<Rightarrow> bytes list \<Rightarrow> 'd shell \<Rightarrow> 'd shell result option" where
  "sh_cd fuel args sh =
     (if 1 < length args then Some (Inr (say ''cd: too many arguments'' [] sh))
      else let target = (if args = [] then slash else last args)
      in attempt (open_directory fuel (sh_cwd sh) target (sh_world sh open_transaction))
        (\<lambda>(cwd, im, fs, _). Some (rmap (\<lambda>p. (sh_put (im, fs) sh)\<lparr>sh_cwd := cwd, sh_cwd_path := p\<rparr>)
           (abspath (sh_cwd_path sh) target)))
        (\<lambda>e. Some (complain ''cd: cannot cd to {}: {}'' [Name target] e sh)))"

definition sh_mkdir :: "nat \<Rightarrow> bytes list \<Rightarrow> 'd shell \<Rightarrow> 'd shell result option" where
  "sh_mkdir fuel args = each_arg args (\<lambda>target sh.
     attempt (mkdirat fuel (sh_cwd sh) target (sh_inodes sh, sh_fs sh)) (\<lambda>w. Some (Inr (sh_put w sh)))
       (\<lambda>e. Some (complain ''mkdir: cannot create directory '{}': {}'' [Name target] e sh)))"

definition sh_touch :: "nat \<Rightarrow> bytes list \<Rightarrow> 'd shell \<Rightarrow> 'd shell result option" where
  "sh_touch fuel args sh =
     (if args = [] then Some (Inr (say ''touch: missing file operand'' [] sh))
      else each_arg args (\<lambda>target sh.
        attempt (createat fuel (sh_cwd sh) target (sh_inodes sh, sh_fs sh)) (\<lambda>w. Some (Inr (sh_put w sh)))
          (\<lambda>e. Some (complain ''touch: {}: {}'' [Name target] e sh))) sh)"

text \<open>A command on a transaction of its own, over the shell and the log.\<close>

definition sh_keep :: "'d shell \<Rightarrow> 'd world \<Rightarrow> 'd shell \<times> tx" where
  "sh_keep sh st = (case st of (im, fs, t) \<Rightarrow> (sh_put (im, fs) sh, t))"

definition finish :: "'d shell \<times> tx \<Rightarrow> 'd shell result option" where
  "finish st = Some (unwrap_res (rmap (\<lambda>w. sh_put w (fst st)) (done_with (sh_world (fst st) (snd st)))))"

text \<open>The entry is removed under the whole \<open>target\<close>, not under its name in the par, and the inode is
  dropped at the end of the statement, before the transaction is done.\<close>

definition remove_target :: "nat \<Rightarrow> (nat \<Rightarrow> bool) \<Rightarrow> nat \<Rightarrow> bytes \<Rightarrow> 'd world \<Rightarrow> 'd world result option" where
  "remove_target fuel kept dir target st =
     obind (expect (remove_entry fuel dir target st)) (\<lambda>(ino, st). release fuel kept ino st)"

definition rm_one :: "nat \<Rightarrow> (nat \<Rightarrow> bool) \<Rightarrow> bytes \<Rightarrow> 'd shell \<times> tx \<Rightarrow> ('d shell \<times> tx) result option" where
  "rm_one fuel kept target st = (case st of (sh, t) \<Rightarrow>
     if target = dot \<or> target = dotdot
     then Some (Inr (say ''rmdir: failed to remove '{}': Invalid argument'' [Name target] sh, t))
     else attempt (open_parent fuel (sh_cwd sh) target (sh_world sh t))
       (\<lambda>((fname, dir), w). case fname of
          None \<Rightarrow> Some (Inr (sh_keep (say (''rm: cannot remove '{}'' @ [CHR 0x27]) [Name target] sh) w))
        | Some fname \<Rightarrow> attempt (open_entry fuel dir fname w)
           (\<lambda>(ob, w). case ob of
              ObjFile f \<Rightarrow> obind (release fuel kept f w) (\<lambda>w.
                obind (remove_target fuel kept dir target w) (\<lambda>w. Some (Inr (sh_keep sh w))))
            | ObjDirectory _ \<Rightarrow> Some (rmap (\<lambda>sh. sh_keep sh w) (complain ''rm: {}: {}'' [Name target] NotFile sh))
            | ObjSymlink _ \<Rightarrow> Some (Inl Panic))
           (\<lambda>e. Some (rmap (\<lambda>sh. sh_keep sh w) (complain ''rm: {}: {}'' [Name target] e sh))))
       (\<lambda>e. Some (rmap (\<lambda>sh. (sh, t)) (complain ''rm: {}: {}'' [Name target] e sh))))"

definition sh_rm :: "nat \<Rightarrow> (nat \<Rightarrow> bool) \<Rightarrow> bytes list \<Rightarrow> 'd shell \<Rightarrow> 'd shell result option" where
  "sh_rm fuel kept args sh =
     (if args = [] then Some (Inr (say ''rm: missing file operand'' [] sh))
      else obind (each_arg args (rm_one fuel kept) (sh, open_transaction)) finish)"

definition rmdir_one :: "nat \<Rightarrow> (nat \<Rightarrow> bool) \<Rightarrow> bytes \<Rightarrow> 'd shell \<times> tx \<Rightarrow> ('d shell \<times> tx) result option" where
  "rmdir_one fuel kept target st = (case st of (sh, t) \<Rightarrow>
     if target = dot \<or> target = dotdot
     then Some (Inr (say ''rmdir: failed to remove '{}': Invalid argument'' [Name target] sh, t))
     else attempt (open_parent fuel (sh_cwd sh) target (sh_world sh t))
       (\<lambda>((fname, par), w). case fname of
          None \<Rightarrow> Some (Inr (sh_keep (say (''rmdir: cannot remove '/'' @ [CHR 0x27]) [] sh) w))
        | Some fname \<Rightarrow> attempt (open_entry fuel par fname w)
           (\<lambda>(ob, w). case ob of
              ObjFile _ \<Rightarrow> Some (rmap (\<lambda>sh. sh_keep sh w) (complain ''rmdir: {}: {}'' [Name target] NotDirectory sh))
            | ObjDirectory d \<Rightarrow>
                obind (is_directory_empty fuel d w) (\<lambda>(e, w).
                if \<not> e
                then Some (Inr (sh_keep (say ''rmdir: failed to remove '{}': Directory is not empty'' [Name target] sh) w))
                else obind (release fuel kept d w) (\<lambda>w.
                     obind (remove_target fuel kept par target w) (\<lambda>w. Some (Inr (sh_keep sh w)))))
            | ObjSymlink _ \<Rightarrow> Some (Inl Panic))
           (\<lambda>e. Some (rmap (\<lambda>sh. sh_keep sh w) (complain ''rmdir: {}: {}'' [Name target] e sh))))
       (\<lambda>e. Some (rmap (\<lambda>sh. (sh, t)) (complain ''rmdir: {}: {}'' [Name target] e sh))))"

definition sh_rmdir :: "nat \<Rightarrow> (nat \<Rightarrow> bool) \<Rightarrow> bytes list \<Rightarrow> 'd shell \<Rightarrow> 'd shell result option" where
  "sh_rmdir fuel kept args sh =
     (if args = [] then Some (Inr (say ''rm: missing file operand'' [] sh))
      else obind (each_arg args (rmdir_one fuel kept) (sh, open_transaction)) finish)"

section \<open>Copying and moving\<close>

text \<open>Reading and writing whole files that are in memory.\<close>

definition read_file :: "nat \<Rightarrow> 'd shell \<Rightarrow> (bytes \<times> 'd shell) result" where
  "read_file ino sh =
     rbind (unwrap (sh_inodes sh ino)) (\<lambda>i.
     rmap (\<lambda>(buf, i, fs). (buf, sh\<lparr>sh_inodes := (sh_inodes sh)(ino \<mapsto> i), sh_fs := fs\<rparr>)) (driver_read (i, sh_fs sh)))"

definition write_file :: "nat \<Rightarrow> nat \<Rightarrow> bytes \<Rightarrow> 'd shell \<Rightarrow> 'd shell result option" where
  "write_file fuel ino buf sh =
     obind (Some (unwrap (sh_inodes sh ino))) (\<lambda>i.
     obind (driver_write fuel buf (i, sh_fs sh)) (\<lambda>(i, fs).
     Some (Inr (sh\<lparr>sh_inodes := (sh_inodes sh)(ino \<mapsto> i), sh_fs := fs\<rparr>))))"

text \<open>A file that is in the way is removed; what was found of it is dropped at the end of the \<open>match\<close>.\<close>

definition do_copy :: "nat \<Rightarrow> (nat \<Rightarrow> bool) \<Rightarrow> nat \<Rightarrow> nat \<Rightarrow> bytes \<Rightarrow> 'd shell \<Rightarrow> 'd shell result option" where
  "do_copy fuel kept src par fname sh =
     obind (attempt (open_entry fuel par fname (sh_world sh open_transaction))
       (\<lambda>(ob, w). case ob of
          ObjFile _ \<Rightarrow> obind (remove_target fuel kept par fname w) (\<lambda>w. Some (Inr (True, w)))
        | ObjDirectory _ \<Rightarrow> Some (Inr (False, w))
        | ObjSymlink _ \<Rightarrow> Some (Inr (True, w)))
       (\<lambda>_. Some (Inr (True, sh_world sh open_transaction)))) (\<lambda>(go, w).
     if \<not> go
     then Some (Inr (say ''cp: cannot overwrite directory '{}' with non-directory'' [Name fname] (fst (sh_keep sh w))))
     else attempt (create_entry fuel par fname RegularFile w)
       (\<lambda>(ob, w). case ob of
          ObjFile dst \<Rightarrow>
            obind (finish (sh_keep sh w)) (\<lambda>sh.
            expect (obind (Some (read_file src sh)) (\<lambda>(buf, sh). write_file fuel dst buf sh)))
        | _ \<Rightarrow> Some (Inl Panic))
       (\<lambda>e. Some (complain ''cp: failed to create file: {}'' [] e (fst (sh_keep sh w)))))"

definition file_name_or_panic :: "bytes \<Rightarrow> bytes result" where
  "file_name_or_panic p = rbind (file_name p) unwrap"

definition cp_from :: "nat \<Rightarrow> (nat \<Rightarrow> bool) \<Rightarrow> nat \<Rightarrow> bytes \<Rightarrow> bytes \<Rightarrow> 'd shell \<Rightarrow> 'd shell result option" where
  "cp_from fuel kept par fname src sh =
     attempt (obind (openat fuel (sh_cwd sh) src (sh_world sh open_transaction)) (\<lambda>(ob, w).
              Some (rmap (\<lambda>f. (f, w)) (ok_or (get_file ob) NotFile))))
       (\<lambda>(f, w). do_copy fuel kept f par fname (fst (sh_keep sh w)))
       (\<lambda>e. Some (complain ''cp: cannot access '{}': {}'' [Name src] e sh))"

text \<open>The object of the last name of \<open>dst\<close>, if it is a directory; \<open>if let Ok(FsObject::Directory(..))\<close>.\<close>

definition open_if_directory :: "nat \<Rightarrow> nat \<Rightarrow> bytes \<Rightarrow> 'd world \<Rightarrow> (nat option \<times> 'd world) result option" where
  "open_if_directory fuel par fname w =
     attempt (open_entry fuel par fname w) (\<lambda>(ob, w). Some (Inr (get_directory ob, w))) (\<lambda>_. Some (Inr (None, w)))"

definition sh_cp :: "nat \<Rightarrow> (nat \<Rightarrow> bool) \<Rightarrow> bytes list \<Rightarrow> 'd shell \<Rightarrow> 'd shell result option" where
  "sh_cp fuel kept args sh =
     (if args = [] then Some (Inr (say ''cp: missing file operand'' [] sh))
      else let dst = last args; args = butlast args
      in if args = [] then Some (Inl Panic)
      else attempt (open_parent fuel (sh_cwd sh) dst (sh_world sh open_transaction))
        (\<lambda>((fname, par), w).
           case fname of
             Some fname \<Rightarrow> obind (open_if_directory fuel par fname w) (\<lambda>(d, w).
               let sh = fst (sh_keep sh w) in
               case args of
                 [src] \<Rightarrow> (case d of
                     Some d \<Rightarrow> obind (Some (file_name_or_panic src)) (\<lambda>n. cp_from fuel kept d n src sh)
                   | None \<Rightarrow> cp_from fuel kept par fname src sh)
               | _ \<Rightarrow> (case d of
                     Some d \<Rightarrow> each_arg args (\<lambda>src sh. obind (Some (file_name_or_panic src)) (\<lambda>n. cp_from fuel kept d n src sh)) sh
                   | None \<Rightarrow> Some (Inr (say ''cp: target '{}' is not a directory'' [Name dst] sh))))
           | None \<Rightarrow> each_arg args (\<lambda>src sh. obind (Some (file_name_or_panic src)) (\<lambda>n. cp_from fuel kept par n src sh))
               (fst (sh_keep sh w)))
        (\<lambda>e. Some (complain ''cp: cannot create '{}' : {}'' [Name dst] e sh)))"

text \<open>The place a moved entry goes to. A file in the way is removed from the directory of the source,
  under the whole destination.\<close>

definition mv_place ::
  "nat \<Rightarrow> (nat \<Rightarrow> bool) \<Rightarrow> bytes \<Rightarrow> nat \<Rightarrow> bytes \<Rightarrow> bytes \<Rightarrow> 'd shell \<Rightarrow> ((bytes \<times> nat) option \<times> 'd shell) result option" where
  "mv_place fuel kept fname par dst arg sh =
     (let failed = \<lambda>e sh. Some (rmap (Pair None) (complain ''mv: cannot move '{}': {}'' [Name arg] e sh))
      in attempt (open_parent fuel (sh_cwd sh) dst (sh_world sh open_transaction))
        (\<lambda>((new_entry, new_parent), w). let sh = fst (sh_keep sh w) in
           case new_entry of
             None \<Rightarrow> Some (Inr (Some (fname, new_parent), sh))
           | Some new_entry \<Rightarrow>
               attempt (open_entry fuel new_parent new_entry w)
                 (\<lambda>(ob, w). let sh = fst (sh_keep sh w) in
                    case ob of
                      ObjDirectory d \<Rightarrow> Some (Inr (Some (fname, d), sh))
                    | ObjFile old \<Rightarrow>
                        attempt (remove_entry fuel par dst (sh_world sh open_transaction))
                          (\<lambda>(ino, w). obind (if ino = old then Some (Inr w) else release fuel kept ino w) (\<lambda>w.
                             obind (finish (sh_keep sh w)) (\<lambda>sh.
                             obind (release fuel kept old (sh_world sh open_transaction)) (\<lambda>w.
                             Some (Inr (Some (new_entry, new_parent), fst (sh_keep sh w)))))))
                          (\<lambda>e. if e = NoEntry
                               then obind (finish (sh, open_transaction)) (\<lambda>sh. Some (Inr (Some (new_entry, new_parent), sh)))
                               else failed e sh)
                    | ObjSymlink _ \<Rightarrow> Some (Inl Panic))
                 (\<lambda>_. Some (Inr (Some (new_entry, new_parent), sh))))
        (\<lambda>e. failed e sh))"

definition mv_one :: "nat \<Rightarrow> (nat \<Rightarrow> bool) \<Rightarrow> bytes \<Rightarrow> bytes \<Rightarrow> 'd shell \<Rightarrow> 'd shell result option" where
  "mv_one fuel kept dst arg sh =
     attempt (open_parent fuel (sh_cwd sh) arg (sh_world sh open_transaction))
       (\<lambda>((fname, par), w). let sh = fst (sh_keep sh w) in
          case fname of
            None \<Rightarrow> Some (Inr (say (''mv: cannot move '/'' @ [CHR 0x27]) [] sh))
          | Some fname \<Rightarrow>
              obind (mv_place fuel kept fname par dst arg sh) (\<lambda>(place, sh).
              case place of
                None \<Rightarrow> Some (Inr sh)
              | Some (new_entry, new_parent) \<Rightarrow>
                  attempt (rename_entry fuel kept par fname new_parent new_entry (sh_world sh open_transaction))
                    (\<lambda>w. Some (Inr (sh_put w sh)))
                    (\<lambda>e. Some (complain ''mv: cannot move '{}': {}'' [Name arg] e sh))))
       (\<lambda>e. Some (complain ''mv: cannot move '{}': {}'' [Name arg] e sh))"

definition sh_mv :: "nat \<Rightarrow> (nat \<Rightarrow> bool) \<Rightarrow> bytes list \<Rightarrow> 'd shell \<Rightarrow> 'd shell result option" where
  "sh_mv fuel kept args sh =
     (if args = [] then Some (Inr (say ''mv: missing file operand'' [] sh))
      else if butlast args = [] then Some (Inl Panic)
      else each_arg (butlast args) (mv_one fuel kept (last args)) sh)"


definition list_entry :: "(bytes \<times> file_type) list fillfn" where
  "list_entry en pos es = (case en of (path, _, ty) \<Rightarrow> (True, es @ [(path, ty)]))"

definition listdir :: "nat \<Rightarrow> bytes \<Rightarrow> 'd shell \<Rightarrow> ((bytes \<times> file_type) list \<times> 'd shell) result option" where
  "listdir fuel path sh =
     obind (open_directory fuel (sh_cwd sh) path (sh_world sh open_transaction)) (\<lambda>(d, w).
     obind (on_dir d (\<lambda>(i, fs, t). obind (expect (fill_dir_from fuel 0 list_entry ((i, fs), [])))
              (\<lambda>(_, (i, fs), es). Some (Inr (es, i, fs, t)))) w) (\<lambda>(es, w).
     Some (Inr (es, fst (sh_keep sh w)))))"

text \<open>Colours are left out; every entry that is not hidden is printed with a blank after it.\<close>

definition display_entries :: "(bytes \<times> file_type) list \<Rightarrow> 'd shell \<Rightarrow> 'd shell" where
  "display_entries es sh =
     say [] [] (foldl (\<lambda>sh e. say ''{} '' [Name (fst e)] sh) sh (filter (\<lambda>e. \<not> (fst e \<noteq> [] \<and> hd (fst e) = 0x2E)) es))"

definition sh_ls :: "nat \<Rightarrow> bytes list \<Rightarrow> 'd shell \<Rightarrow> 'd shell result option" where
  "sh_ls fuel args sh =
     (if args = []
      then attempt (listdir fuel dot sh) (\<lambda>(es, sh). Some (Inr (display_entries es sh)))
        (\<lambda>e. Some (complain ''ls: cannot access '.': {}'' [] e sh))
      else each_arg args (\<lambda>path sh.
        attempt (listdir fuel path sh) (\<lambda>(es, sh). Some (Inr (display_entries es (say ''{}:'' [Name path] sh))))
          (\<lambda>e. Some (complain ''ls: cannot access '{}': {}'' [Name path] e sh))) sh)"

definition sh_cat :: "nat \<Rightarrow> bytes list \<Rightarrow> 'd shell \<Rightarrow> 'd shell result option" where
  "sh_cat fuel args sh =
     (if args = [] then Some (Inr (say ''cat: missing file operand'' [] sh))
      else each_arg args (\<lambda>path sh.
        attempt (obind (openat fuel (sh_cwd sh) path (sh_world sh open_transaction)) (\<lambda>(ob, w).
                 obind (Some (ok_or (get_file ob) NotFile)) (\<lambda>f. Some (read_file f (fst (sh_keep sh w))))))
          (\<lambda>(buf, sh). Some (Inr (say [] [Name buf] sh)))
          (\<lambda>e. Some (complain ''cat: {}: {}'' [Name path] e sh))) sh)"

section \<open>Absolute paths\<close>

text \<open>The names on the way from the root, with \<open>..\<close> going back by one.\<close>

fun norm_names :: "bytes list \<Rightarrow> component list \<Rightarrow> bytes list" where
  "norm_names st [] = st"
| "norm_names st (RootDir # cs) = norm_names [] cs"
| "norm_names st (CurDir # cs) = norm_names st cs"
| "norm_names st (ParentDir # cs) = norm_names (butlast st) cs"
| "norm_names st (Normal n # cs) = norm_names (st @ [n]) cs"

lemma abspath_steps:
  assumes "path_ref ret = RootDir # map Normal st" and "\<And>n. Normal n \<in> set cs \<Longrightarrow> plain_name n"
  shows "\<exists>q. for_each (map as_os_str cs) abspath_step ret = Inr q \<and> path_ref q = RootDir # map Normal (norm_names st cs)"
  using assms
proof (induction cs arbitrary: ret st)
  case (Cons c cs)
  have ne: "ret \<noteq> []" using Cons.prems(1) by auto
  have "\<exists>r st'. abspath_step (as_os_str c) ret = Inr r \<and> path_ref r = RootDir # map Normal st' \<and> norm_names st (c # cs) = norm_names st' cs"
  proof (cases c)
    case RootDir
    have "path_ref slash = [RootDir]" by (simp add: slash_def path_ref_def is_sep_byte_def)
    moreover have "path_ref (path_push ret slash) = path_ref slash" by (simp add: path_push_ok) (simp add: slash_def is_sep_byte_def)
    ultimately show ?thesis using RootDir by (simp add: abspath_step_def dot_def dotdot_def slash_def)
  next
    case CurDir
    then show ?thesis using Cons.prems by (auto simp: abspath_step_def dot_def)
  next
    case ParentDir
    obtain b q where q: "path_pop ret = Inr (b, q)"
      "if path_ref ret = [] \<or> last (path_ref ret) = RootDir then \<not> b \<and> q = ret else b \<and> path_ref q = butlast (path_ref ret)"
      using path_pop_ok [of ret] by blast
    have "path_ref q = RootDir # map Normal (butlast st)"
      using q(2) Cons.prems(1) by (cases st rule: rev_cases) auto
    then show ?thesis using ParentDir q(1) by (auto simp: abspath_step_def dot_def dotdot_def)
  next
    case (Normal n)
    then have n: "plain_name n" using Cons.prems(2) by auto
    then have "path_ref (path_push ret n) = RootDir # map Normal (st @ [n])"
      using plain_name_comps [OF n] ne Cons.prems(1) by (simp add: path_push_ok)
    then show ?thesis using Normal n
      by (intro exI [of _ "path_push ret n"] exI [of _ "st @ [n]"]) (auto simp: abspath_step_def plain_name_def dot_def dotdot_def)
  qed
  then obtain r st' where "abspath_step (as_os_str c) ret = Inr r" "path_ref r = RootDir # map Normal st'"
    "norm_names st (c # cs) = norm_names st' cs" by blast
  with Cons.IH [of r st'] Cons.prems(2) show ?case by simp
qed simp

text \<open>C18: The absolute path the shell keeps is the walk along the components of the argument from those
  of the current path, \<open>.\<close> staying and \<open>..\<close> going back by one but never behind the root; it has no such
  components itself.\<close>

theorem abspath_normalises:
  "\<exists>q. abspath cwd_path path = Inr q \<and>
     path_ref q = RootDir # map Normal (norm_names [] (path_ref (join cwd_path path)))"
proof -
  have "path_ref slash = RootDir # map Normal []" by (simp add: slash_def path_ref_def is_sep_byte_def)
  from abspath_steps [OF this, of "path_ref (join cwd_path path)"] path_ref_plain
  show ?thesis by (simp add: abspath_def path_iter_ref join_def)
qed

section \<open>Removing\<close>






end
