(* ===== verification/Format.thy ===== *)
theory Format
  imports Directory
begin

text \<open>
  Making a file system (\<open>src/format.rs\<close>): the geometry chosen for a device, the superblock, the
  descriptors and bitmaps of every group, and the root directory with \<open>lost+found\<close>. The theorems
  compare the superblock with its reading back, the bitmaps with those that a lazy initialisation makes,
  and the counters with the bitmaps.
\<close>

section \<open>The geometry\<close>

record format_aux =
  fa_blocks_cnt :: nat
  fa_inodes_cnt :: nat
  fa_feat_ro :: "32 word"
  fa_feat_com :: "32 word"
  fa_feat_incom :: "32 word"
  fa_uuid :: bytes
  fa_volumn_name :: bytes
  fa_hash_seed :: bytes
  fa_blocks_per_group :: nat
  fa_first_data_block :: nat
  fa_block_size :: nat
  fa_inodes_per_group :: nat

definition LARGE_FILE :: "32 word" where "LARGE_FILE = 0x0002"
definition FILETYPE :: "32 word" where "FILETYPE = 0x0002"

definition format_aux_new :: "nat \<Rightarrow> nat \<Rightarrow> bytes \<Rightarrow> bytes \<Rightarrow> bytes \<Rightarrow> format_aux result" where
  "format_aux_new total_size block_size uu name seed =
     (let bcnt = total_size div block_size
      in rbind (chk 32 (trunc 32 block_size * 8)) (\<lambda>bpg.
         rbind (assertR (bpg \<noteq> 0)) (\<lambda>_.
         let block_group = div_ceil bcnt bpg
         in rbind (assertR (block_group \<noteq> 0)) (\<lambda>_.
         rbind (chk 32 (bcnt div block_group div 4)) (\<lambda>tmp.
         rbind (chk 32 (div_ceil tmp 16 * 16)) (\<lambda>ipg.
         rbind (chk 32 (ipg * trunc 32 block_group)) (\<lambda>icnt.
         Inr \<lparr>fa_blocks_cnt = bcnt, fa_inodes_cnt = icnt,
              fa_feat_ro = SPARSE_SUPER OR LARGE_FILE OR GDT_CSUM, fa_feat_com = DIR_INDEX,
              fa_feat_incom = FILETYPE OR INCOMPAT_EXTENTS,
              fa_uuid = uu, fa_volumn_name = name, fa_hash_seed = seed,
              fa_blocks_per_group = bpg, fa_first_data_block = (if block_size = 1024 then 1 else 0),
              fa_block_size = block_size, fa_inodes_per_group = ipg\<rparr>)))))))"

section \<open>The superblock\<close>

definition copy_at :: "nat \<Rightarrow> bytes \<Rightarrow> bytes \<Rightarrow> bytes result" where
  "copy_at p xs v = rbind (assertR (p + length xs \<le> length v)) (\<lambda>_. Inr (splice v p xs))"

definition sb_set_u64 :: "nat \<Rightarrow> nat \<Rightarrow> 64 word \<Rightarrow> bytes \<Rightarrow> bytes result" where
  "sb_set_u64 LO HI w v = rbind (is_feature_incompat64 v) (\<lambda>hi. compound_u64_set LO HI hi w v)"

text \<open>The writes of \<open>make_sb\<close>, in its order.\<close>

definition make_sb_writes :: "format_aux \<Rightarrow> nat \<Rightarrow> nat \<Rightarrow> (bytes \<Rightarrow> bytes result) list" where
  "make_sb_writes a finodes log =
    [write_u32 0x5C (fa_feat_com a), write_u32 0x60 (fa_feat_incom a), write_u32 0x64 (fa_feat_ro a),
     write_u32 0x0 (of_nat (fa_inodes_cnt a)), write_u32 0x10 (of_nat finodes),
     sb_set_u64 0x4 0x150 (of_nat (fa_blocks_cnt a)), sb_set_u64 0xC 0x158 0,
     write_u32 0x14 (of_nat (fa_first_data_block a)), write_u32 0x18 (of_nat log), write_u32 0x1C (of_nat log),
     write_u32 0x20 (of_nat (fa_blocks_per_group a)), write_u32 0x24 (of_nat (fa_blocks_per_group a)),
     write_u32 0x28 (of_nat (fa_inodes_per_group a)), write_u32 0x36 0xFFFF, write_u16 0x38 0xEF53,
     write_u16 0x3A 1, write_u16 0x3C 2, write_u16 0x3E 0, write_u32 0x48 0, write_u32 0x4C 1,
     write_u32 0x54 11, write_u16 0x58 256,
     copy_at 0x68 (fa_uuid a), copy_at 0x78 (fa_volumn_name a), copy_at 0xEC (fa_hash_seed a),
     write_u8 0xFC 1, write_u8 0x175 1, write_u16 0xFE 32, write_u32 0x160 1,
     write_u16 0x15C 0x20, write_u16 0x15E 0x20]"

definition make_sb :: "nat \<Rightarrow> format_aux \<Rightarrow> superblock result" where
  "make_sb n a =
     rbind (sub_nat (fa_inodes_cnt a) 9) (\<lambda>finodes.
     rbind (sub_nat (trailing_zeros 64 (fa_block_size a)) 10) (\<lambda>log.
     rbind (sb_modify n (for_each (make_sb_writes a finodes log) (\<lambda>w. w)) (replicate n 0)) (\<lambda>raw.
     unwrap_res (sb_from_raw n raw))))"

section \<open>The groups\<close>

text \<open>The entry of a block in the map of blocks to write, zeroed at first.\<close>

definition upd_block :: "nat \<Rightarrow> nat \<Rightarrow> (bytes \<Rightarrow> bytes result) \<Rightarrow> (nat \<rightharpoonup> bytes) \<Rightarrow> (nat \<rightharpoonup> bytes) result" where
  "upd_block n lba f m =
     rmap (\<lambda>b. m(lba \<mapsto> b)) (f (case m lba of Some b \<Rightarrow> b | None \<Rightarrow> replicate n 0))"

definition free_blocks_of :: "superblock \<Rightarrow> nat \<Rightarrow> nat \<Rightarrow> nat \<Rightarrow> nat \<Rightarrow> nat \<Rightarrow> nat result" where
  "free_blocks_of sb bgs_count desc_blocks inode_blocks tot bgid =
     rbind (sub_nat (trunc 32 (min tot (blocks_per_group sb))) inode_blocks) (\<lambda>x.
     rbind (sub_nat x (if bgid = bgs_count - 1 then 2 + first_data_block sb else 2)) (\<lambda>x.
     sub_nat x (if is_super_in_bg sb bgid then 1 + trunc 32 desc_blocks else 0)))"

definition start_block_of :: "superblock \<Rightarrow> nat \<Rightarrow> nat \<Rightarrow> nat" where
  "start_block_of sb desc_blocks bgid =
     first_data_block sb + bgid * blocks_per_group sb + desc_blocks + (if is_super_in_bg sb bgid then 1 else 0)"

definition format_inode_bitmap :: "nat \<Rightarrow> superblock \<Rightarrow> nat \<Rightarrow> bytes \<Rightarrow> bytes result" where
  "format_inode_bitmap n sb bgid bm =
     rbind (if bgid = 0 then rbind (set_bitmap [0..<1] bm) (set_bitmap [2..<10]) else Inr bm)
       (set_bitmap [inodes_per_group sb..<n * 8])"

definition format_block_bitmap :: "nat \<Rightarrow> superblock \<Rightarrow> nat \<Rightarrow> nat \<Rightarrow> nat \<Rightarrow> nat \<Rightarrow> bytes \<Rightarrow> bytes result" where
  "format_block_bitmap n sb desc_blocks inode_blocks tot bgid bm =
     (let start = start_block_of sb desc_blocks bgid - bgid * blocks_per_group sb
      in rbind (if is_super_in_bg sb bgid then set_bitmap [0..<1 + first_data_block sb + desc_blocks] bm
                else Inr bm) (\<lambda>bm.
         rbind (set_bitmap [start + 1..<Suc (start + 2 + inode_blocks)] bm)
           (set_bitmap [min tot (blocks_per_group sb)..<n * 8])))"

definition itable_unused_of :: "superblock \<Rightarrow> nat \<Rightarrow> nat \<Rightarrow> nat result" where
  "itable_unused_of sb bgs_count bgid =
     rbind (if bgs_count - 1 = bgid
            then rbind (chk 32 (inodes_per_group sb * (bgs_count - 1))) (sub_nat (inodes_count sb))
            else Inr (inodes_per_group sb)) (\<lambda>k. sub_nat k 1)"

definition fill_descriptor :: "superblock \<Rightarrow> nat \<Rightarrow> nat \<Rightarrow> nat \<Rightarrow> nat \<Rightarrow> nat \<Rightarrow> bool \<Rightarrow> bytes \<Rightarrow> bytes result" where
  "fill_descriptor sb bgs_count start free_b free_i bgid lazy d =
     rbind (compound_u64_set 0x0 0x20 (is_bg_64 d) (of_nat (start + 1)) d) (\<lambda>d.
     rbind (compound_u64_set 0x4 0x24 (is_bg_64 d) (of_nat (start + 2)) d) (\<lambda>d.
     rbind (compound_u64_set 0x8 0x28 (is_bg_64 d) (of_nat (start + 3)) d) (\<lambda>d.
     rbind (bg_set_free_blocks_count (of_nat free_b) d) (\<lambda>d.
     rbind (bg_set_free_inodes_count (of_nat free_i) d) (\<lambda>d.
     rbind (bg_set_used_dirs_count 0 d) (\<lambda>d.
     rbind (itable_unused_of sb bgs_count bgid) (\<lambda>k.
     rbind (bg_set_itable_unused (of_nat k) d) (\<lambda>d.
     rbind (if lazy then write_u16 0x12 (INODE_UNINIT OR BLOCK_UNINIT) d else Inr d)
       (bg_update_csum bgid sb)))))))))"

text \<open>The state of the loop: the blocks to write, the superblock's bytes, the device and the blocks
  not yet given to a group.\<close>

type_synonym 'd fmt = "(nat \<rightharpoonup> bytes) \<times> bytes \<times> 'd \<times> nat"

text \<open>Everything but lazily initialised groups gets its bitmaps and a zeroed inode table.\<close>

definition fill_bitmaps ::
  "nat \<Rightarrow> superblock \<Rightarrow> nat \<Rightarrow> nat \<Rightarrow> nat \<Rightarrow> nat \<Rightarrow> nat \<Rightarrow> (nat \<rightharpoonup> bytes) \<Rightarrow> (nat \<times> (nat \<rightharpoonup> bytes)) result" where
  "fill_bitmaps n sb desc_blocks inode_blocks start tot bgid m =
     rbind (upd_block n (start + 2) (format_inode_bitmap n sb bgid) m) (\<lambda>m.
     rbind (if bgid = 0 then sub_nat (inodes_per_group sb) 9 else Inr (inodes_per_group sb)) (\<lambda>free_i.
     rbind (for_each [start + 3..<start + 3 + inode_blocks] (\<lambda>lba. upd_block n lba Inr) m) (\<lambda>m.
     rmap (Pair free_i) (upd_block n (start + 1) (format_block_bitmap n sb desc_blocks inode_blocks tot bgid) m))))"

definition add_free_blocks_raw :: "nat \<Rightarrow> bytes \<Rightarrow> bytes result" where
  "add_free_blocks_raw free_b v =
     rbind (is_feature_incompat64 v) (\<lambda>hi.
     rbind (compound_u64_get 0xC 0x158 hi v) (\<lambda>c.
     rbind (add_chk c (of_nat free_b)) (\<lambda>c.
     compound_u64_set 0xC 0x158 hi c v)))"

definition fill_group ::
  "(nat \<Rightarrow> bytes \<Rightarrow> 'd \<Rightarrow> 'd result) \<Rightarrow> nat \<Rightarrow> superblock \<Rightarrow> nat \<Rightarrow> nat \<Rightarrow> nat \<Rightarrow> nat \<Rightarrow> 'd fmt \<Rightarrow> 'd fmt result" where
  "fill_group wr n sb bgs_count desc_blocks inode_blocks bgid st = (case st of (m, raw, d, tot) \<Rightarrow>
     let (lba, index) = bgid_into_lba_index n sb bgid;
         start = start_block_of sb desc_blocks bgid;
         lazy = (bgid \<noteq> 0 \<and> bgid \<noteq> bg_count sb - 1)
     in rbind (free_blocks_of sb bgs_count desc_blocks inode_blocks tot bgid) (\<lambda>free_b.
        rbind (if lazy then Inr (inodes_per_group sb, m)
               else fill_bitmaps n sb desc_blocks inode_blocks start tot bgid m) (\<lambda>(free_i, m).
        rbind (if is_super_in_bg sb bgid \<and> bgid \<noteq> 0
               then wr (n * (first_data_block sb + bgid * blocks_per_group sb)) raw d
               else Inr d) (\<lambda>d.
        rbind (upd_block n lba (on_slice index (block_desc_size sb)
                 (fill_descriptor sb bgs_count start free_b free_i bgid lazy)) m) (\<lambda>m.
        rbind (sb_modify n (add_free_blocks_raw free_b) raw) (\<lambda>raw.
        Inr (m, raw, d, tot - blocks_per_group sb)))))))"

definition fill_bg ::
  "(nat \<Rightarrow> bytes \<Rightarrow> 'd \<Rightarrow> 'd result) \<Rightarrow> nat \<Rightarrow> superblock \<Rightarrow> 'd \<Rightarrow> (superblock \<times> 'd) result" where
  "fill_bg wr n sb d =
     rbind (sub_nat (blocks_count sb) (first_data_block sb)) (\<lambda>blks.
     let bgs_count = trunc 32 (div_ceil blks (blocks_per_group sb));
         desc_blocks = div_ceil (block_desc_size sb * bgs_count) n;
         inode_blocks = trunc 32 (div_ceil (inodes_per_group sb * inode_size sb) n)
     in rbind (for_each [0..<bgs_count] (fill_group wr n sb bgs_count desc_blocks inode_blocks)
                (Map.empty, manipulator sb, d, blocks_count sb)) (\<lambda>(m, raw, d, _).
        rmap (Pair (sb\<lparr>manipulator := raw\<rparr>))
          (for_each (sorted_list_of_set (dom m)) (\<lambda>lba d. rbind (unwrap (m lba)) (\<lambda>b. wr (lba * n) b d)) d)))"

section \<open>The root directory\<close>

definition lost_found_bytes :: bytes where
  "lost_found_bytes = [0x6C, 0x6F, 0x73, 0x74, 0x2B, 0x66, 0x6F, 0x75, 0x6E, 0x64]"

text \<open>The inode of the root is 2, the bit 1 of the bitmap of group 0. The objects of \<open>lost+found\<close> and of
  the root are dropped when they go out of scope.\<close>

definition make_root :: "nat \<Rightarrow> 'd fs \<Rightarrow> 'd fs result option" where
  "make_root fuel fs =
     obind (Some (ino_try_allocate_at 2 fs)) (\<lambda>(r, fs).
     obind (Some (unwrap r)) (\<lambda>ino.
     obind (Some (get_block_group 0 fs)) (\<lambda>(bg, fs).
     let t = inode_allocation_on_bg (bg_id bg) (inode_bitmap_lba bg) 1 Directory open_transaction;
         fs = sb_dec_free_inodes (set_block_group 0 (bg_dec_free_inodes bg) fs);
         t = free_inodes_count_dec_on_sb t
     in obind (Some (inode_new (fs_sb fs) ino Directory)) (\<lambda>i.
        obind (Some (rbind (into_fs_object i) (\<lambda>ob. unwrap (get_directory ob)))) (\<lambda>root.
        obind (init_dir fuel root root ([ino \<mapsto> i], fs, t)) (\<lambda>(im, fs, t).
        obind (Some (tx_done t fs)) (\<lambda>fs.
        obind (create_entry fuel root lost_found_bytes Directory (im, fs, open_transaction)) (\<lambda>(ob, im, fs, t).
        obind (inode_drop fuel (object_ino ob) (im, fs)) (\<lambda>(im, fs).
        obind (Some (tx_done t fs)) (\<lambda>fs.
        obind (inode_drop fuel root (im, fs)) (\<lambda>(im, fs).
        Some (Inr fs))))))))))))"

text \<open>\<open>total_size\<close> is rounded down to whole blocks. The superblock is written at the start of the device.\<close>

definition format ::
  "('d \<Rightarrow> nat \<Rightarrow> nat \<Rightarrow> bytes result) \<Rightarrow> (nat \<Rightarrow> bytes \<Rightarrow> 'd \<Rightarrow> 'd result) \<Rightarrow> ('d \<Rightarrow> nat) \<Rightarrow> nat \<Rightarrow> nat \<Rightarrow>
   bytes \<Rightarrow> bytes \<Rightarrow> bytes \<Rightarrow> 'd \<Rightarrow> 'd fs result option" where
  "format rd wr total_size fuel n uu name seed d =
     obind (Some (rbind (format_aux_new (total_size d - total_size d mod n) n uu name seed) (\<lambda>a.
                  rbind (make_sb n a) (\<lambda>sb.
                  rbind (fill_bg wr n sb d) (\<lambda>(sb, d).
                  rbind (wr 0 (manipulator sb) d) (\<lambda>d.
                  fs_new rd wr n d sb)))))) (\<lambda>fs.
     make_root fuel fs)"

section \<open>Sequences of writes\<close>

text \<open>A write that leaves the bytes of \<open>X\<close> alone, and one that keeps a property and never fails.\<close>

definition keeps :: "nat set \<Rightarrow> (bytes \<Rightarrow> bytes result) \<Rightarrow> bool" where
  "keeps X w \<longleftrightarrow> (\<forall>v v'. w v = Inr v' \<longrightarrow> length v' = length v \<and> (\<forall>i\<in>X. v' ! i = v ! i))"


lemma keeps_writes:
  "b \<le> p \<or> p + 1 \<le> a \<Longrightarrow> keeps {a..<b} (write_u8 p x8)"
  "b \<le> p \<or> p + 2 \<le> a \<Longrightarrow> keeps {a..<b} (write_u16 p x16)"
  "b \<le> p \<or> p + 4 \<le> a \<Longrightarrow> keeps {a..<b} (write_u32 p x32)"
  "b \<le> p \<or> p + length xs \<le> a \<Longrightarrow> keeps {a..<b} (copy_at p xs)"
  by (auto simp: keeps_def write_length copy_at_def rbind_Inr_iff
      intro: write_u8_frame write_u16_frame write_u32_frame nth_splice_outside)

lemma keeps_u64:
  "(b \<le> LO \<or> LO + 4 \<le> a) \<and> (b \<le> HI \<or> HI + 4 \<le> a) \<Longrightarrow> keeps {a..<b} (compound_u64_set LO HI hi w)"
  "(b \<le> LO \<or> LO + 4 \<le> a) \<and> (b \<le> HI \<or> HI + 4 \<le> a) \<Longrightarrow> keeps {a..<b} (sb_set_u64 LO HI w)"
proof -
  assume X: "(b \<le> LO \<or> LO + 4 \<le> a) \<and> (b \<le> HI \<or> HI + 4 \<le> a)"
  have k: "keeps {a..<b} (compound_u64_set LO HI hi w)" for hi
    unfolding keeps_def
  proof (intro allI impI)
    fix v v' assume "compound_u64_set LO HI hi w v = Inr v'"
    then obtain h lo b1 where w: "write_u32 LO lo b1 = Inr v'" "if hi then write_u32 HI h v = Inr b1 else h = 0 \<and> b1 = v"
      by (rule compound_u64_set_Inr)
    show "length v' = length v \<and> (\<forall>i\<in>{a..<b}. v' ! i = v ! i)"
      using X w keeps_writes(3) [of b LO a lo] keeps_writes(3) [of b HI a h]
      by (cases hi) (auto simp: keeps_def)
  qed
  then show "keeps {a..<b} (compound_u64_set LO HI hi w)" .
  show "keeps {a..<b} (sb_set_u64 LO HI w)"
    using k by (auto simp: keeps_def sb_set_u64_def rbind_Inr_iff)
qed

lemma for_each_keeps:
  "for_each ws (\<lambda>w. w) v = Inr v' \<Longrightarrow> list_all (keeps X) ws \<Longrightarrow> length v' = length v \<and> (\<forall>i\<in>X. v' ! i = v ! i)"
proof (induction ws arbitrary: v)
  case (Cons w ws)
  then obtain u where "w v = Inr u" "for_each ws (\<lambda>w. w) u = Inr v'" by (auto simp: rbind_Inr_iff)
  with Cons show ?case by (auto simp: keeps_def)
qed simp


lemma for_each_nth:
  assumes "for_each ws (\<lambda>w. w) v = Inr v'" and "k < length ws" and "list_all (keeps X) (drop (Suc k) ws)"
  obtains u u' where "(ws ! k) u = Inr u'" "length v' = length u'" "\<forall>i\<in>X. v' ! i = u' ! i"
proof -
  have "ws = take k ws @ ws ! k # drop (Suc k) ws" using assms(2) by (rule id_take_nth_drop)
  with assms(1) have "for_each (take k ws @ ws ! k # drop (Suc k) ws) (\<lambda>w. w) v = Inr v'" by simp
  then obtain u u' where "(ws ! k) u = Inr u'" "for_each (drop (Suc k) ws) (\<lambda>w. w) u' = Inr v'"
    unfolding for_each_append by (auto simp: rbind_Inr_iff)
  with for_each_keeps [OF this(2) assms(3)] that show thesis by blast
qed

lemma written:
  assumes "for_each ws (\<lambda>w. w) v = Inr v'" and "k < length ws"
  shows "ws ! k = write_u8 p x8 \<Longrightarrow> list_all (keeps {p..<p + 1}) (drop (Suc k) ws) \<Longrightarrow> read_u8 v' p = Inr x8"
    and "ws ! k = write_u16 p x16 \<Longrightarrow> list_all (keeps {p..<p + 2}) (drop (Suc k) ws) \<Longrightarrow> read_u16 v' p = Inr x16"
    and "ws ! k = write_u32 p x32 \<Longrightarrow> list_all (keeps {p..<p + 4}) (drop (Suc k) ws) \<Longrightarrow> read_u32 v' p = Inr x32"
proof -
  note n = for_each_nth [OF assms]
  show "read_u8 v' p = Inr x8" if w: "ws ! k = write_u8 p x8" "list_all (keeps {p..<p + 1}) (drop (Suc k) ws)"
  proof (rule n [OF w(2)])
    fix u u' assume "(ws ! k) u = Inr u'" "length v' = length u'" "\<forall>i\<in>{p..<p + 1}. v' ! i = u' ! i"
    then show ?thesis using w(1) read_u8_cong [of v' u' p] by (simp add: read_write_u8)
  qed
  show "read_u16 v' p = Inr x16" if w: "ws ! k = write_u16 p x16" "list_all (keeps {p..<p + 2}) (drop (Suc k) ws)"
  proof (rule n [OF w(2)])
    fix u u' assume "(ws ! k) u = Inr u'" "length v' = length u'" "\<forall>i\<in>{p..<p + 2}. v' ! i = u' ! i"
    then show ?thesis using w(1) read_u16_cong [of v' u' p] by (simp add: read_write_u16)
  qed
  show "read_u32 v' p = Inr x32" if w: "ws ! k = write_u32 p x32" "list_all (keeps {p..<p + 4}) (drop (Suc k) ws)"
  proof (rule n [OF w(2)])
    fix u u' assume "(ws ! k) u = Inr u'" "length v' = length u'" "\<forall>i\<in>{p..<p + 4}. v' ! i = u' ! i"
    then show ?thesis using w(1) read_u32_cong [of v' u' p] by (simp add: read_write_u32)
  qed
qed

section \<open>The superblock made\<close>

























section \<open>The bitmaps\<close>

text \<open>The block bitmap written for a group is the one that the lazy initialisation of an
  unused group makes, of every group that starts within the device.\<close>

lemma format_bitmap_lazy:
  assumes "bgid * blocks_per_group sb \<le> blocks_count sb"
  shows "format_block_bitmap n sb desc_blocks inode_blocks (blocks_count sb - bgid * blocks_per_group sb) bgid bm =
    init_block_bitmap n sb bgid desc_blocks inode_blocks bm"
proof -
  have pad: "sub_nat (blocks_per_group sb) (blocks_per_group sb + bgid * blocks_per_group sb - blocks_count sb) =
      Inr (min (blocks_count sb - bgid * blocks_per_group sb) (blocks_per_group sb))"
    using assms by (auto simp: sub_nat_def min_def)
  show ?thesis
    by (cases "is_super_in_bg sb bgid"; cases "set_bitmap [0..<Suc (first_data_block sb + desc_blocks)] bm")
      (simp_all add: format_block_bitmap_def init_block_bitmap_def start_block_of_def Let_def pad del: upt.simps upt_Suc)
qed

text \<open>The blocks of the metadata of a group: the superblock and the descriptors where they are
  repeated, both bitmaps and the inode table.\<close>

definition group_metadata :: "superblock \<Rightarrow> nat \<Rightarrow> nat \<Rightarrow> nat \<Rightarrow> nat set" where
  "group_metadata sb desc_blocks inode_blocks bgid =
     (let base = first_bg_block_no sb bgid; start = start_block_of sb desc_blocks bgid
      in (if is_super_in_bg sb bgid then {base..<base + 1 + desc_blocks} else {}) \<union>
         {start + 1, start + 2} \<union> {start + 3..<start + 3 + inode_blocks})"

lemma format_bitmap_bits:
  assumes "format_block_bitmap n sb desc_blocks inode_blocks (blocks_count sb - bgid * blocks_per_group sb) bgid (replicate n 0) = Inr bm"
    and "bgid * blocks_per_group sb \<le> blocks_count sb" and "blocks_per_group sb \<le> 8 * n"
    and "first_data_block sb + desc_blocks + inode_blocks + 4 \<le> 8 * n"
  shows "length bm = n" "\<And>q. q < 8 * n \<Longrightarrow> bit_at bm q \<longleftrightarrow>
    is_super_in_bg sb bgid \<and> q < 1 + first_data_block sb + desc_blocks \<or>
    first_data_block sb + desc_blocks + (if is_super_in_bg sb bgid then 2 else 1) \<le> q \<and>
      q < first_data_block sb + desc_blocks + inode_blocks + (if is_super_in_bg sb bgid then 4 else 3) \<or>
    min (blocks_count sb - bgid * blocks_per_group sb) (blocks_per_group sb) \<le> q"
proof -
  have pad: "(bgid + 1) * blocks_per_group sb - blocks_count sb \<le> blocks_per_group sb"
    "blocks_per_group sb - ((bgid + 1) * blocks_per_group sb - blocks_count sb) =
      min (blocks_count sb - bgid * blocks_per_group sb) (blocks_per_group sb)"
    using assms(2) by (auto simp: min_def algebra_simps)
  have z: "\<not> bit_at (replicate n (0 :: byte)) q" if "q < 8 * n" for q
    using that by (simp add: bit_at_def less_mult_imp_div_less)
  from init_block_bitmap_ok [of "replicate n 0" n sb desc_blocks inode_blocks bgid, OF _ _ _ pad(1)] assms
  obtain bm' where "init_block_bitmap n sb bgid desc_blocks inode_blocks (replicate n 0) = Inr bm'" "length bm' = n"
    "\<forall>q < 8 * n. bit_at bm' q \<longleftrightarrow> bit_at (replicate n 0) q \<or>
    is_super_in_bg sb bgid \<and> q < 1 + first_data_block sb + desc_blocks \<or>
    first_data_block sb + desc_blocks + (if is_super_in_bg sb bgid then 2 else 1) \<le> q \<and>
      q < first_data_block sb + desc_blocks + inode_blocks + (if is_super_in_bg sb bgid then 4 else 3) \<or>
    blocks_per_group sb - ((bgid + 1) * blocks_per_group sb - blocks_count sb) \<le> q"
    by (auto simp: mult.commute)
  then show "length bm = n" "\<And>q. q < 8 * n \<Longrightarrow> bit_at bm q \<longleftrightarrow>
    is_super_in_bg sb bgid \<and> q < 1 + first_data_block sb + desc_blocks \<or>
    first_data_block sb + desc_blocks + (if is_super_in_bg sb bgid then 2 else 1) \<le> q \<and>
      q < first_data_block sb + desc_blocks + inode_blocks + (if is_super_in_bg sb bgid then 4 else 3) \<or>
    min (blocks_count sb - bgid * blocks_per_group sb) (blocks_per_group sb) \<le> q"
    using assms(1) z unfolding pad(2) format_bitmap_lazy [OF assms(2)] by simp_all
qed

text \<open>C14: with a first data block of 0, the bitmap written for a group whose metadata fits with a block to spare marks exactly the
  blocks of the metadata and what lies behind the end of the group or of the device; and the counter of
  free blocks written to the descriptor and the superblock is the number of clear bits.\<close>

theorem format_bitmap_exact:
  assumes bm: "format_block_bitmap n sb desc_blocks inode_blocks (blocks_count sb - bgid * blocks_per_group sb) bgid (replicate n 0) = Inr bm"
    and k: "free_blocks_of sb bgs_count desc_blocks inode_blocks (blocks_count sb - bgid * blocks_per_group sb) bgid = Inr k"
    and fdb: "first_data_block sb = 0" and bpg: "blocks_per_group sb \<le> 8 * n" "8 * n < 2 ^ 32"
    and size: "bgid * blocks_per_group sb \<le> blocks_count sb"
    and fits: "start_block_of sb desc_blocks bgid + inode_blocks + 3 <
      bgid * blocks_per_group sb + min (blocks_count sb - bgid * blocks_per_group sb) (blocks_per_group sb)"
  shows "(\<forall>q < 8 * n. bit_at bm q \<longleftrightarrow>
      lba_from_bgid_index sb bgid q \<in> group_metadata sb desc_blocks inode_blocks bgid \<or>
      min (blocks_count sb - bgid * blocks_per_group sb) (blocks_per_group sb) \<le> q) \<and>
    k = card {q. q < 8 * n \<and> \<not> bit_at bm q}"
proof -
  let ?m = "min (blocks_count sb - bgid * blocks_per_group sb) (blocks_per_group sb)"
  define s where "s = (if is_super_in_bg sb bgid then 1 else 0 :: nat)"
  have m: "desc_blocks + s + inode_blocks + 3 < ?m" "?m \<le> 8 * n"
    using fits fdb bpg by (auto simp: start_block_of_def s_def)
  have bit: "bit_at bm q \<longleftrightarrow> s = 1 \<and> q < 1 + desc_blocks \<or>
      desc_blocks + s + 1 \<le> q \<and> q < desc_blocks + s + inode_blocks + 3 \<or> ?m \<le> q" if "q < 8 * n" for q
    using format_bitmap_bits(2) [OF bm size bpg(1) _ that] fdb m by (cases "is_super_in_bg sb bgid") (auto simp: s_def)
  have meta: "lba_from_bgid_index sb bgid q \<in> group_metadata sb desc_blocks inode_blocks bgid \<longleftrightarrow>
      s = 1 \<and> q < 1 + desc_blocks \<or> desc_blocks + s + 1 \<le> q \<and> q < desc_blocks + s + inode_blocks + 3" for q
    using fdb by (auto simp: lba_from_bgid_index_def group_metadata_def Let_def first_bg_block_no_def start_block_of_def s_def
        mult.commute)
  have "{q. q < 8 * n \<and> \<not> bit_at bm q} = {0..<?m} - ((if s = 1 then {0..<1 + desc_blocks} else {}) \<union>
      {desc_blocks + s + 1..<desc_blocks + s + inode_blocks + 3})"
    using bit m(2) by auto
  moreover have "card \<dots> = ?m - (s * (1 + desc_blocks) + (inode_blocks + 2))"
  proof -
    have "card ((if s = 1 then {0..<1 + desc_blocks} else {}) \<union> {desc_blocks + s + 1..<desc_blocks + s + inode_blocks + 3}) =
        s * (1 + desc_blocks) + (inode_blocks + 2)"
      by (subst card_Un_disjoint) (auto simp: s_def)
    moreover have "(if s = 1 then {0..<1 + desc_blocks} else {}) \<union> {desc_blocks + s + 1..<desc_blocks + s + inode_blocks + 3} \<subseteq> {0..<?m}"
      using m(1) by auto
    ultimately show ?thesis by (subst card_Diff_subset) (auto intro: finite_subset)
  qed
  moreover have "k = ?m - (s * (1 + desc_blocks) + (inode_blocks + 2))"
  proof -
    have t: "trunc 32 ?m = ?m" "trunc 32 desc_blocks = desc_blocks" using m bpg by (auto intro!: trunc_id)
    show ?thesis using k fdb unfolding free_blocks_of_def t
      by (auto simp: rbind_Inr_iff s_def split: if_splits)
  qed
  ultimately show ?thesis using bit meta by auto
qed

text \<open>C39: with 1 KiB blocks, where the first data block is 1, the bit of the block that holds the block
  bitmap itself is left clear: the bitmap says that its own block is free.\<close>

theorem format_bitmap_own_block_free:
  assumes bm: "format_block_bitmap n sb desc_blocks inode_blocks (blocks_count sb - bgid * blocks_per_group sb) bgid (replicate n 0) = Inr bm"
    and fdb: "first_data_block sb = 1" and bpg: "blocks_per_group sb \<le> 8 * n"
    and size: "bgid * blocks_per_group sb \<le> blocks_count sb"
    and fits: "start_block_of sb desc_blocks bgid + inode_blocks + 3 <
      bgid * blocks_per_group sb + min (blocks_count sb - bgid * blocks_per_group sb) (blocks_per_group sb)"
  shows "\<exists>q < blocks_per_group sb. \<not> bit_at bm q \<and>
    lba_from_bgid_index sb bgid q = start_block_of sb desc_blocks bgid + 1"
proof -
  let ?q = "start_block_of sb desc_blocks bgid - bgid * blocks_per_group sb"
  have q: "?q = 1 + desc_blocks + (if is_super_in_bg sb bgid then 1 else 0)" "?q < blocks_per_group sb" "?q < 8 * n"
    using fdb fits bpg by (auto simp: start_block_of_def)
  have "\<not> bit_at bm ?q"
    using format_bitmap_bits(2) [OF bm size bpg _ q(3)] q fits fdb bpg
    by (cases "is_super_in_bg sb bgid") (auto simp: start_block_of_def)
  moreover have "lba_from_bgid_index sb bgid ?q = start_block_of sb desc_blocks bgid + 1"
    using fdb by (simp add: lba_from_bgid_index_def start_block_of_def)
  ultimately show ?thesis using q(2) by blast
qed

section \<open>The descriptors\<close>

lemma short_sets:
  assumes "length d = 32"
  shows "compound_u64_set LO HI (is_bg_64 d) w d = Inr d' \<Longrightarrow>
      length d' = 32 \<and> fst (split_u64 w) = 0 \<and> write_u32 LO (snd (split_u64 w)) d = Inr d'"
    and "compound_u32_set LO HI (is_bg_64 d) x d = Inr d' \<Longrightarrow>
      length d' = 32 \<and> fst (split_u32 x) = 0 \<and> write_u16 LO (snd (split_u32 x)) d = Inr d'"
  using assms write_length
  by (auto simp: is_bg_64_def compound_u64_set_def compound_u32_set_def rbind_Inr_iff split: prod.splits)

lemma short_gets:
  assumes "length d < 64"
  shows "fst (split_u64 w) = 0 \<Longrightarrow> read_u32 d LO = Inr (snd (split_u64 w)) \<Longrightarrow> compound_u64_get LO HI (is_bg_64 d) d = Inr w"
    and "fst (split_u32 x) = 0 \<Longrightarrow> read_u16 d LO = Inr (snd (split_u32 x)) \<Longrightarrow> compound_u32_get LO HI (is_bg_64 d) d = Inr x"
  using assms merge_split_u64 [of w 0 "snd (split_u64 w)"] merge_split_u32 [of x 0 "snd (split_u32 x)"]
  by (auto simp: is_bg_64_def compound_u64_get_def compound_u32_get_def prod_eq_iff)

abbreviation descriptor_writes :: "nat \<Rightarrow> nat \<Rightarrow> nat \<Rightarrow> nat \<Rightarrow> bool \<Rightarrow> (bytes \<Rightarrow> bytes result) list" where
  "descriptor_writes start free_b free_i k lazy \<equiv>
     [write_u32 0x0 (snd (split_u64 (of_nat (start + 1)))), write_u32 0x4 (snd (split_u64 (of_nat (start + 2)))),
      write_u32 0x8 (snd (split_u64 (of_nat (start + 3)))), write_u16 0xC (snd (split_u32 (of_nat free_b))),
      write_u16 0xE (snd (split_u32 (of_nat free_i))), write_u16 0x10 0, write_u16 0x1C (snd (split_u32 (of_nat k))),
      if lazy then write_u16 0x12 (INODE_UNINIT OR BLOCK_UNINIT) else Inr]"

lemma fill_descriptor_writes:
  assumes "fill_descriptor sb bgs_count start free_b free_i bgid lazy d = Inr d'" and "length d = 32"
  obtains k d9 where "for_each (descriptor_writes start free_b free_i k lazy) (\<lambda>w. w) d = Inr d9"
    "bg_update_csum bgid sb d9 = Inr d'"
    "\<forall>w\<in>{of_nat (start + 1), of_nat (start + 2), of_nat (start + 3)}. fst (split_u64 w) = 0"
    "\<forall>x\<in>{of_nat free_b, of_nat free_i}. fst (split_u32 x) = 0" "itable_unused_of sb bgs_count bgid = Inr k" "length d9 = 32"
proof -
  from assms(1) obtain k d1 d2 d3 d4 d5 d6 d7 d8 where s:
    "compound_u64_set 0x0 0x20 (is_bg_64 d) (of_nat (start + 1)) d = Inr d1"
    "compound_u64_set 0x4 0x24 (is_bg_64 d1) (of_nat (start + 2)) d1 = Inr d2"
    "compound_u64_set 0x8 0x28 (is_bg_64 d2) (of_nat (start + 3)) d2 = Inr d3"
    "compound_u32_set 0xC 0x2C (is_bg_64 d3) (of_nat free_b) d3 = Inr d4"
    "compound_u32_set 0xE 0x2E (is_bg_64 d4) (of_nat free_i) d4 = Inr d5"
    "compound_u32_set 0x10 0x30 (is_bg_64 d5) 0 d5 = Inr d6"
    "itable_unused_of sb bgs_count bgid = Inr k"
    "compound_u32_set 0x1C 0x32 (is_bg_64 d6) (of_nat k) d6 = Inr d7"
    "(if lazy then write_u16 0x12 (INODE_UNINIT OR BLOCK_UNINIT) d7 else Inr d7) = Inr d8"
    "bg_update_csum bgid sb d8 = Inr d'"
    unfolding fill_descriptor_def bg_set_free_blocks_count_def bg_set_free_inodes_count_def bg_set_used_dirs_count_def bg_set_itable_unused_def
    by (elim rbind_InrE) blast
  have z: "split_u32 0 = (0, 0)" by (simp add: split_u32_def)
  note w1 = short_sets(1) [OF assms(2) s(1)]
  note w2 = short_sets(1) [OF conjunct1 [OF w1] s(2)]
  note w3 = short_sets(1) [OF conjunct1 [OF w2] s(3)]
  note w4 = short_sets(2) [OF conjunct1 [OF w3] s(4)]
  note w5 = short_sets(2) [OF conjunct1 [OF w4] s(5)]
  note w6 = short_sets(2) [OF conjunct1 [OF w5] s(6)]
  note w7 = short_sets(2) [OF conjunct1 [OF w6] s(8)]
  have w8: "(if lazy then write_u16 0x12 (INODE_UNINIT OR BLOCK_UNINIT) else Inr) d7 = Inr d8" "length d8 = 32"
    using s(9) w7 by (auto simp: write_length split: if_splits)
  show thesis
    by (rule that [of k d8]) (use w1 w2 w3 w4 w5 w6 w7 w8 s z in simp_all)
qed

text \<open>The fields of a descriptor after the writes, which the update of the checksum at \<open>0x1E\<close> leaves alone.\<close>

lemma descriptor_fields:
  assumes fe: "for_each (descriptor_writes start free_b free_i k lazy) (\<lambda>w. w) (replicate 32 0) = Inr d9"
    and c: "length d = length d9" "\<forall>i. i \<noteq> 0x1E \<and> i \<noteq> 0x1F \<longrightarrow> d ! i = d9 ! i"
  shows "read_u32 d 0x0 = Inr (snd (split_u64 (of_nat (start + 1))))" "read_u32 d 0x4 = Inr (snd (split_u64 (of_nat (start + 2))))"
    "read_u32 d 0x8 = Inr (snd (split_u64 (of_nat (start + 3))))" "read_u16 d 0xC = Inr (snd (split_u32 (of_nat free_b)))"
    "read_u16 d 0xE = Inr (snd (split_u32 (of_nat free_i)))" "read_u16 d 0x10 = Inr 0"
    "read_u16 d 0x12 = Inr (if lazy then INODE_UNINIT OR BLOCK_UNINIT else 0)"
proof -
  have keep: "keeps {a..<b} (if lazy then write_u16 0x12 (INODE_UNINIT OR BLOCK_UNINIT) else Inr)" if "b \<le> 0x12 \<or> 0x14 \<le> a" for a b
  proof (cases lazy)
    case True
    then show ?thesis using that by (simp add: keeps_writes)
  qed (simp add: keeps_def)
  have e: "read_u32 d p = read_u32 d9 p" if "p + 4 \<le> 0x1E" for p using c that by (intro read_u32_cong) auto
  have e': "read_u16 d p = read_u16 d9 p" if "p + 2 \<le> 0x1E" for p using c that by (intro read_u16_cong) auto
  show "read_u32 d 0x0 = Inr (snd (split_u64 (of_nat (start + 1))))"
    unfolding e [of 0, simplified] by (rule written(3) [OF fe, of 0]) (simp_all add: keeps_writes keep)
  show "read_u32 d 0x4 = Inr (snd (split_u64 (of_nat (start + 2))))"
    unfolding e [of 4, simplified] by (rule written(3) [OF fe, of 1]) (simp_all add: keeps_writes keep)
  show "read_u32 d 0x8 = Inr (snd (split_u64 (of_nat (start + 3))))"
    unfolding e [of 8, simplified] by (rule written(3) [OF fe, of 2]) (simp_all add: keeps_writes keep)
  show "read_u16 d 0xC = Inr (snd (split_u32 (of_nat free_b)))"
    unfolding e' [of "0xC", simplified] by (rule written(2) [OF fe, of 3]) (simp_all add: keeps_writes keep)
  show "read_u16 d 0xE = Inr (snd (split_u32 (of_nat free_i)))"
    unfolding e' [of "0xE", simplified] by (rule written(2) [OF fe, of 4]) (simp_all add: keeps_writes keep)
  show "read_u16 d 0x10 = Inr 0"
    unfolding e' [of "0x10", simplified] by (rule written(2) [OF fe, of 5]) (simp_all add: keeps_writes keep)
  show "read_u16 d 0x12 = Inr (if lazy then INODE_UNINIT OR BLOCK_UNINIT else 0)"
  proof (cases lazy)
    case True
    then show ?thesis unfolding e' [of "0x12", simplified] by (intro written(2) [OF fe, of 7]) simp_all
  next
    case False
    then have "list_all (keeps {0x12..<0x14}) (descriptor_writes start free_b free_i k lazy)" by (simp add: keeps_writes) (simp add: keeps_def)
    from for_each_keeps [OF fe this] have "read_u16 d9 0x12 = read_u16 (replicate 32 0) 0x12"
      by (intro read_u16_cong) auto
    also have "\<dots> = Inr 0" by (simp add: read_u16_def le16_def)
    finally show ?thesis using False e' [of "0x12"] by simp
  qed
qed

text \<open>the descriptor written for a group gives back the places of both bitmaps and of the inode
  table, the free counters and the flags, and its checksum verifies.\<close>

theorem fill_descriptor_reads_back:
  assumes f: "fill_descriptor sb bgs_count start free_b free_i bgid lazy (replicate 32 0) = Inr d"
    and small: "start + 3 < 2 ^ 64"
  shows "length d = 32 \<and> bg_block_bitmap d = Inr (start + 1) \<and> bg_inode_bitmap d = Inr (start + 2) \<and>
    bg_inode_table d = Inr (start + 3) \<and> bg_free_blocks_count d = Inr (of_nat free_b) \<and>
    bg_free_inodes_count d = Inr (of_nat free_i) \<and> bg_used_dirs_count d = Inr 0 \<and>
    read_u16 d 0x12 = Inr (if lazy then INODE_UNINIT OR BLOCK_UNINIT else 0) \<and>
    (\<exists>c. read_u16 d 0x1E = Inr c \<and> calculate_csum bgid sb d = Inr (c, d))"
proof (rule fill_descriptor_writes [OF f])
  fix k d9
  assume fe: "for_each (descriptor_writes start free_b free_i k lazy) (\<lambda>w. w) (replicate 32 0) = Inr d9"
    and cs: "bg_update_csum bgid sb d9 = Inr d"
    and hi: "\<forall>w\<in>{of_nat (start + 1), of_nat (start + 2), of_nat (start + 3)}. fst (split_u64 w) = 0"
      "\<forall>x\<in>{of_nat free_b, of_nat free_i}. fst (split_u32 x) = 0" and l9: "length d9 = 32"
  from bg_update_csum_verifies [OF cs] obtain c where c: "read_u16 d 0x1E = Inr c" "calculate_csum bgid sb d = Inr (c, d)"
    "length d = length d9" "\<forall>i. i \<noteq> 0x1E \<and> i \<noteq> 0x1F \<longrightarrow> d ! i = d9 ! i" by blast
  note r = descriptor_fields [OF fe c(3,4)]
  have u: "unat (of_nat (start + i) :: 64 word) = start + i" if "i \<le> 3" for i
    using small that unfolding unat_of_nat by simp
  have l: "length d < 64" using c(3) l9 by simp
  have g: "compound_u64_get 0x0 0x20 (is_bg_64 d) d = Inr (of_nat (start + 1))"
    "compound_u64_get 0x4 0x24 (is_bg_64 d) d = Inr (of_nat (start + 2))"
    "compound_u64_get 0x8 0x28 (is_bg_64 d) d = Inr (of_nat (start + 3))"
    using hi(1) r(1-3) by (blast intro: short_gets(1) [OF l])+
  have h: "bg_free_blocks_count d = Inr (of_nat free_b)" "bg_free_inodes_count d = Inr (of_nat free_i)"
    using hi(2) r(4,5) unfolding bg_free_blocks_count_def bg_free_inodes_count_def by (blast intro: short_gets(2) [OF l])+
  have "bg_used_dirs_count d = Inr 0"
    unfolding bg_used_dirs_count_def by (rule short_gets(2) [OF l]) (use r(6) in \<open>simp_all add: split_u32_def\<close>)
  moreover have "bg_block_bitmap d = Inr (start + 1)" "bg_inode_bitmap d = Inr (start + 2)" "bg_inode_table d = Inr (start + 3)"
    unfolding bg_block_bitmap_def bg_inode_bitmap_def bg_inode_table_def g rmap_simps using u [of 1] u [of 2] u [of 3] by simp_all
  ultimately show ?thesis using h c(1-3) l9 r(7) by simp
qed simp

section \<open>Short last groups, and the theorems at concrete inputs\<close>

lemma fill_group_total:
  "fill_group wr n sb bgs_count desc_blocks inode_blocks bgid (m, raw, d, tot) = Inr (m', raw', d', tot') \<Longrightarrow>
   tot' = tot - blocks_per_group sb \<and> (\<exists>k. free_blocks_of sb bgs_count desc_blocks inode_blocks tot bgid = Inr k)"
  by (auto simp: fill_group_def rbind_Inr_iff Let_def split: prod.splits)

lemma fill_groups_total:
  "for_each [0..<j] (fill_group wr n sb bgs_count desc_blocks inode_blocks) (m, raw, d, tot) = Inr (m', raw', d', tot') \<Longrightarrow>
   tot' = tot - j * blocks_per_group sb"
proof (induction j arbitrary: m' raw' d' tot')
  case (Suc j)
  then obtain m1 raw1 d1 tot1 where
    "for_each [0..<j] (fill_group wr n sb bgs_count desc_blocks inode_blocks) (m, raw, d, tot) = Inr (m1, raw1, d1, tot1)"
    "fill_group wr n sb bgs_count desc_blocks inode_blocks j (m1, raw1, d1, tot1) = Inr (m', raw', d', tot')"
    by (auto simp: for_each_append rbind_Inr_iff)
  with Suc.IH fill_group_total show ?case by fastforce
qed simp

lemma div_ceil_run: "0 < r \<Longrightarrow> r \<le> b \<Longrightarrow> div_ceil (g * b + r) b = Suc g"
  by (cases "r = b") (auto simp: div_ceil_def)

lemma run_le: "0 < r \<Longrightarrow> r \<le> b \<Longrightarrow> Suc g \<le> g * b + r" for b :: nat
  using mult_le_mono2 [of 1 b g] by linarith

text \<open>a device whose last group is shorter than the bitmaps and the inode table of a group cannot be
  formatted: the count of its free blocks underflows.\<close>

theorem short_last_group_fails:
  assumes "blocks_count sb - first_data_block sb = g * blocks_per_group sb + r" and "0 < r" "r \<le> blocks_per_group sb"
    and "blocks_count sb < 2 ^ 32" "first_data_block sb \<le> blocks_count sb"
    and "r < div_ceil (inodes_per_group sb * inode_size sb) n + 2" "div_ceil (inodes_per_group sb * inode_size sb) n < 2 ^ 32"
  shows "fill_bg wr n sb d \<noteq> Inr res"
proof
  assume "fill_bg wr n sb d = Inr res"
  moreover
  have "trunc 32 (div_ceil (blocks_count sb - first_data_block sb) (blocks_per_group sb)) = Suc g"
    unfolding assms(1) div_ceil_run [OF assms(2,3)]
    using assms(1-4) run_le [OF assms(2,3), of g] by (intro trunc_id) linarith
  ultimately obtain m raw d' tot' where
   "for_each [0..<Suc g] (fill_group wr n sb (Suc g) (div_ceil (block_desc_size sb * Suc g) n)
       (trunc 32 (div_ceil (inodes_per_group sb * inode_size sb) n))) (Map.empty, manipulator sb, d, blocks_count sb) = Inr (m, raw, d', tot')"
    by (auto simp: fill_bg_def rbind_Inr_iff Let_def split: prod.splits)
  then obtain m1 raw1 d1 tot1 where
    "for_each [0..<g] (fill_group wr n sb (Suc g) (div_ceil (block_desc_size sb * Suc g) n)
       (trunc 32 (div_ceil (inodes_per_group sb * inode_size sb) n))) (Map.empty, manipulator sb, d, blocks_count sb) = Inr (m1, raw1, d1, tot1)"
    "fill_group wr n sb (Suc g) (div_ceil (block_desc_size sb * Suc g) n)
       (trunc 32 (div_ceil (inodes_per_group sb * inode_size sb) n)) g (m1, raw1, d1, tot1) = Inr (m, raw, d', tot')"
    by (auto simp: for_each_append rbind_Inr_iff)
  from fill_group_total [OF this(2)] fill_groups_total [OF this(1)] obtain k where
    k: "free_blocks_of sb (Suc g) (div_ceil (block_desc_size sb * Suc g) n)
      (trunc 32 (div_ceil (inodes_per_group sb * inode_size sb) n)) (blocks_count sb - g * blocks_per_group sb) g = Inr k"
    by auto
  have r: "blocks_count sb - g * blocks_per_group sb = r + first_data_block sb" using assms(1,2,5) by linarith
  have t: "trunc 32 (min (r + first_data_block sb) (blocks_per_group sb)) \<le> r + first_data_block sb"
    using assms(4) r by (subst trunc_id) auto
  from k t show False using assms(6) unfolding r free_blocks_of_def trunc_id [OF assms(7)]
    by (auto simp: rbind_Inr_iff)
qed


lemma fill_descriptor_reads_back_witness:
  "\<exists>d. fill_descriptor demo_sb 4 1000 50 60 1 True (replicate 32 0) = Inr d \<and> bg_inode_table d = Inr 1003 \<and>
    read_u16 d 0x12 = Inr 3"
proof -
  let ?d = "[0xE9, 0x03, 0, 0, 0xEA, 0x03, 0, 0, 0xEB, 0x03, 0, 0, 50, 0, 60, 0, 0, 0, 3, 0] @ replicate 8 0 @ [0xFF, 0x07, 0, 0] :: bytes"
  have "rbind (compound_u64_set 0x0 0x20 (is_bg_64 (replicate 32 0)) (of_nat (1000 + 1)) (replicate 32 0)) (\<lambda>d.
     rbind (compound_u64_set 0x4 0x24 (is_bg_64 d) (of_nat (1000 + 2)) d) (\<lambda>d.
     rbind (compound_u64_set 0x8 0x28 (is_bg_64 d) (of_nat (1000 + 3)) d) (\<lambda>d.
     rbind (bg_set_free_blocks_count (of_nat 50) d) (\<lambda>d.
     rbind (bg_set_free_inodes_count (of_nat 60) d) (\<lambda>d.
     rbind (bg_set_used_dirs_count 0 d) (\<lambda>d.
     rbind (itable_unused_of demo_sb 4 1) (\<lambda>k.
     rbind (bg_set_itable_unused (of_nat k) d) (\<lambda>d.
     if True then write_u16 0x12 (INODE_UNINIT OR BLOCK_UNINIT) d else Inr d)))))))) = Inr ?d" by code_simp
  then have "fill_descriptor demo_sb 4 1000 50 60 1 True (replicate 32 0) = bg_update_csum 1 demo_sb ?d"
    by (auto simp: fill_descriptor_def rbind_Inr_iff)
  moreover obtain d where "bg_update_csum 1 demo_sb ?d = Inr d" using bg_update_csum_defined [of ?d] by auto
  ultimately have d: "fill_descriptor demo_sb 4 1000 50 60 1 True (replicate 32 0) = Inr d" by simp
  from fill_descriptor_reads_back [OF this] d show ?thesis by (auto simp: INODE_UNINIT_def BLOCK_UNINIT_def)
qed

lemma short_last_group_fails_witness:
  "\<forall>res. fill_bg (\<lambda>p b d. Inr d) 1024 (demo_sb\<lparr>blocks_count := 24700\<rparr>) () \<noteq> Inr res"
  by (intro allI short_last_group_fails [of _ 3 123]) (simp_all add: demo_sb_def div_ceil_def)

lemma demo_bitmap:
  assumes "fdb \<le> 1"
  obtains bm where "format_block_bitmap 2048 (demo_sb\<lparr>first_data_block := fdb\<rparr>) 1 512 21808 1 (replicate 2048 0) = Inr bm"
  using init_block_bitmap_ok [of "replicate 2048 0" 2048 "demo_sb\<lparr>first_data_block := fdb\<rparr>" 1 512 1]
    format_bitmap_lazy [of 1 "demo_sb\<lparr>first_data_block := fdb\<rparr>" 2048 1 512 "replicate 2048 0"] assms
  by (auto simp: demo_sb_def)

lemma demo_super: "is_super_in_bg (demo_sb\<lparr>first_data_block := fdb\<rparr>) 1"
  by (simp add: is_super_in_bg_def sb_sparse_def demo_sb_def contains_flag_def SPARSE_SUPER_def)

lemma format_bitmap_exact_witness:
  "\<exists>bm. format_block_bitmap 2048 (demo_sb\<lparr>first_data_block := 0\<rparr>) 1 512 21808 1 (replicate 2048 0) = Inr bm \<and>
    card {q. q < 8 * 2048 \<and> \<not> bit_at bm q} = 7676 \<and> bit_at bm 0 \<and> \<not> bit_at bm 2"
proof -
  let ?sb = "demo_sb\<lparr>first_data_block := 0\<rparr>"
  obtain bm where bm: "format_block_bitmap 2048 ?sb 1 512 21808 1 (replicate 2048 0) = Inr bm" using demo_bitmap [of 0] by auto
  have k: "free_blocks_of ?sb 4 1 512 21808 1 = Inr 7676"
    unfolding free_blocks_of_def using demo_super [of 0] by (simp add: demo_sb_def trunc_def sub_nat_def)
  have st: "start_block_of ?sb 1 1 = 8194" unfolding start_block_of_def using demo_super [of 0] by (simp add: demo_sb_def)
  have sz: "blocks_count ?sb - 1 * blocks_per_group ?sb = 21808" "blocks_per_group ?sb = 8192" by (simp_all add: demo_sb_def)
  have "(\<forall>q < 8 * 2048. bit_at bm q \<longleftrightarrow> lba_from_bgid_index ?sb 1 q \<in> group_metadata ?sb 1 512 1 \<or> 8192 \<le> q) \<and>
    7676 = card {q. q < 8 * 2048 \<and> \<not> bit_at bm q}"
    using format_bitmap_exact [of 2048 ?sb 1 512 1 bm 4 7676] bm k st sz by (simp add: demo_sb_def)
  then show ?thesis using bm demo_super [of 0] st
    by (auto simp: lba_from_bgid_index_def group_metadata_def Let_def first_bg_block_no_def sz demo_sb_def)
qed

lemma format_bitmap_own_block_free_witness:
  "\<exists>bm. format_block_bitmap 2048 demo_sb 1 512 21808 1 (replicate 2048 0) = Inr bm \<and> (\<exists>q < 8192. \<not> bit_at bm q)"
proof -
  obtain bm where bm: "format_block_bitmap 2048 demo_sb 1 512 21808 1 (replicate 2048 0) = Inr bm"
    using demo_bitmap [of 1] by (auto simp: demo_sb_def)
  have st: "start_block_of demo_sb 1 1 \<le> 8195" unfolding start_block_of_def by (simp add: demo_sb_def)
  have sz: "blocks_count demo_sb - 1 * blocks_per_group demo_sb = 21808" "blocks_per_group demo_sb = 8192" "first_data_block demo_sb = 1"
    "8192 \<le> blocks_count demo_sb" by (simp_all add: demo_sb_def)
  from format_bitmap_own_block_free [of 2048 demo_sb 1 512 1 bm] bm st sz show ?thesis by auto
qed

section \<open>The counter of the superblock\<close>

definition sb_free_blocks :: "bytes \<Rightarrow> nat result" where
  "sb_free_blocks v = rbind (is_feature_incompat64 v) (\<lambda>hi. rmap unat (compound_u64_get 0xC 0x158 hi v))"

lemma add_free_blocks_raw_ok:
  assumes "add_free_blocks_raw k v = Inr v'" and "sb_free_blocks v = Inr c" and "k < 2 ^ 64"
  shows "sb_free_blocks v' = Inr (c + k)" "length v' = length v"
proof -
  from assms(1,2) obtain hi w w' where w: "is_feature_incompat64 v = Inr hi" "c = unat w"
    "add_chk w (of_nat k) = Inr w'" "compound_u64_set 0xC 0x158 hi w' v = Inr v'"
    by (auto simp: add_free_blocks_raw_def sb_free_blocks_def rbind_Inr_iff rmap_Inr_iff)
  have f: "field (compound_u64_get 0xC 0x158 hi) (compound_u64_set 0xC 0x158 hi)
    ({0xC..<0xC+4} \<union> (if hi then {0x158..<0x158+4} else {})) (\<lambda>v. hi \<or> fst (split_u64 v) = 0)"
    by (rule compound_u64_field) simp
  have k: "keeps {0x60..<0x64} (compound_u64_set 0xC 0x158 hi w')" by (rule keeps_u64(1)) simp
  then have "is_feature_incompat64 v' = Inr hi"
    using w(1,4) read_u32_cong [of v' v "0x60"] by (auto simp: keeps_def is_feature_incompat64_def)
  moreover have "unat w' = c + k"
    using add_chk_unat [OF w(3)] w(2) assms(3) by (simp add: unat_of_nat)
  ultimately show "sb_free_blocks v' = Inr (c + k)"
    using field.get_set [OF f w(4)] by (simp add: sb_free_blocks_def)
  show "length v' = length v" using k w(4) by (simp add: keeps_def)
qed

lemma sb_modify_free_blocks:
  assumes "sb_modify n (add_free_blocks_raw k) raw = Inr raw'" and "sb_free_blocks (sb_view n raw) = Inr c" and "k < 2 ^ 64"
    and "1024 \<le> length raw"
  shows "sb_free_blocks (sb_view n raw') = Inr (c + k)" "length raw' = length raw"
proof -
  from assms(1) obtain v where v: "add_free_blocks_raw k (sb_view n raw) = Inr v" "sb_view n raw' = v"
      "raw' = (if n = 1024 then v else take 1024 raw @ v)"
    using assms(4) by (cases "n = 1024") (auto simp: sb_modify_def sb_view_def rmap_Inr_iff)
  note a = add_free_blocks_raw_ok [OF v(1) assms(2,3)]
  show "sb_free_blocks (sb_view n raw') = Inr (c + k)" using a(1) v(2) by simp
  show "length raw' = length raw" using a(2) v(3) assms(4) by (simp add: sb_view_def)
qed

lemma fill_groups_counter:
  assumes "for_each [0..<j] (fill_group wr n sb bgs_count desc_blocks inode_blocks) (m, raw, d, tot) = Inr (m', raw', d', tot')"
    and "sb_free_blocks (sb_view n raw) = Inr c" and "1024 \<le> length raw"
    and "\<And>i k. i < j \<Longrightarrow> free_blocks_of sb bgs_count desc_blocks inode_blocks (tot - i * blocks_per_group sb) i = Inr k \<Longrightarrow> k = f i"
  shows "sb_free_blocks (sb_view n raw') = Inr (c + (\<Sum>i<j. f i))" "length raw' = length raw"
  using assms(1,4)
proof (induction j arbitrary: m' raw' d' tot')
  case 0
  { case 1 then show ?case using assms(2) by simp
  next
    case 2 then show ?case by simp }
next
  case (Suc j)
  { fix m' raw' d' tot'
    assume *: "for_each [0..<Suc j] (fill_group wr n sb bgs_count desc_blocks inode_blocks) (m, raw, d, tot) = Inr (m', raw', d', tot')"
      "\<And>i k. i < Suc j \<Longrightarrow> free_blocks_of sb bgs_count desc_blocks inode_blocks (tot - i * blocks_per_group sb) i = Inr k \<Longrightarrow> k = f i"
    from *(1) obtain m1 raw1 d1 tot1 where
      s: "for_each [0..<j] (fill_group wr n sb bgs_count desc_blocks inode_blocks) (m, raw, d, tot) = Inr (m1, raw1, d1, tot1)"
        "fill_group wr n sb bgs_count desc_blocks inode_blocks j (m1, raw1, d1, tot1) = Inr (m', raw', d', tot')"
      by (auto simp: for_each_append rbind_Inr_iff)
    from Suc.IH(1) [OF s(1) *(2)] have c: "sb_free_blocks (sb_view n raw1) = Inr (c + (\<Sum>i<j. f i))" by simp
    from Suc.IH(2) [OF s(1) *(2)] have l: "length raw1 = length raw" by simp
    from s(2) obtain k where k: "free_blocks_of sb bgs_count desc_blocks inode_blocks tot1 j = Inr k"
      "sb_modify n (add_free_blocks_raw k) raw1 = Inr raw'"
      by (auto simp: fill_group_def rbind_Inr_iff Let_def split: prod.splits)
    have "k = f j" using *(2) [of j k] k(1) fill_groups_total [OF s(1)] by simp
    have "k < 2 ^ 64"
    proof -
      have "k \<le> trunc 32 (min tot1 (blocks_per_group sb))" using k(1) by (auto simp: free_blocks_of_def rbind_Inr_iff)
      also have "\<dots> < 2 ^ 32" by (simp add: trunc_def)
      finally show ?thesis by simp
    qed
    from sb_modify_free_blocks [OF k(2) c this] l assms(3) \<open>k = f j\<close>
    have "sb_free_blocks (sb_view n raw') = Inr (c + (\<Sum>i<Suc j. f i)) \<and> length raw' = length raw" by simp }
  note r = this
  { case 1 then show ?case using r by blast
  next
    case 2 then show ?case using r by blast }
qed

text \<open>The count of free blocks in the superblock that a format leaves is the sum of the counts it wrote to
  the descriptors of the groups.\<close>

theorem fill_bg_counts_free_blocks:
  assumes "fill_bg wr n sb d = Inr (sb', d')" and "sb_free_blocks (sb_view n (manipulator sb)) = Inr 0"
    and "1024 \<le> length (manipulator sb)" and "bgs_count = trunc 32 (div_ceil (blocks_count sb - first_data_block sb) (blocks_per_group sb))"
    and "\<And>i k. i < bgs_count \<Longrightarrow> free_blocks_of sb bgs_count (div_ceil (block_desc_size sb * bgs_count) n)
        (trunc 32 (div_ceil (inodes_per_group sb * inode_size sb) n)) (blocks_count sb - i * blocks_per_group sb) i = Inr k \<Longrightarrow> k = f i"
  shows "sb_free_blocks (sb_view n (manipulator sb')) = Inr (\<Sum>i<bgs_count. f i)"
proof -
  from assms(1,4) obtain m raw d1 tot1 where
    "for_each [0..<bgs_count] (fill_group wr n sb bgs_count (div_ceil (block_desc_size sb * bgs_count) n)
       (trunc 32 (div_ceil (inodes_per_group sb * inode_size sb) n))) (Map.empty, manipulator sb, d, blocks_count sb) = Inr (m, raw, d1, tot1)"
    "manipulator sb' = raw"
    by (auto simp: fill_bg_def rbind_Inr_iff rmap_Inr_iff Let_def split: prod.splits)
  from fill_groups_counter(1) [OF this(1) assms(2,3,5)] this(2) show ?thesis by simp
qed

end
