(* ===== verification/Command_Line.thy ===== *)
theory Command_Line
  imports Shell Format
begin

text \<open>
  The program around the shell: the arguments of the command line (\<open>linux_cli/src/cli.rs\<close>), opening an
  image and formatting one (\<open>linux_cli/src/main.rs\<close>, \<open>linux_driver/src/lib.rs\<close>), and the loop that reads
  and runs the lines of the terminal (\<open>Shell::run\<close> in \<open>linux_cli/src/shell.rs\<close>). A string is its UTF-8
  bytes; the terminal is the list of the lines it will deliver.
\<close>

section \<open>Arguments\<close>

datatype parse_error = RequireInteger | UnsupportedBlockSize | UnknownPostFix

fun parse_error_text :: "parse_error \<Rightarrow> string" where
  "parse_error_text RequireInteger = ''Integer is required''"
| "parse_error_text UnsupportedBlockSize = ''Unsupported Block size (Supported size: 1024, 2048, 4096).''"
| "parse_error_text UnknownPostFix = ''Unknown postfix''"

text \<open>\<open>from_str\<close> of an unsigned integer of \<open>w\<close> bits: an optional plus sign and at least one digit.\<close>

fun digits_value :: "nat \<Rightarrow> bytes \<Rightarrow> nat option" where
  "digits_value acc [] = Some acc"
| "digits_value acc (c # cs) =
     (if 0x30 \<le> c \<and> c \<le> 0x39 then digits_value (10 * acc + unat (c - 0x30)) cs else None)"

definition parse_uint :: "nat \<Rightarrow> bytes \<Rightarrow> nat option" where
  "parse_uint w s =
     (let ds = (if s \<noteq> [] \<and> hd s = 0x2B then tl s else s)
      in if ds = [] then None
         else case digits_value 0 ds of None \<Rightarrow> None | Some v \<Rightarrow> if v < 2 ^ w then Some v else None)"

definition parse_blk_size :: "bytes \<Rightarrow> parse_error + nat" where
  "parse_blk_size b = (case parse_uint 32 b of
     None \<Rightarrow> Inl RequireInteger
   | Some n \<Rightarrow> if n = 1024 \<or> n = 2048 \<or> n = 4096 then Inr n else Inl UnsupportedBlockSize)"

text \<open>The products are checked, so the outer result may be a panic.\<close>

definition times_1024 :: "nat \<Rightarrow> nat result" where
  "times_1024 s = chk 64 (s * 1024)"

definition parse_file_size :: "bytes \<Rightarrow> (parse_error + nat) result" where
  "parse_file_size b = (case parse_uint 64 b of
     Some n \<Rightarrow> Inr (Inr n)
   | None \<Rightarrow>
       if b = [] then Inr (Inl RequireInteger)
       else let c = last b; ds = parse_uint 64 (butlast b);
                scaled = (\<lambda>f. case ds of Some s \<Rightarrow> rmap Inr (f s) | None \<Rightarrow> Inr (Inl RequireInteger))
            in if c = 0x4B \<or> c = 0x6B then scaled times_1024
               else if c = 0x4D \<or> c = 0x6D then scaled (\<lambda>s. rbind (times_1024 s) times_1024)
               else if c = 0x47 \<or> c = 0x67 then scaled (\<lambda>s. rbind (times_1024 s) (\<lambda>s. rbind (times_1024 s) times_1024))
               else Inr (Inl UnknownPostFix))"

section \<open>Formatting an image\<close>

text \<open>The digit the random number \<open>a < 16\<close> becomes in the identifier.\<close>

definition hex_digit :: "byte \<Rightarrow> byte" where
  "hex_digit a = (if a < 10 then a + 0x30 else a + 0x41 - 10)"

definition volume_name :: bytes where
  "volume_name = replicate 4 0x41 @ replicate 4 0x42 @ replicate 4 0x43 @ replicate 4 0x44"

text \<open>A file made with a size is filled with blocks of zeroes; an older file of that name is written over.\<close>

definition create_image :: "nat \<Rightarrow> nat \<Rightarrow> bytes \<Rightarrow> bytes result" where
  "create_image block create f =
     rbind (assertR (block \<noteq> 0)) (\<lambda>_.
     for_each (map ((*) block) [0..<div_ceil create block])
       (\<lambda>b f. unwrap_res (file_write_bytes b (replicate block 0) f)) f)"

text \<open>The 16 random numbers of the identifier and the seed are arguments.\<close>

definition driver_format :: "nat \<Rightarrow> nat \<Rightarrow> nat option \<Rightarrow> bytes \<Rightarrow> bytes \<Rightarrow> bytes \<Rightarrow> bytes fs result option" where
  "driver_format fuel block create draws seed f =
     obind (Some (case create of Some c \<Rightarrow> create_image block c f | None \<Rightarrow> Inr f)) (\<lambda>f.
     if block = 1024 \<or> block = 2048 \<or> block = 4096
     then format file_read_bytes file_write_bytes length fuel block (map hex_digit draws) volume_name seed f
     else Some (Inl Panic))"

section \<open>The shell's loop\<close>

definition ascii :: "string \<Rightarrow> bytes" where
  "ascii s = map of_char s"

text \<open>The length of the white space character that some text starts with, 0 when it starts with none.\<close>

definition ws_len :: "bytes \<Rightarrow> nat" where
  "ws_len bs =
     (if bs \<noteq> [] \<and> (0x09 \<le> hd bs \<and> hd bs \<le> 0x0D \<or> hd bs = 0x20) then 1
      else if take 2 bs = [0xC2, 0x85] \<or> take 2 bs = [0xC2, 0xA0] then 2
      else if take 3 bs = [0xE1, 0x9A, 0x80] \<or> take 3 bs = [0xE2, 0x81, 0x9F] \<or> take 3 bs = [0xE3, 0x80, 0x80] \<or>
        take 2 bs = [0xE2, 0x80] \<and> 2 < length bs \<and>
          (0x80 \<le> bs ! 2 \<and> bs ! 2 \<le> 0x8A \<or> bs ! 2 = 0xA8 \<or> bs ! 2 = 0xA9 \<or> bs ! 2 = 0xAF) then 3
      else 0)"

text \<open>\<open>split_whitespace\<close>, with the word that is being collected.\<close>

function split_words :: "bytes \<Rightarrow> bytes \<Rightarrow> bytes list" where
  "split_words w [] = (if w = [] then [] else [w])"
| "split_words w (c # cs) =
     (let k = ws_len (c # cs)
      in if k = 0 then split_words (w @ [c]) cs
         else (if w = [] then [] else [w]) @ split_words [] (drop (k - 1) cs))"
  by pat_completeness auto
termination
  by (relation "measure (\<lambda>(w, bs). length bs)") (auto simp: le_imp_less_Suc)

fun split_byte :: "byte \<Rightarrow> bytes \<Rightarrow> bytes list" where
  "split_byte x [] = [[]]"
| "split_byte x (c # cs) =
     (if c = x then [] # split_byte x cs
      else case split_byte x cs of p # ps \<Rightarrow> (c # p) # ps | [] \<Rightarrow> [[c]])"

text \<open>One command; the flag says whether the loop is left.\<close>

definition run_command ::
  "nat \<Rightarrow> (nat \<Rightarrow> bool) \<Rightarrow> bytes \<Rightarrow> bytes list \<Rightarrow> 'd shell \<Rightarrow> (bool \<times> 'd shell) result option" where
  "run_command fuel kept cmd args sh =
     (let go = (\<lambda>r. obind r (\<lambda>sh. Some (Inr (False, sh))))
      in if cmd = ascii ''cd'' then go (sh_cd fuel args sh)
         else if cmd = ascii ''ls'' then go (sh_ls fuel args sh)
         else if cmd = ascii ''cp'' then go (sh_cp fuel kept args sh)
         else if cmd = ascii ''mv'' then go (sh_mv fuel kept args sh)
         else if cmd = ascii ''pwd'' then go (Some (Inr (say ''{}'' [Name (sh_cwd_path sh)] sh)))
         else if cmd = ascii ''mkdir'' then go (sh_mkdir fuel args sh)
         else if cmd = ascii ''rmdir'' then go (sh_rmdir fuel kept args sh)
         else if cmd = ascii ''touch'' then go (sh_touch fuel args sh)
         else if cmd = ascii ''rm'' then go (sh_rm fuel kept args sh)
         else if cmd = ascii ''cat'' then go (sh_cat fuel args sh)
         else if cmd = ascii ''quite'' \<or> cmd = ascii ''q'' \<or> cmd = ascii ''exit'' then Some (Inr (True, sh))
         else go (Some (Inr (say ''{}: command not found'' [Name cmd] sh))))"

fun run_commands ::
  "nat \<Rightarrow> (nat \<Rightarrow> bool) \<Rightarrow> bytes list \<Rightarrow> 'd shell \<Rightarrow> (bool \<times> 'd shell) result option" where
  "run_commands fuel kept [] sh = Some (Inr (False, sh))"
| "run_commands fuel kept (c # cs) sh = (case split_words [] c of
     [] \<Rightarrow> run_commands fuel kept cs sh
   | cmd # args \<Rightarrow> obind (run_command fuel kept cmd args sh) (\<lambda>(quit, sh).
       if quit then Some (Inr (True, sh)) else run_commands fuel kept cs sh))"

text \<open>At the end of the input \<open>read_line\<close> delivers an empty line, again and again. The first number
  bounds the rounds of the loop.\<close>

fun shell_run :: "nat \<Rightarrow> nat \<Rightarrow> (nat \<Rightarrow> bool) \<Rightarrow> bytes list \<Rightarrow> 'd shell \<Rightarrow> 'd shell result option" where
  "shell_run 0 fuel kept lns sh = None"
| "shell_run (Suc n) fuel kept lns sh =
     (let sh = say ''{}$ '' [Name (sh_cwd_path sh)] sh; line = (case lns of [] \<Rightarrow> [] | l # _ \<Rightarrow> l)
      in obind (run_commands fuel kept (split_byte 0x3B line) sh) (\<lambda>(quit, sh).
         if quit then Some (Inr sh) else shell_run n fuel kept (tl lns) sh))"

definition shell_new :: "inode_map \<times> 'd fs \<Rightarrow> 'd shell result" where
  "shell_new st = rmap (\<lambda>(cwd, im, fs).
     \<lparr>sh_cwd = cwd, sh_cwd_path = slash, sh_inodes = im, sh_fs = fs, sh_out = []\<rparr>) (unwrap_res (fs_root st))"

text \<open>An image is tried with each block size; the last one has to do.\<close>

definition open_image ::
  "('d \<Rightarrow> nat \<Rightarrow> nat \<Rightarrow> bytes result) \<Rightarrow> (nat \<Rightarrow> bytes \<Rightarrow> 'd \<Rightarrow> 'd result) \<Rightarrow> 'd \<Rightarrow> 'd fs result" where
  "open_image rd wr d = (case open_fs rd wr 1024 d of
     Inr fs \<Rightarrow> Inr fs
   | Inl Panic \<Rightarrow> Inl Panic
   | Inl (Fs _) \<Rightarrow> (case open_fs rd wr 2048 d of
       Inr fs \<Rightarrow> Inr fs
     | Inl Panic \<Rightarrow> Inl Panic
     | Inl (Fs _) \<Rightarrow> unwrap_res (open_fs rd wr 4096 d)))"

definition do_shell ::
  "nat \<Rightarrow> nat \<Rightarrow> (nat \<Rightarrow> bool) \<Rightarrow> ('d \<Rightarrow> nat \<Rightarrow> nat \<Rightarrow> bytes result) \<Rightarrow> (nat \<Rightarrow> bytes \<Rightarrow> 'd \<Rightarrow> 'd result) \<Rightarrow> bytes list \<Rightarrow> 'd \<Rightarrow>
   'd shell result option" where
  "do_shell n fuel kept rd wr lns d =
     obind (Some (rbind (open_image rd wr d) (\<lambda>fs. shell_new (Map.empty, fs)))) (shell_run n fuel kept lns)"

section \<open>Sizes\<close>

definition decimal :: "nat list \<Rightarrow> nat" where
  "decimal ds = foldl (\<lambda>a d. 10 * a + d) 0 ds"

definition numeral_bytes :: "nat list \<Rightarrow> bytes" where
  "numeral_bytes ds = map (\<lambda>d. 0x30 + of_nat d) ds"

lemma digit_byte:
  assumes "d < 10"
  shows "(0x30 :: byte) \<le> 0x30 + of_nat d" "0x30 + of_nat d \<le> (0x39 :: byte)" "unat ((0x30 + of_nat d :: byte) - 0x30) = d"
    "(0x30 + of_nat d :: byte) \<noteq> 0x2B" "unat (of_nat d :: byte) = d"
proof -
  from assms have "d = 0 \<or> d = 1 \<or> d = 2 \<or> d = 3 \<or> d = 4 \<or> d = 5 \<or> d = 6 \<or> d = 7 \<or> d = 8 \<or> d = 9" by presburger
  then show "(0x30 :: byte) \<le> 0x30 + of_nat d" "0x30 + of_nat d \<le> (0x39 :: byte)" "unat ((0x30 + of_nat d :: byte) - 0x30) = d"
    "(0x30 + of_nat d :: byte) \<noteq> 0x2B" "unat (of_nat d :: byte) = d" by (elim disjE; simp)+
qed

lemma digits_value_numeral:
  assumes "\<forall>d\<in>set ds. d < 10"
  shows "digits_value a (numeral_bytes ds) = Some (foldl (\<lambda>a d. 10 * a + d) a ds)"
  using assms by (induction ds arbitrary: a) (simp_all add: numeral_bytes_def digit_byte)

lemma digits_value_stops:
  assumes "\<not> (0x30 \<le> c \<and> c \<le> 0x39)"
  shows "digits_value a (bs @ [c]) = None"
  using assms by (induction bs arbitrary: a) auto

lemma parse_uint_numeral:
  assumes "\<forall>d\<in>set ds. d < 10" and "ds \<noteq> []"
  shows "parse_uint w (numeral_bytes ds) = (if decimal ds < 2 ^ w then Some (decimal ds) else None)"
proof -
  have "hd (numeral_bytes ds) \<noteq> 0x2B" "numeral_bytes ds \<noteq> []"
    using assms digit_byte(4) [of "hd ds"] by (cases ds; simp add: numeral_bytes_def)+
  then show ?thesis using digits_value_numeral [OF assms(1), of 0] by (simp add: parse_uint_def decimal_def)
qed

lemma parse_uint_suffix:
  assumes "\<not> (0x30 \<le> c \<and> c \<le> 0x39)"
  shows "parse_uint w (bs @ [c]) = None"
proof (cases "bs \<noteq> [] \<and> hd bs = 0x2B")
  case True
  then show ?thesis using digits_value_stops [OF assms, of 0 "tl bs"] by (cases bs) (auto simp: parse_uint_def)
next
  case False
  then show ?thesis using digits_value_stops [OF assms, of 0 bs] by (cases bs) (auto simp: parse_uint_def split: option.splits)
qed

lemma times_1024_twice:
  "rbind (times_1024 s) times_1024 = chk 64 (s * 1024 ^ 2)"
  by (auto simp: times_1024_def chk_def rbind_def)

lemma times_1024_thrice:
  "rbind (times_1024 s) (\<lambda>s. rbind (times_1024 s) times_1024) = chk 64 (s * 1024 ^ 3)"
  by (auto simp: times_1024_def chk_def rbind_def)

text \<open>A size written in decimal digits with one of the letters K, M and G is the number times that
  power of 1024; a number that does not fit 64 bits is refused, a product that does not fit panics.\<close>

theorem parse_file_size_scales:
  assumes "\<forall>d\<in>set ds. d < 10" and "ds \<noteq> []" and "(c, k) \<in> {(0x4B, 1), (0x4D, 2), (0x47, 3 :: nat)}"
  shows "parse_file_size (numeral_bytes ds @ [c]) =
    (if 2 ^ 64 \<le> decimal ds then Inr (Inl RequireInteger) else rmap Inr (chk 64 (decimal ds * 1024 ^ k)))"
proof -
  have "\<not> (0x30 \<le> c \<and> c \<le> 0x39)" using assms(3) by auto
  note n = parse_uint_suffix [OF this, of 64 "numeral_bytes ds"]
  note d = parse_uint_numeral [OF assms(1,2), of 64]
  have one: "times_1024 (decimal ds) = chk 64 (decimal ds * 1024 ^ 1)" by (simp add: times_1024_def)
  from assms(3) consider "c = 0x4B" "k = 1" | "c = 0x4D" "k = 2" | "c = 0x47" "k = 3" by blast
  then show ?thesis
  proof cases
    case 1
    show ?thesis using n d one unfolding 1 by (simp add: parse_file_size_def Let_def)
  next
    case 2
    show ?thesis using n d times_1024_twice [of "decimal ds"] unfolding 2 by (simp add: parse_file_size_def Let_def)
  next
    case 3
    show ?thesis using n d times_1024_thrice [of "decimal ds"] unfolding 3 by (simp add: parse_file_size_def Let_def)
  qed
qed

lemma parse_file_size_scales_witness:
  "parse_file_size [0x34, 0x4D] = Inr (Inr 4194304)"
  using parse_file_size_scales [of "[4]" "0x4D" 2] by (simp add: numeral_bytes_def decimal_def chk_def)

section \<open>Images\<close>

lemma write_zeroes_behind:
  "file_write_bytes (length f) (replicate n 0) f = Inr (f @ replicate n 0)"
  by (simp add: file_write_bytes_def splice_def)

lemma create_image_empty:
  assumes "block \<noteq> 0"
  shows "create_image block create [] = Inr (replicate (block * div_ceil create block) 0)"
proof -
  have "for_each (map ((*) block) [0..<k]) (\<lambda>b f. unwrap_res (file_write_bytes b (replicate block 0) f)) [] = Inr (replicate (block * k) 0)" for k
  proof (induction k)
    case (Suc k)
    have "file_write_bytes (block * k) (replicate block 0) (replicate (block * k) 0) = Inr (replicate (block * k) 0 @ replicate block 0)"
      using write_zeroes_behind [of "replicate (block * k) 0" block] by simp
    with Suc show ?case by (simp add: for_each_append add.commute flip: replicate_add)
  qed simp
  with assms show ?thesis by (simp add: create_image_def assertR_def)
qed

section \<open>Lines\<close>

lemma split_byte_not_Nil: "split_byte x bs \<noteq> []"
  by (cases bs) (auto split: list.split)

lemma split_byte_append: "split_byte x (a @ x # b) = split_byte x a @ split_byte x b"
proof (induction a)
  case (Cons c a)
  then show ?case using split_byte_not_Nil [of x a] by (auto split: list.split simp: append_eq_Cons_conv)
qed simp

lemma run_commands_append:
  "run_commands fuel kept (cs @ ds) sh = obind (run_commands fuel kept cs sh) (\<lambda>(quit, sh).
     if quit then Some (Inr (True, sh)) else run_commands fuel kept ds sh)"
proof (induction cs arbitrary: sh)
  case (Cons c cs)
  show ?case
  proof (cases "split_words [] c")
    case (Cons cmd args)
    then show ?thesis using Cons.IH
      by (cases "run_command fuel kept cmd args sh") (auto simp: obind_def split: sum.splits)
  qed (use Cons.IH in simp)
qed (simp add: obind_def)

text \<open>Commands joined by a semicolon run one after the other, the second line not after a quit.\<close>

theorem semicolon_runs_in_order:
  "run_commands fuel kept (split_byte 0x3B (a @ 0x3B # b)) sh =
    obind (run_commands fuel kept (split_byte 0x3B a) sh) (\<lambda>(quit, sh).
      if quit then Some (Inr (True, sh)) else run_commands fuel kept (split_byte 0x3B b) sh)"
  by (simp add: split_byte_append run_commands_append)

text \<open>At the end of its input the shell never returns: however many rounds the loop makes, it prints its
  prompt and reads another empty line.\<close>

theorem shell_spins_at_end_of_input: "shell_run n fuel kept [] sh = None"
  by (induction n arbitrary: sh) (simp_all add: obind_def)

definition plain_word :: "bytes \<Rightarrow> bool" where
  "plain_word w \<longleftrightarrow> w \<noteq> [] \<and> (\<forall>c\<in>set w. 0x20 < c \<and> c < 0x80)"

lemma no_ws:
  assumes "0x20 < c" and "c < (0x80 :: byte)"
  shows "ws_len (c # cs) = 0"
proof -
  have "\<not> (c \<le> 0x0D)" "c \<noteq> 0x20" "c \<noteq> 0xC2" "c \<noteq> 0xE1" "c \<noteq> 0xE2" "c \<noteq> 0xE3" using assms by (auto simp: word_less_nat_alt word_le_nat_alt)
  then show ?thesis by (simp add: ws_len_def take_Cons')
qed

lemma split_words_collect:
  assumes "\<forall>c\<in>set v. 0x20 < c \<and> c < (0x80 :: byte)"
  shows "split_words w (v @ bs) = split_words (w @ v) bs"
  using assms
proof (induction v arbitrary: w)
  case (Cons c v)
  then show ?case using no_ws [of c "v @ bs"] by simp
qed simp

text \<open>Words joined by blanks are split into these words.\<close>

theorem split_words_joined:
  assumes "list_all plain_word ws"
  shows "split_words [] (concat (map (\<lambda>w. w @ [0x20]) ws)) = ws"
  using assms
proof (induction ws)
  case (Cons w ws)
  then have w: "w \<noteq> []" "\<forall>c\<in>set w. 0x20 < c \<and> c < 0x80" by (simp_all add: plain_word_def)
  have "ws_len (0x20 # cs) = 1" for cs by (simp add: ws_len_def)
  then have "split_words w (0x20 # cs) = w # split_words [] cs" for cs using w(1) by simp
  moreover have "split_words [] (w @ 0x20 # cs) = split_words w (0x20 # cs)" for cs
    using split_words_collect [OF w(2), of "[]" "0x20 # cs"] by simp
  ultimately show ?case using Cons by simp
qed simp

end
