(* ===== verification/Alloc_Commit.thy ===== *)
theory Alloc_Commit
  imports Transaction
begin

text \<open>
  The allocator in memory against the bitmaps on disk: a log of allocations and deallocations
  (\<open>src/block/allocator.rs\<close>, \<open>src/block_group/mod.rs\<close>) replayed on the bitmaps when the transaction is
  compressed (\<open>src/transaction/event.rs\<close>), and the postludes that give freed runs back to the allocator.
\<close>

section \<open>The blocks in use, as the bitmaps say\<close>

definition bitmap_lba :: "'d fs \<Rightarrow> nat \<Rightarrow> nat" where
  "bitmap_lba fs g = block_bitmap_lba (the_group fs g)"

definition used_blocks :: "'d fs \<Rightarrow> nat set" where
  "used_blocks fs = {lba_from_bgid_index (fs_sb fs) g i | g i b. g < bg_count (fs_sb fs) \<and> i < blocks_per_group (fs_sb fs) \<and>
     blocks fs (bitmap_lba fs g) = Some b \<and> bit_at b i}"

definition bitmaps_ok :: "'d fs \<Rightarrow> bool" where
  "bitmaps_ok fs \<longleftrightarrow> groups_loaded fs \<and> inj_on (bitmap_lba fs) {..<bg_count (fs_sb fs)} \<and>
     (\<forall>g < bg_count (fs_sb fs). \<exists>b. blocks fs (bitmap_lba fs g) = Some b \<and> 8 * length b = blocks_per_group (fs_sb fs))"

lemma bitmaps_okE:
  assumes "bitmaps_ok fs" and "g < bg_count (fs_sb fs)"
  obtains b where "blocks fs (bitmap_lba fs g) = Some b" "8 * length b = blocks_per_group (fs_sb fs)"
proof -
  from assms(1) have "\<forall>g < bg_count (fs_sb fs). \<exists>b. blocks fs (bitmap_lba fs g) = Some b \<and> 8 * length b = blocks_per_group (fs_sb fs)"
    by (simp add: bitmaps_ok_def)
  with assms(2) that show thesis by blast
qed

lemma lba_from_inj:
  assumes "lba_from_bgid_index sb g i = lba_from_bgid_index sb h j" and "i < blocks_per_group sb" and "j < blocks_per_group sb"
  shows "g = h \<and> i = j"
proof -
  have eq: "g * blocks_per_group sb + i = h * blocks_per_group sb + j"
    using assms(1) by (simp add: lba_from_bgid_index_def mult.commute split: if_splits)
  have "(g * blocks_per_group sb + i) div blocks_per_group sb = g" "(h * blocks_per_group sb + j) div blocks_per_group sb = h"
    using assms(2,3) by simp_all
  with eq have "g = h" by metis
  with eq show ?thesis by simp
qed

lemma in_used_blocks:
  assumes "g < bg_count (fs_sb fs)" and "i < blocks_per_group (fs_sb fs)" and "blocks fs (bitmap_lba fs g) = Some b"
  shows "lba_from_bgid_index (fs_sb fs) g i \<in> used_blocks fs \<longleftrightarrow> bit_at b i"
  using assms by (auto simp: used_blocks_def dest!: lba_from_inj)

lemma fs_modify_cached:
  assumes "blocks fs lba = Some b"
  shows "fs_modify_block lba f (fs, col) = rmap (\<lambda>b'. (fs\<lparr>blocks := (blocks fs)(lba \<mapsto> b')\<rparr>, track lba col)) (f b)"
  using assms by (cases "f b") (simp_all add: fs_modify_block_def blk_modify_def cache_get_or_insert_def fun_upd_idem)

section \<open>Replaying a log\<close>

text \<open>What an event does to the set of blocks in use; \<open>None\<close> where the run leaves its group, or is not
  free when it is allocated, or not in use when it is freed.\<close>

definition run_of :: "event \<Rightarrow> (bool \<times> nat \<times> nat \<times> nat \<times> nat) option" where
  "run_of e = (case e of
     BlockAllocationOnBg ino g bm ofs c \<Rightarrow> Some (True, g, bm, ofs, c)
   | BlockDeallocationOnBg ino g bm ofs c \<Rightarrow> Some (False, g, bm, ofs, c)
   | _ \<Rightarrow> None)"

definition replay_step :: "superblock \<Rightarrow> event \<Rightarrow> nat set \<Rightarrow> nat set option" where
  "replay_step sb e U = (case run_of e of
     Some (v, g, bm, ofs, c) \<Rightarrow>
       let S = set (ev_blocks sb e)
       in if ofs + c \<le> blocks_per_group sb \<and> (if v then S \<inter> U = {} else S \<subseteq> U)
          then Some (if v then U \<union> S else U - S) else None
   | None \<Rightarrow> Some U)"

fun replay :: "superblock \<Rightarrow> event list \<Rightarrow> nat set \<Rightarrow> nat set option" where
  "replay sb [] U = Some U"
| "replay sb (e # es) U = Option.bind (replay_step sb e U) (replay sb es)"

definition event_on :: "'d fs \<Rightarrow> event \<Rightarrow> bool" where
  "event_on fs e \<longleftrightarrow> (\<exists>v g ofs c. run_of e = Some (v, g, bitmap_lba fs g, ofs, c) \<and> g < bg_count (fs_sb fs) \<and> 0 < c)"

lemma compress_bitmap_run:
  assumes "run_of e = Some (v, g, bm, ofs, c)"
  obtains f where "flips v {ofs..<ofs + c} f" "\<And>st. compress_bitmap e st = unwrap_res (fs_modify_block bm f st)"
proof (rule that [of "if v then wb_set_bitmap ofs c else wb_unset_bitmap ofs c"])
  show "flips v {ofs..<ofs + c} (if v then wb_set_bitmap ofs c else wb_unset_bitmap ofs c)"
    by (simp add: wb_set_bitmap_flips wb_unset_bitmap_flips)
  show "compress_bitmap e st = unwrap_res (fs_modify_block bm (if v then wb_set_bitmap ofs c else wb_unset_bitmap ofs c) st)" for st
    using assms by (cases e) (auto simp: run_of_def compress_bitmap_def)
qed

lemma ev_blocks_run:
  assumes "run_of e = Some (v, g, bm, ofs, c)"
  shows "set (ev_blocks sb e) = lba_from_bgid_index sb g ` {ofs..<ofs + c}"
  using assms by (cases e) (auto simp: run_of_def ev_blocks_def simp del: upt_Suc)

text \<open>What a bitmap block holds after it was changed.\<close>

lemma used_after_flip:
  assumes ok: "bitmaps_ok fs" and g: "g < bg_count (fs_sb fs)" and b: "blocks fs (bitmap_lba fs g) = Some b"
    and fl: "flipped v {ofs..<ofs + c} b b'" and fits: "ofs + c \<le> blocks_per_group (fs_sb fs)"
    and fs': "fs' = fs\<lparr>blocks := (blocks fs)(bitmap_lba fs g \<mapsto> b')\<rparr>"
  shows "bitmaps_ok fs' \<and> used_blocks fs' =
    (let S = lba_from_bgid_index (fs_sb fs) g ` {ofs..<ofs + c} in if v then used_blocks fs \<union> S else used_blocks fs - S)"
proof -
  let ?k = "blocks_per_group (fs_sb fs)" and ?L = "lba_from_bgid_index (fs_sb fs)"
  have sb: "fs_sb fs' = fs_sb fs" "bitmap_lba fs' = bitmap_lba fs" "groups_loaded fs' = groups_loaded fs"
    by (simp_all add: fs' bitmap_lba_def the_group_def groups_loaded_def fun_eq_iff)
  have view: "blocks fs' = (blocks fs)(bitmap_lba fs g \<mapsto> b')" by (simp add: fs')
  have same: "bitmap_lba fs h = bitmap_lba fs g \<longleftrightarrow> h = g" if "h < bg_count (fs_sb fs)" for h
    using ok g that by (auto simp: bitmaps_ok_def dest: inj_onD)
  have len: "8 * length b = ?k" "length b' = length b" using ok g b fl by (auto simp: bitmaps_ok_def flipped_def)
  have ok': "bitmaps_ok fs'" using ok len same by (auto simp: bitmaps_ok_def sb view)
  have "?L h i \<in> used_blocks fs' \<longleftrightarrow>
      (if h = g \<and> i \<in> {ofs..<ofs + c} then v else ?L h i \<in> used_blocks fs)" if hi: "h < bg_count (fs_sb fs)" "i < ?k" for h i
  proof -
    obtain bh where bh: "blocks fs (bitmap_lba fs h) = Some bh" by (rule bitmaps_okE [OF ok hi(1)])
    have "blocks fs' (bitmap_lba fs' h) = Some (if h = g then b' else bh)" using bh same [OF hi(1)] by (simp add: sb view)
    then have "?L h i \<in> used_blocks fs' \<longleftrightarrow> bit_at (if h = g then b' else bh) i"
      using in_used_blocks [of h fs' i] hi by (simp add: sb)
    also have "\<dots> \<longleftrightarrow> (if h = g \<and> i \<in> {ofs..<ofs + c} then v else bit_at bh i)"
      using fl len(1) hi(2) b bh by (auto simp: flipped_def)
    finally show ?thesis using in_used_blocks [OF hi bh] by simp
  qed
  note mem = this
  have "x \<in> used_blocks fs' \<longleftrightarrow> (if x \<in> ?L g ` {ofs..<ofs + c} then v else x \<in> used_blocks fs)" for x
  proof (cases "\<exists>h i. h < bg_count (fs_sb fs) \<and> i < ?k \<and> x = ?L h i")
    case True
    then obtain h i where x: "h < bg_count (fs_sb fs)" "i < ?k" "x = ?L h i" by blast
    have "x \<in> ?L g ` {ofs..<ofs + c} \<longleftrightarrow> h = g \<and> i \<in> {ofs..<ofs + c}"
      using x(2,3) fits by (auto dest!: lba_from_inj)
    with mem [OF x(1,2)] x(3) show ?thesis by simp
  next
    case False
    then have "x \<notin> used_blocks fs" "x \<notin> used_blocks fs'" by (auto simp: used_blocks_def sb)
    moreover have "x \<notin> ?L g ` {ofs..<ofs + c}"
    proof
      assume "x \<in> ?L g ` {ofs..<ofs + c}"
      then obtain i where "x = ?L g i" "i < ?k" using fits by auto
      with False g show False by blast
    qed
    ultimately show ?thesis by simp
  qed
  then have "used_blocks fs' = {x. if x \<in> ?L g ` {ofs..<ofs + c} then v else x \<in> used_blocks fs}" by blast
  with ok' show ?thesis unfolding Let_def by (cases v) (simp_all add: set_eq_iff)
qed

lemma compress_bitmap_replays:
  assumes ok: "bitmaps_ok fs" and e: "event_on fs e"
  shows "case replay_step (fs_sb fs) e (used_blocks fs) of
     None \<Rightarrow> compress_bitmap e (fs, col) = Inl Panic
   | Some B \<Rightarrow> \<exists>bc col'. compress_bitmap e (fs, col) = Inr (fs\<lparr>blocks := bc\<rparr>, col') \<and>
       bitmaps_ok (fs\<lparr>blocks := bc\<rparr>) \<and> used_blocks (fs\<lparr>blocks := bc\<rparr>) = B"
proof -
  let ?k = "blocks_per_group (fs_sb fs)" and ?L = "lba_from_bgid_index (fs_sb fs)"
  from e obtain v g ofs c where r: "run_of e = Some (v, g, bitmap_lba fs g, ofs, c)" "g < bg_count (fs_sb fs)" "0 < c"
    by (auto simp: event_on_def)
  obtain f where f: "flips v {ofs..<ofs + c} f"
    "compress_bitmap e (fs, col) = unwrap_res (fs_modify_block (bitmap_lba fs g) f (fs, col))" using compress_bitmap_run [OF r(1)] by metis
  obtain b where b: "blocks fs (bitmap_lba fs g) = Some b" "8 * length b = ?k" by (rule bitmaps_okE [OF ok r(2)])
  note m = fs_modify_cached [OF b(1), of f col]
  note S = ev_blocks_run [OF r(1), of "fs_sb fs"]
  have fits: "ofs + c \<le> ?k" if "flippable v {ofs..<ofs + c} b"
  proof -
    have "ofs + c - 1 \<in> {ofs..<ofs + c}" using r(3) by simp
    with that have "ofs + c - 1 < 8 * length b" unfolding flippable_def by blast
    with b(2) show ?thesis by simp
  qed
  have use: "i < ?k \<Longrightarrow> ?L g i \<in> used_blocks fs \<longleftrightarrow> bit_at b i" for i by (rule in_used_blocks [OF r(2) _ b(1)])
  have fits_iff: "flippable v {ofs..<ofs + c} b \<longleftrightarrow>
      ofs + c \<le> ?k \<and> (if v then set (ev_blocks (fs_sb fs) e) \<inter> used_blocks fs = {} else set (ev_blocks (fs_sb fs) e) \<subseteq> used_blocks fs)"
  proof (cases "ofs + c \<le> ?k")
    case True
    then have i: "\<forall>i\<in>{ofs..<ofs + c}. i < 8 * length b \<and> (?L g i \<in> used_blocks fs \<longleftrightarrow> bit_at b i)" using use b(2) by simp
    have fl: "flippable v {ofs..<ofs + c} b \<longleftrightarrow> (\<forall>j\<in>{ofs..<ofs + c}. bit_at b j = (\<not> v))"
      unfolding flippable_def using i by blast
    show ?thesis
    proof (cases v)
      case v: True
      have "?L g ` {ofs..<ofs + c} \<inter> used_blocks fs = {} \<longleftrightarrow> (\<forall>i\<in>{ofs..<ofs + c}. ?L g i \<notin> used_blocks fs)" by blast
      with i True v show ?thesis unfolding S fl by auto
    next
      case v: False
      with i True show ?thesis unfolding S fl image_subset_iff by auto
    qed
  next
    case False then show ?thesis using fits by blast
  qed
  show ?thesis
  proof (cases "flippable v {ofs..<ofs + c} b")
    case True
    then obtain b' where b': "f b = Inr b'" "flipped v {ofs..<ofs + c} b b'" using f(1) unfolding flips_def by metis
    define S where "S = set (ev_blocks (fs_sb fs) e)"
    let ?fs = "fs\<lparr>blocks := (blocks fs)(bitmap_lba fs g \<mapsto> b')\<rparr>"
    have rs: "replay_step (fs_sb fs) e (used_blocks fs) = Some (if v then used_blocks fs \<union> S else used_blocks fs - S)"
      using True fits_iff by (simp add: replay_step_def r(1) Let_def S_def split: if_splits)
    have cb: "compress_bitmap e (fs, col) = Inr (?fs, track (bitmap_lba fs g) col)" using m b'(1) by (simp add: f(2))
    have "bitmaps_ok ?fs \<and> used_blocks ?fs = (if v then used_blocks fs \<union> S else used_blocks fs - S)"
      using used_after_flip [OF ok r(2) b(1) b'(2) fits [OF True] refl] by (simp add: Let_def S_def S)
    with cb show ?thesis unfolding rs option.case by blast
  next
    case False
    then have "f b = Inl Panic" using f(1) unfolding flips_def by metis
    then have "compress_bitmap e (fs, col) = Inl Panic" using m by (simp add: f(2))
    moreover have "replay_step (fs_sb fs) e (used_blocks fs) = None"
      using False fits_iff by (simp add: replay_step_def r(1) Let_def)
    ultimately show ?thesis by simp
  qed
qed

lemma event_on_blocks [simp]:
  "event_on (fs\<lparr>blocks := bc\<rparr>) e \<longleftrightarrow> event_on fs e"
  by (simp add: event_on_def bitmap_lba_def the_group_def)

lemma compress_counts_run:
  assumes "run_of e = Some r"
  obtains w' where "compress_counts sb e w = Inr w'"
  using assms by (cases e) (auto simp: run_of_def compress_counts_def)

text \<open>C2: Compressing a log of allocations and deallocations replays it on the bitmaps: it panics exactly when
  a run leaves its group, is allocated while in use or freed while free, and otherwise the bitmaps say the
  outcome of the log.\<close>

theorem compress_replays_log:
  assumes "bitmaps_ok fs" and "list_all (event_on fs) evs"
  shows "case replay (fs_sb fs) evs (used_blocks fs) of
     None \<Rightarrow> compress evs (w, fs, col, posts) = Inl Panic
   | Some B \<Rightarrow> \<exists>w' bc col'. compress evs (w, fs, col, posts) =
         Inr (w', fs\<lparr>blocks := bc\<rparr>, col', posts @ concat (map postlude_of evs)) \<and>
       bitmaps_ok (fs\<lparr>blocks := bc\<rparr>) \<and> used_blocks (fs\<lparr>blocks := bc\<rparr>) = B"
  using assms
proof (induction evs arbitrary: w fs col posts)
  case Nil
  then show ?case by (auto intro!: exI [of _ "blocks fs"])
next
  case (Cons e evs)
  from Cons.prems have e: "event_on fs e" "list_all (event_on fs) evs" by simp_all
  then obtain r where r: "run_of e = Some r" by (auto simp: event_on_def)
  obtain w1 where w1: "compress_counts (fs_sb fs) e w = Inr w1" using compress_counts_run [OF r] .
  note step = compress_bitmap_replays [OF Cons.prems(1) e(1), of col]
  show ?case
  proof (cases "replay_step (fs_sb fs) e (used_blocks fs)")
    case None
    with step w1 show ?thesis by simp
  next
    case (Some B)
    with step obtain bc col1 where b: "compress_bitmap e (fs, col) = Inr (fs\<lparr>blocks := bc\<rparr>, col1)"
      "bitmaps_ok (fs\<lparr>blocks := bc\<rparr>)" "used_blocks (fs\<lparr>blocks := bc\<rparr>) = B" by auto
    have "list_all (event_on (fs\<lparr>blocks := bc\<rparr>)) evs" using e(2) by (simp add: list_all_iff)
    note IH = Cons.IH [OF b(2) this, of w1 col1 "posts @ postlude_of e"]
    have c: "compress (e # evs) (w, fs, col, posts) = compress evs (w1, fs\<lparr>blocks := bc\<rparr>, col1, posts @ postlude_of e)"
      using w1 b(1) by simp
    show ?thesis
    proof (cases "replay (fs_sb fs) evs B")
      case None
      with IH Some b(3) c show ?thesis by simp
    next
      case (Some B')
      with IH b(3) \<open>replay_step _ _ _ = Some B\<close> show ?thesis unfolding c by simp
    qed
  qed
qed

section \<open>Sessions\<close>

text \<open>The blocks a log gives back.\<close>

definition freed_list :: "superblock \<Rightarrow> event list \<Rightarrow> nat list" where
  "freed_list sb es = concat (map (\<lambda>e. if postlude_of e = [] then [] else ev_blocks sb e) es)"

text \<open>What holds between the free blocks and a log that can be replayed.\<close>

definition log_inv :: "superblock \<Rightarrow> nat set \<Rightarrow> nat set \<Rightarrow> event list \<Rightarrow> bool" where
  "log_inv sb U fr es \<longleftrightarrow> (\<forall>B. replay sb es U = Some B \<longrightarrow>
     fr \<inter> B = {} \<and> set (freed_list sb es) \<inter> (B \<union> fr) = {} \<and> distinct (freed_list sb es))"

lemma replay_append: "replay sb (es @ es') U = Option.bind (replay sb es U) (replay sb es')"
proof (induction es arbitrary: U)
  case (Cons e es)
  then show ?case by (cases "replay_step sb e U") simp_all
qed simp

lemma freed_list_append: "freed_list sb (es @ es') = freed_list sb es @ freed_list sb es'"
  by (simp add: freed_list_def)

lemma log_inv_alloc:
  assumes "log_inv sb U fr es" and "run_of e = Some (True, g, bm, ofs, c)"
    and "set (ev_blocks sb e) \<subseteq> fr" and "fr' \<subseteq> fr - set (ev_blocks sb e)"
  shows "log_inv sb U fr' (es @ [e])"
  unfolding log_inv_def
proof (intro allI impI)
  fix B' assume "replay sb (es @ [e]) U = Some B'"
  then obtain B where B: "replay sb es U = Some B" "replay_step sb e B = Some B'"
    by (auto simp: replay_append bind_eq_Some_conv)
  from B(2) have B': "B' = B \<union> set (ev_blocks sb e)" by (simp add: replay_step_def assms(2) Let_def split: if_splits)
  have "freed_list sb [e] = []" using assms(2) by (cases e) (simp_all add: freed_list_def postlude_of_def run_of_def)
  then have f: "freed_list sb (es @ [e]) = freed_list sb es" by (simp add: freed_list_append)
  from assms(1) B(1) have "fr \<inter> B = {}" "set (freed_list sb es) \<inter> (B \<union> fr) = {}" "distinct (freed_list sb es)"
    by (simp_all add: log_inv_def)
  with assms(3,4) show "fr' \<inter> B' = {} \<and> set (freed_list sb (es @ [e])) \<inter> (B' \<union> fr') = {} \<and> distinct (freed_list sb (es @ [e]))"
    unfolding f B' by blast
qed

lemma log_inv_free:
  assumes "log_inv sb U fr es" and "run_of e = Some (False, g, bm, ofs, c)"
  shows "log_inv sb U fr (es @ [e])"
  unfolding log_inv_def
proof (intro allI impI)
  fix B' assume "replay sb (es @ [e]) U = Some B'"
  then obtain B where B: "replay sb es U = Some B" "replay_step sb e B = Some B'"
    by (auto simp: replay_append bind_eq_Some_conv)
  from B(2) have B': "B' = B - set (ev_blocks sb e)" "set (ev_blocks sb e) \<subseteq> B"
    by (simp_all add: replay_step_def assms(2) Let_def split: if_splits)
  have "freed_list sb [e] = ev_blocks sb e" "distinct (ev_blocks sb e)" using assms(2)
    by (cases e; simp add: freed_list_def postlude_of_def run_of_def ev_blocks_def map_lba_from_upt del: upt_Suc)+
  then have f: "freed_list sb (es @ [e]) = freed_list sb es @ ev_blocks sb e" "distinct (ev_blocks sb e)"
    by (simp_all add: freed_list_append)
  from assms(1) B(1) have "fr \<inter> B = {}" "set (freed_list sb es) \<inter> (B \<union> fr) = {}" "distinct (freed_list sb es)"
    by (simp_all add: log_inv_def)
  with f(2) B'(2) show "fr \<inter> B' = {} \<and> set (freed_list sb (es @ [e])) \<inter> (B' \<union> fr) = {} \<and> distinct (freed_list sb (es @ [e]))"
    unfolding f(1) B'(1) distinct_append set_append by blast
qed

lemma log_inv_frees:
  assumes "log_inv sb U fr es" and "\<forall>e\<in>set evs. \<exists>g bm ofs c. run_of e = Some (False, g, bm, ofs, c)"
  shows "log_inv sb U fr (es @ evs)"
  using assms
proof (induction evs arbitrary: es)
  case (Cons e evs)
  from Cons.prems(2) obtain g bm ofs c where "run_of e = Some (False, g, bm, ofs, c)" by auto
  from log_inv_free [OF Cons.prems(1) this] have "log_inv sb U fr (es @ [e])" .
  from Cons.IH [OF this] Cons.prems(2) show ?case by simp
qed simp

section \<open>What the rest of a transaction leaves alone\<close>

text \<open>The superblock without the parts that change while it is mounted.\<close>

definition geometry :: "superblock \<Rightarrow> superblock" where
  "geometry sb = sb\<lparr>manipulator := [], free_inodes_count := 0, orphaned_inode := Map.empty\<rparr>"

lemma geometry_simps:
  "bg_count (geometry sb) = bg_count sb" "blocks_per_group (geometry sb) = blocks_per_group sb"
  "inodes_per_group (geometry sb) = inodes_per_group sb" "inode_size (geometry sb) = inode_size sb"
  "lba_from_bgid_index (geometry sb) = lba_from_bgid_index sb" "blocks_base (geometry sb) = blocks_base sb"
  "blocks_end (geometry sb) = blocks_end sb" "ev_blocks (geometry sb) = ev_blocks sb"
  by (simp_all add: geometry_def lba_from_bgid_index_def blocks_base_def blocks_end_def ev_blocks_def fun_eq_iff split: event.split)

lemma descriptor_geometry: "bgid_into_lba_index n (geometry sb) g = bgid_into_lba_index n sb g"
  by (auto simp: geometry_def bgid_into_lba_index_def get_descriptor_block_def first_bg_block_no_def
      is_super_in_bg_def sb_sparse_def Let_def)

lemma same_geometry:
  assumes "geometry sb' = geometry sb"
  shows "bg_count sb' = bg_count sb" "blocks_per_group sb' = blocks_per_group sb"
    "inodes_per_group sb' = inodes_per_group sb" "inode_size sb' = inode_size sb"
    "lba_from_bgid_index sb' = lba_from_bgid_index sb" "blocks_base sb' = blocks_base sb"
    "blocks_end sb' = blocks_end sb" "ev_blocks sb' = ev_blocks sb" "bgid_into_lba_index n sb' g = bgid_into_lba_index n sb g"
  using assms geometry_simps descriptor_geometry by metis+

definition table_lba :: "'d fs \<Rightarrow> nat \<Rightarrow> nat" where
  "table_lba fs g = inode_table_first_block (the_group fs g)"

text \<open>Everything but the blocks, the allocator, the inode bitmaps and the counters is the same.\<close>

definition same_layout :: "'d fs \<Rightarrow> 'd fs \<Rightarrow> bool" where
  "same_layout fs0 fs \<longleftrightarrow> geometry (fs_sb fs) = geometry (fs_sb fs0) \<and> blk_size fs = blk_size fs0 \<and>
     bitmap_lba fs = bitmap_lba fs0 \<and> table_lba fs = table_lba fs0 \<and> (groups_loaded fs0 \<longrightarrow> groups_loaded fs)"

definition same_bitmaps :: "'d fs \<Rightarrow> 'd fs \<Rightarrow> bool" where
  "same_bitmaps fs0 fs \<longleftrightarrow> same_layout fs0 fs \<and> (\<forall>g < bg_count (fs_sb fs0). blocks fs (bitmap_lba fs0 g) = blocks fs0 (bitmap_lba fs0 g))"

definition keeps_alloc :: "'d fs \<Rightarrow> 'd fs \<Rightarrow> bool" where
  "keeps_alloc fs0 fs \<longleftrightarrow> same_bitmaps fs0 fs \<and> allocator fs = allocator fs0"

lemma same_layout_refl [simp]: "same_layout fs fs" by (simp add: same_layout_def)

lemma same_layout_trans [trans]: "same_layout fs0 fs1 \<Longrightarrow> same_layout fs1 fs2 \<Longrightarrow> same_layout fs0 fs2"
  by (simp add: same_layout_def)

lemma same_bitmaps_refl [simp]: "same_bitmaps fs fs" by (simp add: same_bitmaps_def)

lemma same_bitmaps_trans [trans]:
  assumes "same_bitmaps fs0 fs1" and "same_bitmaps fs1 fs2"
  shows "same_bitmaps fs0 fs2"
proof -
  from assms(1) have "bg_count (fs_sb fs1) = bg_count (fs_sb fs0)" "bitmap_lba fs1 = bitmap_lba fs0"
    by (auto simp: same_bitmaps_def same_layout_def dest: same_geometry(1))
  with assms show ?thesis by (auto simp: same_bitmaps_def intro: same_layout_trans)
qed

lemma keeps_alloc_refl [simp]: "keeps_alloc fs fs" by (simp add: keeps_alloc_def)

lemma keeps_alloc_trans [trans]: "keeps_alloc fs0 fs1 \<Longrightarrow> keeps_alloc fs1 fs2 \<Longrightarrow> keeps_alloc fs0 fs2"
  by (auto simp: keeps_alloc_def intro: same_bitmaps_trans)

lemma same_bitmaps_used:
  assumes "same_bitmaps fs0 fs"
  shows "used_blocks fs = used_blocks fs0" "bitmaps_ok fs0 \<Longrightarrow> bitmaps_ok fs" "event_on fs e = event_on fs0 e"
proof -
  from assms have sl: "geometry (fs_sb fs) = geometry (fs_sb fs0)" "bitmap_lba fs = bitmap_lba fs0"
    "groups_loaded fs0 \<longrightarrow> groups_loaded fs"
    "\<forall>g < bg_count (fs_sb fs0). blocks fs (bitmap_lba fs0 g) = blocks fs0 (bitmap_lba fs0 g)"
    by (simp_all add: same_bitmaps_def same_layout_def)
  note g = same_geometry [OF sl(1)]
  show "used_blocks fs = used_blocks fs0" using sl(4) unfolding used_blocks_def g sl(2)
    by (intro Collect_cong iff_exI conj_cong refl) simp
  show "event_on fs e = event_on fs0 e" unfolding event_on_def g sl(2) ..
  show "bitmaps_ok fs" if "bitmaps_ok fs0" using that sl(3,4) unfolding bitmaps_ok_def g sl(2) by simp
qed

lemma layout_group:
  assumes "groups_loaded fs" and "g < bg_count (fs_sb fs)" and "bg_id bg = g" and "bg_blocks_count bg = blocks_per_group (fs_sb fs)"
    and "block_bitmap_lba bg = bitmap_lba fs g" and "inode_table_first_block bg = table_lba fs g"
  shows "same_bitmaps fs (set_block_group g bg fs)"
proof -
  have "g < length (block_groups fs)" using assms(1,2) by (simp add: groups_loaded_def)
  then have "bitmap_lba (set_block_group g bg fs) = bitmap_lba fs" "table_lba (set_block_group g bg fs) = table_lba fs"
    using assms(5,6)
    by (auto simp: bitmap_lba_def table_lba_def the_group_def set_block_group_def fun_eq_iff nth_list_update)
  moreover have "groups_loaded (set_block_group g bg fs)"
    using set_group_loaded [OF assms(1-4), of "allocator fs"] by simp
  ultimately show ?thesis by (simp add: same_bitmaps_def same_layout_def set_block_group_def)
qed

lemma layout_updates [simp]:
  "same_layout fs (fs\<lparr>blocks := bc\<rparr>)" "same_bitmaps fs (fs\<lparr>allocator := b\<rparr>)" "same_bitmaps fs (fs\<lparr>disk := d\<rparr>)"
  "same_bitmaps fs (fs\<lparr>ino_bitmaps := bms\<rparr>)" "geometry sb = geometry (fs_sb fs) \<Longrightarrow> same_bitmaps fs (fs\<lparr>fs_sb := sb\<rparr>)"
proof -
  have l: "groups_loaded fs \<longrightarrow> groups_loaded (fs\<lparr>fs_sb := sb\<rparr>)" if "geometry sb = geometry (fs_sb fs)"
    unfolding groups_loaded_def using same_geometry [OF that] by simp
  show "same_layout fs (fs\<lparr>blocks := bc\<rparr>)" "same_bitmaps fs (fs\<lparr>allocator := b\<rparr>)" "same_bitmaps fs (fs\<lparr>disk := d\<rparr>)"
    "same_bitmaps fs (fs\<lparr>ino_bitmaps := bms\<rparr>)" "geometry sb = geometry (fs_sb fs) \<Longrightarrow> same_bitmaps fs (fs\<lparr>fs_sb := sb\<rparr>)"
    using l by (simp_all add: same_bitmaps_def same_layout_def bitmap_lba_def table_lba_def the_group_def groups_loaded_def fun_eq_iff)
qed

text \<open>The blocks of the descriptors and the inode tables are not those of the block bitmaps.\<close>

definition off_bitmaps :: "'d fs \<Rightarrow> nat \<Rightarrow> bool" where
  "off_bitmaps fs lba \<longleftrightarrow> (\<forall>g < bg_count (fs_sb fs). bitmap_lba fs g \<noteq> lba)"

definition bitmaps_apart :: "'d fs \<Rightarrow> bool" where
  "bitmaps_apart fs \<longleftrightarrow> (\<forall>h < bg_count (fs_sb fs). off_bitmaps fs (fst (bgid_into_lba_index (blk_size fs) (fs_sb fs) h)) \<and>
     (\<forall>idx < inodes_per_group (fs_sb fs). off_bitmaps fs (table_lba fs h + idx * inode_size (fs_sb fs) div blk_size fs)))"

lemma same_layout_off:
  assumes "same_layout fs0 fs"
  shows "off_bitmaps fs = off_bitmaps fs0" "bitmaps_apart fs \<longleftrightarrow> bitmaps_apart fs0"
proof -
  from assms have sl: "geometry (fs_sb fs) = geometry (fs_sb fs0)" "blk_size fs = blk_size fs0" "bitmap_lba fs = bitmap_lba fs0"
    "table_lba fs = table_lba fs0" by (simp_all add: same_layout_def)
  note g = same_geometry [OF sl(1)]
  show o: "off_bitmaps fs = off_bitmaps fs0" unfolding off_bitmaps_def g sl(3) ..
  show "bitmaps_apart fs \<longleftrightarrow> bitmaps_apart fs0" unfolding bitmaps_apart_def o g sl(2,4) ..
qed

text \<open>A file system a transaction can be flushed to.\<close>

definition flushable :: "'d fs \<Rightarrow> bool" where
  "flushable fs \<longleftrightarrow> groups_loaded fs \<and> bitmaps_apart fs"

lemma keeps_flushable: "keeps_alloc fs0 fs \<Longrightarrow> flushable fs0 \<Longrightarrow> flushable fs"
  by (auto simp: keeps_alloc_def same_bitmaps_def flushable_def same_layout_off(2) same_layout_def)

lemma fs_modify_blocks:
  assumes "fs_modify_block lba f (fs, col) = Inr (fs', col')"
  shows "fs' = fs\<lparr>blocks := blocks fs'\<rparr>" "x \<noteq> lba \<Longrightarrow> blocks fs' x = blocks fs x"
  using assms by (auto simp: fs_modify_block_def blk_modify_def rmap_Inr_iff rbind_Inr_iff cache_get_or_insert_def
      split: option.splits)

lemma modify_keeps:
  assumes "fs_modify_block lba f (fs, col) = Inr (fs', col')" and "off_bitmaps fs lba"
  shows "keeps_alloc fs fs'"
proof -
  note m = fs_modify_blocks [OF assms(1)]
  have "same_layout fs fs'" "allocator fs' = allocator fs" by (subst m(1), simp)+
  with m(2) assms(2) show ?thesis by (auto simp: keeps_alloc_def same_bitmaps_def off_bitmaps_def)
qed

lemma get_block_keeps:
  assumes "fs_get_block lba fs = Inr (b, fs')" and "bitmaps_ok fs"
  shows "keeps_alloc fs fs'"
proof -
  from assms(1) have m: "fs' = fs\<lparr>blocks := blocks fs'\<rparr>" "\<And>x y. blocks fs x = Some y \<Longrightarrow> blocks fs' x = Some y"
    by (auto simp: fs_get_block_def blk_get_def rmap_Inr_iff rbind_Inr_iff cache_get_or_insert_def split: option.splits)
  have "same_layout fs fs'" "allocator fs' = allocator fs" by (subst m(1), simp)+
  moreover have "blocks fs' (bitmap_lba fs g) = blocks fs (bitmap_lba fs g)" if "g < bg_count (fs_sb fs)" for g
    using bitmaps_okE [OF assms(2) that] m(2) by metis
  ultimately show ?thesis by (simp add: keeps_alloc_def same_bitmaps_def)
qed

lemma loaded_group_same:
  assumes "groups_loaded fs" and "get_block_group g fs = Inr (bg, fs')"
  shows "fs' = fs" "bg = the_group fs g" "g < bg_count (fs_sb fs)"
proof -
  show g: "g < bg_count (fs_sb fs)" using assms by (auto simp: get_block_group_def rbind_Inr_iff groups_loaded_def)
  show "fs' = fs" "bg = the_group fs g" using get_loaded_group(1) [OF assms(1) g] assms(2) by simp_all
qed

lemma get_inode_off:
  assumes "flushable fs" and "get_inode ino fs = Inr ((lba, ofs), fs')"
  shows "fs' = fs" "off_bitmaps fs lba"
proof -
  from assms(2) obtain g idx bg where gi: "ino_into_bgid_index (fs_sb fs) ino = Inr (g, idx)"
    "get_block_group g fs = Inr (bg, fs')" "lba = inode_table_first_block bg + idx * inode_size (fs_sb fs) div blk_size fs'"
    by (auto simp: get_inode_def rbind_Inr_iff Let_def)
  from assms(1) have f: "groups_loaded fs" "bitmaps_apart fs" by (simp_all add: flushable_def)
  note l = loaded_group_same [OF f(1) gi(2)]
  show "fs' = fs" by (rule l(1))
  have "idx < inodes_per_group (fs_sb fs)" using gi(1) by (auto simp: ino_into_bgid_index_def rbind_Inr_iff)
  with f(2) l(3) show "off_bitmaps fs lba" using gi(3) by (simp add: bitmaps_apart_def l(1,2) flip: table_lba_def)
qed

lemma modify_sb_keeps:
  assumes "modify_sb f ((fs, col), d) = Inr ((fs', col'), d')"
  shows "keeps_alloc fs fs'"
proof -
  from assms obtain man where "fs' = fs\<lparr>fs_sb := (fs_sb fs)\<lparr>manipulator := man\<rparr>\<rparr>" by (auto simp: modify_sb_def rmap_Inr_iff)
  then show ?thesis by (simp add: keeps_alloc_def geometry_def)
qed

lemma modify_inode_keeps:
  assumes "modify_inode ino f (fs, col) = Inr (fs', col')" and "flushable fs"
  shows "keeps_alloc fs fs'"
proof -
  from assms(1) obtain lba ofs fs1 where g: "get_inode ino fs = Inr ((lba, ofs), fs1)"
    "fs_modify_block lba (on_slice ofs (inode_size (fs_sb fs1)) f) (fs1, col) = Inr (fs', col')"
    by (auto simp: modify_inode_def rbind_Inr_iff)
  from get_inode_off [OF assms(2) g(1)] modify_keeps [OF g(2)] show ?thesis by simp
qed

lemma rm_link_keeps:
  assumes "submit_rm_link ino ((fs, col), d) = Inr ((fs', col'), d')" and "flushable fs" and "bitmaps_ok fs"
  shows "keeps_alloc fs fs'"
proof -
  from assms(1) obtain lba ofs fs1 b fs2 where g: "get_inode ino fs = Inr ((lba, ofs), fs1)" "fs_get_block lba fs1 = Inr (b, fs2)"
    and r: "(\<exists>f. fs_modify_block lba f (fs2, col) = Inr (fs', col')) \<or>
      (\<exists>f fs3 col3 fs4 d4 o'. fs_modify_block lba f (fs2, col) = Inr (fs3, col3) \<and>
         (\<exists>h. modify_sb h ((fs3, col3), d) = Inr ((fs4, col'), d4)) \<and> fs' = fs4\<lparr>fs_sb := (fs_sb fs4)\<lparr>orphaned_inode := o'\<rparr>\<rparr>)"
    by (auto simp: submit_rm_link_def rbind_Inr_iff rmap_Inr_iff Let_def split: if_splits; blast)
  note o = get_inode_off [OF assms(2) g(1)]
  have k: "keeps_alloc fs fs2" using get_block_keeps [OF g(2)] assms(3) o(1) by simp
  have off: "off_bitmaps fs2 lba" using o(2) k same_layout_off(1) [of fs fs2]
    by (simp add: keeps_alloc_def same_bitmaps_def)
  from r show ?thesis
  proof (elim disjE exE conjE)
    fix f assume "fs_modify_block lba f (fs2, col) = Inr (fs', col')"
    from keeps_alloc_trans [OF k modify_keeps [OF this off]] show ?thesis .
  next
    fix f fs3 col3 fs4 d4 o' h assume a: "fs_modify_block lba f (fs2, col) = Inr (fs3, col3)"
      "modify_sb h ((fs3, col3), d) = Inr ((fs4, col'), d4)" "fs' = fs4\<lparr>fs_sb := (fs_sb fs4)\<lparr>orphaned_inode := o'\<rparr>\<rparr>"
    have "keeps_alloc fs4 fs'" unfolding a(3) by (simp add: keeps_alloc_def geometry_def)
    with k modify_keeps [OF a(1) off] modify_sb_keeps [OF a(2)] show ?thesis by (blast intro: keeps_alloc_trans)
  qed
qed

lemma keeps_bitmaps_ok: "keeps_alloc fs0 fs \<Longrightarrow> bitmaps_ok fs0 \<Longrightarrow> bitmaps_ok fs"
  by (auto simp: keeps_alloc_def dest: same_bitmaps_used(2))

lemma keeps_bg_count: "keeps_alloc fs0 fs \<Longrightarrow> bg_count (fs_sb fs) = bg_count (fs_sb fs0)"
  by (auto simp: keeps_alloc_def same_bitmaps_def same_layout_def dest: same_geometry(1))

lemma inode_op_keeps:
  assumes "submit_inode_op op ((fs, col), d) = Inr ((fs', col'), d')" and "flushable fs" and "bitmaps_ok fs"
  shows "keeps_alloc fs fs'"
  using assms
  by (cases op)
    (auto simp: submit_inode_op_def Let_def rmap_Inr_iff split: if_splits
      dest: modify_inode_keeps modify_sb_keeps rm_link_keeps)

lemma each_keeps_alloc:
  assumes "for_each xs step st = Inr st'" and "flushable (pr st)" and "bitmaps_ok (pr st)" and "bg_count (fs_sb (pr st)) = n"
    and "\<And>x st st'. x \<in> set xs \<Longrightarrow> step x st = Inr st' \<Longrightarrow> flushable (pr st) \<Longrightarrow> bitmaps_ok (pr st) \<Longrightarrow>
      bg_count (fs_sb (pr st)) = n \<Longrightarrow> keeps_alloc (pr st) (pr st')"
  shows "keeps_alloc (pr st) (pr st')"
  using assms
proof (induction xs arbitrary: st)
  case (Cons x xs)
  from Cons.prems(1) obtain st1 where s: "step x st = Inr st1" "for_each xs step st1 = Inr st'"
    by (auto simp: rbind_Inr_iff)
  from Cons.prems(5) [OF _ s(1) Cons.prems(2-4)] have k: "keeps_alloc (pr st) (pr st1)" by simp
  have n: "bg_count (fs_sb (pr st1)) = n" using keeps_bg_count [OF k] Cons.prems(4) by simp
  from Cons.IH [OF s(2) keeps_flushable [OF k Cons.prems(2)] keeps_bitmaps_ok [OF k Cons.prems(3)] n] Cons.prems(5)
  have "keeps_alloc (pr st1) (pr st')" by (meson list.set_intros(2))
  with k show ?case by (rule keeps_alloc_trans)
qed simp

lemma submit_group_keeps:
  assumes "submit_block_group g delta (fs, col) = Inr (fs', col')" and "flushable fs" and "g < bg_count (fs_sb fs)"
  shows "keeps_alloc fs fs'"
proof (cases "d_free_blocks delta \<noteq> 0 \<or> d_free_inodes delta \<noteq> 0 \<or> d_used_dirs delta \<noteq> 0")
  case True
  with assms(1) have "\<exists>f. fs_modify_block (fst (bgid_into_lba_index (blk_size fs) (fs_sb fs) g)) f (fs, col) = Inr (fs', col')"
    by (auto simp: submit_block_group_def Let_def split: prod.splits)
  moreover have "off_bitmaps fs (fst (bgid_into_lba_index (blk_size fs) (fs_sb fs) g))"
    using assms(2,3) by (simp add: flushable_def bitmaps_apart_def)
  ultimately show ?thesis by (auto dest: modify_keeps)
qed (use assms(1) in \<open>simp add: submit_block_group_def\<close>)

lemma submit_sb_keeps:
  assumes "submit_sb delta ((fs, col), d) = Inr (fs', col')"
  shows "keeps_alloc fs fs'"
  using assms by (auto simp: submit_sb_def rbind_Inr_iff split: option.splits prod.splits dest: modify_sb_keeps)

lemma flush_keeps:
  assumes "wb_flush w (fs, col) = Inr (fs', col')" and "flushable fs" and "bitmaps_ok fs"
    and "finite (dom (bg_deltas w))" and "dom (bg_deltas w) \<subseteq> {..<bg_count (fs_sb fs)}"
  shows "keeps_alloc fs fs'"
proof -
  from assms(1) obtain fs1 col1 fs2 col2 d2 where
    f: "for_each (sorted_list_of_set (dom (bg_deltas w))) (\<lambda>g. submit_block_group g (bg_delta_of w g)) (fs, col) = Inr (fs1, col1)"
      "for_each (inode_ops w) submit_inode_op ((fs1, col1), False) = Inr ((fs2, col2), d2)"
      "submit_sb (wb_sb_delta w) ((fs2, col2), d2) = Inr (fs', col')"
    by (auto simp: wb_flush_def rbind_Inr_iff)
  have "keeps_alloc (fst (fs, col)) (fst (fs1, col1))"
  proof (rule each_keeps_alloc [OF f(1), where n = "bg_count (fs_sb fs)"])
    fix g and st st' :: "'a fs \<times> collector"
    assume g: "g \<in> set (sorted_list_of_set (dom (bg_deltas w)))" "submit_block_group g (bg_delta_of w g) st = Inr st'"
      "flushable (fst st)" "bg_count (fs_sb (fst st)) = bg_count (fs_sb fs)"
    then have "g < bg_count (fs_sb (fst st))" using assms(4,5) by auto
    with g show "keeps_alloc (fst st) (fst st')" using submit_group_keeps by (cases st; cases st') fastforce
  qed (use assms in simp_all)
  then have k: "keeps_alloc fs fs1" by simp
  have "keeps_alloc (fst (fst ((fs1, col1), False))) (fst (fst ((fs2, col2), d2)))"
  proof (rule each_keeps_alloc [OF f(2), where n = "bg_count (fs_sb fs)"])
    fix op and st st' :: "('a fs \<times> collector) \<times> bool"
    assume "submit_inode_op op st = Inr st'" "flushable (fst (fst st))" "bitmaps_ok (fst (fst st))"
    then show "keeps_alloc (fst (fst st)) (fst (fst st'))" using inode_op_keeps by (cases st; cases st') fastforce
  qed (use keeps_flushable [OF k] keeps_bitmaps_ok [OF k] keeps_bg_count [OF k] assms in simp_all)
  then have "keeps_alloc fs1 fs2" by simp
  from keeps_alloc_trans [OF k this] submit_sb_keeps [OF f(3)] show ?thesis by (rule keeps_alloc_trans)
qed

section \<open>Mixed logs\<close>

text \<open>Events of the other kinds change no block bitmap.\<close>

definition other_event :: "'d fs \<Rightarrow> event \<Rightarrow> bool" where
  "other_event fs e = (case e of
     BlockAllocationOnBg _ _ _ _ _ \<Rightarrow> False
   | BlockDeallocationOnBg _ _ _ _ _ \<Rightarrow> False
   | InodeAllocationOnBg g bm _ _ \<Rightarrow> g < bg_count (fs_sb fs) \<and> off_bitmaps fs bm
   | InodeDeallocationOnBg _ g bm _ _ \<Rightarrow> g < bg_count (fs_sb fs) \<and> off_bitmaps fs bm
   | _ \<Rightarrow> True)"

definition log_event :: "'d fs \<Rightarrow> event \<Rightarrow> bool" where
  "log_event fs e \<longleftrightarrow> event_on fs e \<or> other_event fs e"

lemma other_event_run: "other_event fs e \<Longrightarrow> run_of e = None \<and> ev_blocks sb e = []"
  by (cases e) (simp_all add: other_event_def run_of_def ev_blocks_def)

lemma log_event_layout:
  assumes "same_layout fs0 fs"
  shows "log_event fs e = log_event fs0 e"
proof -
  from assms have sl: "geometry (fs_sb fs) = geometry (fs_sb fs0)" "bitmap_lba fs = bitmap_lba fs0" by (simp_all add: same_layout_def)
  note g = same_geometry(1) [OF sl(1)]
  show ?thesis unfolding log_event_def other_event_def event_on_def same_layout_off(1) [OF assms] g sl(2) ..
qed

lemma log_event_same: "same_bitmaps fs0 fs \<Longrightarrow> log_event fs e = log_event fs0 e"
  by (simp add: same_bitmaps_def log_event_layout)

definition deltas_in :: "nat \<Rightarrow> writeback_group \<Rightarrow> bool" where
  "deltas_in n w \<longleftrightarrow> finite (dom (bg_deltas w)) \<and> dom (bg_deltas w) \<subseteq> {..<n}"

lemma compress_counts_deltas:
  assumes "compress_counts sb e w = Inr w'" and "log_event fs e" and "deltas_in (bg_count (fs_sb fs)) w"
  shows "deltas_in (bg_count (fs_sb fs)) w'"
proof -
  have u: "deltas_in n (upd_bg_delta g f v)" if "deltas_in n v" "g < n" for n g f v
    using that by (auto simp: deltas_in_def upd_bg_delta_def)
  have o: "deltas_in n (push_op x v) = deltas_in n v" "deltas_in n (upd_sb_delta h v) = deltas_in n v" for n x h v
    by (simp_all add: deltas_in_def push_op_def upd_sb_delta_def)
  show ?thesis
    using assms by (cases e)
      (auto simp: compress_counts_def rmap_Inr_iff Let_def log_event_def event_on_def other_event_def run_of_def o u split: if_splits)
qed

lemma compress_bitmap_other:
  assumes "compress_bitmap e (fs, col) = Inr (fs', col')" and "other_event fs e"
  shows "keeps_alloc fs fs' \<and> fs' = fs\<lparr>blocks := blocks fs'\<rparr>"
proof -
  from assms consider "fs' = fs" | bm f where "fs_modify_block bm f (fs, col) = Inr (fs', col')" "off_bitmaps fs bm"
    by (cases e) (auto simp: compress_bitmap_def other_event_def unwrap_res_def split: sum.splits)
  then show ?thesis
  proof cases
    case 2
    with modify_keeps [OF 2] fs_modify_blocks(1) show ?thesis by blast
  qed simp
qed

lemma replay_geometry:
  assumes "geometry sb' = geometry sb"
  shows "replay sb' es U = replay sb es U" "freed_list sb' es = freed_list sb es"
proof -
  note g = same_geometry [OF assms]
  have s: "replay_step sb' e = replay_step sb e" for e unfolding replay_step_def g ..
  show "replay sb' es U = replay sb es U"
  proof (induction es arbitrary: U)
    case (Cons e es)
    then have "replay sb' es = replay sb es" by (simp add: fun_eq_iff)
    then show ?case by (simp add: s)
  qed simp
  show "freed_list sb' es = freed_list sb es" unfolding freed_list_def g ..
qed

lemma compress_log:
  assumes "compress evs (w, fs, col, posts) = Inr (w', fs', col', posts')" and "bitmaps_ok fs"
    and "list_all (log_event fs) evs" and "deltas_in (bg_count (fs_sb fs)) w"
  shows "fs' = fs\<lparr>blocks := blocks fs'\<rparr> \<and> bitmaps_ok fs' \<and> replay (fs_sb fs) evs (used_blocks fs) = Some (used_blocks fs') \<and>
    posts' = posts @ concat (map postlude_of evs) \<and> deltas_in (bg_count (fs_sb fs)) w'"
  using assms
proof (induction evs arbitrary: w fs col posts)
  case (Cons e evs)
  from Cons.prems(1) obtain w1 fs1 col1 where s: "compress_counts (fs_sb fs) e w = Inr w1"
    "compress_bitmap e (fs, col) = Inr (fs1, col1)" "compress evs (w1, fs1, col1, posts @ postlude_of e) = Inr (w', fs', col', posts')"
    by (auto simp: rbind_Inr_iff)
  have e: "log_event fs e" using Cons.prems(3) by simp
  have "fs1 = fs\<lparr>blocks := blocks fs1\<rparr> \<and> bitmaps_ok fs1 \<and> replay_step (fs_sb fs) e (used_blocks fs) = Some (used_blocks fs1)"
  proof (cases "event_on fs e")
    case True
    from compress_bitmap_replays [OF Cons.prems(2) True, of col] s(2) show ?thesis by (auto split: option.splits)
  next
    case False
    with e have o: "other_event fs e" by (simp add: log_event_def)
    from compress_bitmap_other [OF s(2) o] have k: "keeps_alloc fs fs1" "fs1 = fs\<lparr>blocks := blocks fs1\<rparr>" by blast+
    then have "used_blocks fs1 = used_blocks fs" by (auto simp: keeps_alloc_def dest: same_bitmaps_used(1))
    with k keeps_bitmaps_ok [OF k(1) Cons.prems(2)] other_event_run [OF o] show ?thesis by (simp add: replay_step_def)
  qed
  then have f: "fs1 = fs\<lparr>blocks := blocks fs1\<rparr>" "bitmaps_ok fs1" "replay_step (fs_sb fs) e (used_blocks fs) = Some (used_blocks fs1)"
    by blast+
  have sb: "fs_sb fs1 = fs_sb fs" by (subst f(1), simp)
  have "bitmap_lba fs1 = bitmap_lba fs" by (subst f(1), simp add: bitmap_lba_def the_group_def fun_eq_iff)
  then have le: "log_event fs1 = log_event fs"
    by (simp add: log_event_def event_on_def other_event_def off_bitmaps_def sb fun_eq_iff split: event.split)
  have "deltas_in (bg_count (fs_sb fs1)) w1" unfolding sb by (rule compress_counts_deltas [OF s(1) e Cons.prems(4)])
  with Cons.IH [OF s(3) f(2)] Cons.prems(3) have IH: "fs' = fs1\<lparr>blocks := blocks fs'\<rparr>" "bitmaps_ok fs'"
    "replay (fs_sb fs1) evs (used_blocks fs1) = Some (used_blocks fs')" "posts' = (posts @ postlude_of e) @ concat (map postlude_of evs)"
    "deltas_in (bg_count (fs_sb fs1)) w'" by (auto simp: le)
  have "fs' = fs\<lparr>blocks := blocks fs'\<rparr>" by (subst IH(1), subst f(1), simp)
  with IH(2-5) f(3) show ?case by (simp add: sb)
qed simp

section \<open>Postludes\<close>

lemma block_postlude_ok:
  assumes gl: "groups_loaded fs" and wf: "buddy_wf (allocator fs)" and g: "g < bg_count (fs_sb fs)"
    and e: "e = BlockDeallocationOnBg ino g bm ofs c" and dis: "set (ev_blocks (fs_sb fs) e) \<inter> free (allocator fs) = {}"
    and run: "for_each (postlude_of e) run_postlude fs = Inr fs'"
  shows "same_bitmaps fs fs' \<and> buddy_wf (allocator fs') \<and> free (allocator fs') = free (allocator fs) \<union> set (ev_blocks (fs_sb fs) e)"
proof -
  note G = get_loaded_group [OF gl g]
  obtain fs1 where f1: "for_each (postlude_of e) run_postlude fs = Inr fs1" "buddy_wf (allocator fs1)"
    "free (allocator fs1) = free (allocator fs) \<union> set (ev_blocks (fs_sb fs) e)"
    using postlude_block [OF gl wf g e dis] by metis
  from run G(1) obtain b where fs': "fs' = set_block_group g (bg_deallocate_blocks c (the_group fs g)) (fs\<lparr>allocator := b\<rparr>)"
    by (auto simp: e postlude_of_def run_postlude_def apply_deallocation_on_core_def rbind_Inr_iff)
  have a: "the_group (fs\<lparr>allocator := b\<rparr>) g = the_group fs g" "groups_loaded (fs\<lparr>allocator := b\<rparr>)"
    using gl by (simp_all add: the_group_def groups_loaded_def)
  have "same_bitmaps (fs\<lparr>allocator := b\<rparr>) fs'" unfolding fs'
    by (rule layout_group) (use a g G in \<open>simp_all add: bg_deallocate_blocks_def bitmap_lba_def table_lba_def\<close>)
  with f1 run show ?thesis using same_bitmaps_trans [OF layout_updates(2)] by auto
qed

lemma inode_postlude_keeps:
  assumes "ino_apply_deallocation ino fs = Inr fs'" and ok: "bitmaps_ok fs"
  shows "keeps_alloc fs fs'"
proof -
  have gl: "groups_loaded fs" using ok by (simp add: bitmaps_ok_def)
  from assms(1) obtain g i bg fs1 bm fs2 bm' where s: "get_block_group g fs = Inr (bg, fs1)" "ino_bitmap g fs1 = Inr (bm, fs2)"
    "fs' = set_block_group g (bg_deallocate_inode bg) (sb_inc_free_inodes (set_ino_bitmap g bm' fs2))"
    by (auto simp: ino_apply_deallocation_def rbind_Inr_iff Let_def)
  note l = loaded_group_same [OF gl s(1)]
  have k: "keeps_alloc fs fs2"
  proof (cases "ino_bitmaps fs ! g")
    case None
    with s(2) obtain bg' fs3 bm3 fs4 where b: "get_block_group g fs = Inr (bg', fs3)" "fs_get_block (inode_bitmap_lba bg') fs3 = Inr (bm3, fs4)"
      "fs2 = fs4\<lparr>ino_bitmaps := (ino_bitmaps fs4)[g := Some bm3]\<rparr>" by (auto simp: ino_bitmap_def rbind_Inr_iff l(1))
    have "keeps_alloc fs fs4" using get_block_keeps [OF b(2)] ok loaded_group_same(1) [OF gl b(1)] by simp
    moreover have "keeps_alloc fs4 fs2" unfolding b(3) by (simp add: keeps_alloc_def)
    ultimately show ?thesis by (rule keeps_alloc_trans)
  qed (use s(2) in \<open>auto simp: ino_bitmap_def rbind_Inr_iff l(1)\<close>)
  let ?fs3 = "sb_inc_free_inodes (set_ino_bitmap g bm' fs2)"
  have k3: "keeps_alloc fs2 ?fs3"
  proof (rule keeps_alloc_trans)
    show "keeps_alloc fs2 (set_ino_bitmap g bm' fs2)" by (simp add: keeps_alloc_def set_ino_bitmap_def)
    show "keeps_alloc (set_ino_bitmap g bm' fs2) ?fs3" by (simp add: keeps_alloc_def sb_inc_free_inodes_def geometry_def)
  qed
  note k' = keeps_alloc_trans [OF k k3]
  have sl: "same_layout fs ?fs3" using k' by (simp add: keeps_alloc_def same_bitmaps_def)
  have "same_bitmaps ?fs3 fs'" unfolding s(3)
  proof (rule layout_group)
    have q: "bg_count (fs_sb ?fs3) = bg_count (fs_sb fs)" "blocks_per_group (fs_sb ?fs3) = blocks_per_group (fs_sb fs)"
      "bitmap_lba ?fs3 = bitmap_lba fs" "table_lba ?fs3 = table_lba fs"
      using sl by (auto simp: same_layout_def dest: same_geometry)
    show "groups_loaded ?fs3" using sl gl by (simp add: same_layout_def)
    show "g < bg_count (fs_sb ?fs3)" using l(3) q(1) by simp
    note G = get_loaded_group [OF gl l(3)]
    show "bg_id (bg_deallocate_inode bg) = g" "bg_blocks_count (bg_deallocate_inode bg) = blocks_per_group (fs_sb ?fs3)"
      "block_bitmap_lba (bg_deallocate_inode bg) = bitmap_lba ?fs3 g" "inode_table_first_block (bg_deallocate_inode bg) = table_lba ?fs3 g"
      using G q l(2) by (simp_all add: bg_deallocate_inode_def bitmap_lba_def table_lba_def)
  qed
  moreover have "allocator fs' = allocator ?fs3" unfolding s(3) by (simp add: set_block_group_def)
  ultimately have "keeps_alloc ?fs3 fs'" by (simp add: keeps_alloc_def)
  with k' show ?thesis by (rule keeps_alloc_trans)
qed

lemma postludes_ok:
  assumes "for_each (concat (map postlude_of evs)) run_postlude fs = Inr fs'" and "bitmaps_ok fs" and "buddy_wf (allocator fs)"
    and "list_all (log_event fs) evs" and "distinct (freed_list (fs_sb fs) evs)"
    and "set (freed_list (fs_sb fs) evs) \<inter> free (allocator fs) = {}"
  shows "same_bitmaps fs fs' \<and> buddy_wf (allocator fs') \<and> free (allocator fs') = free (allocator fs) \<union> set (freed_list (fs_sb fs) evs)"
  using assms
proof (induction evs arbitrary: fs)
  case (Cons e evs)
  from Cons.prems(1) obtain fs1 where s: "for_each (postlude_of e) run_postlude fs = Inr fs1"
    "for_each (concat (map postlude_of evs)) run_postlude fs1 = Inr fs'" by (auto simp: for_each_append rbind_Inr_iff)
  let ?f = "freed_list (fs_sb fs)"
  have fl: "?f (e # evs) = ?f [e] @ ?f evs" by (simp add: freed_list_def)
  have e: "log_event fs e" using Cons.prems(4) by simp
  have gl: "groups_loaded fs" using Cons.prems(2) by (simp add: bitmaps_ok_def)
  have "same_bitmaps fs fs1 \<and> buddy_wf (allocator fs1) \<and> free (allocator fs1) = free (allocator fs) \<union> set (?f [e])"
  proof (cases "event_on fs e")
    case True
    show ?thesis
    proof (cases "postlude_of e = []")
      case False
      with True obtain ino g bm ofs c where ev: "e = BlockDeallocationOnBg ino g bm ofs c" "g < bg_count (fs_sb fs)"
        by (cases e) (auto simp: event_on_def run_of_def postlude_of_def)
      have f: "?f [e] = ev_blocks (fs_sb fs) e" using False by (simp add: freed_list_def)
      with Cons.prems(6) have "set (ev_blocks (fs_sb fs) e) \<inter> free (allocator fs) = {}" unfolding fl by auto
      from block_postlude_ok [OF gl Cons.prems(3) ev(2,1) this s(1)] f show ?thesis by simp
    qed (use s(1) Cons.prems(3) in \<open>simp add: freed_list_def\<close>)
  next
    case False
    with e have o: "other_event fs e" by (simp add: log_event_def)
    then have f: "?f [e] = []" using other_event_run [OF o] by (simp add: freed_list_def)
    from o s(1) have "fs1 = fs \<or> (\<exists>ino. ino_apply_deallocation ino fs = Inr fs1)"
      by (cases e) (auto simp: other_event_def postlude_of_def run_postlude_def rbind_Inr_iff)
    then have "keeps_alloc fs fs1" using inode_postlude_keeps [OF _ Cons.prems(2)] by auto
    with f Cons.prems(3) show ?thesis by (simp add: keeps_alloc_def)
  qed
  then have f1: "same_bitmaps fs fs1" "buddy_wf (allocator fs1)" "free (allocator fs1) = free (allocator fs) \<union> set (?f [e])" by blast+
  have geo: "geometry (fs_sb fs1) = geometry (fs_sb fs)" using f1(1) by (simp add: same_bitmaps_def same_layout_def)
  have "list_all (log_event fs1) evs" using Cons.prems(4) log_event_same [OF f1(1)] by (simp add: list_all_iff)
  moreover have "distinct (freed_list (fs_sb fs1) evs)" "set (freed_list (fs_sb fs1) evs) \<inter> free (allocator fs1) = {}"
    using Cons.prems(5,6) unfolding replay_geometry(2) [OF geo] fl f1(3) by auto
  ultimately have "same_bitmaps fs1 fs' \<and> buddy_wf (allocator fs') \<and>
      free (allocator fs') = free (allocator fs1) \<union> set (freed_list (fs_sb fs1) evs)"
    using Cons.IH [OF s(2) same_bitmaps_used(2) [OF f1(1) Cons.prems(2)] f1(2)] by blast
  then show ?case using same_bitmaps_trans [OF f1(1)] unfolding replay_geometry(2) [OF geo] fl f1(3) by auto
qed (simp add: freed_list_def)

section \<open>Transactions keep the allocator sound\<close>

text \<open>
  A session of a transaction: allocations and deallocations in any order, between them anything that
  keeps the allocator and the block bitmaps as they are (inodes, directories, file contents) and logs
  events of the other kinds. The callers free runs of blocks of the device's groups.
\<close>

inductive block_session :: "'d fs \<Rightarrow> 'd fs \<Rightarrow> tx \<Rightarrow> bool" for fs0 where
  sess_open: "block_session fs0 fs0 open_transaction"
| sess_alloc: "block_session fs0 fs t \<Longrightarrow> 0 < sz \<Longrightarrow> fs_allocate ino sz hope (fs, t) = Inr (r, fs', t') \<Longrightarrow>
     block_session fs0 fs' t'"
| sess_free: "block_session fs0 fs t \<Longrightarrow> blocks_base (fs_sb fs) \<le> lba \<Longrightarrow> lba + sz \<le> blocks_end (fs_sb fs) \<Longrightarrow>
     fs_deallocate ino lba sz (fs, t) = Some (Inr (fs', t')) \<Longrightarrow> block_session fs0 fs' t'"
| sess_other: "block_session fs0 fs t \<Longrightarrow> keeps_alloc fs fs' \<Longrightarrow> tx_events t' = tx_events t @ es \<Longrightarrow>
     list_all (other_event fs0) es \<Longrightarrow> block_session fs0 fs' t'"

text \<open>The free blocks of the allocator are blocks of the groups that the bitmaps do not have in use.\<close>

definition alloc_sound :: "'d fs \<Rightarrow> bool" where
  "alloc_sound fs \<longleftrightarrow> bitmaps_ok fs \<and> bitmaps_apart fs \<and> buddy_wf (allocator fs) \<and>
     free (allocator fs) \<subseteq> {blocks_base (fs_sb fs)..<blocks_end (fs_sb fs)} \<and>
     free (allocator fs) \<inter> used_blocks fs = {} \<and> 0 < blk_size fs \<and> blk_size fs \<le> 4096"

definition session_inv :: "'d fs \<Rightarrow> 'd fs \<Rightarrow> tx \<Rightarrow> bool" where
  "session_inv fs0 fs t \<longleftrightarrow> same_bitmaps fs0 fs \<and> buddy_wf (allocator fs) \<and> free (allocator fs) \<subseteq> free (allocator fs0) \<and>
     list_all (log_event fs0) (tx_events t) \<and> log_inv (fs_sb fs0) (used_blocks fs0) (free (allocator fs)) (tx_events t)"

lemma log_inv_others:
  assumes "log_inv sb U fr es" and "list_all (other_event fs) evs"
  shows "log_inv sb U fr (es @ evs)"
proof -
  have "replay sb evs B = Some B \<and> freed_list sb evs = []" for B
    using assms(2) by (induction evs) (auto simp: freed_list_def replay_step_def dest!: other_event_run)
  with assms(1) show ?thesis by (simp add: log_inv_def replay_append freed_list_append bind_eq_Some_conv)
qed

lemma session_facts:
  assumes "session_inv fs0 fs t" and "groups_loaded fs0"
  shows "groups_loaded fs" "blk_size fs = blk_size fs0" "bitmap_lba fs = bitmap_lba fs0" "geometry (fs_sb fs) = geometry (fs_sb fs0)"
    "block_bitmap_lba (the_group fs g) = bitmap_lba fs0 g"
  using assms by (auto simp: session_inv_def same_bitmaps_def same_layout_def simp flip: bitmap_lba_def)

lemma session_step_alloc:
  assumes inv: "session_inv fs0 fs t" and S: "alloc_sound fs0" and sz: "0 < sz"
    and al: "fs_allocate ino sz hope (fs, t) = Inr (r, fs', t')"
  shows "session_inv fs0 fs' t'"
proof -
  from S have S': "groups_loaded fs0" "free (allocator fs0) \<subseteq> {blocks_base (fs_sb fs0)..<blocks_end (fs_sb fs0)}"
    "0 < blk_size fs0" "blk_size fs0 \<le> 4096" by (simp_all add: alloc_sound_def bitmaps_ok_def)
  note F = session_facts [OF inv S'(1)] and geo = same_geometry [OF session_facts(4) [OF inv S'(1)]]
  from inv have I: "same_bitmaps fs0 fs" "buddy_wf (allocator fs)" "free (allocator fs) \<subseteq> free (allocator fs0)"
    "list_all (log_event fs0) (tx_events t)" "log_inv (fs_sb fs0) (used_blocks fs0) (free (allocator fs)) (tx_events t)"
    by (simp_all add: session_inv_def)
  have "free (allocator fs) \<subseteq> {blocks_base (fs_sb fs)..<blocks_end (fs_sb fs)}" using I(3) S'(2) unfolding geo by blast
  from fs_allocate_run [OF F(1) I(2) this sz, of ino hope t] S'(3,4) F(2) al obtain p m g i where
    a: "t' = push_event (BlockAllocationOnBg ino g (block_bitmap_lba (the_group fs g)) i m) t" "0 < m"
      "{p..<p + m} \<subseteq> free (allocator fs)" "buddy_wf (allocator fs')" "free (allocator fs') \<subseteq> free (allocator fs) - {p..<p + m}"
      "g < bg_count (fs_sb fs)" "lba_from_bgid_index (fs_sb fs) g i = p"
      "fs' = set_block_group g (bg_dec_free_blocks m (the_group fs g)) (fs\<lparr>allocator := allocator fs'\<rparr>)"
    by auto
  define e where "e = BlockAllocationOnBg ino g (bitmap_lba fs0 g) i m"
  have r: "run_of e = Some (True, g, bitmap_lba fs0 g, i, m)" by (simp add: e_def run_of_def)
  have evb: "set (ev_blocks (fs_sb fs0) e) = {p..<p + m}" using a(7) geo(5)
    by (simp add: e_def ev_blocks_def map_lba_from_upt del: upt_Suc set_map)
  have "same_bitmaps fs0 (set_block_group g (bg_dec_free_blocks m (the_group fs g)) (fs\<lparr>allocator := allocator fs'\<rparr>))"
  proof (rule same_bitmaps_trans [OF same_bitmaps_trans [OF I(1) layout_updates(2)] layout_group])
    have "the_group (fs\<lparr>allocator := b\<rparr>) g = the_group fs g" for b by (simp add: the_group_def)
    then show "groups_loaded (fs\<lparr>allocator := allocator fs'\<rparr>)" "g < bg_count (fs_sb (fs\<lparr>allocator := allocator fs'\<rparr>))"
      "bg_id (bg_dec_free_blocks m (the_group fs g)) = g"
      "bg_blocks_count (bg_dec_free_blocks m (the_group fs g)) = blocks_per_group (fs_sb (fs\<lparr>allocator := allocator fs'\<rparr>))"
      "block_bitmap_lba (bg_dec_free_blocks m (the_group fs g)) = bitmap_lba (fs\<lparr>allocator := allocator fs'\<rparr>) g"
      "inode_table_first_block (bg_dec_free_blocks m (the_group fs g)) = table_lba (fs\<lparr>allocator := allocator fs'\<rparr>) g"
      using F(1) get_loaded_group [OF F(1) a(6)] a(6)
      by (simp_all add: bg_dec_free_blocks_def bitmap_lba_def table_lba_def groups_loaded_def)
  qed
  then have "same_bitmaps fs0 fs'" by (simp only: a(8) [symmetric])
  moreover have "log_event fs0 e" using r a(2,6) geo(1) unfolding log_event_def event_on_def by auto
  moreover have "log_inv (fs_sb fs0) (used_blocks fs0) (free (allocator fs')) (tx_events t @ [e])"
    by (rule log_inv_alloc [OF I(5) r]) (use evb a(3,5) in auto)
  moreover have "tx_events t' = tx_events t @ [e]" by (simp add: a(1) push_event_def e_def F(5))
  ultimately show ?thesis using a(4,5) I(3,4) by (auto simp: session_inv_def)
qed

lemma session_step_free:
  assumes inv: "session_inv fs0 fs t" and S: "alloc_sound fs0"
    and "blocks_base (fs_sb fs) \<le> lba" and "lba + sz \<le> blocks_end (fs_sb fs)"
    and de: "fs_deallocate ino lba sz (fs, t) = Some (Inr (fs', t'))"
  shows "session_inv fs0 fs' t'"
proof -
  from S have gl: "groups_loaded fs0" by (simp add: alloc_sound_def bitmaps_ok_def)
  note F = session_facts [OF inv gl] and geo = same_geometry [OF session_facts(4) [OF inv gl]]
  from dealloc_loop_ok [OF F(1) assms(3,4) order_refl, of ino t] de obtain evs where
    e: "fs' = fs" "t' = t\<lparr>tx_events := tx_events t @ evs\<rparr>" "list_all (dealloc_event_ok fs ino) evs"
    by (auto simp: fs_deallocate_def)
  have r: "\<exists>g ofs c. run_of e = Some (False, g, bitmap_lba fs0 g, ofs, c) \<and> g < bg_count (fs_sb fs0) \<and> 0 < c" if "e \<in> set evs" for e
  proof -
    from e(3) that obtain g ofs c where "e = BlockDeallocationOnBg ino g (block_bitmap_lba (the_group fs g)) ofs c"
      "g < bg_count (fs_sb fs)" "0 < c" by (auto simp: list_all_iff dealloc_event_ok_def)
    then show ?thesis by (simp add: run_of_def F(5) geo(1))
  qed
  have "list_all (log_event fs0) evs" unfolding list_all_iff log_event_def event_on_def using r by blast
  moreover have "log_inv (fs_sb fs0) (used_blocks fs0) (free (allocator fs)) (tx_events t @ evs)"
  proof (rule log_inv_frees)
    show "log_inv (fs_sb fs0) (used_blocks fs0) (free (allocator fs)) (tx_events t)" using inv by (simp add: session_inv_def)
    show "\<forall>e\<in>set evs. \<exists>g bm ofs c. run_of e = Some (False, g, bm, ofs, c)" using r by blast
  qed
  ultimately show ?thesis using inv e(1,2) by (simp add: session_inv_def)
qed

lemma session_holds:
  assumes "block_session fs0 fs t" and "alloc_sound fs0"
  shows "session_inv fs0 fs t"
  using assms
proof (induction rule: block_session.induct)
  case sess_open
  then show ?case by (auto simp: session_inv_def alloc_sound_def log_inv_def open_transaction_def freed_list_def)
next
  case (sess_alloc fs t sz ino hope r fs' t')
  then show ?case using session_step_alloc by blast
next
  case (sess_free fs t lba sz ino fs' t')
  then show ?case using session_step_free by blast
next
  case (sess_other fs t fs' t' es)
  then have I: "session_inv fs0 fs t" by simp
  have "list_all (log_event fs0) es" using sess_other.hyps(4) by (simp add: list_all_iff log_event_def)
  with I sess_other.hyps(2,3) log_inv_others [OF _ sess_other.hyps(4)] show ?case
    by (auto simp: session_inv_def keeps_alloc_def intro: same_bitmaps_trans)
qed

lemma lba_in_range:
  assumes "g < bg_count sb" and "i < blocks_per_group sb"
  shows "lba_from_bgid_index sb g i \<in> {blocks_base sb..<blocks_end sb}"
proof -
  have "g * blocks_per_group sb + i < Suc g * blocks_per_group sb" using assms(2) by simp
  also have "\<dots> \<le> bg_count sb * blocks_per_group sb" using assms(1) by (intro mult_le_mono1) simp
  finally show ?thesis by (auto simp: lba_from_bgid_index_def blocks_base_def blocks_end_def mult.commute)
qed

lemma freed_in_range:
  assumes "replay (fs_sb fs) es U = Some B" and "list_all (log_event fs) es"
  shows "set (freed_list (fs_sb fs) es) \<subseteq> {blocks_base (fs_sb fs)..<blocks_end (fs_sb fs)}"
  using assms
proof (induction es arbitrary: U)
  case (Cons e es)
  from Cons.prems(1) obtain V where V: "replay_step (fs_sb fs) e U = Some V" "replay (fs_sb fs) es V = Some B"
    by (auto simp: bind_eq_Some_conv)
  have "set (ev_blocks (fs_sb fs) e) \<subseteq> {blocks_base (fs_sb fs)..<blocks_end (fs_sb fs)}"
  proof (cases "event_on fs e")
    case True
    then obtain v g ofs c where r: "run_of e = Some (v, g, bitmap_lba fs g, ofs, c)" "g < bg_count (fs_sb fs)"
      by (auto simp: event_on_def)
    with V(1) have "ofs + c \<le> blocks_per_group (fs_sb fs)" by (simp add: replay_step_def Let_def split: if_splits)
    then show ?thesis using lba_in_range [OF r(2)] unfolding ev_blocks_run [OF r(1)] image_subset_iff by simp
  next
    case False
    with Cons.prems(2) show ?thesis using other_event_run [of fs e "fs_sb fs"] by (simp add: log_event_def)
  qed
  moreover have "set (freed_list (fs_sb fs) es) \<subseteq> {blocks_base (fs_sb fs)..<blocks_end (fs_sb fs)}"
    using Cons.IH [OF V(2)] Cons.prems(2) by simp
  moreover have "set (freed_list (fs_sb fs) (e # es)) \<subseteq> set (ev_blocks (fs_sb fs) e) \<union> set (freed_list (fs_sb fs) es)"
    by (auto simp: freed_list_def split: if_splits)
  ultimately show ?case by blast
qed (simp add: freed_list_def)

text \<open>C1: Whatever a transaction allocates and frees: when it is finished, the blocks in use by the bitmaps are
  what its log makes of those before, and again no free block of the allocator is in use.\<close>

theorem transaction_keeps_alloc_sound:
  assumes S: "alloc_sound fs0" and "block_session fs0 fs t" and fin: "tx_done t fs = Inr fs'"
  shows "alloc_sound fs' \<and> replay (fs_sb fs0) (tx_events t) (used_blocks fs0) = Some (used_blocks fs')"
proof -
  note I = session_holds [OF assms(2) S]
  from I have I': "same_bitmaps fs0 fs" "buddy_wf (allocator fs)" "free (allocator fs) \<subseteq> free (allocator fs0)"
    "list_all (log_event fs0) (tx_events t)" "log_inv (fs_sb fs0) (used_blocks fs0) (free (allocator fs)) (tx_events t)"
    by (simp_all add: session_inv_def)
  from S have S': "bitmaps_ok fs0" "bitmaps_apart fs0" "free (allocator fs0) \<subseteq> {blocks_base (fs_sb fs0)..<blocks_end (fs_sb fs0)}"
    "0 < blk_size fs0" "blk_size fs0 \<le> 4096" by (simp_all add: alloc_sound_def)
  from fin obtain w fs1 col1 posts fs2 col2 d where
    c: "compress (tx_events t) (writeback_group_new, fs, tx_col t, []) = Inr (w, fs1, col1, posts)"
    and f: "wb_flush w (fs1, col1) = Inr (fs2, col2)" and p: "for_each posts run_postlude (fs2\<lparr>disk := d\<rparr>) = Inr fs'"
    by (auto simp: tx_done_def collector_done_def rbind_Inr_iff)
  have sl0: "same_layout fs0 fs" using I'(1) by (simp add: same_bitmaps_def)
  have "list_all (log_event fs) (tx_events t)" using I'(4) log_event_same [OF I'(1)] by (simp add: list_all_iff)
  moreover have "deltas_in (bg_count (fs_sb fs)) writeback_group_new" by (simp add: deltas_in_def writeback_group_new_def)
  ultimately have C: "fs1 = fs\<lparr>blocks := blocks fs1\<rparr>" "bitmaps_ok fs1" "replay (fs_sb fs) (tx_events t) (used_blocks fs) = Some (used_blocks fs1)"
    "posts = concat (map postlude_of (tx_events t))" "deltas_in (bg_count (fs_sb fs)) w"
    using compress_log [OF c same_bitmaps_used(2) [OF I'(1) S'(1)]] by simp_all
  have al1: "allocator fs1 = allocator fs" "fs_sb fs1 = fs_sb fs" and "same_layout fs fs1" by (subst C(1), simp)+
  then have sl1: "same_layout fs0 fs1" using sl0 by (blast intro: same_layout_trans)
  have "flushable fs1" using C(2) S'(2) same_layout_off(2) [OF sl1] by (simp add: flushable_def bitmaps_ok_def)
  then have k: "keeps_alloc fs1 fs2" using flush_keeps [OF f _ C(2)] C(5) al1(2) by (simp add: deltas_in_def)
  then have "keeps_alloc fs1 (fs2\<lparr>disk := d\<rparr>)" by (rule keeps_alloc_trans) (simp add: keeps_alloc_def)
  then have k3: "same_bitmaps fs1 (fs2\<lparr>disk := d\<rparr>)" "allocator (fs2\<lparr>disk := d\<rparr>) = allocator fs" by (simp_all add: keeps_alloc_def al1)
  let ?fs3 = "fs2\<lparr>disk := d\<rparr>" and ?fl = "freed_list (fs_sb fs0) (tx_events t)"
  have sl3: "same_layout fs0 ?fs3" using sl1 k3(1) by (auto simp: same_bitmaps_def intro: same_layout_trans)
  then have geo3: "geometry (fs_sb ?fs3) = geometry (fs_sb fs0)" by (simp add: same_layout_def)
  have R: "replay (fs_sb fs0) (tx_events t) (used_blocks fs0) = Some (used_blocks fs1)"
    using C(3) same_bitmaps_used(1) [OF I'(1)] replay_geometry(1) [of "fs_sb fs" "fs_sb fs0"] sl0 by (simp add: same_layout_def)
  with I'(5) have L: "free (allocator fs) \<inter> used_blocks fs1 = {}" "set ?fl \<inter> (used_blocks fs1 \<union> free (allocator fs)) = {}" "distinct ?fl"
    by (simp_all add: log_inv_def)
  have P: "same_bitmaps ?fs3 fs' \<and> buddy_wf (allocator fs') \<and> free (allocator fs') = free (allocator fs) \<union> set ?fl"
    using postludes_ok [OF p [unfolded C(4)] same_bitmaps_used(2) [OF k3(1) C(2)]] I'(2,4) L(2,3)
    unfolding k3(2) replay_geometry(2) [OF geo3] by (auto simp: list_all_iff log_event_layout [OF sl3])
  then have k4: "same_bitmaps fs1 fs'" using same_bitmaps_trans [OF k3(1)] by blast
  note U = same_bitmaps_used [OF k4]
  have sl4: "same_layout fs0 fs'" using sl1 k4 by (auto simp: same_bitmaps_def intro: same_layout_trans)
  then have geo: "geometry (fs_sb fs') = geometry (fs_sb fs0)" "blk_size fs' = blk_size fs0" by (simp_all add: same_layout_def)
  have "free (allocator fs') \<subseteq> {blocks_base (fs_sb fs')..<blocks_end (fs_sb fs')}"
    using P I'(3) S'(3) freed_in_range [OF R I'(4)] unfolding same_geometry(6,7) [OF geo(1)] by blast
  moreover have "free (allocator fs') \<inter> used_blocks fs' = {}" using P L(1,2) unfolding U(1) by blast
  moreover have "bitmaps_ok fs'" by (rule U(2) [OF C(2)])
  ultimately show ?thesis using P R S'(2,4,5) geo(2) same_layout_off(2) [OF sl4] by (simp add: alloc_sound_def U(1))
qed

section \<open>A small file system\<close>

definition tiny_sb :: superblock where
  "tiny_sb = demo_sb\<lparr>inode_size := 128, inodes_per_group := 2, block_desc_size := 32, features_incompatible := 0,
     features_readonly := 0, first_data_block := 0, blocks_per_group := 8, blocks_count := 8, inodes_count := 2, bg_count := 1,
     manipulator := replicate 12 0 @ [5, 0, 0, 0] @ replicate 340 0\<rparr>"

definition tiny_desc :: bytes where "tiny_desc = replicate 12 0 @ [5, 0] @ replicate 18 0"

definition tiny_group :: block_group where
  "tiny_group = \<lparr>bg_id = 0, inode_table_first_block = 4, block_bitmap_lba = 2, inode_bitmap_lba = 3, bg_blocks_count = 8,
     bg_free_blocks = 1, bg_free_inodes = 0\<rparr>"

definition tiny_buddy :: buddy where "tiny_buddy = \<lparr>max_order = 0, buddies = [{7}], backref = [7 \<mapsto> 0]\<rparr>"

definition tiny_fs :: "unit fs" where
  "tiny_fs = \<lparr>blk_size = 1024, conf_rd = \<lambda>d n p. Inr (replicate n 0), conf_wr = \<lambda>p b d. Inr d, disk = (), fs_sb = tiny_sb,
     block_groups = [Some tiny_group], blocks = [1 \<mapsto> tiny_desc, 2 \<mapsto> [0x7F], 4 \<mapsto> replicate 128 0],
     allocator = tiny_buddy, ino_bitmaps = [None], last_inode_bg_id = 0\<rparr>"

lemma tiny_free: "free tiny_buddy = {7}"
  by (auto simp: free_def tiny_buddy_def chunk_def split: if_splits)

lemma tiny_simps:
  "bg_count tiny_sb = 1" "blocks_per_group tiny_sb = 8" "blocks_base tiny_sb = 0" "blocks_end tiny_sb = 8"
  "inodes_per_group tiny_sb = 2" "inode_size tiny_sb = 128" "lba_from_bgid_index tiny_sb 0 i = i"
  "bgid_into_lba_index 1024 tiny_sb 0 = (1, 0)" "ino_into_bgid_index tiny_sb (Suc 0) = Inr (0, 0)"
  "the_group tiny_fs 0 = tiny_group"
  by (simp_all add: tiny_sb_def demo_sb_def blocks_base_def blocks_end_def lba_from_bgid_index_def bgid_into_lba_index_def
      get_descriptor_block_def trunc_def contains_flag_def META_BG_def ino_into_bgid_index_def sub_nat_def tiny_fs_def the_group_def Let_def)

lemma tiny_fs_simps [simp]:
  "fs_sb tiny_fs = tiny_sb" "blk_size tiny_fs = 1024" "allocator tiny_fs = tiny_buddy" "bitmap_lba tiny_fs 0 = 2"
  "table_lba tiny_fs 0 = 4" "blocks tiny_fs = [1 \<mapsto> tiny_desc, 2 \<mapsto> [0x7F], 4 \<mapsto> replicate 128 0]"
  "block_groups tiny_fs = [Some tiny_group]" "conf_wr tiny_fs p b d = Inr d"
  by (simp_all add: tiny_fs_def bitmap_lba_def table_lba_def the_group_def tiny_group_def)

lemma tiny_sound: "alloc_sound tiny_fs"
proof -
  have gl: "groups_loaded tiny_fs" by (simp add: groups_loaded_def tiny_simps tiny_group_def)
  then have ok: "bitmaps_ok tiny_fs" by (simp add: bitmaps_ok_def tiny_simps lessThan_Suc)
  have wf: "buddy_wf tiny_buddy" by (auto simp: buddy_wf_def tiny_buddy_def)
  have "\<not> bit_at [0x7F] 7" by code_simp
  then have u: "7 \<notin> used_blocks tiny_fs" by (auto simp: used_blocks_def tiny_simps)
  have "bitmaps_apart tiny_fs" by (simp add: bitmaps_apart_def off_bitmaps_def tiny_simps)
  with ok wf u show ?thesis by (simp add: alloc_sound_def tiny_simps tiny_free)
qed

lemma tiny_desc_update:
  obtains d where "descriptor_update tiny_sb 0 (add_free_blocks (-1) bg_delta_default) tiny_desc = Inr d" "length d = 32"
proof -
  have "(case descriptor_update tiny_sb 0 (add_free_blocks (-1) bg_delta_default) tiny_desc of Inr d \<Rightarrow> length d = 32 | Inl _ \<Rightarrow> False)"
    by code_simp
  with that show thesis by (auto split: sum.splits)
qed

lemma tiny_inode_update:
  obtains d where "add_set_block 1024 tiny_sb 1 (replicate 128 0) = Inr d" "length d = 128"
proof -
  have "(case add_set_block 1024 tiny_sb 1 (replicate 128 0) of Inr d \<Rightarrow> length d = 128 | Inl _ \<Rightarrow> False)"
    by code_simp
  with that show thesis by (auto split: sum.splits)
qed

lemma tiny_bitmap: "wb_set_bitmap 7 1 [0x7F] = Inr [0xFF]"
  by code_simp

lemma tiny_compress:
  assumes "blocks fs = blocks tiny_fs" and "fs_sb fs = tiny_sb"
  shows "compress [BlockAllocationOnBg 1 0 2 7 1] (writeback_group_new, fs, col, []) =
    Inr (\<lparr>bg_deltas = [0 \<mapsto> add_free_blocks (-1) bg_delta_default],
      wb_sb_delta = Some (sb_add_free_blocks (-1) sb_delta_default), inode_ops = [OpSetBlock 1 1]\<rparr>,
      fs\<lparr>blocks := (blocks tiny_fs)(2 \<mapsto> [0xFF])\<rparr>, track 2 col, [])"
proof -
  have "fs_modify_block 2 (wb_set_bitmap 7 1) (fs, col) = Inr (fs\<lparr>blocks := (blocks tiny_fs)(2 \<mapsto> [0xFF])\<rparr>, track 2 col)"
    using fs_modify_cached [of fs 2 "[0x7F]" "wb_set_bitmap 7 1" col] tiny_bitmap assms by simp
  then show ?thesis
    by (simp add: compress_counts_def compress_bitmap_def postlude_of_def writeback_group_new_def upd_sb_delta_def
        upd_bg_delta_def push_op_def bg_delta_of_def sb_delta_of_def)
qed

lemma tiny_sb_update:
  fixes fs :: "'d fs"
  assumes "blk_size fs = 1024" and "fs_sb fs = tiny_sb"
  obtains man where "submit_sb (Some (sb_add_free_blocks (-1) sb_delta_default)) ((fs, col), False) =
    Inr (fs\<lparr>fs_sb := (fs_sb fs)\<lparr>manipulator := man\<rparr>\<rparr>, set_sb_dirty col)"
proof -
  let ?f = "\<lambda>v. rbind (adjust (\<lambda>v. read_u32 v 0x10) (write_u32 0x10) 0 v) (\<lambda>v. rbind (is_feature_incompat64 v) (\<lambda>hi.
    rbind (compound_u64_get 0xC 0x158 hi v) (\<lambda>c. rbind (to_u64 (sint c + - 1)) (\<lambda>c. compound_u64_set 0xC 0x158 hi c v))))"
  have "case ?f (manipulator tiny_sb) of Inr man \<Rightarrow> True | Inl _ \<Rightarrow> False" by code_simp
  then obtain man where "?f (manipulator tiny_sb) = Inr man" by (auto split: sum.splits)
  then show thesis using that [of man] assms
    by (simp add: submit_sb_def modify_sb_def sb_modify_def sb_add_free_blocks_def sb_delta_default_def)
qed

lemma tiny_flush:
  assumes b: "blocks fs = (blocks tiny_fs)(2 \<mapsto> [0xFF])" and fs: "fs_sb fs = tiny_sb" "blk_size fs = 1024"
    "block_groups fs = [Some bg]" "inode_table_first_block bg = 4"
  obtains fs' col' where "wb_flush \<lparr>bg_deltas = [0 \<mapsto> add_free_blocks (-1) bg_delta_default],
      wb_sb_delta = Some (sb_add_free_blocks (-1) sb_delta_default), inode_ops = [OpSetBlock 1 1]\<rparr> (fs, col) = Inr (fs', col')"
    "conf_wr fs' = conf_wr fs" "modifications col' = modifications col \<union> {1, 4}" "{1, 2, 4} \<subseteq> dom (blocks fs')"
proof -
  obtain d where d: "descriptor_update tiny_sb 0 (add_free_blocks (-1) bg_delta_default) tiny_desc = Inr d" by (rule tiny_desc_update)
  obtain i where i: "add_set_block 1024 tiny_sb 1 (replicate 128 0) = Inr i" by (rule tiny_inode_update)
  let ?fs1 = "fs\<lparr>blocks := (blocks fs)(1 \<mapsto> splice tiny_desc 0 d)\<rparr>"
  let ?fs2 = "?fs1\<lparr>blocks := (blocks ?fs1)(4 \<mapsto> splice (replicate 128 0) 0 i)\<rparr>"
  have sz: "block_desc_size tiny_sb = 32" by (simp add: tiny_sb_def)
  have "fs_modify_block 1 (on_slice 0 32 (descriptor_update tiny_sb 0 (add_free_blocks (-1) bg_delta_default))) (fs, col) = Inr (?fs1, track 1 col)"
    using fs_modify_cached [of fs 1 tiny_desc _ col] d b by (simp add: on_slice_def tiny_desc_def)
  then have 1: "submit_block_group 0 (add_free_blocks (-1) bg_delta_default) (fs, col) = Inr (?fs1, track 1 col)"
    using fs tiny_simps(8) sz by (simp add: submit_block_group_def add_free_blocks_def bg_delta_default_def)
  have "fs_modify_block 4 (on_slice 0 128 (add_set_block 1024 tiny_sb 1)) (?fs1, track 1 col) = Inr (?fs2, track 4 (track 1 col))"
    using fs_modify_cached [of ?fs1 4 "replicate 128 0" _ "track 1 col"] i b by (simp add: on_slice_def)
  moreover have "get_inode 1 ?fs1 = Inr ((4, 0), ?fs1)"
    using fs by (simp add: get_inode_def tiny_simps get_block_group_def Let_def)
  ultimately have 2: "submit_inode_op (OpSetBlock 1 1) ((?fs1, track 1 col), False) = Inr ((?fs2, track 4 (track 1 col)), False)"
    using fs by (simp add: submit_inode_op_def modify_inode_def tiny_simps Let_def)
  obtain man where 3: "submit_sb (Some (sb_add_free_blocks (-1) sb_delta_default)) ((?fs2, track 4 (track 1 col)), False) =
      Inr (?fs2\<lparr>fs_sb := (fs_sb ?fs2)\<lparr>manipulator := man\<rparr>\<rparr>, set_sb_dirty (track 4 (track 1 col)))"
    using tiny_sb_update [of ?fs2] fs by auto
  show thesis
  proof (rule that)
    show "wb_flush \<lparr>bg_deltas = [0 \<mapsto> add_free_blocks (-1) bg_delta_default],
      wb_sb_delta = Some (sb_add_free_blocks (-1) sb_delta_default), inode_ops = [OpSetBlock 1 1]\<rparr> (fs, col) =
      Inr (?fs2\<lparr>fs_sb := (fs_sb ?fs2)\<lparr>manipulator := man\<rparr>\<rparr>, set_sb_dirty (track 4 (track 1 col)))"
      using 1 2 3 by (simp add: wb_flush_def bg_delta_of_def)
  qed (auto simp: track_def set_sb_dirty_def b)
qed

lemma writes_succeed:
  assumes "\<And>p b d. wr p b d = Inr d" and "set l \<subseteq> dom bc"
  shows "collector_io wr n l dirty man bc d = Inr d"
proof -
  from assms(2) have "\<exists>r. io_requests n l bc = Inr r" by (induction l) (auto simp: get_io_request_def)
  moreover have "write_bios wr bio d = Inr d" for bio
    unfolding write_bios_def by (induction bio) (auto simp: assms(1))
  ultimately show ?thesis by (auto simp: collector_io_def collector_bio_def)
qed

lemma transaction_keeps_alloc_sound_witness:
  "\<exists>t (fs :: unit fs) fs'. tx_events t = [BlockAllocationOnBg 1 0 2 7 1] \<and> tx_done t fs = Inr fs' \<and> alloc_sound fs' \<and>
    used_blocks fs' = used_blocks tiny_fs \<union> {7}"
proof -
  have S: "groups_loaded tiny_fs" "buddy_wf (allocator tiny_fs)"
    "free (allocator tiny_fs) \<subseteq> {blocks_base (fs_sb tiny_fs)..<blocks_end (fs_sb tiny_fs)}"
    using tiny_sound by (simp_all add: alloc_sound_def bitmaps_ok_def)
  let ?e = "BlockAllocationOnBg 1 0 2 7 1"
  obtain fs where al: "fs_allocate 1 1 0 (tiny_fs, open_transaction) = Inr ((7, 1), fs, push_event ?e open_transaction)"
    and fs: "fs = set_block_group 0 (bg_dec_free_blocks 1 tiny_group) (tiny_fs\<lparr>allocator := allocator fs\<rparr>)"
  proof -
    have r: "{p..<p + m} \<subseteq> {7::nat} \<Longrightarrow> 0 < m \<Longrightarrow> p = 7 \<and> m = 1" for p m
    proof -
      assume a: "{p..<p + m} \<subseteq> {7::nat}" "0 < m"
      then have "p \<in> {p..<p + m}" by simp
      with a(1) have "p = 7" by blast
      moreover have "m < 2"
      proof (rule ccontr)
        assume "\<not> m < 2"
        then have "p + 1 \<in> {p..<p + m}" by simp
        with a(1) have "p + 1 \<in> {7}" by blast
        with \<open>p = 7\<close> show False by simp
      qed
      ultimately show ?thesis using a(2) by simp
    qed
    from fs_allocate_run [OF S, of 1 1 0 open_transaction] that show thesis
      by (auto simp: tiny_free tiny_simps tiny_group_def dest!: r)
  qed
  have b: "blocks fs = blocks tiny_fs" "fs_sb fs = tiny_sb" "blk_size fs = 1024" "conf_wr fs = conf_wr tiny_fs"
    "block_groups fs = [Some (bg_dec_free_blocks 1 tiny_group)]"
    by (subst fs, simp add: set_block_group_def)+
  have "inode_table_first_block (bg_dec_free_blocks 1 tiny_group) = 4" by (simp add: bg_dec_free_blocks_def tiny_group_def)
  then obtain fs2 col2 where f: "wb_flush \<lparr>bg_deltas = [0 \<mapsto> add_free_blocks (-1) bg_delta_default],
      wb_sb_delta = Some (sb_add_free_blocks (-1) sb_delta_default), inode_ops = [OpSetBlock 1 1]\<rparr>
      (fs\<lparr>blocks := (blocks tiny_fs)(2 \<mapsto> [0xFF])\<rparr>, track 2 collector_default) = Inr (fs2, col2)"
    "conf_wr fs2 = conf_wr fs" "modifications col2 = modifications (track 2 collector_default) \<union> {1, 4}" "{1, 2, 4} \<subseteq> dom (blocks fs2)"
    using b by (elim tiny_flush [of "fs\<lparr>blocks := (blocks tiny_fs)(2 \<mapsto> [0xFF])\<rparr>" "bg_dec_free_blocks 1 tiny_group"
      "track 2 collector_default", rotated 4]) simp_all
  then have m: "modifications col2 = {1, 2, 4}" by (auto simp: track_def collector_default_def)
  let ?t = "push_event ?e open_transaction"
  have t: "tx_events ?t = [?e]" "tx_col ?t = collector_default" by (simp_all add: push_event_def open_transaction_def)
  have "collector_done col2 [] fs2 = Inr fs2"
    using writes_succeed [of "conf_wr fs2" "sorted_list_of_set (modifications col2)"] f(2,4) m b(4)
    by (simp add: collector_done_def)
  then have tx: "tx_done ?t fs = Inr fs2"
    unfolding tx_done_def t tiny_compress [OF b(1,2)] using f(1) by simp
  have "block_session tiny_fs fs ?t" by (rule sess_alloc [OF sess_open _ al]) simp
  from transaction_keeps_alloc_sound [OF tiny_sound this tx]
  have "alloc_sound fs2" "replay tiny_sb [?e] (used_blocks tiny_fs) = Some (used_blocks fs2)"
    unfolding t(1) by simp_all
  moreover have "set (ev_blocks tiny_sb ?e) = {7}" by (simp add: ev_blocks_def tiny_simps)
  ultimately have "used_blocks fs2 = used_blocks tiny_fs \<union> {7}"
    by (simp add: replay_step_def run_of_def bind_eq_Some_conv Let_def split: if_splits)
  with \<open>alloc_sound fs2\<close> tx t(1) show ?thesis by blast
qed

lemma compress_replays_log_witness:
  "\<exists>w' bc col'. compress [BlockAllocationOnBg 1 0 2 7 1, BlockDeallocationOnBg 1 0 2 7 1]
      (writeback_group_new, tiny_fs, collector_default, []) = Inr (w', tiny_fs\<lparr>blocks := bc\<rparr>, col', [PostBlockDeallocation 0 7 1]) \<and>
    used_blocks (tiny_fs\<lparr>blocks := bc\<rparr>) = used_blocks tiny_fs"
proof -
  let ?es = "[BlockAllocationOnBg 1 0 2 7 1, BlockDeallocationOnBg 1 0 2 7 1]"
  have S: "bitmaps_ok tiny_fs" "7 \<notin> used_blocks tiny_fs" using tiny_sound by (auto simp: alloc_sound_def tiny_free)
  have "set (ev_blocks tiny_sb (ev 1 0 2 7 1)) = {7}" if "ev = BlockAllocationOnBg \<or> ev = BlockDeallocationOnBg" for ev
    using that by (auto simp: ev_blocks_def tiny_simps)
  then have "replay tiny_sb ?es (used_blocks tiny_fs) = Some (used_blocks tiny_fs)"
    using S(2) by (simp add: replay_step_def run_of_def tiny_simps(2) Let_def)
  moreover have "list_all (event_on tiny_fs) ?es" by (simp add: event_on_def run_of_def tiny_simps(1) ex_bool_eq)
  ultimately show ?thesis
    using compress_replays_log [OF S(1), of ?es writeback_group_new collector_default "[]"]
    by (auto simp: postlude_of_def simp del: compress.simps)
qed

end
